(* ===== verification/Prelude.thy ===== *)
theory Prelude
  imports Main "HOL-Library.Word" "HOL-Library.Char_ord" "HOL-Library.List_Lexorder"
begin

section \<open>Prelude: what every component shares\<close>

text \<open>
  The vocabulary of the model and the generic lemmas about it.

  \<^item> A Go \<open>string\<close> and a Go \<open>[]byte\<close> are both byte sequences: they are \<open>string\<close>, since a
    HOL \<open>char\<close> is exactly one byte.
  \<^item> \<open>uint64\<close> counters (versions, attempts, nonces, sequence numbers) are \<open>64 word\<close>: \<open>+\<close> wraps
    as in Go.
  \<^item> \<open>*big.Int\<close> is \<open>int\<close>, or \<open>int option\<close> where the code tests for \<open>nil\<close>.
  \<^item> \<open>time.Time\<close> is \<open>int\<close>, nanoseconds since Go's zero time, so the zero time is \<open>0\<close>; a
    \<open>time.Duration\<close> is an \<open>int\<close> with the wrap-around of \<open>int64\<close> written out where the code can
    reach it, and \<open>Time.Sub\<close> saturates.
  \<^item> SHA-256 and the RFC 3339 printer of the standard library are the two fields of a
    \<open>platform\<close>: every theorem holds whatever these functions are, and where the code relies on
    collision resistance the theorem exhibits the collision instead of assuming there is none.
  \<^item> A fallible operation returns \<open>error + value\<close>.

  Decimal printing, the unsigned varint and the length prefix are modelled in full, with the
  injectivity lemmas that the commitment and the hash chain rest on.
\<close>

subsection \<open>Collections of facts\<close>

named_theorems model_defs \<open>definitions of small operations, unfolded on sight\<close>
named_theorems inv_intros \<open>invariant preservation, one fact per operation\<close>
named_theorems frame_simps \<open>what an operation leaves unchanged\<close>

subsection \<open>Types\<close>

type_synonym u64 = "64 word"
type_synonym bytes = string
type_synonym time = int
type_synonym duration = int

record platform =
  sha256 :: "bytes \<Rightarrow> bytes"
  rfc3339nano :: "time \<Rightarrow> string"

definition second :: duration where
  "second = 1000000000"

definition minute :: duration where
  "minute = 60 * second"

definition wrap_int64 :: "int \<Rightarrow> int" where
  "wrap_int64 x = (x + 2 ^ 63) mod 2 ^ 64 - 2 ^ 63"

definition time_sub :: "time \<Rightarrow> time \<Rightarrow> duration" where
  "time_sub t u = max (- (2 ^ 63)) (min (2 ^ 63 - 1) (t - u))"

definition time_add :: "time \<Rightarrow> duration \<Rightarrow> time" where
  "time_add t d = t + d"

lemma wrap_int64_id: "- (2 ^ 63) \<le> x \<Longrightarrow> x < 2 ^ 63 \<Longrightarrow> wrap_int64 x = x"
  by (simp add: wrap_int64_def)

lemma wrap_int64_range: "- (2 ^ 63) \<le> wrap_int64 x \<and> wrap_int64 x < 2 ^ 63"
proof -
  have "0 \<le> (x + 2 ^ 63) mod 2 ^ 64" and "(x + 2 ^ 63) mod 2 ^ 64 < (2 ^ 64 :: int)"
    by simp_all
  then show ?thesis by (simp add: wrap_int64_def)
qed

text \<open>A counter never meets its successor, even when it wraps: what compare-and-swap needs.\<close>

lemma word_succ_neq [simp]: "(v :: u64) + 1 \<noteq> v" "v \<noteq> v + 1"
  by simp_all

subsection \<open>Decimal printing and reading\<close>

definition digit_char :: "nat \<Rightarrow> char" where
  "digit_char d = char_of (48 + d)"

definition char_digit :: "char \<Rightarrow> nat" where
  "char_digit c = of_char c - 48"

definition is_digit :: "char \<Rightarrow> bool" where
  "is_digit c \<longleftrightarrow> 48 \<le> (of_char c :: nat) \<and> (of_char c :: nat) \<le> 57"

fun show_nat :: "nat \<Rightarrow> string" where
  "show_nat n = (if n < 10 then [digit_char n] else show_nat (n div 10) @ [digit_char (n mod 10)])"

declare show_nat.simps [simp del]

definition read_digits :: "string \<Rightarrow> nat" where
  "read_digits s = foldl (\<lambda>a c. 10 * a + char_digit c) 0 s"

definition show_int :: "int \<Rightarrow> string" where
  "show_int i = (if i < 0 then CHR ''-'' # show_nat (nat (- i)) else show_nat (nat i))"

text \<open>\<open>big.Int.SetString(s, 10)\<close>: an optional sign, then one or more decimal digits.\<close>

definition parse_int :: "string \<Rightarrow> int option" where
  "parse_int s =
     (let neg = (s \<noteq> [] \<and> hd s = CHR ''-'');
          ds = (if s \<noteq> [] \<and> (hd s = CHR ''-'' \<or> hd s = CHR ''+'') then tl s else s)
      in if ds = [] \<or> \<not> list_all is_digit ds then None
         else Some (if neg then - int (read_digits ds) else int (read_digits ds)))"

lemma of_char_digit_char: "d < 10 \<Longrightarrow> of_char (digit_char d) = 48 + d"
  by (simp add: digit_char_def)

lemma char_digit_digit_char [simp]: "d < 10 \<Longrightarrow> char_digit (digit_char d) = d"
  by (simp add: char_digit_def of_char_digit_char)

lemma is_digit_digit_char [simp]: "d < 10 \<Longrightarrow> is_digit (digit_char d)"
  by (simp add: is_digit_def of_char_digit_char)

lemma digit_char_inj: "d < 10 \<Longrightarrow> e < 10 \<Longrightarrow> digit_char d = digit_char e \<Longrightarrow> d = e"
  by (metis char_digit_digit_char)

lemma read_digits_snoc [simp]: "read_digits (s @ [c]) = 10 * read_digits s + char_digit c"
  by (simp add: read_digits_def)

lemma read_digits_show_nat [simp]: "read_digits (show_nat n) = n"
proof (induction n rule: show_nat.induct)
  case (1 n)
  show ?case
  proof (cases "n < 10")
    case True
    then show ?thesis
      by (simp add: show_nat.simps [of n] read_digits_def)
  next
    case False
    with 1 show ?thesis
      by (simp add: show_nat.simps [of n])
  qed
qed

lemma show_nat_inj [simp]: "show_nat m = show_nat n \<longleftrightarrow> m = n"
  by (metis read_digits_show_nat)

lemma show_nat_not_Nil [simp]: "show_nat n \<noteq> []" "[] \<noteq> show_nat n"
  by (simp_all add: show_nat.simps [of n])

lemma show_nat_digits: "list_all is_digit (show_nat n)"
proof (induction n rule: show_nat.induct)
  case (1 n)
  then show ?case
    by (cases "n < 10") (simp_all add: show_nat.simps [of n])
qed

lemma hd_show_nat_digit: "is_digit (hd (show_nat n))"
  using show_nat_digits [of n] by (cases "show_nat n") simp_all

lemma not_digit_signs [simp]: "\<not> is_digit CHR ''-''" "\<not> is_digit CHR ''+''" "\<not> is_digit CHR ''#''"
  by (simp_all add: is_digit_def)

lemma parse_show_int [simp]: "parse_int (show_int i) = Some i"
proof (cases "i < 0")
  case True
  then show ?thesis
    by (simp add: show_int_def parse_int_def Let_def show_nat_digits)
next
  case False
  have "hd (show_nat (nat i)) \<noteq> CHR ''-''" and "hd (show_nat (nat i)) \<noteq> CHR ''+''"
    using hd_show_nat_digit [of "nat i"] by auto
  with False show ?thesis
    by (simp add: show_int_def parse_int_def Let_def show_nat_digits)
qed

lemma show_int_inj [simp]: "show_int i = show_int j \<longleftrightarrow> i = j"
  by (metis option.inject parse_show_int)

lemma show_int_not_Nil [simp]: "show_int i \<noteq> []"
  by (simp add: show_int_def)

text \<open>
  A name, a separator that no digit equals, and a number: such keys (the queue's receipts) are
  equal only when both parts are.
\<close>

lemma digits_suffix_inj:
  assumes eq: "xs @ c # ds = ys @ c # es"
    and c: "\<not> is_digit c" and ds: "list_all is_digit ds" and es: "list_all is_digit es"
  shows "xs = ys \<and> ds = es"
proof -
  have tw: "takeWhile is_digit (rev (as @ c # bs)) = rev bs" if "list_all is_digit bs" for as bs
    using that c by (simp add: takeWhile_append list_all_iff)
  have "rev ds = rev es"
    using tw [OF ds, of xs] tw [OF es, of ys] eq by simp
  with eq show ?thesis by simp
qed

subsection \<open>Varints and length prefixes\<close>

text \<open>\<open>binary.AppendUvarint\<close>: seven bits per byte, low group first, the top bit says more follow.\<close>

fun uvarint :: "nat \<Rightarrow> bytes" where
  "uvarint n = (if n < 128 then [char_of n] else char_of (n mod 128 + 128) # uvarint (n div 128))"

declare uvarint.simps [simp del]

text \<open>The \<open>put\<close> of both preimages: the length of a field, then the field.\<close>

definition put_field :: "string \<Rightarrow> bytes" where
  "put_field s = uvarint (length s) @ s"

lemma of_char_char_of_nat: "n < 256 \<Longrightarrow> (of_char (char_of n) :: nat) = n"
  by simp

lemma uvarint_prefix_free:
  "uvarint m @ xs = uvarint n @ ys \<Longrightarrow> m = n \<and> xs = ys"
proof (induction m arbitrary: n xs ys rule: uvarint.induct)
  case (1 m)
  note eq = "1.prems"
  consider (ss) "m < 128" "n < 128" | (sl) "m < 128" "\<not> n < 128"
    | (ls) "\<not> m < 128" "n < 128" | (ll) "\<not> m < 128" "\<not> n < 128" by blast
  then show ?case
  proof cases
    case ss
    then have "char_of m = (char_of n :: char)" and xs: "xs = ys"
      using eq by (simp_all add: uvarint.simps [of m] uvarint.simps [of n])
    then have "(of_char (char_of m :: char) :: nat) = of_char (char_of n :: char)" by simp
    with ss xs show ?thesis by simp
  next
    case sl
    then have "(of_char (char_of m :: char) :: nat) = of_char (char_of (n mod 128 + 128) :: char)"
      using eq by (simp add: uvarint.simps [of m] uvarint.simps [of n])
    with sl show ?thesis by simp
  next
    case ls
    then have "(of_char (char_of n :: char) :: nat) = of_char (char_of (m mod 128 + 128) :: char)"
      using eq by (simp add: uvarint.simps [of m] uvarint.simps [of n])
    with ls show ?thesis by simp
  next
    case ll
    then have c: "char_of (m mod 128 + 128) = (char_of (n mod 128 + 128) :: char)"
      and r: "uvarint (m div 128) @ xs = uvarint (n div 128) @ ys"
      using eq by (simp_all add: uvarint.simps [of m] uvarint.simps [of n])
    from c have "(of_char (char_of (m mod 128 + 128) :: char) :: nat) = of_char (char_of (n mod 128 + 128) :: char)"
      by simp
    then have "m mod 128 = n mod 128" by simp
    moreover from "1.IH" [OF ll(1) r] have "m div 128 = n div 128" "xs = ys" by simp_all
    ultimately show ?thesis by (metis div_mult_mod_eq)
  qed
qed

lemma put_field_prefix_free:
  assumes "put_field s @ xs = put_field t @ ys"
  shows "s = t \<and> xs = ys"
proof -
  from assms have "uvarint (length s) @ (s @ xs) = uvarint (length t) @ (t @ ys)"
    by (simp add: put_field_def)
  then have "length s = length t" "s @ xs = t @ ys"
    using uvarint_prefix_free by blast+
  then show ?thesis by simp
qed

lemma uvarint_append_inj [simp]: "uvarint m @ xs = uvarint n @ ys \<longleftrightarrow> m = n \<and> xs = ys"
  using uvarint_prefix_free by blast

lemma put_field_append_inj [simp]: "put_field s @ xs = put_field t @ ys \<longleftrightarrow> s = t \<and> xs = ys"
  using put_field_prefix_free by blast

lemma put_field_inj [simp]: "put_field s = put_field t \<longleftrightarrow> s = t"
  using put_field_append_inj [of s "[]" t "[]"] by simp

lemma hd_show_nat_pos: "0 < n \<Longrightarrow> hd (show_nat n) \<noteq> CHR ''0''"
proof (induction n rule: show_nat.induct)
  case (1 n)
  show ?case
  proof (cases "n < 10")
    case True
    then have "digit_char n \<noteq> digit_char 0" using digit_char_inj [of n 0] "1.prems" by auto
    moreover have "digit_char 0 = CHR ''0''" by code_simp
    ultimately show ?thesis using True by (simp add: show_nat.simps [of n])
  next
    case False
    with 1 show ?thesis by (simp add: show_nat.simps [of n])
  qed
qed

text \<open>Pieces of one size.\<close>

lemma length_concat_sized: "\<forall>x \<in> set xs. length x = k \<Longrightarrow> length (concat xs) = k * length xs"
  by (induction xs) auto

text \<open>\<open>strings.Join\<close>.\<close>

fun join_with :: "string \<Rightarrow> string list \<Rightarrow> string" where
  "join_with sep [] = []"
| "join_with sep [s] = s"
| "join_with sep (s # ss) = s @ sep @ join_with sep ss"

subsection \<open>Hexadecimal\<close>

definition hex_digit :: "nat \<Rightarrow> char" where
  "hex_digit d = (if d < 10 then char_of (48 + d) else char_of (87 + d))"

definition hex_value :: "char \<Rightarrow> nat option" where
  "hex_value c =
     (let n = of_char c in
      if 48 \<le> n \<and> n \<le> 57 then Some (n - 48)
      else if 97 \<le> n \<and> n \<le> 102 then Some (n - 87)
      else if 65 \<le> n \<and> n \<le> 70 then Some (n - 55)
      else None)"

definition hex_encode :: "bytes \<Rightarrow> string" where
  "hex_encode b = concat (map (\<lambda>c. [hex_digit (of_char c div 16), hex_digit (of_char c mod 16)]) b)"

fun hex_decode :: "string \<Rightarrow> bytes option" where
  "hex_decode [] = Some []"
| "hex_decode [_] = None"
| "hex_decode (a # b # s) =
     (case (hex_value a, hex_value b, hex_decode s) of
        (Some h, Some l, Some r) \<Rightarrow> Some (char_of (16 * h + l) # r)
      | _ \<Rightarrow> None)"

lemma hex_value_hex_digit [simp]: "d < 16 \<Longrightarrow> hex_value (hex_digit d) = Some d"
  by (simp add: hex_value_def hex_digit_def Let_def)

lemma hex_value_bound: "hex_value c = Some d \<Longrightarrow> d < 16"
  by (auto simp: hex_value_def Let_def split: if_splits)

lemma of_char_lt_256: "(of_char (c :: char) :: nat) < 256"
  by simp

lemma hex_decode_encode [simp]: "hex_decode (hex_encode b) = Some b"
proof (induction b)
  case Nil
  then show ?case by (simp add: hex_encode_def)
next
  case (Cons c b)
  have "(of_char c :: nat) div 16 < 16"
    using of_char_lt_256 [of c] by linarith
  moreover have "char_of (16 * ((of_char c :: nat) div 16) + (of_char c :: nat) mod 16) = c"
    by (simp add: mult_div_mod_eq)
  ultimately show ?case
    using Cons by (simp add: hex_encode_def)
qed

lemma length_hex_encode [simp]: "length (hex_encode b) = 2 * length b"
  by (induction b) (simp_all add: hex_encode_def)

lemma hex_decode_length: "hex_decode s = Some b \<Longrightarrow> length s = 2 * length b"
  by (induction s arbitrary: b rule: hex_decode.induct) (auto split: option.splits)

subsection \<open>Printing durations\<close>

text \<open>
  \<open>time.Duration.String\<close>: the largest unit that leaves a non-zero leading digit, fractions without
  trailing zeros, hours and minutes in front of the seconds. The micro sign is the two bytes of its
  UTF-8 encoding.
\<close>

definition frac_text :: "nat \<Rightarrow> nat \<Rightarrow> string" where
  "frac_text prec r =
     (let ds = replicate (prec - length (show_nat r)) CHR ''0'' @ show_nat r;
          cut = rev (dropWhile (\<lambda>c. c = CHR ''0'') (rev ds))
      in if cut = [] then [] else CHR ''.'' # cut)"

definition show_duration :: "duration \<Rightarrow> string" where
  "show_duration d =
     (let u = nat \<bar>d\<bar>;
          body =
            (if u = 0 then ''0s''
             else if u < 1000 then show_nat u @ ''ns''
             else if u < 1000000 then show_nat (u div 1000) @ frac_text 3 (u mod 1000) @ [CHR 0xC2, CHR 0xB5, CHR ''s'']
             else if u < 1000000000 then show_nat (u div 1000000) @ frac_text 6 (u mod 1000000) @ ''ms''
             else
               (let secs = u div 1000000000;
                    mins = secs div 60;
                    hours = mins div 60;
                    tail = show_nat (secs mod 60) @ frac_text 9 (u mod 1000000000) @ ''s''
                in if mins = 0 then tail
                   else if hours = 0 then show_nat (mins mod 60) @ ''m'' @ tail
                   else show_nat hours @ ''h'' @ show_nat (mins mod 60) @ ''m'' @ tail))
      in if d < 0 then CHR ''-'' # body else body)"

text \<open>\<open>fmt\<close>'s \<open>%-ns\<close>: pad on the right, never cut. \<open>strings.TrimRight(s, " ")\<close>.\<close>

definition pad_right :: "nat \<Rightarrow> string \<Rightarrow> string" where
  "pad_right n s = s @ replicate (n - length s) CHR '' ''"

definition trim_right :: "string \<Rightarrow> string" where
  "trim_right s = rev (dropWhile (\<lambda>c. c = CHR '' '') (rev s))"

text \<open>A small platform for the worked examples: a constant hash, so that they compute.\<close>

definition demo_platform :: platform where
  "demo_platform = \<lparr>sha256 = (\<lambda>_. replicate 32 (CHR 0x01)), rfc3339nano = show_int\<rparr>"

subsection \<open>Searching and cutting\<close>

lemma find_Some_iff_in: "find P xs = Some x \<Longrightarrow> x \<in> set xs \<and> P x"
  by (induction xs) (auto split: if_splits)

lemma find_None_all: "find P xs = None \<longleftrightarrow> (\<forall>x \<in> set xs. \<not> P x)"
  by (induction xs) auto

text \<open>\<open>strings.Cut(s, sep)\<close> on a one-character separator: what stands before the first one.\<close>

definition cut_before :: "char \<Rightarrow> string \<Rightarrow> string" where
  "cut_before c s = takeWhile (\<lambda>x. x \<noteq> c) s"


end
