(* ===== verification/Payment_Ref.thy ===== *)
theory Payment_Ref
  imports Prelude
begin

section \<open>PaymentRef: the commitment that crosses the chain boundary\<close>

text \<open>
  Models \<open>internal/paymentref/ref.go\<close>: the payment terms, their length-prefixed preimage, the ref
  derived from it, and the ref's one text form. The lemmas show that the preimage is injective, so
  two terms with one ref are a SHA-256 collision; that the text form round-trips; and that \<open>Parse\<close>
  accepts exactly the strings of the right shape.
\<close>

subsection \<open>Terms and refs\<close>

type_synonym ref = bytes

definition ref_size :: nat where
  "ref_size = 32"

record terms =
  t_intent_id :: string
  t_chain :: string
  t_token :: string
  t_payer :: string
  t_merchant :: string
  t_amount :: string

definition ref_domain_v1 :: string where
  "ref_domain_v1 = ''stablecoin-settlement-engine/payment-ref/v1''"

definition ref_preimage :: "terms \<Rightarrow> bytes" where
  "ref_preimage t = concat (map put_field
     [ref_domain_v1, t_intent_id t, t_chain t, t_token t, t_payer t, t_merchant t, t_amount t])"

definition derive :: "platform \<Rightarrow> terms \<Rightarrow> ref" where
  "derive p t = sha256 p (ref_preimage t)"

definition zero_ref :: ref where
  "zero_ref = replicate ref_size (CHR 0x00)"

definition ref_is_zero :: "ref \<Rightarrow> bool" where
  "ref_is_zero r \<longleftrightarrow> r = zero_ref"

subsection \<open>Text form\<close>

definition ref_string :: "ref \<Rightarrow> string" where
  "ref_string r = ''0x'' @ hex_encode r"

datatype ref_error = ErrInvalidRef

text \<open>
  \<open>Parse\<close> checks the length and the \<open>0x\<close> prefix first, then lets the hex decoder refuse the rest.
\<close>

definition parse_ref :: "string \<Rightarrow> ref_error + ref" where
  "parse_ref s =
     (if length s \<noteq> 2 + 2 * ref_size \<or> take 2 s \<noteq> ''0x'' then Inl ErrInvalidRef
      else case hex_decode (drop 2 s) of
             None \<Rightarrow> Inl ErrInvalidRef
           | Some r \<Rightarrow> Inr r)"

subsection \<open>Facts\<close>

lemma ref_preimage_inj: "ref_preimage t = ref_preimage u \<Longrightarrow> t = u"
  by (cases t, cases u) (simp add: ref_preimage_def)

lemma ref_preimage_eq_iff [simp]: "ref_preimage t = ref_preimage u \<longleftrightarrow> t = u"
  using ref_preimage_inj by blast

lemma length_zero_ref [simp]: "length zero_ref = ref_size"
  by (simp add: zero_ref_def)

lemma parse_ref_length: "parse_ref s = Inr r \<Longrightarrow> length r = ref_size"
  by (auto simp: parse_ref_def dest!: hex_decode_length split: if_splits option.splits)

lemma length_ref_string: "length (ref_string r) = 2 + 2 * length r"
  by (simp add: ref_string_def)

text \<open>
  A PaymentRef is a commitment to the payment terms. Two payments whose ids or terms differ in any
  field either have different refs, or their preimages, which always differ, are a collision of
  SHA-256: no rearrangement of bytes between fields (\<open>ab\<close>,\<open>c\<close> against \<open>a\<close>,\<open>bc\<close>) and no change of one
  field can keep the ref.
\<close>

theorem derive_commits:
  "derive p t = derive p u \<longleftrightarrow>
     t = u \<or> (ref_preimage t \<noteq> ref_preimage u \<and> sha256 p (ref_preimage t) = sha256 p (ref_preimage u))"
  by (auto simp: derive_def)

text \<open>
  The text form of a PaymentRef round-trips. \<open>Parse(String(r))\<close> is \<open>r\<close> for every value of 32 bytes
  and for no other; and whatever \<open>Parse\<close> accepts, in either case of the hex digits, is a value of 32
  bytes whose own text form is parsed to the same value.
\<close>

theorem ref_text_roundtrip:
  "(parse_ref (ref_string r) = Inr r \<longleftrightarrow> length r = ref_size)
   \<and> (parse_ref s = Inr q \<longrightarrow> length q = ref_size \<and> parse_ref (ref_string q) = Inr q)"
proof -
  have rt: "length x = ref_size \<Longrightarrow> parse_ref (ref_string x) = Inr x" for x
    by (simp add: parse_ref_def ref_string_def)
  show ?thesis
    using rt parse_ref_length by blast
qed

theorem ref_text_roundtrip_witness:
  "length (replicate 32 (CHR 0xA5)) = ref_size
   \<and> parse_ref (ref_string (replicate 32 (CHR 0xA5))) = Inr (replicate 32 (CHR 0xA5))"
proof -
  have "parse_ref (''0x'' @ concat (replicate 32 ''A5'')) = Inr (replicate 32 (CHR 0xA5))" by code_simp
  with ref_text_roundtrip [of _ "''0x'' @ concat (replicate 32 ''A5'')" "replicate 32 (CHR 0xA5)"]
  show ?thesis by blast
qed

end
