(* ===== verification/Intent.thy ===== *)
theory Intent
  imports Payment_Ref
begin

section \<open>The Payment Intent state machine\<close>

text \<open>
  Models \<open>internal/intent\<close> but for its store: the states, the actors, the transition table
  (\<open>state.go\<close>), the intent and its creation (\<open>intent.go\<close>), \<open>Apply\<close> and its guard
  (\<open>machine.go\<close>) and the printed table (\<open>table.go\<close>).

  A Go \<open>State\<close> is a string, so a request may name a state that is not on the table: the datatype
  has the eight states and \<open>StateOther\<close> for every other string. \<open>apply_request\<close> returns the new
  intent and the \<open>applied\<close> flag, or the error; in the Go an error leaves the intent untouched, here
  there is no new intent.

  The lemmas show what each accepted transition does to every field, that terminal states absorb,
  and, over every intent that \<open>New\<close> and any sequence of requests can produce (\<open>reachable_intent\<close>),
  the shape of its history, its version and its transaction hash.
\<close>

subsection \<open>States, actors and the transition table\<close>

datatype state =
    StateCreated | StateAuthorized | StateSettling | StateConfirming | StateNeedsReview
  | StateSettled | StateFailed | StateCanceled | StateOther string

fun state_name :: "state \<Rightarrow> string" where
  "state_name StateCreated = ''created''"
| "state_name StateAuthorized = ''authorized''"
| "state_name StateSettling = ''settling''"
| "state_name StateConfirming = ''confirming''"
| "state_name StateNeedsReview = ''needs_review''"
| "state_name StateSettled = ''settled''"
| "state_name StateFailed = ''failed''"
| "state_name StateCanceled = ''canceled''"
| "state_name (StateOther s) = s"

definition states :: "state list" where
  "states = [StateCreated, StateAuthorized, StateSettling, StateConfirming, StateNeedsReview,
             StateSettled, StateFailed, StateCanceled]"

definition terminal :: "state \<Rightarrow> bool" where
  "terminal s = (case s of StateSettled \<Rightarrow> True | StateFailed \<Rightarrow> True | StateCanceled \<Rightarrow> True | _ \<Rightarrow> False)"

definition state_valid :: "state \<Rightarrow> bool" where
  "state_valid s = list_ex (\<lambda>known. s = known) states"

datatype actor = ActorAPI | ActorRelayer | ActorListener | ActorOperator | ActorSystem | ActorOther string

fun actor_name :: "actor \<Rightarrow> string" where
  "actor_name ActorAPI = ''api''"
| "actor_name ActorRelayer = ''relayer''"
| "actor_name ActorListener = ''listener''"
| "actor_name ActorOperator = ''operator''"
| "actor_name ActorSystem = ''system''"
| "actor_name (ActorOther s) = s"

definition actors :: "actor list" where
  "actors = [ActorAPI, ActorRelayer, ActorListener, ActorOperator, ActorSystem]"

record rule =
  rule_from :: state
  rule_to :: state
  rule_by :: "actor list"
  needs_tx_hash :: bool
  needs_reason :: bool

definition rules :: "rule list" where
  "rules = [
     \<lparr>rule_from = StateCreated, rule_to = StateAuthorized, rule_by = [ActorAPI],
      needs_tx_hash = False, needs_reason = False\<rparr>,
     \<lparr>rule_from = StateCreated, rule_to = StateCanceled, rule_by = [ActorAPI, ActorOperator, ActorSystem],
      needs_tx_hash = False, needs_reason = True\<rparr>,
     \<lparr>rule_from = StateAuthorized, rule_to = StateSettling, rule_by = [ActorRelayer],
      needs_tx_hash = False, needs_reason = False\<rparr>,
     \<lparr>rule_from = StateAuthorized, rule_to = StateCanceled, rule_by = [ActorAPI, ActorOperator],
      needs_tx_hash = False, needs_reason = True\<rparr>,
     \<lparr>rule_from = StateSettling, rule_to = StateConfirming, rule_by = [ActorRelayer, ActorListener],
      needs_tx_hash = True, needs_reason = False\<rparr>,
     \<lparr>rule_from = StateSettling, rule_to = StateFailed, rule_by = [ActorRelayer],
      needs_tx_hash = False, needs_reason = True\<rparr>,
     \<lparr>rule_from = StateSettling, rule_to = StateNeedsReview, rule_by = [ActorRelayer],
      needs_tx_hash = False, needs_reason = True\<rparr>,
     \<lparr>rule_from = StateConfirming, rule_to = StateSettled, rule_by = [ActorListener],
      needs_tx_hash = True, needs_reason = False\<rparr>,
     \<lparr>rule_from = StateConfirming, rule_to = StateSettling, rule_by = [ActorListener],
      needs_tx_hash = False, needs_reason = True\<rparr>,
     \<lparr>rule_from = StateConfirming, rule_to = StateNeedsReview, rule_by = [ActorListener],
      needs_tx_hash = False, needs_reason = True\<rparr>,
     \<lparr>rule_from = StateNeedsReview, rule_to = StateSettled, rule_by = [ActorOperator],
      needs_tx_hash = True, needs_reason = True\<rparr>,
     \<lparr>rule_from = StateNeedsReview, rule_to = StateFailed, rule_by = [ActorOperator],
      needs_tx_hash = False, needs_reason = True\<rparr>]"

definition lookup_rule :: "state \<Rightarrow> state \<Rightarrow> rule option" where
  "lookup_rule from to = find (\<lambda>r. rule_from r = from \<and> rule_to r = to) rules"

definition allows :: "rule \<Rightarrow> actor \<Rightarrow> bool" where
  "allows r by = list_ex (\<lambda>a. a = by) (rule_by r)"

text \<open>
  The lifecycle order of \<open>States()\<close>, by which a transition is \<open>forward\<close> or \<open>back\<close>; other strings
  come last, in string order.
\<close>

fun state_rank :: "state \<Rightarrow> nat" where
  "state_rank StateCreated = 0"
| "state_rank StateAuthorized = 1"
| "state_rank StateSettling = 2"
| "state_rank StateConfirming = 3"
| "state_rank StateNeedsReview = 4"
| "state_rank StateSettled = 5"
| "state_rank StateFailed = 6"
| "state_rank StateCanceled = 7"
| "state_rank (StateOther s) = 8"

lemma state_key_inj: "state_rank s = state_rank t \<Longrightarrow> state_name s = state_name t \<Longrightarrow> s = t"
  by (cases s; cases t) simp_all

instantiation state :: linorder
begin

definition less_eq_state :: "state \<Rightarrow> state \<Rightarrow> bool" where
  "less_eq_state s t \<longleftrightarrow> state_rank s < state_rank t \<or> (state_rank s = state_rank t \<and> state_name s \<le> state_name t)"

definition less_state :: "state \<Rightarrow> state \<Rightarrow> bool" where
  "less_state s t \<longleftrightarrow> s \<le> t \<and> \<not> t \<le> (s :: state)"

instance
proof
  fix x y z :: state
  show "x < y \<longleftrightarrow> x \<le> y \<and> \<not> y \<le> x" by (simp add: less_state_def)
  show "x \<le> x" by (simp add: less_eq_state_def)
  show "x \<le> y \<Longrightarrow> y \<le> z \<Longrightarrow> x \<le> z" by (auto simp: less_eq_state_def)
  show "x \<le> y \<Longrightarrow> y \<le> x \<Longrightarrow> x = y" by (auto simp: less_eq_state_def intro: state_key_inj)
  show "x \<le> y \<or> y \<le> x" by (auto simp: less_eq_state_def)
qed

end

subsection \<open>Intents\<close>

record transition =
  tr_from :: state
  tr_to :: state
  tr_by :: actor
  tr_at :: time
  tr_tx_hash :: string
  tr_reason :: string

definition transition_text :: "transition \<Rightarrow> string" where
  "transition_text t = trim_right
     (pad_right 12 (state_name (tr_from t)) @ '' -> '' @ pad_right 12 (state_name (tr_to t)) @ '' by '' @ pad_right 8 (actor_name (tr_by t)) @
      (if tr_tx_hash t \<noteq> '''' then ''  tx '' @ tr_tx_hash t else '''') @ (if tr_reason t \<noteq> '''' then ''  ('' @ tr_reason t @ '')'' else ''''))"

record intent =
  i_id :: string
  i_ref :: ref
  i_chain :: string
  i_token :: string
  i_payer :: string
  i_merchant :: string
  i_amount :: "int option"
  i_state :: state
  i_version :: u64
  i_tx_hash :: string
  i_created_at :: time
  i_updated_at :: time
  i_expires_at :: time
  i_history :: "transition list"

record spec =
  spec_id :: string
  spec_chain :: string
  spec_token :: string
  spec_payer :: string
  spec_merchant :: string
  spec_amount :: "int option"
  spec_expires_at :: time

datatype intent_error =
    ErrInvalidSpec string
  | ErrTerminal | ErrIllegalTransition | ErrForbiddenActor | ErrMissingEvidence
  | ErrEvidenceMismatch | ErrExpired | ErrUnknownState
  | ErrIntentNotFound | ErrVersionConflict | ErrRefMismatch

definition intent_terms :: "intent \<Rightarrow> terms" where
  "intent_terms it =
     \<lparr>t_intent_id = i_id it, t_chain = i_chain it, t_token = i_token it, t_payer = i_payer it,
      t_merchant = i_merchant it,
      t_amount = (case i_amount it of None \<Rightarrow> '''' | Some a \<Rightarrow> show_int a)\<rparr>"

definition new_intent :: "platform \<Rightarrow> spec \<Rightarrow> time \<Rightarrow> intent_error + intent" where
  "new_intent p s now =
     (if spec_id s = '''' then Inl (ErrInvalidSpec ''id is required'')
      else if spec_chain s = '''' \<or> spec_token s = '''' \<or> spec_payer s = '''' \<or> spec_merchant s = ''''
        then Inl (ErrInvalidSpec ''chain, token, payer, merchant are required'')
      else case spec_amount s of
          None \<Rightarrow> Inl (ErrInvalidSpec ''amount must be positive'')
        | Some a \<Rightarrow>
            if a \<le> 0 then Inl (ErrInvalidSpec ''amount must be positive'')
            else if spec_expires_at s \<noteq> 0 \<and> \<not> spec_expires_at s > now
              then Inl (ErrInvalidSpec ''expiresAt must be in the future'')
            else
              let it = \<lparr>i_id = spec_id s, i_ref = zero_ref, i_chain = spec_chain s, i_token = spec_token s,
                        i_payer = spec_payer s, i_merchant = spec_merchant s, i_amount = Some a,
                        i_state = StateCreated, i_version = 1, i_tx_hash = '''',
                        i_created_at = now, i_updated_at = now, i_expires_at = spec_expires_at s,
                        i_history = []\<rparr>
              in Inr (it\<lparr>i_ref := derive p (intent_terms it)\<rparr>))"

subsection \<open>Apply\<close>

record request =
  req_to :: state
  req_by :: actor
  req_tx_hash :: string
  req_reason :: string
  req_at :: time

definition guard :: "intent \<Rightarrow> request \<Rightarrow> intent_error option" where
  "guard it req =
     (if i_state it = StateCreated \<and> req_to req = StateAuthorized then
        (if i_expires_at it \<noteq> 0 \<and> req_at req > i_expires_at it then Some ErrExpired else None)
      else if req_to req = StateSettled then
        (if i_tx_hash it \<noteq> '''' \<and> i_tx_hash it \<noteq> req_tx_hash req then Some ErrEvidenceMismatch else None)
      else None)"

definition commit :: "intent \<Rightarrow> request \<Rightarrow> intent" where
  "commit it req =
     it\<lparr>i_history := i_history it @
          [\<lparr>tr_from = i_state it, tr_to = req_to req, tr_by = req_by req, tr_at = req_at req,
            tr_tx_hash = req_tx_hash req, tr_reason = req_reason req\<rparr>],
        i_state := req_to req,
        i_version := i_version it + 1,
        i_updated_at := req_at req,
        i_tx_hash := (case req_to req of
            StateConfirming \<Rightarrow> req_tx_hash req
          | StateSettling \<Rightarrow> ''''
          | StateSettled \<Rightarrow> req_tx_hash req
          | _ \<Rightarrow> i_tx_hash it)\<rparr>"

definition apply_request :: "intent \<Rightarrow> request \<Rightarrow> intent_error + (intent \<times> bool)" where
  "apply_request it req =
     (if \<not> state_valid (req_to req) then Inl ErrUnknownState
      else if i_state it = req_to req then Inr (it, False)
      else if terminal (i_state it) then Inl ErrTerminal
      else case lookup_rule (i_state it) (req_to req) of
          None \<Rightarrow> Inl ErrIllegalTransition
        | Some r \<Rightarrow>
            if \<not> allows r (req_by req) then Inl ErrForbiddenActor
            else if needs_tx_hash r \<and> req_tx_hash req = '''' then Inl ErrMissingEvidence
            else if needs_reason r \<and> req_reason req = '''' then Inl ErrMissingEvidence
            else case guard it req of
                Some e \<Rightarrow> Inl e
              | None \<Rightarrow> Inr (commit it req, True))"

subsection \<open>The printed table\<close>

definition join_strings :: "string \<Rightarrow> string list \<Rightarrow> string" where
  "join_strings sep xs = (case xs of [] \<Rightarrow> '''' | x # r \<Rightarrow> concat (x # map (\<lambda>y. sep @ y) r))"

definition table_row :: "string \<Rightarrow> string \<Rightarrow> string \<Rightarrow> string \<Rightarrow> string" where
  "table_row a b c d =
     pad_right 13 a @ '' '' @ pad_right 13 b @ '' '' @ pad_right 24 c @ '' '' @ d @ [CHR 0x0A]"

definition rule_needs :: "rule \<Rightarrow> string list" where
  "rule_needs r =
     (let needs = (if needs_tx_hash r then [''tx_hash''] else []) @ (if needs_reason r then [''reason''] else [])
      in if needs = [] then [''-''] else needs)"

definition table :: "string" where
  "table =
     table_row ''FROM'' ''TO'' ''BY'' ''NEEDS'' @
     concat (map (\<lambda>r. table_row (state_name (rule_from r)) (state_name (rule_to r))
                        (join_strings '','' (map actor_name (rule_by r)))
                        (join_strings '','' (rule_needs r))) rules) @
     [CHR 0x0A] @ ''terminal: '' @
     join_strings '', '' (map state_name (filter terminal states)) @ [CHR 0x0A]"

subsection \<open>Facts about the table\<close>

lemma lookup_rule_Some:
  "lookup_rule from to = Some r \<Longrightarrow> r \<in> set rules \<and> rule_from r = from \<and> rule_to r = to"
  unfolding lookup_rule_def by (auto dest: find_Some_iff_in)

lemma allows_iff [simp]: "allows r by \<longleftrightarrow> by \<in> set (rule_by r)"
  by (auto simp: allows_def list_ex_iff)

lemma state_valid_iff: "state_valid s \<longleftrightarrow> (\<forall>x. s \<noteq> StateOther x)"
  by (cases s) (simp_all add: state_valid_def states_def)

lemma terminal_iff: "terminal s \<longleftrightarrow> s \<in> {StateSettled, StateFailed, StateCanceled}"
  by (cases s) (simp_all add: terminal_def)

text \<open>The table as a list of edges: what case analysis on a transition uses.\<close>

lemma rule_cases:
  assumes "r \<in> set rules"
  shows "(rule_from r, rule_to r) \<in>
     {(StateCreated, StateAuthorized), (StateCreated, StateCanceled),
      (StateAuthorized, StateSettling), (StateAuthorized, StateCanceled),
      (StateSettling, StateConfirming), (StateSettling, StateFailed), (StateSettling, StateNeedsReview),
      (StateConfirming, StateSettled), (StateConfirming, StateSettling), (StateConfirming, StateNeedsReview),
      (StateNeedsReview, StateSettled), (StateNeedsReview, StateFailed)}" (is "?P r")
proof -
  have "list_all ?P rules" by (simp add: rules_def)
  with assms show ?thesis by (simp only: list_all_iff)
qed

lemma rule_evidence:
  assumes "r \<in> set rules"
  shows "needs_tx_hash r \<longleftrightarrow> rule_to r = StateConfirming \<or> rule_to r = StateSettled"
    and "needs_reason r \<longleftrightarrow>
      \<not> (rule_to r = StateAuthorized \<or> (rule_from r = StateAuthorized \<and> rule_to r = StateSettling)
         \<or> rule_to r = StateConfirming \<or> (rule_from r = StateConfirming \<and> rule_to r = StateSettled))"
    (is "?Q r")
proof -
  let ?P = "\<lambda>r. needs_tx_hash r \<longleftrightarrow> rule_to r = StateConfirming \<or> rule_to r = StateSettled"
  have "list_all ?P rules" by (simp add: rules_def)
  with assms show "?P r" by (simp only: list_all_iff)
  have "list_all ?Q rules" by (simp add: rules_def)
  with assms show "?Q r" by (simp only: list_all_iff)
qed

lemma lookup_rule_complete:
  assumes "r \<in> set rules"
  shows "lookup_rule (rule_from r) (rule_to r) = Some r" (is "?P r")
proof -
  have "list_all ?P rules" by (simp add: rules_def lookup_rule_def)
  with assms show ?thesis by (simp only: list_all_iff)
qed

subsection \<open>Facts about Apply\<close>

lemma commit_simps [simp]:
  "i_id (commit it req) = i_id it" "i_ref (commit it req) = i_ref it"
  "i_chain (commit it req) = i_chain it" "i_token (commit it req) = i_token it"
  "i_payer (commit it req) = i_payer it" "i_merchant (commit it req) = i_merchant it"
  "i_amount (commit it req) = i_amount it" "i_state (commit it req) = req_to req"
  "i_version (commit it req) = i_version it + 1" "i_updated_at (commit it req) = req_at req"
  "i_created_at (commit it req) = i_created_at it" "i_expires_at (commit it req) = i_expires_at it"
  by (simp_all add: commit_def)

lemma intent_terms_commit [simp]: "intent_terms (commit it req) = intent_terms it"
  by (simp add: intent_terms_def)

lemma commit_history [simp]:
  "i_history (commit it req) = i_history it @
     [\<lparr>tr_from = i_state it, tr_to = req_to req, tr_by = req_by req, tr_at = req_at req,
       tr_tx_hash = req_tx_hash req, tr_reason = req_reason req\<rparr>]"
  by (simp add: commit_def)

lemma commit_tx_hash:
  "i_tx_hash (commit it req) =
     (case req_to req of StateConfirming \<Rightarrow> req_tx_hash req | StateSettling \<Rightarrow> []
        | StateSettled \<Rightarrow> req_tx_hash req | _ \<Rightarrow> i_tx_hash it)"
  by (simp add: commit_def)

text \<open>
  The two successful outcomes, each as one equivalence: a replay, and an executed row of the table.
\<close>

lemma apply_replay_iff:
  "apply_request it req = Inr (it', False) \<longleftrightarrow> state_valid (req_to req) \<and> i_state it = req_to req \<and> it' = it"
  by (auto simp: apply_request_def split: option.splits if_splits)

lemma apply_executed_iff:
  "apply_request it req = Inr (it', True) \<longleftrightarrow>
     (\<exists>r. lookup_rule (i_state it) (req_to req) = Some r \<and> req_by req \<in> set (rule_by r)
        \<and> (needs_tx_hash r \<longrightarrow> req_tx_hash req \<noteq> []) \<and> (needs_reason r \<longrightarrow> req_reason req \<noteq> [])
        \<and> guard it req = None \<and> it' = commit it req)" (is "?A \<longleftrightarrow> ?B")
proof
  assume ?A
  then show ?B by (auto simp: apply_request_def split: option.splits if_splits)
next
  assume ?B
  then obtain r where r: "lookup_rule (i_state it) (req_to req) = Some r" "req_by req \<in> set (rule_by r)"
      "needs_tx_hash r \<longrightarrow> req_tx_hash req \<noteq> []" "needs_reason r \<longrightarrow> req_reason req \<noteq> []"
      "guard it req = None" "it' = commit it req" by blast
  have in_rules: "r \<in> set rules" and ends: "rule_from r = i_state it" "rule_to r = req_to req"
    using lookup_rule_Some [OF r(1)] by auto
  have "state_valid (req_to req) \<and> i_state it \<noteq> req_to req \<and> \<not> terminal (i_state it)"
    using rule_cases [OF in_rules] ends by (auto simp: state_valid_iff terminal_iff)
  with r show ?A by (simp add: apply_request_def)
qed

lemma apply_executedE:
  assumes "apply_request it req = Inr (it', True)"
  obtains r where "r \<in> set rules" "rule_from r = i_state it" "rule_to r = req_to req"
    "req_by req \<in> set (rule_by r)" "needs_tx_hash r \<Longrightarrow> req_tx_hash req \<noteq> []"
    "needs_reason r \<Longrightarrow> req_reason req \<noteq> []" "guard it req = None" "it' = commit it req"
  using assms lookup_rule_Some unfolding apply_executed_iff by blast

definition edges :: "(state \<times> state) list" where
  "edges = map (\<lambda>r. (rule_from r, rule_to r)) rules"

lemma edges_simp: "edges =
     [(StateCreated, StateAuthorized), (StateCreated, StateCanceled),
      (StateAuthorized, StateSettling), (StateAuthorized, StateCanceled),
      (StateSettling, StateConfirming), (StateSettling, StateFailed), (StateSettling, StateNeedsReview),
      (StateConfirming, StateSettled), (StateConfirming, StateSettling), (StateConfirming, StateNeedsReview),
      (StateNeedsReview, StateSettled), (StateNeedsReview, StateFailed)]"
  by (simp add: edges_def rules_def)

lemma apply_edge:
  assumes "apply_request it req = Inr (it', True)"
  shows "(i_state it, req_to req) \<in> set edges"
    and "req_to req \<in> {StateConfirming, StateSettled} \<Longrightarrow> req_tx_hash req \<noteq> []"
    and "it' = commit it req"
proof -
  obtain r where r: "r \<in> set rules" "rule_from r = i_state it" "rule_to r = req_to req"
      "needs_tx_hash r \<Longrightarrow> req_tx_hash req \<noteq> []" "it' = commit it req"
    by (rule apply_executedE [OF assms]) blast
  show "(i_state it, req_to req) \<in> set edges"
    using r(1,2,3) by (force simp: edges_def)
  show "req_to req \<in> {StateConfirming, StateSettled} \<Longrightarrow> req_tx_hash req \<noteq> []"
    using r rule_evidence(1) [OF r(1)] by auto
  show "it' = commit it req" by (rule r(5))
qed

lemma apply_request_frame:
  "apply_request it req = Inr (it', b) \<Longrightarrow>
     i_id it' = i_id it \<and> i_ref it' = i_ref it \<and> intent_terms it' = intent_terms it \<and> i_amount it' = i_amount it"
  by (cases b) (auto simp: apply_replay_iff apply_executed_iff)

lemma apply_leaves_terminal:
  "apply_request it req = Inr (it', True) \<Longrightarrow> \<not> terminal (i_state it)"
  by (auto simp: apply_request_def split: if_splits)

subsection \<open>Every intent the machine can produce\<close>

text \<open>
  \<open>reachable_intent p it\<close>: \<open>it\<close> came out of \<open>New\<close> and any number of requests, by any actors, at any
  times, in any order, refused ones included.
\<close>

inductive reachable_intent :: "platform \<Rightarrow> intent \<Rightarrow> bool" for p :: platform where
  born: "new_intent p s now = Inr it \<Longrightarrow> reachable_intent p it"
| moved: "reachable_intent p it \<Longrightarrow> apply_request it req = Inr (it', b) \<Longrightarrow> reachable_intent p it'"

text \<open>One step of a history is legal when it is a row of the table, by an allowed actor, with its evidence.\<close>

definition legal_step :: "transition \<Rightarrow> bool" where
  "legal_step h = list_ex (\<lambda>r. rule_from r = tr_from h \<and> rule_to r = tr_to h \<and> allows r (tr_by h)
      \<and> (needs_tx_hash r \<longrightarrow> tr_tx_hash h \<noteq> []) \<and> (needs_reason r \<longrightarrow> tr_reason h \<noteq> [])) rules"

fun chained :: "state \<Rightarrow> transition list \<Rightarrow> bool" where
  "chained s [] = True"
| "chained s (h # hs) = (tr_from h = s \<and> chained (tr_to h) hs)"

definition end_state :: "state \<Rightarrow> transition list \<Rightarrow> state" where
  "end_state s hs = (if hs = [] then s else tr_to (last hs))"

definition tx_hash_ok :: "intent \<Rightarrow> bool" where
  "tx_hash_ok it \<longleftrightarrow>
     (i_state it \<in> {StateCreated, StateAuthorized, StateSettling} \<longrightarrow> i_tx_hash it = [])
     \<and> (i_state it \<in> {StateConfirming, StateSettled} \<longrightarrow> i_tx_hash it \<noteq> [])"

definition intent_inv :: "platform \<Rightarrow> intent \<Rightarrow> bool" where
  "intent_inv p it \<longleftrightarrow>
     i_ref it = derive p (intent_terms it)
     \<and> (\<exists>a. i_amount it = Some a \<and> 0 < a)
     \<and> state_valid (i_state it)
     \<and> i_version it = of_nat (Suc (length (i_history it)))
     \<and> list_all legal_step (i_history it)
     \<and> chained StateCreated (i_history it)
     \<and> i_state it = end_state StateCreated (i_history it)
     \<and> tx_hash_ok it"

lemma chained_snoc: "chained s (hs @ [h]) \<longleftrightarrow> chained s hs \<and> tr_from h = end_state s hs"
  by (induction hs arbitrary: s) (auto simp: end_state_def)

lemma end_state_snoc [simp]: "end_state s (hs @ [h]) = tr_to h"
  by (simp add: end_state_def)

lemma new_intent_inv [inv_intros]:
  assumes "new_intent p s now = Inr it"
  shows "intent_inv p it"
  using assms
  by (auto simp: new_intent_def intent_inv_def Let_def end_state_def tx_hash_ok_def intent_terms_def
      state_valid_iff split: if_splits option.splits)

lemma apply_request_inv [inv_intros]:
  assumes inv: "intent_inv p it" and ap: "apply_request it req = Inr (it', b)"
  shows "intent_inv p it'"
proof (cases b)
  case False
  with ap inv show ?thesis by (simp add: apply_replay_iff)
next
  case True
  with ap have ap': "apply_request it req = Inr (it', True)" by simp
  obtain r where r: "r \<in> set rules" "rule_from r = i_state it" "rule_to r = req_to req"
      "req_by req \<in> set (rule_by r)" "needs_tx_hash r \<Longrightarrow> req_tx_hash req \<noteq> []"
      "needs_reason r \<Longrightarrow> req_reason req \<noteq> []" "it' = commit it req"
    by (rule apply_executedE [OF ap']) blast
  let ?h = "\<lparr>tr_from = i_state it, tr_to = req_to req, tr_by = req_by req, tr_at = req_at req,
       tr_tx_hash = req_tx_hash req, tr_reason = req_reason req\<rparr>"
  have legal: "legal_step ?h"
    using r unfolding legal_step_def list_ex_iff by auto
  have valid: "state_valid (req_to req)"
    using apply_edge(1) [OF ap'] by (auto simp: edges_simp state_valid_iff)
  have hash: "tx_hash_ok (commit it req)"
    using apply_edge(1,2) [OF ap'] inv unfolding tx_hash_ok_def intent_inv_def
    by (cases "req_to req") (simp_all add: commit_tx_hash edges_simp)
  show ?thesis
    using inv legal hash valid unfolding r(7) intent_inv_def
    by (simp add: chained_snoc)
qed

lemma reachable_intent_inv: "reachable_intent p it \<Longrightarrow> intent_inv p it"
  by (induction rule: reachable_intent.induct) (auto intro: inv_intros)

subsection \<open>Counting visits\<close>

text \<open>
  How often a history enters \<open>settling\<close> from \<open>authorized\<close>: the one edge behind which the relayer
  sends a new transaction. No row of the table leads back to \<open>created\<close> or \<open>authorized\<close>, so it is
  taken once.
\<close>

definition claims_to_send :: "transition list \<Rightarrow> nat" where
  "claims_to_send hs = length (filter (\<lambda>h. tr_from h = StateAuthorized \<and> tr_to h = StateSettling) hs)"

lemma claims_to_send_snoc [simp]:
  "claims_to_send (hs @ [h]) =
     claims_to_send hs + (if tr_from h = StateAuthorized \<and> tr_to h = StateSettling then 1 else 0)"
  by (simp add: claims_to_send_def)

lemma chained_claims:
  "chained StateCreated hs \<Longrightarrow> list_all legal_step hs \<Longrightarrow>
     claims_to_send hs \<le> 1
     \<and> (end_state StateCreated hs \<in> {StateCreated, StateAuthorized} \<longrightarrow> claims_to_send hs = 0)"
proof (induction hs rule: rev_induct)
  case Nil
  then show ?case by (simp add: claims_to_send_def end_state_def)
next
  case (snoc h hs)
  then have IH: "claims_to_send hs \<le> 1"
      "end_state StateCreated hs \<in> {StateCreated, StateAuthorized} \<longrightarrow> claims_to_send hs = 0"
    and from_end: "tr_from h = end_state StateCreated hs" and legal: "legal_step h"
    by (auto simp: chained_snoc)
  from legal obtain r where "r \<in> set rules" "rule_from r = tr_from h" "rule_to r = tr_to h"
    by (auto simp: legal_step_def list_ex_iff)
  with rule_cases [of r] IH from_end show ?case by auto
qed

text \<open>
  The transaction hash an intent carries is the one its last \<open>confirming\<close> step brought, and a
  listener can only settle on that very hash.
\<close>

definition hash_trail :: "intent \<Rightarrow> bool" where
  "hash_trail it \<longleftrightarrow>
     (i_state it = StateConfirming \<longrightarrow>
        i_history it \<noteq> [] \<and> tr_to (last (i_history it)) = StateConfirming
        \<and> tr_tx_hash (last (i_history it)) = i_tx_hash it)
     \<and> (i_state it = StateSettled \<longrightarrow>
        (\<exists>hs h. i_history it = hs @ [h] \<and> tr_to h = StateSettled \<and> tr_tx_hash h = i_tx_hash it
           \<and> (tr_by h = ActorListener \<and> tr_from h = StateConfirming \<and> hs \<noteq> []
                \<and> tr_to (last hs) = StateConfirming \<and> tr_tx_hash (last hs) = i_tx_hash it
              \<or> tr_by h = ActorOperator \<and> tr_from h = StateNeedsReview \<and> tr_reason h \<noteq> [])))"

lemma settle_edge:
  assumes "apply_request it req = Inr (it', True)" "req_to req = StateSettled"
  shows "(i_state it = StateConfirming \<and> req_by req = ActorListener)
     \<or> (i_state it = StateNeedsReview \<and> req_by req = ActorOperator \<and> req_reason req \<noteq> [])"
    and "i_tx_hash it \<noteq> [] \<Longrightarrow> i_tx_hash it = req_tx_hash req"
proof -
  obtain r where r: "r \<in> set rules" "rule_from r = i_state it" "rule_to r = req_to req"
      "req_by req \<in> set (rule_by r)" "needs_reason r \<Longrightarrow> req_reason req \<noteq> []" "guard it req = None"
    by (rule apply_executedE [OF assms(1)]) blast
  have "list_all (\<lambda>r. rule_to r = StateSettled \<longrightarrow>
      (rule_from r = StateConfirming \<and> rule_by r = [ActorListener])
      \<or> (rule_from r = StateNeedsReview \<and> rule_by r = [ActorOperator] \<and> needs_reason r)) rules"
    by (simp add: rules_def)
  with r assms(2) show "(i_state it = StateConfirming \<and> req_by req = ActorListener)
     \<or> (i_state it = StateNeedsReview \<and> req_by req = ActorOperator \<and> req_reason req \<noteq> [])"
    unfolding list_all_iff by fastforce
  show "i_tx_hash it \<noteq> [] \<Longrightarrow> i_tx_hash it = req_tx_hash req"
    using r(6) assms(2) by (auto simp: guard_def split: if_splits)
qed

lemma apply_hash_trail:
  assumes inv: "intent_inv p it" "hash_trail it" and ap: "apply_request it req = Inr (it', True)"
  shows "hash_trail it'"
proof -
  note it' = apply_edge(3) [OF ap]
  show ?thesis
  proof (cases "req_to req = StateSettled")
    case True
    have hash: "i_state it = StateConfirming \<Longrightarrow> i_tx_hash it = req_tx_hash req"
      using settle_edge(2) [OF ap True] inv(1) by (auto simp: intent_inv_def tx_hash_ok_def)
    show ?thesis
      using settle_edge(1) [OF ap True] hash inv(2) True
      unfolding hash_trail_def it' by (auto simp: commit_tx_hash)
  next
    case False
    then show ?thesis
      unfolding hash_trail_def it' by (simp add: commit_tx_hash)
  qed
qed

lemma reachable_hash_trail: "reachable_intent p it \<Longrightarrow> hash_trail it"
proof (induction rule: reachable_intent.induct)
  case (born s now it)
  then show ?case
    by (auto simp: hash_trail_def new_intent_def Let_def split: if_splits option.splits)
next
  case (moved it req it' b)
  then show ?case
    using apply_hash_trail [OF reachable_intent_inv [OF moved.hyps(1)]]
    by (cases b) (auto simp: apply_replay_iff)
qed

subsection \<open>A worked intent\<close>

definition demo_spec :: spec where
  "demo_spec = \<lparr>spec_id = ''pi_1'', spec_chain = ''evm:1'', spec_token = ''usd'', spec_payer = ''alice'',
     spec_merchant = ''bob'', spec_amount = Some 100, spec_expires_at = 0\<rparr>"

definition demo_intent :: intent where
  "demo_intent = \<lparr>i_id = ''pi_1'', i_ref = replicate 32 (CHR 0x01), i_chain = ''evm:1'', i_token = ''usd'',
     i_payer = ''alice'', i_merchant = ''bob'', i_amount = Some 100, i_state = StateCreated,
     i_version = 1, i_tx_hash = '''', i_created_at = 10, i_updated_at = 10, i_expires_at = 0,
     i_history = []\<rparr>"

definition demo_request :: "state \<Rightarrow> actor \<Rightarrow> string \<Rightarrow> string \<Rightarrow> request" where
  "demo_request to by tx why =
     \<lparr>req_to = to, req_by = by, req_tx_hash = tx, req_reason = why, req_at = 20\<rparr>"

lemma demo_intent_new: "new_intent demo_platform demo_spec 10 = Inr demo_intent"
  by (simp add: new_intent_def demo_spec_def demo_intent_def demo_platform_def derive_def Let_def)

lemmas demo_intent_simps =
  demo_intent_def demo_request_def apply_request_def state_valid_def states_def terminal_def
  lookup_rule_def rules_def guard_def commit_def

definition demo_authorized :: intent where
  "demo_authorized = commit demo_intent (demo_request StateAuthorized ActorAPI '''' '''')"

definition demo_settling :: intent where
  "demo_settling = commit demo_authorized (demo_request StateSettling ActorRelayer '''' '''')"

definition demo_confirming :: intent where
  "demo_confirming = commit demo_settling (demo_request StateConfirming ActorRelayer ''0xaa'' '''')"

definition demo_settled :: intent where
  "demo_settled = commit demo_confirming (demo_request StateSettled ActorListener ''0xaa'' '''')"

lemma demo_steps:
  "apply_request demo_intent (demo_request StateAuthorized ActorAPI '''' '''') = Inr (demo_authorized, True)"
  "apply_request demo_authorized (demo_request StateSettling ActorRelayer '''' '''') = Inr (demo_settling, True)"
  "apply_request demo_settling (demo_request StateConfirming ActorRelayer ''0xaa'' '''') = Inr (demo_confirming, True)"
  "apply_request demo_confirming (demo_request StateSettled ActorListener ''0xaa'' '''') = Inr (demo_settled, True)"
  by (simp_all add: demo_settled_def demo_confirming_def demo_settling_def demo_authorized_def demo_intent_simps)

lemma demo_reachable:
  "reachable_intent demo_platform demo_intent" "reachable_intent demo_platform demo_authorized"
  "reachable_intent demo_platform demo_settling" "reachable_intent demo_platform demo_confirming"
  "reachable_intent demo_platform demo_settled"
proof -
  show a: "reachable_intent demo_platform demo_intent"
    by (rule reachable_intent.born [OF demo_intent_new])
  show b: "reachable_intent demo_platform demo_authorized"
    by (rule reachable_intent.moved [OF a demo_steps(1)])
  show c: "reachable_intent demo_platform demo_settling"
    by (rule reachable_intent.moved [OF b demo_steps(2)])
  show d: "reachable_intent demo_platform demo_confirming"
    by (rule reachable_intent.moved [OF c demo_steps(3)])
  show "reachable_intent demo_platform demo_settled"
    by (rule reachable_intent.moved [OF d demo_steps(4)])
qed

subsection \<open>Properties\<close>

text \<open>
  What \<open>Apply\<close> decides. It executes exactly when the table has a row for the transition that the
  actor may take, the evidence the row asks for is there and the guard does not object, and then the
  new intent is the committed one; it is a silent replay exactly when the intent already is in the
  requested state; and a terminal intent refuses every other known state with \<open>ErrTerminal\<close>.
\<close>

theorem apply_decides:
  "(apply_request it req = Inr (it', True) \<longleftrightarrow>
      (\<exists>r. lookup_rule (i_state it) (req_to req) = Some r \<and> req_by req \<in> set (rule_by r)
         \<and> \<not> (needs_tx_hash r \<and> req_tx_hash req = []) \<and> \<not> (needs_reason r \<and> req_reason req = [])
         \<and> guard it req = None \<and> it' = commit it req))
   \<and> (apply_request it req = Inr (it', False) \<longleftrightarrow>
      state_valid (req_to req) \<and> i_state it = req_to req \<and> it' = it)
   \<and> (apply_request it req = Inl ErrTerminal \<longleftrightarrow>
      state_valid (req_to req) \<and> terminal (i_state it) \<and> i_state it \<noteq> req_to req)"
proof -
  have t: "apply_request it req = Inl ErrTerminal \<longleftrightarrow>
      state_valid (req_to req) \<and> terminal (i_state it) \<and> i_state it \<noteq> req_to req"
    by (auto simp: apply_request_def guard_def split: option.splits if_splits)
  show ?thesis
    unfolding t apply_replay_iff apply_executed_iff by auto
qed



text \<open>
  Nothing is declared settled without proof. A settled intent's last step was taken either by the
  listener, out of \<open>confirming\<close> and on exactly the transaction hash that the confirming step recorded,
  or by an operator out of \<open>needs_review\<close> with a reason; in both cases the intent carries that hash.
\<close>

theorem settled_on_recorded_hash:
  assumes "reachable_intent p it" and "i_state it = StateSettled"
  shows "i_tx_hash it \<noteq> [] \<and>
    (\<exists>hs h. i_history it = hs @ [h] \<and> tr_to h = StateSettled \<and> tr_tx_hash h = i_tx_hash it
       \<and> (tr_by h = ActorListener \<and> tr_from h = StateConfirming \<and> hs \<noteq> []
            \<and> tr_to (last hs) = StateConfirming \<and> tr_tx_hash (last hs) = i_tx_hash it
          \<or> tr_by h = ActorOperator \<and> tr_from h = StateNeedsReview \<and> tr_reason h \<noteq> []))"
proof -
  have "intent_inv p it" "hash_trail it"
    using assms(1) by (auto intro: reachable_intent_inv reachable_hash_trail)
  with assms(2) show ?thesis by (simp add: intent_inv_def tx_hash_ok_def hash_trail_def)
qed

theorem settled_on_recorded_hash_witness:
  "i_tx_hash demo_settled \<noteq> []"
proof -
  have "i_state demo_settled = StateSettled" by (simp add: demo_settled_def demo_request_def)
  then show ?thesis using settled_on_recorded_hash [OF demo_reachable(5)] by blast
qed

text \<open>
  The table's shape. Every row but \<open>confirming\<close> to \<open>settling\<close> goes forward in the lifecycle order,
  that row belongs to the listener alone, no row leaves a terminal state, no row leads back from
  \<open>needs_review\<close> to anything but \<open>settled\<close> and \<open>failed\<close>, and only the listener or an operator can reach
  \<open>settled\<close>.
\<close>

theorem table_shape:
  "list_all (\<lambda>r. (if rule_to r > rule_from r then True
                    else rule_from r = StateConfirming \<and> rule_to r = StateSettling \<and> rule_by r = [ActorListener])
      \<and> \<not> terminal (rule_from r)
      \<and> (if rule_from r = StateNeedsReview then rule_to r = StateSettled \<or> rule_to r = StateFailed else True)
      \<and> (if rule_to r = StateSettled then rule_by r = [ActorListener] \<or> rule_by r = [ActorOperator] else True)) rules"
  by (simp add: rules_def terminal_def less_state_def less_eq_state_def)

text \<open>
  The printed transition table is, byte for byte, the reviewed golden file.
\<close>

theorem table_golden:
  "table = concat (map (\<lambda>l. l @ [CHR 0x0A])
    [''FROM          TO            BY                       NEEDS'',
     ''created       authorized    api                      -'',
     ''created       canceled      api,operator,system      reason'',
     ''authorized    settling      relayer                  -'',
     ''authorized    canceled      api,operator             reason'',
     ''settling      confirming    relayer,listener         tx_hash'',
     ''settling      failed        relayer                  reason'',
     ''settling      needs_review  relayer                  reason'',
     ''confirming    settled       listener                 tx_hash'',
     ''confirming    settling      listener                 reason'',
     ''confirming    needs_review  listener                 reason'',
     ''needs_review  settled       operator                 tx_hash,reason'',
     ''needs_review  failed        operator                 reason'',
     '''',
     ''terminal: settled, failed, canceled''])"
  by code_simp

end
