(* ===== verification/Intent_Store.thy ===== *)
theory Intent_Store
  imports Intent "HOL-Library.AList"
begin

section \<open>The intent store: compare-and-swap on the version\<close>

text \<open>
  Models \<open>internal/intent/store.go\<close>: \<open>MemoryStore\<close> with its two lookups, \<open>ByState\<close>, the
  compare-and-swap \<open>Save\<close> that re-derives the ref, and \<open>Advance\<close> (read, \<open>Apply\<close>, write back). The
  rows are an association list, since \<open>ByState\<close> enumerates them; every operation runs under the
  store's one mutex, so each is one atomic step.

  The locale \<open>cas_store\<close> states what every other component relies on; it is interpreted on the memory
  store, and its lemma \<open>second_writer_loses\<close> is why two workers cannot both claim one intent.
\<close>

subsection \<open>Operations\<close>

record memory_store =
  st_rows :: "(string \<times> intent) list"
  st_by_ref :: "ref \<Rightarrow> string option"

definition empty_store :: memory_store where
  "empty_store = \<lparr>st_rows = [], st_by_ref = (\<lambda>_. None)\<rparr>"

definition store_get :: "memory_store \<Rightarrow> string \<Rightarrow> intent_error + intent" where
  "store_get s k = (case map_of (st_rows s) k of None \<Rightarrow> Inl ErrIntentNotFound | Some it \<Rightarrow> Inr it)"

text \<open>An indexed id without a row would be a nil intent in Go; \<open>store_inv\<close> shows there is none.\<close>

definition store_get_by_ref :: "memory_store \<Rightarrow> ref \<Rightarrow> intent_error + intent" where
  "store_get_by_ref s r =
     (case st_by_ref s r of
        None \<Rightarrow> Inl ErrIntentNotFound
      | Some k \<Rightarrow> (case map_of (st_rows s) k of None \<Rightarrow> Inl ErrIntentNotFound | Some it \<Rightarrow> Inr it))"

definition store_by_state :: "memory_store \<Rightarrow> state list \<Rightarrow> intent list" where
  "store_by_state s sts =
     sort_key i_id (filter (\<lambda>it. list_ex (\<lambda>st. i_state it = st) sts) (map snd (st_rows s)))"

definition store_save :: "platform \<Rightarrow> memory_store \<Rightarrow> intent \<Rightarrow> u64 \<Rightarrow> intent_error + memory_store" where
  "store_save p s it expected =
     (let cur = map_of (st_rows s) (i_id it) in
      if cur = None \<and> expected \<noteq> 0 then Inl ErrVersionConflict
      else if (case cur of None \<Rightarrow> False | Some c \<Rightarrow> i_version c \<noteq> expected) then Inl ErrVersionConflict
      else if i_ref it \<noteq> derive p (intent_terms it) then Inl ErrRefMismatch
      else Inr (s\<lparr>st_rows := AList.update (i_id it) it (st_rows s),
                  st_by_ref := (st_by_ref s)(i_ref it \<mapsto> i_id it)\<rparr>))"

text \<open>\<open>Advance\<close>: the intent as written back, whether it moved, and the store after it.\<close>

definition advance :: "platform \<Rightarrow> memory_store \<Rightarrow> string \<Rightarrow> request \<Rightarrow> intent_error + (intent \<times> bool \<times> memory_store)" where
  "advance p s k req =
     (case store_get s k of
        Inl e \<Rightarrow> Inl e
      | Inr it \<Rightarrow>
          (case apply_request it req of
             Inl e \<Rightarrow> Inl e
           | Inr (it', applied) \<Rightarrow>
               if \<not> applied then Inr (it', False, s)
               else case store_save p s it' (i_version it) of
                   Inl e \<Rightarrow> Inl e
                 | Inr s' \<Rightarrow> Inr (it', True, s')))"

subsection \<open>The contract\<close>

locale cas_store =
  fixes get :: "'s \<Rightarrow> string \<Rightarrow> intent_error + intent"
    and save :: "'s \<Rightarrow> intent \<Rightarrow> u64 \<Rightarrow> intent_error + 's"
    and committed :: "intent \<Rightarrow> bool"
  assumes save_then_get: "save s it v = Inr s' \<Longrightarrow> get s' (i_id it) = Inr it"
    and save_frame: "save s it v = Inr s' \<Longrightarrow> k \<noteq> i_id it \<Longrightarrow> get s' k = get s k"
    and save_conflict: "get s (i_id it) = Inr cur \<Longrightarrow> i_version cur \<noteq> v \<Longrightarrow> save s it v = Inl ErrVersionConflict"
    and save_new_only: "get s (i_id it) = Inl e \<Longrightarrow> v \<noteq> 0 \<Longrightarrow> save s it v = Inl ErrVersionConflict"
    and save_committed: "save s it v = Inr s' \<Longrightarrow> committed it"
    and save_succeeds: "get s (i_id it) = Inr cur \<Longrightarrow> i_version cur = v \<Longrightarrow> committed it \<Longrightarrow> \<exists>s'. save s it v = Inr s'"
begin

lemma save_cas:
  assumes "save s it v = Inr s'"
  shows "(\<exists>cur. get s (i_id it) = Inr cur \<and> i_version cur = v) \<or> (v = 0 \<and> (\<exists>e. get s (i_id it) = Inl e))"
proof (cases "get s (i_id it)")
  case (Inl e)
  with assms save_new_only [of s it e v] show ?thesis by auto
next
  case (Inr cur)
  with assms save_conflict [of s it cur v] show ?thesis by auto
qed

text \<open>
  Two writers that read the same version: whoever comes second, with whatever content, is refused.
\<close>

lemma second_writer_loses:
  assumes "save s a v = Inr s'" "i_version a = v + 1" "i_id b = i_id a"
  shows "save s' b v = Inl ErrVersionConflict"
  using save_conflict [of s' b a v] save_then_get [OF assms(1)] assms(2,3) by simp

text \<open>The loser may come any number of writes to other intents later.\<close>

lemma stale_writer_loses:
  assumes "get s (i_id b) = Inr cur" "i_version cur \<noteq> v"
  shows "save s b v = Inl ErrVersionConflict \<and> get s (i_id b) = Inr cur"
  using save_conflict [OF assms] assms(1) by simp

end

lemma store_get_save:
  "store_save p s it v = Inr s' \<Longrightarrow> store_get s' k = (if k = i_id it then Inr it else store_get s k)"
  by (auto simp: store_save_def store_get_def Let_def update_conv' split: if_splits)

interpretation ms: cas_store store_get "store_save p" "\<lambda>it. i_ref it = derive p (intent_terms it)" for p
  by unfold_locales (auto simp: store_get_save, auto simp: store_save_def store_get_def Let_def
      split: option.splits if_splits)

subsection \<open>The invariant of the store\<close>

definition store_inv :: "platform \<Rightarrow> memory_store \<Rightarrow> bool" where
  "store_inv p s \<longleftrightarrow>
     distinct (map fst (st_rows s))
     \<and> (\<forall>k it. store_get s k = Inr it \<longrightarrow> i_id it = k \<and> reachable_intent p it
          \<and> (\<exists>k'. st_by_ref s (i_ref it) = Some k'))
     \<and> (\<forall>r k. st_by_ref s r = Some k \<longrightarrow> (\<exists>it. store_get s k = Inr it \<and> i_ref it = r))"

lemma store_inv_empty [inv_intros]: "store_inv p empty_store"
  by (simp add: store_inv_def empty_store_def store_get_def)

lemma store_inv_get:
  "store_inv p s \<Longrightarrow> store_get s k = Inr it \<Longrightarrow> i_id it = k \<and> reachable_intent p it"
  by (simp add: store_inv_def)

lemma store_inv_get_inv:
  "store_inv p s \<Longrightarrow> store_get s k = Inr it \<Longrightarrow> intent_inv p it"
  using store_inv_get reachable_intent_inv by blast

text \<open>
  A save keeps the invariant when it writes an intent the machine produced and, over an existing row,
  one with the same ref: what every caller in the program does.
\<close>

lemma store_save_inv:
  assumes inv: "store_inv p s" and sv: "store_save p s it v = Inr s'" and re: "reachable_intent p it"
    and same: "\<And>cur. store_get s (i_id it) = Inr cur \<Longrightarrow> i_ref cur = i_ref it"
  shows "store_inv p s'"
proof -
  have s': "st_rows s' = AList.update (i_id it) it (st_rows s)"
      "st_by_ref s' = (st_by_ref s)(i_ref it \<mapsto> i_id it)"
    using sv by (auto simp: store_save_def Let_def split: if_splits)
  have "distinct (map fst (st_rows s'))"
    using inv by (simp add: store_inv_def s' distinct_update)
  moreover have "\<forall>k x. store_get s' k = Inr x \<longrightarrow> i_id x = k \<and> reachable_intent p x
      \<and> (\<exists>k'. st_by_ref s' (i_ref x) = Some k')"
    using inv re by (auto simp: store_get_save [OF sv] store_inv_def s'(2))
  moreover have "\<forall>r k. st_by_ref s' r = Some k \<longrightarrow> (\<exists>x. store_get s' k = Inr x \<and> i_ref x = r)"
    using inv same by (auto simp: store_get_save [OF sv] store_inv_def s'(2) split: if_splits) metis+
  ultimately show ?thesis by (simp add: store_inv_def)
qed

lemma store_save_new_inv [inv_intros]:
  assumes "store_inv p s" "new_intent p sp now = Inr it" "store_save p s it 0 = Inr s'"
    and "store_get s (i_id it) = Inl e"
  shows "store_inv p s'"
  by (rule store_save_inv [OF assms(1,3) reachable_intent.born [OF assms(2)]]) (simp add: assms(4))

text \<open>What the rest of the program does to a stored intent: read it, apply, write it back.\<close>

lemma store_save_applied_inv [inv_intros]:
  assumes inv: "store_inv p s" and re: "reachable_intent p it"
    and ap: "apply_request it req = Inr (it', True)"
    and sv: "store_save p s it' v = Inr s'"
    and same: "\<And>cur. store_get s (i_id it) = Inr cur \<Longrightarrow> i_ref cur = i_ref it"
  shows "store_inv p s'"
proof (rule store_save_inv [OF inv sv])
  show "reachable_intent p it'" by (rule reachable_intent.moved [OF re ap])
  show "i_ref cur = i_ref it'" if "store_get s (i_id it') = Inr cur" for cur
    using that same apply_request_frame [OF ap] by simp
qed

lemma advance_inv [inv_intros]:
  assumes inv: "store_inv p s" and ad: "advance p s k req = Inr (it', b, s')"
  shows "store_inv p s'"
proof -
  obtain it where it: "store_get s k = Inr it" and ap: "apply_request it req = Inr (it', b)"
    and sv: "if b then store_save p s it' (i_version it) = Inr s' else s' = s"
    using ad by (auto simp: advance_def split: sum.splits if_splits)
  have k: "i_id it = k" and re: "reachable_intent p it"
    using store_inv_get [OF inv it] by auto
  show ?thesis
  proof (cases b)
    case True
    with ap sv have ap': "apply_request it req = Inr (it', True)" and sv': "store_save p s it' (i_version it) = Inr s'"
      by simp_all
    show ?thesis
      by (rule store_save_applied_inv [OF inv re ap' sv']) (use it k in simp)
  next
    case False
    with sv inv show ?thesis by simp
  qed
qed

subsection \<open>Properties\<close>

definition demo_store :: memory_store where
  "demo_store = \<lparr>st_rows = [(''pi_1'', demo_authorized)],
     st_by_ref = (\<lambda>_. None)(replicate 32 (CHR 0x01) \<mapsto> ''pi_1'')\<rparr>"

lemma demo_authorized_simps [simp]:
  "i_id demo_authorized = ''pi_1''" "i_version demo_authorized = 2" "i_state demo_authorized = StateAuthorized"
  "i_ref demo_authorized = replicate 32 (CHR 0x01)" "i_amount demo_authorized = Some 100"
  by (simp_all add: demo_authorized_def demo_intent_def demo_request_def commit_def)

lemma demo_derive [simp]: "derive demo_platform t = replicate 32 (CHR 0x01)"
  by (simp add: derive_def demo_platform_def)

lemma demo_store_get: "store_get demo_store k = (if k = ''pi_1'' then Inr demo_authorized else Inl ErrIntentNotFound)"
  by (simp add: store_get_def demo_store_def)

lemma demo_store_inv: "store_inv demo_platform demo_store"
  unfolding store_inv_def demo_store_get
  using demo_reachable(2) by (auto simp: demo_store_def)

text \<open>
  Optimistic locking works. Two components that read the same version of an intent may both have a
  transition that the state machine accepts, but once the first has written its result back, the second
  one's save is refused with \<open>ErrVersionConflict\<close> and the stored intent is the first one's.
\<close>

theorem concurrent_claim_one_wins:
  assumes "store_get s k = Inr it" "i_id it = k"
    and "apply_request it req1 = Inr (a, True)" and "apply_request it req2 = Inr (b, True)"
    and "store_save p s a (i_version it) = Inr s1"
  shows "store_save p s1 b (i_version it) = Inl ErrVersionConflict \<and> store_get s1 k = Inr a"
proof -
  have "i_id a = k" "i_id b = k" "i_version a = i_version it + 1"
    using assms(2) apply_edge(3) [OF assms(3)] apply_edge(3) [OF assms(4)] by simp_all
  then show ?thesis
    using ms.second_writer_loses [OF assms(5)] ms.save_then_get [OF assms(5)] by simp
qed

theorem concurrent_claim_one_wins_witness:
  "\<exists>a b s1. store_save demo_platform demo_store a (i_version demo_authorized) = Inr s1
     \<and> i_state a = StateSettling \<and> i_state b = StateCanceled
     \<and> store_save demo_platform s1 b (i_version demo_authorized) = Inl ErrVersionConflict"
proof -
  let ?r1 = "demo_request StateSettling ActorRelayer [] []"
  let ?r2 = "demo_request StateCanceled ActorAPI [] ''merchant''"
  have get: "store_get demo_store ''pi_1'' = Inr demo_authorized" by (simp add: demo_store_get)
  have a1: "apply_request demo_authorized ?r1 = Inr (commit demo_authorized ?r1, True)"
    and a2: "apply_request demo_authorized ?r2 = Inr (commit demo_authorized ?r2, True)"
    by (simp_all add: apply_executed_iff lookup_rule_def rules_def demo_request_def guard_def)
  obtain s1 where s1: "store_save demo_platform demo_store (commit demo_authorized ?r1) (i_version demo_authorized) = Inr s1"
    using ms.save_succeeds [where s = demo_store and it = "commit demo_authorized ?r1" and cur = demo_authorized
        and p = demo_platform] get by auto
  have "store_save demo_platform s1 (commit demo_authorized ?r2) (i_version demo_authorized) = Inl ErrVersionConflict"
    using concurrent_claim_one_wins [OF get demo_authorized_simps(1) a1 a2 s1] by (rule conjunct1)
  moreover have "i_state (commit demo_authorized ?r1) = StateSettling"
    and "i_state (commit demo_authorized ?r2) = StateCanceled"
    by (simp_all add: demo_request_def commit_def)
  ultimately show ?thesis using s1 by blast
qed

text \<open>
  The way back from the chain. In a store the program built, looking a ref up returns an intent that
  carries that ref, and the intent stored under an id is found again by its ref: the lookup returns it, or
  another intent whose terms have the same SHA-256 although their preimages differ.
\<close>

theorem ref_lookup_finds_owner:
  assumes inv: "store_inv p s"
  shows "(store_get_by_ref s r = Inr x \<longrightarrow> i_ref x = r \<and> store_get s (i_id x) = Inr x)
    \<and> (store_get s k = Inr it \<longrightarrow>
        (\<exists>y. store_get_by_ref s (i_ref it) = Inr y
           \<and> (y = it \<or> (ref_preimage (intent_terms y) \<noteq> ref_preimage (intent_terms it)
                 \<and> sha256 p (ref_preimage (intent_terms y)) = sha256 p (ref_preimage (intent_terms it))))))"
proof -
  have idx: "st_by_ref s q = Some j \<Longrightarrow> \<exists>y. store_get s j = Inr y \<and> i_ref y = q \<and> i_id y = j \<and> intent_inv p y"
    for q j using inv store_inv_get [OF inv] store_inv_get_inv [OF inv] unfolding store_inv_def by blast
  have row: "store_get s j = Inr y \<Longrightarrow> map_of (st_rows s) j = Some y" for j y
    by (simp add: store_get_def split: option.splits)
  have byref: "store_get_by_ref s q = Inr y \<longleftrightarrow> (\<exists>j. st_by_ref s q = Some j \<and> store_get s j = Inr y)" for q y
    by (auto simp: store_get_by_ref_def store_get_def split: option.splits)
  have "\<exists>y. store_get_by_ref s (i_ref it) = Inr y
      \<and> (y = it \<or> (intent_terms y \<noteq> intent_terms it \<and> derive p (intent_terms y) = derive p (intent_terms it)))"
    if it: "store_get s k = Inr it"
  proof -
    obtain j where "st_by_ref s (i_ref it) = Some j"
      using inv it unfolding store_inv_def by blast
    then obtain y where y: "store_get_by_ref s (i_ref it) = Inr y" "i_ref y = i_ref it" "i_id y = j"
        "store_get s j = Inr y" "intent_inv p y"
      using idx byref by blast
    have "i_id it = k" "intent_inv p it"
      using store_inv_get [OF inv it] store_inv_get_inv [OF inv it] by auto
    moreover have "y = it" if "intent_terms y = intent_terms it"
      using that y(3,4) it \<open>i_id it = k\<close> by (auto simp: intent_terms_def)
    ultimately show ?thesis using y by (auto simp: intent_inv_def)
  qed
  then show ?thesis
    using byref idx by (fastforce simp: derive_def)
qed

theorem ref_lookup_finds_owner_witness:
  "\<exists>y. store_get_by_ref demo_store (replicate 32 (CHR 0x01)) = Inr y \<and> i_ref y = replicate 32 (CHR 0x01)"
  using ref_lookup_finds_owner [OF demo_store_inv, of "replicate 32 (CHR 0x01)" demo_authorized "''pi_1''" demo_authorized]
  by (auto simp: demo_store_get store_get_by_ref_def demo_store_def)

text \<open>
  What \<open>Save\<close>'s ref check does not catch. It compares the ref with the terms of the intent being
  written, not with the row already there: a write at the right version that changes the amount and
  re-derives the ref is accepted, and the old ref then leads to an intent that does not carry it.
\<close>

theorem save_accepts_rewritten_terms:
  assumes "store_get s k = Inr it" "i_id it = k" "st_by_ref s (i_ref it) = Some k"
    and "it' = it\<lparr>i_amount := Some a, i_ref := derive p (intent_terms (it\<lparr>i_amount := Some a\<rparr>))\<rparr>"
  shows "\<exists>s'. store_save p s it' (i_version it) = Inr s' \<and> store_get s' k = Inr it'
      \<and> store_get_by_ref s' (i_ref it) = Inr it'"
proof -
  have terms: "intent_terms it' = intent_terms (it\<lparr>i_amount := Some a\<rparr>)"
    and same: "i_id it' = k" "i_ref it' = derive p (intent_terms it')"
    using assms(2,4) by (simp_all add: intent_terms_def)
  then obtain s' where s': "store_save p s it' (i_version it) = Inr s'"
    using ms.save_succeeds [where s = s and it = it' and cur = it and p = p] assms(1) by auto
  have "store_get s' k = Inr it'"
    using ms.save_then_get [OF s'] same by simp
  moreover have "store_get_by_ref s' (i_ref it) = Inr it'"
    using s' assms(3) same calculation
    by (auto simp: store_save_def store_get_by_ref_def store_get_def Let_def split: if_splits option.splits)
  ultimately show ?thesis using s' by blast
qed

theorem save_accepts_rewritten_terms_witness:
  "\<exists>s'. store_save demo_platform demo_store
      (demo_authorized\<lparr>i_amount := Some 1, i_ref := derive demo_platform (intent_terms (demo_authorized\<lparr>i_amount := Some 1\<rparr>))\<rparr>) 2 = Inr s'"
proof -
  have get: "store_get demo_store ''pi_1'' = Inr demo_authorized" by (simp add: demo_store_get)
  have idx: "st_by_ref demo_store (i_ref demo_authorized) = Some ''pi_1''" by (simp add: demo_store_def)
  show ?thesis
    using save_accepts_rewritten_terms [OF get demo_authorized_simps(1) idx refl, of demo_platform 1]
    unfolding demo_authorized_simps(2) by blast
qed

end
