(* ===== verification/Ledger.thy ===== *)
theory Ledger
  imports Payment_Ref
begin

section \<open>Ledger entries\<close>

text \<open>
  Models \<open>internal/ledger/ledger.go\<close> and \<open>hash.go\<close>: assets, legs and entries, the double-entry
  validation, the comparison that tells a replay from a conflict, and the preimage of the hash chain.

  A nil \<open>*big.Int\<close> is \<open>None\<close>; \<open>Validate\<close> refuses it, and \<open>leg_value\<close> reads an amount where the code
  relies on that. The lemmas show that a valid entry has distinct accounts whose amounts sum to zero,
  that \<open>Same\<close> compares exactly the caller's half of an entry, and that the preimage is injective.
\<close>

subsection \<open>Data\<close>

type_synonym account = string
type_synonym hash = bytes

record asset =
  asset_chain :: string
  asset_token :: string

definition payer_account :: "string \<Rightarrow> account" where
  "payer_account addr = ''payer:'' @ addr"

definition merchant_account :: "string \<Rightarrow> account" where
  "merchant_account addr = ''merchant:'' @ addr"

definition fee_account :: "string \<Rightarrow> account" where
  "fee_account token = ''fee:'' @ token"

record leg =
  leg_account :: account
  leg_amount :: "int option"

datatype kind = KindHold | KindPost | KindVoid | KindOther string

fun kind_name :: "kind \<Rightarrow> string" where
  "kind_name KindHold = ''hold''"
| "kind_name KindPost = ''post''"
| "kind_name KindVoid = ''void''"
| "kind_name (KindOther s) = s"

record entry =
  e_id :: string
  e_ref :: ref
  e_kind :: kind
  e_holds :: string
  e_asset :: asset
  e_legs :: "leg list"
  e_by :: string
  e_at :: time
  e_tx_hash :: string
  e_memo :: string
  e_seq :: u64
  e_prev_hash :: hash
  e_hash :: hash

text \<open>What is wrong with an entry, one constructor per message of the code.\<close>

datatype entry_defect =
    IdRequired | RefRequired | AssetRequired | ByRequired | AtRequired
  | HoldReferencesHold | PostNeedsHold | VoidNeedsHold | VoidHasLegs | UnknownKind string
  | TooFewLegs nat | LegNoAccount nat | LegZeroAmount nat account | AccountTwice account

datatype ledger_error =
    ErrInvalidEntry entry_defect
  | ErrUnbalanced int
  | ErrConflict string
  | ErrNoSuchHold string string
  | ErrAlreadyResolved string
  | ErrEntryNotFound string
  | ErrChainBroken u64

definition leg_value :: "leg \<Rightarrow> int" where
  "leg_value l = (case leg_amount l of None \<Rightarrow> 0 | Some a \<Rightarrow> a)"

subsection \<open>Validation\<close>

text \<open>The loop of \<open>validateLegs\<close>: the index, the accounts seen, the running sum.\<close>

fun check_legs :: "nat \<Rightarrow> account list \<Rightarrow> int \<Rightarrow> leg list \<Rightarrow> ledger_error option" where
  "check_legs i seen acc [] = (if acc \<noteq> 0 then Some (ErrUnbalanced acc) else None)"
| "check_legs i seen acc (l # ls) =
     (if leg_account l = '''' then Some (ErrInvalidEntry (LegNoAccount i))
      else if leg_amount l = None \<or> leg_amount l = Some 0
        then Some (ErrInvalidEntry (LegZeroAmount i (leg_account l)))
      else if leg_account l \<in> set seen then Some (ErrInvalidEntry (AccountTwice (leg_account l)))
      else check_legs (i + 1) (leg_account l # seen) (acc + leg_value l) ls)"

definition validate_legs :: "leg list \<Rightarrow> ledger_error option" where
  "validate_legs legs =
     (if length legs < 2 then Some (ErrInvalidEntry (TooFewLegs (length legs)))
      else check_legs 0 [] 0 legs)"

definition validate_entry :: "entry \<Rightarrow> ledger_error option" where
  "validate_entry e =
     (if e_id e = '''' then Some (ErrInvalidEntry IdRequired)
      else if ref_is_zero (e_ref e) then Some (ErrInvalidEntry RefRequired)
      else if asset_chain (e_asset e) = '''' \<or> asset_token (e_asset e) = ''''
        then Some (ErrInvalidEntry AssetRequired)
      else if e_by e = '''' then Some (ErrInvalidEntry ByRequired)
      else if e_at e = 0 then Some (ErrInvalidEntry AtRequired)
      else case e_kind e of
          KindHold \<Rightarrow>
            if e_holds e \<noteq> '''' then Some (ErrInvalidEntry HoldReferencesHold) else validate_legs (e_legs e)
        | KindPost \<Rightarrow>
            if e_holds e = '''' then Some (ErrInvalidEntry PostNeedsHold) else validate_legs (e_legs e)
        | KindVoid \<Rightarrow>
            if e_holds e = '''' then Some (ErrInvalidEntry VoidNeedsHold)
            else if e_legs e \<noteq> [] then Some (ErrInvalidEntry VoidHasLegs)
            else None
        | KindOther s \<Rightarrow> Some (ErrInvalidEntry (UnknownKind s)))"

text \<open>The comparison of two legs is \<open>big.Int.Cmp\<close>, by value.\<close>

definition same_entry :: "entry \<Rightarrow> entry \<Rightarrow> bool" where
  "same_entry e x \<longleftrightarrow>
     e_id e = e_id x \<and> e_ref e = e_ref x \<and> e_kind e = e_kind x \<and> e_holds e = e_holds x
     \<and> e_asset e = e_asset x \<and> e_by e = e_by x \<and> e_at e = e_at x \<and> e_tx_hash e = e_tx_hash x
     \<and> e_memo e = e_memo x \<and> length (e_legs e) = length (e_legs x)
     \<and> list_all2 (\<lambda>l m. leg_account l = leg_account m \<and> leg_value l = leg_value m) (e_legs e) (e_legs x)"

subsection \<open>The preimage of the hash chain\<close>

definition ledger_domain_v1 :: string where
  "ledger_domain_v1 = ''stablecoin-settlement-engine/ledger-journal/v1''"

definition amount_text :: "int option \<Rightarrow> string" where
  "amount_text a = (case a of None \<Rightarrow> ''<nil>'' | Some v \<Rightarrow> show_int v)"

definition entry_preimage :: "platform \<Rightarrow> hash \<Rightarrow> entry \<Rightarrow> bytes" where
  "entry_preimage p prev e =
     put_field ledger_domain_v1 @ prev @ uvarint (unat (e_seq e)) @ put_field (e_id e) @ e_ref e
     @ put_field (kind_name (e_kind e)) @ put_field (e_holds e)
     @ put_field (asset_chain (e_asset e)) @ put_field (asset_token (e_asset e))
     @ uvarint (length (e_legs e))
     @ concat (map (\<lambda>l. put_field (leg_account l) @ put_field (amount_text (leg_amount l))) (e_legs e))
     @ put_field (e_by e) @ put_field (rfc3339nano p (e_at e)) @ put_field (e_tx_hash e) @ put_field (e_memo e)"

definition hash_entry :: "platform \<Rightarrow> hash \<Rightarrow> entry \<Rightarrow> hash" where
  "hash_entry p prev e = sha256 p (entry_preimage p prev e)"

subsection \<open>Facts\<close>

lemma check_legs_None:
  "check_legs i seen acc ls = None \<Longrightarrow>
     acc + sum_list (map leg_value ls) = 0 \<and> distinct (map leg_account ls)
     \<and> set (map leg_account ls) \<inter> set seen = {}
     \<and> list_all (\<lambda>l. leg_account l \<noteq> [] \<and> (\<exists>a. leg_amount l = Some a \<and> a \<noteq> 0)) ls"
  by (induction i seen acc ls rule: check_legs.induct) (auto split: if_splits)

lemma check_legs_complete:
  "acc + sum_list (map leg_value ls) = 0 \<Longrightarrow> distinct (map leg_account ls) \<Longrightarrow>
   set (map leg_account ls) \<inter> set seen = {} \<Longrightarrow>
   list_all (\<lambda>l. leg_account l \<noteq> [] \<and> (\<exists>a. leg_amount l = Some a \<and> a \<noteq> 0)) ls \<Longrightarrow>
     check_legs i seen acc ls = None"
  by (induction i seen acc ls rule: check_legs.induct) auto

definition legs_balanced :: "leg list \<Rightarrow> bool" where
  "legs_balanced ls \<longleftrightarrow> 2 \<le> length ls \<and> sum_list (map leg_value ls) = 0 \<and> distinct (map leg_account ls)
     \<and> list_all (\<lambda>l. leg_account l \<noteq> [] \<and> (\<exists>a. leg_amount l = Some a \<and> a \<noteq> 0)) ls"

lemma validate_legs_iff [simp]: "validate_legs ls = None \<longleftrightarrow> legs_balanced ls"
  using check_legs_None [of 0 "[]" 0 ls] check_legs_complete [of 0 ls "[]" 0]
  by (auto simp: validate_legs_def legs_balanced_def)

lemma validate_entry_iff:
  "validate_entry e = None \<longleftrightarrow>
     e_id e \<noteq> [] \<and> \<not> ref_is_zero (e_ref e) \<and> asset_chain (e_asset e) \<noteq> [] \<and> asset_token (e_asset e) \<noteq> []
     \<and> e_by e \<noteq> [] \<and> e_at e \<noteq> 0
     \<and> ((e_kind e = KindHold \<and> e_holds e = [] \<and> legs_balanced (e_legs e))
        \<or> (e_kind e = KindPost \<and> e_holds e \<noteq> [] \<and> legs_balanced (e_legs e))
        \<or> (e_kind e = KindVoid \<and> e_holds e \<noteq> [] \<and> e_legs e = []))"
  by (auto simp: validate_entry_def split: kind.splits if_splits)

lemma valid_entry_legs:
  "validate_entry e = None \<Longrightarrow> sum_list (map leg_value (e_legs e)) = 0
     \<and> list_all (\<lambda>l. \<exists>a. leg_amount l = Some a) (e_legs e)"
  by (auto simp: validate_entry_iff legs_balanced_def list_all_iff)

text \<open>The caller's half of an entry.\<close>

definition caller_half :: "entry \<Rightarrow> entry" where
  "caller_half e = e\<lparr>e_seq := 0, e_prev_hash := [], e_hash := []\<rparr>"

lemma same_entry_refl [simp]: "same_entry e e"
  by (simp add: same_entry_def list_all2_refl)

lemma legs_eqI:
  "list_all2 (\<lambda>l m. leg_account l = leg_account m \<and> leg_value l = leg_value m) ls ms \<Longrightarrow>
   list_all (\<lambda>l. \<exists>a. leg_amount l = Some a) ls \<Longrightarrow> list_all (\<lambda>l. \<exists>a. leg_amount l = Some a) ms \<Longrightarrow>
     ls = (ms :: leg list)"
  by (induction rule: list_all2_induct) (auto simp: leg_value_def)

lemma same_entry_iff:
  assumes "validate_entry e = None" "validate_entry x = None"
  shows "same_entry e x \<longleftrightarrow> caller_half e = caller_half x"
proof
  assume s: "same_entry e x"
  then have "e_legs e = e_legs x"
    using valid_entry_legs [OF assms(1)] valid_entry_legs [OF assms(2)] legs_eqI
    by (auto simp: same_entry_def)
  with s show "caller_half e = caller_half x"
    by (cases e, cases x) (simp add: same_entry_def caller_half_def)
next
  assume "caller_half e = caller_half x"
  then show "same_entry e x"
    by (cases e, cases x) (simp add: same_entry_def caller_half_def list_all2_refl)
qed

subsection \<open>The printed entry\<close>

definition ellipsis :: string where
  "ellipsis = [CHR 0xE2, CHR 0x80, CHR 0xA6]"

definition short_entry_hex :: "string \<Rightarrow> string" where
  "short_entry_hex s = (if 12 < length s \<and> take 2 s = ''0x'' then take 10 s @ ellipsis else s)"

definition short_ledger_account :: "account \<Rightarrow> string" where
  "short_ledger_account a =
     (let kind = takeWhile (\<lambda>c. c \<noteq> CHR '':'') a; owner = drop (length kind + 1) a in
      if CHR '':'' \<notin> set a \<or> length owner \<noteq> 42 \<or> take 2 owner \<noteq> ''0x'' then a
      else kind @ '':'' @ take 6 owner @ ellipsis @ drop 38 owner)"

definition signed_text :: "int \<Rightarrow> string" where
  "signed_text v = (if 0 < v then ''+'' @ show_int v else show_int v)"

definition entry_text :: "entry \<Rightarrow> string" where
  "entry_text e = ''#'' @ pad_right 2 (show_nat (unat (e_seq e))) @ '' '' @ pad_right 4 (kind_name (e_kind e)) @ '' '' @
     short_entry_hex (ref_string (e_ref e)) @ ''  by '' @ pad_right 8 (e_by e) @
     concat (map (\<lambda>l. ''  '' @ short_ledger_account (leg_account l) @ '' '' @ signed_text (leg_value l)) (e_legs e)) @
     (if e_tx_hash e \<noteq> '''' then ''  tx '' @ e_tx_hash e else '''') @ (if e_memo e \<noteq> '''' then ''  ('' @ e_memo e @ '')'' else '''')"

text \<open>A printed amount can be read back, and shows its sign.\<close>

lemma signed_text_reads: "parse_int (signed_text v) = Some v"
proof (cases "0 < v")
  case True
  then show ?thesis by (simp add: signed_text_def show_int_def parse_int_def Let_def show_nat_digits)
next
  case False
  then show ?thesis by (simp add: signed_text_def parse_show_int)
qed

text \<open>Accounts that are no addresses are printed as they are; of an address, the account's kind and its two ends.\<close>

lemma short_account_short: "length a < 44 \<Longrightarrow> short_ledger_account (''payer:'' @ a) = ''payer:'' @ (if length a = 42 \<and> take 2 a = ''0x''
    then take 6 a @ ellipsis @ drop 38 a else a)"
  by (simp add: short_ledger_account_def Let_def)

subsection \<open>The preimage is injective\<close>

text \<open>
  What a stored entry looks like in memory: its ref and the two hashes are 32-byte arrays, and every
  amount is there.
\<close>

definition entry_sized :: "entry \<Rightarrow> bool" where
  "entry_sized e \<longleftrightarrow> length (e_ref e) = ref_size \<and> length (e_prev_hash e) = 32 \<and> length (e_hash e) = 32
     \<and> list_all (\<lambda>l. \<exists>a. leg_amount l = Some a) (e_legs e)"

text \<open>What the library functions promise: digests of 32 bytes, and different instants print differently.\<close>

definition platform_ok :: "platform \<Rightarrow> bool" where
  "platform_ok p \<longleftrightarrow> (\<forall>b. length (sha256 p b) = 32) \<and> inj (rfc3339nano p)"

lemma demo_platform_ok: "platform_ok demo_platform"
  by (simp add: platform_ok_def demo_platform_def inj_def)

lemma kind_name_inj:
  "validate_entry e = None \<Longrightarrow> validate_entry x = None \<Longrightarrow>
     kind_name (e_kind e) = kind_name (e_kind x) \<longleftrightarrow> e_kind e = e_kind x"
  by (auto simp: validate_entry_iff)

lemma leg_fields_inj:
  "length ls = length ms \<Longrightarrow>
   concat (map (\<lambda>l. put_field (leg_account l) @ put_field (amount_text (leg_amount l))) ls) @ xs =
   concat (map (\<lambda>l. put_field (leg_account l) @ put_field (amount_text (leg_amount l))) ms) @ ys \<Longrightarrow>
   list_all (\<lambda>l. \<exists>a. leg_amount l = Some a) ls \<Longrightarrow> list_all (\<lambda>l. \<exists>a. leg_amount l = Some a) ms \<Longrightarrow>
     ls = (ms :: leg list) \<and> xs = ys"
  by (induction rule: list_induct2) (auto simp: amount_text_def)

lemma entry_preimage_inj:
  assumes pf: "platform_ok p" and len: "length prev = length prev'"
    and sz: "entry_sized e" "entry_sized x"
    and va: "validate_entry e = None" "validate_entry x = None"
    and eq: "entry_preimage p prev e = entry_preimage p prev' x"
  shows "prev = prev' \<and> e_seq e = e_seq x \<and> caller_half e = caller_half x"
proof -
  have rl: "length (e_ref e) = length (e_ref x)" using sz by (simp add: entry_sized_def)
  let ?legs = "\<lambda>y. concat (map (\<lambda>l. put_field (leg_account l) @ put_field (amount_text (leg_amount l))) (e_legs y))"
  let ?rest = "\<lambda>y. put_field (e_by y) @ put_field (rfc3339nano p (e_at y)) @ put_field (e_tx_hash y) @ put_field (e_memo y)"
  from eq len rl have a: "prev = prev'" "unat (e_seq e) = unat (e_seq x)" "e_id e = e_id x"
    and b: "e_ref e = e_ref x" "kind_name (e_kind e) = kind_name (e_kind x)" "e_holds e = e_holds x"
      "asset_chain (e_asset e) = asset_chain (e_asset x)" "asset_token (e_asset e) = asset_token (e_asset x)"
    and ll: "length (e_legs e) = length (e_legs x)"
    and r2: "?legs e @ ?rest e = ?legs x @ ?rest x"
    unfolding entry_preimage_def by (simp_all add: append_eq_append_conv)
  from leg_fields_inj [OF ll r2] sz
  have c: "e_legs e = e_legs x" "e_by e = e_by x" "rfc3339nano p (e_at e) = rfc3339nano p (e_at x)"
      "e_tx_hash e = e_tx_hash x" "e_memo e = e_memo x"
    by (auto simp: entry_sized_def)
  from pf c(3) have "e_at e = e_at x" by (simp add: platform_ok_def inj_eq)
  moreover have "e_seq e = e_seq x" "e_asset e = e_asset x"
    using a(2) b(4,5) by (auto simp: word_unat_eq_iff)
  ultimately show ?thesis using a b c kind_name_inj [OF va]
    by (cases e, cases x) (simp add: caller_half_def)
qed

end
