(* ===== verification/Journal.thy ===== *)
theory Journal
  imports Ledger
begin

section \<open>The append-only journal\<close>

text \<open>
  Models \<open>internal/ledger/journal.go\<close>: \<open>MemoryJournal\<close> with \<open>Append\<close>, \<open>Get\<close>, \<open>ByRef\<close>, \<open>Balance\<close>
  and \<open>Scan\<close>, the projection \<open>Balances\<close> and \<open>Verify\<close>. The index \<open>byID\<close> and the set \<open>resolved\<close> are
  functions; every method runs under the journal's mutex, so each is one step.

  \<open>admissible\<close> is the abstract specification of the journal, a property of the list of entries alone;
  \<open>ledger_ok\<close> are the lists built by admissible steps. The lemmas show that \<open>Append\<close> implements it and
  nothing else, that the projection equals the sums over open holds and posts, that both are zero over
  all accounts, and that the hash chain commits to every entry.
\<close>

subsection \<open>State and operations\<close>

record memory_journal =
  j_entries :: "entry list"
  j_by_id :: "string \<Rightarrow> nat option"
  j_resolved :: "string \<Rightarrow> bool"

definition new_journal :: memory_journal where
  "new_journal = \<lparr>j_entries = [], j_by_id = (\<lambda>_. None), j_resolved = (\<lambda>_. False)\<rparr>"

definition zero_hash :: hash where
  "zero_hash = replicate 32 (CHR 0x00)"

text \<open>The check of a post or void against the hold it names.\<close>

definition check_hold :: "memory_journal \<Rightarrow> entry \<Rightarrow> ledger_error option" where
  "check_hold j e =
     (if e_kind e = KindPost \<or> e_kind e = KindVoid then
        (case j_by_id j (e_holds e) of
           None \<Rightarrow> Some (ErrNoSuchHold (e_id e) (e_holds e))
         | Some i \<Rightarrow>
             let h = j_entries j ! i in
             if e_kind h \<noteq> KindHold \<or> e_ref h \<noteq> e_ref e \<or> e_asset h \<noteq> e_asset e
               then Some (ErrNoSuchHold (e_id e) (e_holds e))
             else if j_resolved j (e_holds e) then Some (ErrAlreadyResolved (e_holds e))
             else None)
      else None)"

definition seal :: "platform \<Rightarrow> entry list \<Rightarrow> entry \<Rightarrow> entry" where
  "seal p es e =
     (let prev = (if es = [] then zero_hash else e_hash (last es));
          st = e\<lparr>e_seq := of_nat (length es) + 1, e_prev_hash := prev\<rparr>
      in st\<lparr>e_hash := hash_entry p prev st\<rparr>)"

definition append_entry :: "platform \<Rightarrow> memory_journal \<Rightarrow> entry \<Rightarrow> ledger_error + (entry \<times> bool \<times> memory_journal)" where
  "append_entry p j e =
     (case validate_entry e of
        Some err \<Rightarrow> Inl err
      | None \<Rightarrow>
          (case j_by_id j (e_id e) of
             Some i \<Rightarrow>
               if same_entry (j_entries j ! i) e then Inr (j_entries j ! i, False, j)
               else Inl (ErrConflict (e_id e))
           | None \<Rightarrow>
               (case check_hold j e of
                  Some err \<Rightarrow> Inl err
                | None \<Rightarrow>
                    let stored = seal p (j_entries j) e in
                    Inr (stored, True,
                      j\<lparr>j_entries := j_entries j @ [stored],
                        j_by_id := (j_by_id j)(e_id stored \<mapsto> length (j_entries j)),
                        j_resolved := (if e_kind stored \<noteq> KindHold
                                       then (j_resolved j)(e_holds stored := True) else j_resolved j)\<rparr>))))"

definition journal_get :: "memory_journal \<Rightarrow> string \<Rightarrow> ledger_error + entry" where
  "journal_get j k = (case j_by_id j k of None \<Rightarrow> Inl (ErrEntryNotFound k) | Some i \<Rightarrow> Inr (j_entries j ! i))"

definition journal_by_ref :: "memory_journal \<Rightarrow> ref \<Rightarrow> entry list" where
  "journal_by_ref j r = filter (\<lambda>e. e_ref e = r) (j_entries j)"

text \<open>\<open>Scan\<close> threads the caller's state through the entries and stops at the first error.\<close>

fun scan_entries :: "('s \<Rightarrow> entry \<Rightarrow> 'e + 's) \<Rightarrow> 's \<Rightarrow> entry list \<Rightarrow> 'e + 's" where
  "scan_entries f s [] = Inr s"
| "scan_entries f s (e # es) = (case f s e of Inl err \<Rightarrow> Inl err | Inr s' \<Rightarrow> scan_entries f s' es)"

definition verify_step :: "platform \<Rightarrow> hash \<times> u64 \<Rightarrow> entry \<Rightarrow> ledger_error + (hash \<times> u64)" where
  "verify_step p = (\<lambda>(prev, want) e.
     if e_seq e \<noteq> want then Inl (ErrChainBroken (e_seq e))
     else if e_prev_hash e \<noteq> prev then Inl (ErrChainBroken (e_seq e))
     else if hash_entry p prev e \<noteq> e_hash e then Inl (ErrChainBroken (e_seq e))
     else Inr (e_hash e, want + 1))"

definition verify :: "platform \<Rightarrow> memory_journal \<Rightarrow> ledger_error option" where
  "verify p j = (case scan_entries (verify_step p) (zero_hash, 1) (j_entries j) of
     Inl err \<Rightarrow> Some err | Inr _ \<Rightarrow> None)"

subsection \<open>The projection\<close>

record balance =
  pending :: int
  posted :: int

type_synonym balance_key = "account \<times> asset"

definition zero_balance :: balance where
  "zero_balance = \<lparr>pending = 0, posted = 0\<rparr>"

definition balance_of :: "(balance_key \<Rightarrow> balance option) \<Rightarrow> balance_key \<Rightarrow> balance" where
  "balance_of out k = (case out k of None \<Rightarrow> zero_balance | Some b \<Rightarrow> b)"

definition add_pending :: "asset \<Rightarrow> int \<Rightarrow> leg \<Rightarrow> (balance_key \<Rightarrow> balance option) \<Rightarrow> balance_key \<Rightarrow> balance option" where
  "add_pending a sign l out =
     (let k = (leg_account l, a); b = balance_of out k
      in out(k \<mapsto> b\<lparr>pending := pending b + sign * leg_value l\<rparr>))"

definition add_posted :: "asset \<Rightarrow> leg \<Rightarrow> (balance_key \<Rightarrow> balance option) \<Rightarrow> balance_key \<Rightarrow> balance option" where
  "add_posted a l out =
     (let k = (leg_account l, a); b = balance_of out k
      in out(k \<mapsto> b\<lparr>posted := posted b + leg_value l\<rparr>))"

type_synonym projection = "(string \<Rightarrow> entry option) \<times> (balance_key \<Rightarrow> balance option)"

text \<open>An entry whose hold is missing subtracts nothing: Go reads the zero \<open>Entry\<close>, which has no legs.\<close>

definition project_entry :: "entry \<Rightarrow> projection \<Rightarrow> projection" where
  "project_entry e = (\<lambda>(holds, out).
     case e_kind e of
       KindHold \<Rightarrow> (holds(e_id e \<mapsto> e), fold (add_pending (e_asset e) 1) (e_legs e) out)
     | KindOther _ \<Rightarrow> (holds, out)
     | _ \<Rightarrow>
         let out1 = (case holds (e_holds e) of
                       None \<Rightarrow> out
                     | Some h \<Rightarrow> fold (add_pending (e_asset h) (- 1)) (e_legs h) out)
         in (holds, fold (add_posted (e_asset e)) (e_legs e) out1))"

definition balances :: "entry list \<Rightarrow> balance_key \<Rightarrow> balance option" where
  "balances es = snd (fold project_entry es (\<lambda>_. None, \<lambda>_. None))"

definition journal_balance :: "memory_journal \<Rightarrow> account \<Rightarrow> asset \<Rightarrow> balance" where
  "journal_balance j acct a = balance_of (balances (j_entries j)) (acct, a)"

subsection \<open>The abstract journal\<close>

definition resolved_in :: "entry list \<Rightarrow> string \<Rightarrow> bool" where
  "resolved_in es h \<longleftrightarrow> list_ex (\<lambda>e. e_kind e \<noteq> KindHold \<and> e_holds e = h) es"

definition holds_money :: "entry list \<Rightarrow> entry \<Rightarrow> bool" where
  "holds_money es e \<longleftrightarrow> list_ex (\<lambda>h. e_id h = e_holds e \<and> e_kind h = KindHold \<and> e_ref h = e_ref e
     \<and> e_asset h = e_asset e) es"

definition admissible :: "entry list \<Rightarrow> entry \<Rightarrow> bool" where
  "admissible es e \<longleftrightarrow> validate_entry e = None \<and> list_all (\<lambda>x. e_id x \<noteq> e_id e) es
     \<and> (e_kind e \<noteq> KindHold \<longrightarrow> holds_money es e \<and> \<not> resolved_in es (e_holds e))"

inductive ledger_ok :: "entry list \<Rightarrow> bool" where
  empty: "ledger_ok []"
| snoc: "ledger_ok es \<Longrightarrow> admissible es e \<Longrightarrow> ledger_ok (es @ [e])"

inductive_cases ledger_ok_snocE: "ledger_ok (es @ [e])"

lemma ledger_ok_snoc: "ledger_ok (es @ [e]) \<longleftrightarrow> ledger_ok es \<and> admissible es e"
  by (auto elim: ledger_ok_snocE intro: ledger_ok.snoc)

lemma resolved_in_snoc [simp]:
  "resolved_in (es @ [e]) h \<longleftrightarrow> resolved_in es h \<or> (e_kind e \<noteq> KindHold \<and> e_holds e = h)"
  by (auto simp: resolved_in_def)

lemma ledger_ok_distinct: "ledger_ok es \<Longrightarrow> distinct (map e_id es)"
  by (induction rule: ledger_ok.induct) (auto simp: admissible_def list_all_iff)

lemma ledger_ok_valid: "ledger_ok es \<Longrightarrow> e \<in> set es \<Longrightarrow> validate_entry e = None"
  by (induction rule: ledger_ok.induct) (auto simp: admissible_def)

text \<open>A resolving entry names a hold that stands before it.\<close>

lemma resolved_in_ids: "ledger_ok es \<Longrightarrow> resolved_in es h \<Longrightarrow> \<exists>x \<in> set es. e_id x = h"
proof (induction rule: ledger_ok.induct)
  case empty
  then show ?case by (simp add: resolved_in_def)
next
  case (snoc es e)
  then show ?case by (auto simp: admissible_def holds_money_def list_ex_iff intro: rev_image_eqI)
qed

lemma resolved_once:
  "ledger_ok es \<Longrightarrow> length (filter (\<lambda>e. e_kind e \<noteq> KindHold \<and> e_holds e = h) es) \<le> 1"
proof (induction rule: ledger_ok.induct)
  case (snoc es e)
  then show ?case
    by (auto simp: admissible_def resolved_in_def list_ex_iff filter_empty_conv)
qed simp

lemma seal_frame [simp]:
  "e_id (seal p es e) = e_id e" "e_ref (seal p es e) = e_ref e" "e_kind (seal p es e) = e_kind e"
  "e_holds (seal p es e) = e_holds e" "e_asset (seal p es e) = e_asset e" "e_legs (seal p es e) = e_legs e"
  "e_by (seal p es e) = e_by e" "e_at (seal p es e) = e_at e"
  "e_tx_hash (seal p es e) = e_tx_hash e" "e_memo (seal p es e) = e_memo e" "e_seq (seal p es e) = of_nat (length es) + 1"
  by (simp_all add: seal_def Let_def)

lemma seal_checks [simp]:
  "validate_entry (seal p es e) = validate_entry e"
  "same_entry (seal p es e) x = same_entry e x" "same_entry x (seal p es e) = same_entry x e"
  by (simp_all add: validate_entry_def same_entry_def cong: kind.case_cong if_cong)

lemma admissible_seal [simp]: "admissible es (seal p fs e) \<longleftrightarrow> admissible es e"
  by (simp add: admissible_def holds_money_def)

subsection \<open>Append implements the abstract journal\<close>

lemma scan_entries_snoc:
  "scan_entries f s (es @ [e]) = (case scan_entries f s es of Inl err \<Rightarrow> Inl err | Inr s' \<Rightarrow> f s' e)"
  by (induction f s es rule: scan_entries.induct) (auto split: sum.splits)

definition chain_end :: "entry list \<Rightarrow> hash" where
  "chain_end es = (if es = [] then zero_hash else e_hash (last es))"

lemma chain_end_simps [simp]: "chain_end [] = zero_hash" "chain_end (es @ [e]) = e_hash e"
  by (simp_all add: chain_end_def)

definition chain_ok :: "platform \<Rightarrow> entry list \<Rightarrow> bool" where
  "chain_ok p es \<longleftrightarrow> scan_entries (verify_step p) (zero_hash, 1) es = Inr (chain_end es, of_nat (length es) + 1)"

lemma chain_ok_Nil [simp]: "chain_ok p []"
  by (simp add: chain_ok_def)

lemma verify_end:
  "scan_entries (verify_step p) (zero_hash, 1) es = Inr s \<Longrightarrow> s = (chain_end es, of_nat (length es) + 1)"
proof (induction es arbitrary: s rule: rev_induct)
  case (snoc e es)
  then show ?case
    by (auto simp: scan_entries_snoc verify_step_def split: sum.splits if_splits)
qed simp

lemma verify_iff: "verify p j = None \<longleftrightarrow> chain_ok p (j_entries j)"
  by (auto simp: verify_def chain_ok_def dest: verify_end split: sum.splits)

lemma chain_ok_snoc:
  "chain_ok p (es @ [e]) \<longleftrightarrow> chain_ok p es \<and> e_seq e = of_nat (length es) + 1
     \<and> e_prev_hash e = chain_end es \<and> e_hash e = hash_entry p (chain_end es) e"
proof -
  have "chain_ok p es" if "chain_ok p (es @ [e])"
    using that by (auto simp: chain_ok_def scan_entries_snoc dest: verify_end split: sum.splits)
  then show ?thesis
    by (auto simp: chain_ok_def scan_entries_snoc verify_step_def split: sum.splits if_splits)
qed

lemma seal_chain: "chain_ok p es \<Longrightarrow> chain_ok p (es @ [seal p es e])"
  by (simp add: chain_ok_snoc)
    (simp add: seal_def Let_def chain_end_def hash_entry_def entry_preimage_def)

definition journal_inv :: "platform \<Rightarrow> memory_journal \<Rightarrow> bool" where
  "journal_inv p j \<longleftrightarrow> ledger_ok (j_entries j) \<and> chain_ok p (j_entries j)
     \<and> (\<forall>k i. j_by_id j k = Some i \<longleftrightarrow> i < length (j_entries j) \<and> e_id (j_entries j ! i) = k)
     \<and> (\<forall>h. j_resolved j h \<longleftrightarrow> resolved_in (j_entries j) h)"

lemma journal_inv_new [inv_intros]: "journal_inv p new_journal"
  by (simp add: journal_inv_def new_journal_def ledger_ok.empty resolved_in_def)

lemma by_id_None:
  assumes "journal_inv p j"
  shows "j_by_id j k = None \<longleftrightarrow> (\<forall>x \<in> set (j_entries j). e_id x \<noteq> k)"
proof -
  have "j_by_id j k \<noteq> None \<longleftrightarrow> (\<exists>i. j_by_id j k = Some i)" by auto
  also have "\<dots> \<longleftrightarrow> (\<exists>i < length (j_entries j). e_id (j_entries j ! i) = k)"
    using assms by (auto simp: journal_inv_def)
  also have "\<dots> \<longleftrightarrow> (\<exists>x \<in> set (j_entries j). e_id x = k)"
    by (metis in_set_conv_nth)
  finally show ?thesis by blast
qed

lemma by_id_Some:
  "journal_inv p j \<Longrightarrow> j_by_id j k = Some i \<Longrightarrow> j_entries j ! i \<in> set (j_entries j) \<and> e_id (j_entries j ! i) = k"
  by (simp add: journal_inv_def)

lemma same_id_same_entry:
  "ledger_ok es \<Longrightarrow> x \<in> set es \<Longrightarrow> y \<in> set es \<Longrightarrow> e_id x = e_id y \<Longrightarrow> x = y"
  using ledger_ok_distinct by (auto simp: distinct_map dest: inj_onD)

lemma check_hold_iff:
  assumes inv: "journal_inv p j" and va: "validate_entry e = None"
  shows "check_hold j e = None \<longleftrightarrow>
     (e_kind e \<noteq> KindHold \<longrightarrow> holds_money (j_entries j) e \<and> \<not> resolved_in (j_entries j) (e_holds e))"
proof (cases "j_by_id j (e_holds e)")
  case None
  then have "\<not> holds_money (j_entries j) e"
    using by_id_None [OF inv] by (auto simp: holds_money_def list_ex_iff)
  with None va show ?thesis by (auto simp: check_hold_def validate_entry_iff)
next
  case (Some i)
  then have h: "j_entries j ! i \<in> set (j_entries j)" "e_id (j_entries j ! i) = e_holds e"
    using by_id_Some [OF inv] by auto
  have "x = j_entries j ! i" if "x \<in> set (j_entries j)" "e_id x = e_holds e" for x
    using same_id_same_entry [OF _ that(1) h(1)] that(2) h(2) inv by (simp add: journal_inv_def)
  with h have "holds_money (j_entries j) e \<longleftrightarrow>
      e_kind (j_entries j ! i) = KindHold \<and> e_ref (j_entries j ! i) = e_ref e \<and> e_asset (j_entries j ! i) = e_asset e"
    unfolding holds_money_def list_ex_iff by blast
  moreover have "e_kind e \<noteq> KindHold \<longleftrightarrow> e_kind e = KindPost \<or> e_kind e = KindVoid"
    using va by (auto simp: validate_entry_iff)
  moreover have "j_resolved j (e_holds e) \<longleftrightarrow> resolved_in (j_entries j) (e_holds e)"
    using inv by (simp add: journal_inv_def)
  ultimately show ?thesis by (auto simp: check_hold_def Some Let_def)
qed

lemma append_applied_iff:
  assumes "journal_inv p j"
  shows "(\<exists>j'. append_entry p j e = Inr (st, True, j')) \<longleftrightarrow> admissible (j_entries j) e \<and> st = seal p (j_entries j) e"
  using by_id_None [OF assms, of "e_id e"] check_hold_iff [OF assms, of e]
  by (auto simp: append_entry_def admissible_def Let_def list_all_iff split: option.splits if_splits)

lemma append_applied_entries:
  "append_entry p j e = Inr (st, True, j') \<Longrightarrow> j_entries j' = j_entries j @ [st] \<and> e_id st = e_id e"
  by (auto simp: append_entry_def Let_def split: option.splits if_splits)

lemma append_replay_iff:
  assumes "journal_inv p j"
  shows "append_entry p j e = Inr (st, False, j') \<longleftrightarrow>
     validate_entry e = None \<and> st \<in> set (j_entries j) \<and> e_id st = e_id e \<and> same_entry st e \<and> j' = j"
proof -
  have "st = j_entries j ! i"
    if "j_by_id j (e_id e) = Some i" "st \<in> set (j_entries j)" "e_id st = e_id e" for i
    using by_id_Some [OF assms that(1)] that same_id_same_entry assms unfolding journal_inv_def by metis
  moreover have "\<exists>i. j_by_id j (e_id e) = Some i" if "st \<in> set (j_entries j)" "e_id st = e_id e"
    using by_id_None [OF assms, of "e_id e"] that by (cases "j_by_id j (e_id e)") auto
  ultimately show ?thesis
    using by_id_Some [OF assms, of "e_id e"]
    by (auto simp: append_entry_def Let_def split: option.splits if_splits)
qed

lemma append_inv [inv_intros]:
  assumes inv: "journal_inv p j" and ap: "append_entry p j e = Inr (st, b, j')"
  shows "journal_inv p j'"
proof (cases b)
  case True
  with ap have ap': "append_entry p j e = Inr (st, True, j')" by simp
  then have ad: "admissible (j_entries j) e" "st = seal p (j_entries j) e"
    using append_applied_iff [OF inv] by blast+
  have es: "j_entries j' = j_entries j @ [st]" "j_by_id j' = (j_by_id j)(e_id e \<mapsto> length (j_entries j))"
      "j_resolved j' = (if e_kind e \<noteq> KindHold then (j_resolved j)(e_holds e := True) else j_resolved j)"
    using ap' by (auto simp: append_entry_def Let_def split: option.splits if_splits)
  have "e_id (j_entries j ! i) \<noteq> e_id e" if "i < length (j_entries j)" for i
    using ad(1) nth_mem [OF that] by (auto simp: admissible_def list_all_iff)
  then show ?thesis
    using inv ad unfolding journal_inv_def es
    by (auto simp: ledger_ok_snoc seal_chain nth_append less_Suc_eq dest: nth_mem)
next
  case False
  with append_replay_iff [OF inv] ap inv show ?thesis by auto
qed

subsection \<open>The interface: an append-only log with idempotent appends\<close>

locale append_log =
  fixes scan :: "'s \<Rightarrow> entry list"
    and append :: "'s \<Rightarrow> entry \<Rightarrow> ledger_error + (entry \<times> bool \<times> 's)"
    and inv :: "'s \<Rightarrow> bool"
  assumes append_new: "inv s \<Longrightarrow> append s e = Inr (st, True, s') \<Longrightarrow>
      inv s' \<and> scan s' = scan s @ [st] \<and> e_id st = e_id e \<and> same_entry st e"
    and append_replay: "inv s \<Longrightarrow> append s e = Inr (st, False, s') \<Longrightarrow> s' = s \<and> st \<in> set (scan s)"
    and append_again: "inv s \<Longrightarrow> st \<in> set (scan s) \<Longrightarrow> e_id st = e_id e \<Longrightarrow> validate_entry e = None \<Longrightarrow>
      append s e = (if same_entry st e then Inr (st, False, s) else Inl (ErrConflict (e_id e)))"
begin

definition submit :: "'s \<Rightarrow> entry \<Rightarrow> 's" where
  "submit s e = (case append s e of Inl _ \<Rightarrow> s | Inr (_, _, s') \<Rightarrow> s')"

lemma submit_cases:
  assumes "inv s"
  shows "inv (submit s e) \<and> (submit s e = s \<or> (\<exists>st. scan (submit s e) = scan s @ [st]))"
proof (cases "append s e")
  case (Inr r)
  obtain st b s' where "r = (st, b, s')" by (cases r)
  with Inr assms append_new [of s e st s'] append_replay [of s e st s'] show ?thesis
    by (cases b) (auto simp: submit_def)
qed (simp add: submit_def assms)

text \<open>Whatever is submitted, by whomever, the log only grows at its end.\<close>

lemma submits_extend:
  "inv s \<Longrightarrow> inv (fold (\<lambda>e s. submit s e) es s) \<and> (\<exists>new. scan (fold (\<lambda>e s. submit s e) es s) = scan s @ new)"
proof (induction es arbitrary: s)
  case (Cons e es)
  from submit_cases [OF Cons.prems, of e]
  obtain new1 where i: "inv (submit s e)" and n: "scan (submit s e) = scan s @ new1"
    by (metis append_Nil2)
  from Cons.IH [OF i] n show ?case by auto
qed simp

text \<open>An append that went through is recognised for ever, and its id is taken for ever.\<close>

lemma replay_for_ever:
  assumes "inv s" "append s e = Inr (st, True, s1)" "s2 = fold (\<lambda>e s. submit s e) es s1"
    and "validate_entry x = None" "e_id x = e_id e"
  shows "append s2 x = (if same_entry st x then Inr (st, False, s2) else Inl (ErrConflict (e_id x)))"
proof -
  note new = append_new [OF assms(1,2)]
  then obtain more where "inv s2" "scan s2 = (scan s @ [st]) @ more"
    using submits_extend [of s1 es] assms(3) by auto
  then show ?thesis
    using append_again [of s2 st x] new assms(4,5) by simp
qed

end

interpretation mj: append_log j_entries "append_entry p" "journal_inv p" for p
proof
  fix s e st s'
  assume inv: "journal_inv p s"
  { assume ap: "append_entry p s e = Inr (st, True, s')"
    then have "st = seal p (j_entries s) e" using append_applied_iff [OF inv] by blast
    then show "journal_inv p s' \<and> j_entries s' = j_entries s @ [st] \<and> e_id st = e_id e \<and> same_entry st e"
      using append_inv [OF inv ap] append_applied_entries [OF ap] by simp }
  { assume "append_entry p s e = Inr (st, False, s')"
    then show "s' = s \<and> st \<in> set (j_entries s)" using append_replay_iff [OF inv] by blast }
  { assume a: "st \<in> set (j_entries s)" "e_id st = e_id e" "validate_entry e = None"
    obtain i where i: "j_by_id s (e_id e) = Some i"
      using by_id_None [OF inv, of "e_id e"] a by (cases "j_by_id s (e_id e)") auto
    have "j_entries s ! i = st"
      using by_id_Some [OF inv i] same_id_same_entry [OF _ _ a(1), of "j_entries s ! i"] a(2) inv
      by (simp add: journal_inv_def)
    with i a show "append_entry p s e = (if same_entry st e then Inr (st, False, s) else Inl (ErrConflict (e_id e)))"
      by (simp add: append_entry_def) }
qed

text \<open>Every journal the program can hold: any number of appends, accepted or refused, from the empty one.\<close>

definition journal_run :: "platform \<Rightarrow> entry list \<Rightarrow> memory_journal" where
  "journal_run p es = fold (\<lambda>e j. case append_entry p j e of Inl _ \<Rightarrow> j | Inr (_, _, j') \<Rightarrow> j') es new_journal"

lemma journal_run_submit: "journal_run p es = fold (\<lambda>e j. mj.submit p j e) es new_journal"
  by (simp add: journal_run_def mj.submit_def)

lemma journal_run_inv: "journal_inv p (journal_run p es)"
  unfolding journal_run_submit using mj.submits_extend journal_inv_new by blast

lemma journal_run_append: "journal_run p (es @ fs) = fold (\<lambda>e j. mj.submit p j e) fs (journal_run p es)"
  by (simp add: journal_run_submit)

subsection \<open>What the projection computes\<close>

definition entry_at :: "balance_key \<Rightarrow> entry \<Rightarrow> int" where
  "entry_at k e = (\<Sum>l \<leftarrow> filter (\<lambda>l. (leg_account l, e_asset e) = k) (e_legs e). leg_value l)"

definition open_holds :: "entry list \<Rightarrow> entry list" where
  "open_holds es = filter (\<lambda>e. e_kind e = KindHold \<and> \<not> resolved_in es (e_id e)) es"

definition posts :: "entry list \<Rightarrow> entry list" where
  "posts es = filter (\<lambda>e. e_kind e = KindPost) es"

lemma fold_add_pending:
  "balance_of (fold (add_pending a sg) ls out) k =
     (balance_of out k)\<lparr>pending := pending (balance_of out k)
        + sg * (\<Sum>l \<leftarrow> filter (\<lambda>l. (leg_account l, a) = k) ls. leg_value l)\<rparr>"
  by (induction ls arbitrary: out)
    (auto simp: add_pending_def balance_of_def Let_def algebra_simps)

lemma fold_add_posted:
  "balance_of (fold (add_posted a) ls out) k =
     (balance_of out k)\<lparr>posted := posted (balance_of out k)
        + (\<Sum>l \<leftarrow> filter (\<lambda>l. (leg_account l, a) = k) ls. leg_value l)\<rparr>"
  by (induction ls arbitrary: out)
    (auto simp: add_posted_def balance_of_def Let_def algebra_simps)

lemma open_holds_hold:
  assumes "ledger_ok es" "admissible es e" "e_kind e = KindHold"
  shows "open_holds (es @ [e]) = open_holds es @ [e]"
proof -
  have "\<not> resolved_in es (e_id e)"
    using resolved_in_ids [OF assms(1), of "e_id e"] assms(2) by (auto simp: admissible_def list_all_iff)
  with assms(3) show ?thesis
    by (auto simp: open_holds_def intro: filter_cong)
qed

lemma sum_open_holds_resolve:
  assumes ok: "ledger_ok es" and ad: "admissible es e" and k: "e_kind e \<noteq> KindHold"
  obtains h where "h \<in> set es" "e_kind h = KindHold" "e_id h = e_holds e"
    "(\<Sum>x \<leftarrow> open_holds (es @ [e]). f x) = (\<Sum>x \<leftarrow> open_holds es. f x) - (f h :: int)"
proof -
  obtain h where h: "h \<in> set es" "e_kind h = KindHold" "e_id h = e_holds e"
    using ad k by (auto simp: admissible_def holds_money_def list_ex_iff)
  have "\<not> resolved_in es (e_holds e)" using ad k by (simp add: admissible_def)
  with h have mem: "h \<in> set (open_holds es)" by (simp add: open_holds_def)
  have dist: "distinct (open_holds es)"
    using ledger_ok_distinct [OF ok] by (simp add: open_holds_def distinct_map)
  have "open_holds (es @ [e]) = filter (\<lambda>x. x \<noteq> h) (open_holds es)"
  proof -
    have "e_holds e = e_id x \<longleftrightarrow> x = h" if "x \<in> set es" for x
      using same_id_same_entry [OF ok that h(1)] h(3) by auto
    then show ?thesis
      using k by (auto simp: open_holds_def intro!: filter_cong)
  qed
  moreover have "filter (\<lambda>x. x \<noteq> h) xs = xs" if "h \<notin> set xs" for xs
    using that by (induction xs) auto
  then have "(\<Sum>x \<leftarrow> filter (\<lambda>x. x \<noteq> h) xs. f x) = (\<Sum>x \<leftarrow> xs. f x) - f h"
    if "h \<in> set xs" "distinct xs" for xs
    using that by (induction xs) auto
  ultimately show thesis
    using that [OF h] mem dist by simp
qed

definition spec_balance :: "entry list \<Rightarrow> balance_key \<Rightarrow> balance" where
  "spec_balance es k =
     \<lparr>pending = (\<Sum>e \<leftarrow> open_holds es. entry_at k e), posted = (\<Sum>e \<leftarrow> posts es. entry_at k e)\<rparr>"

lemma project_snoc: "fold project_entry (es @ [e]) z = project_entry e (fold project_entry es z)"
  by simp

lemma project_correct:
  "ledger_ok es \<Longrightarrow>
     (\<forall>h x. fst (fold project_entry es (\<lambda>_. None, \<lambda>_. None)) h = Some x
        \<longleftrightarrow> x \<in> set es \<and> e_kind x = KindHold \<and> e_id x = h)
     \<and> balance_of (balances es) k = spec_balance es k"
proof (induction rule: ledger_ok.induct)
  case empty
  then show ?case
    by (simp add: balances_def balance_of_def spec_balance_def zero_balance_def open_holds_def posts_def)
next
  case (snoc es e)
  let ?q = "fold project_entry es (\<lambda>_. None, \<lambda>_. None)"
  obtain holds out where q: "?q = (holds, out)" by (cases ?q)
  have H: "holds h = Some x \<longleftrightarrow> x \<in> set es \<and> e_kind x = KindHold \<and> e_id x = h" for h x
    using snoc.IH q by simp
  have B: "balance_of out k = spec_balance es k"
    using snoc.IH q by (simp add: balances_def)
  have fresh: "e_id x \<noteq> e_id e" if "x \<in> set es" for x
    using snoc.hyps(2) that by (simp add: admissible_def list_all_iff)
  have va: "validate_entry e = None" using snoc.hyps(2) by (simp add: admissible_def)
  show ?case
  proof (cases "e_kind e = KindHold")
    case True
    have "posts (es @ [e]) = posts es" using True by (simp add: posts_def)
    then have spec: "spec_balance (es @ [e]) k = (spec_balance es k)\<lparr>pending := pending (spec_balance es k) + entry_at k e\<rparr>"
      by (simp add: spec_balance_def open_holds_hold [OF snoc.hyps True])
    have "project_entry e (holds, out) = (holds(e_id e \<mapsto> e), fold (add_pending (e_asset e) 1) (e_legs e) out)"
      by (simp add: project_entry_def True)
    then have "balance_of (balances (es @ [e])) k = spec_balance (es @ [e]) k"
      and hs: "fst (fold project_entry (es @ [e]) (\<lambda>_. None, \<lambda>_. None)) = holds(e_id e \<mapsto> e)"
      using q B unfolding spec by (simp_all add: balances_def fold_add_pending entry_at_def)
    moreover have "(holds(e_id e \<mapsto> e)) h = Some x \<longleftrightarrow> x \<in> set (es @ [e]) \<and> e_kind x = KindHold \<and> e_id x = h" for h x
      using H fresh True by auto
    ultimately show ?thesis by simp
  next
    case False
    obtain h where h: "h \<in> set es" "e_kind h = KindHold" "e_id h = e_holds e"
      "(\<Sum>x \<leftarrow> open_holds (es @ [e]). entry_at k x) = (\<Sum>x \<leftarrow> open_holds es. entry_at k x) - entry_at k h"
      by (rule sum_open_holds_resolve [OF snoc.hyps False])
    have hh: "holds (e_holds e) = Some h" using H h by simp
    have kinds: "e_kind e = KindPost \<or> e_kind e = KindVoid \<and> e_legs e = []"
      using va False by (auto simp: validate_entry_iff)
    from kinds have "project_entry e (holds, out) =
        (holds, fold (add_posted (e_asset e)) (e_legs e) (fold (add_pending (e_asset h) (- 1)) (e_legs h) out))"
      by (auto simp: project_entry_def hh)
    then have bal: "balance_of (balances (es @ [e])) k =
        (spec_balance es k)\<lparr>pending := pending (spec_balance es k) - entry_at k h,
           posted := posted (spec_balance es k) + entry_at k e\<rparr>"
      and hs: "fst (fold project_entry (es @ [e]) (\<lambda>_. None, \<lambda>_. None)) = holds"
      using q B by (simp_all add: balances_def fold_add_posted fold_add_pending entry_at_def)
    have "(\<Sum>x \<leftarrow> posts (es @ [e]). entry_at k x) = (\<Sum>x \<leftarrow> posts es. entry_at k x) + entry_at k e"
      using kinds by (auto simp: posts_def entry_at_def)
    with bal h(4) have "balance_of (balances (es @ [e])) k = spec_balance (es @ [e]) k"
      by (simp add: spec_balance_def)
    then show ?thesis using hs H False by auto
  qed
qed

lemma journal_balance_spec:
  "journal_inv p j \<Longrightarrow> journal_balance j acct a = spec_balance (j_entries j) (acct, a)"
  using project_correct [of "j_entries j"] by (simp add: journal_balance_def journal_inv_def)

text \<open>Over all accounts of a journal, what one entry moves in an asset is zero.\<close>

definition journal_accounts :: "entry list \<Rightarrow> account list" where
  "journal_accounts es = remdups (concat (map (\<lambda>e. map leg_account (e_legs e)) es))"

lemma sum_filter_account:
  assumes "finite A" "set (map leg_account ls) \<subseteq> A"
  shows "(\<Sum>c\<in>A. \<Sum>l \<leftarrow> filter (\<lambda>l. leg_account l = c) ls. leg_value l) = (\<Sum>l \<leftarrow> ls. leg_value l)"
  using assms(2)
proof (induction ls)
  case (Cons l ls)
  have "(\<Sum>c\<in>A. \<Sum>m \<leftarrow> filter (\<lambda>m. leg_account m = c) (l # ls). leg_value m)
      = (\<Sum>c\<in>A. (if leg_account l = c then leg_value l else 0)
           + (\<Sum>m \<leftarrow> filter (\<lambda>m. leg_account m = c) ls. leg_value m))"
    by (rule sum.cong) auto
  also have "\<dots> = leg_value l + (\<Sum>m \<leftarrow> ls. leg_value m)"
    using Cons assms(1) by (simp add: sum.distrib)
  finally show ?case by simp
qed simp

lemma entry_conserves:
  assumes "validate_entry e = None" "finite A" "set (map leg_account (e_legs e)) \<subseteq> A"
  shows "(\<Sum>c\<in>A. entry_at (c, a) e) = 0"
proof (cases "e_asset e = a")
  case True
  then show ?thesis
    using sum_filter_account [OF assms(2,3)] valid_entry_legs [OF assms(1)] by (simp add: entry_at_def)
qed (simp add: entry_at_def)

lemma entries_conserve:
  "finite A \<Longrightarrow> \<forall>e \<in> set es. validate_entry e = None \<and> set (map leg_account (e_legs e)) \<subseteq> A \<Longrightarrow>
     (\<Sum>c\<in>A. \<Sum>e \<leftarrow> es. entry_at (c, a) e) = 0"
  by (induction es) (auto simp: sum.distrib entry_conserves)

lemma chain_commits:
  assumes pf: "platform_ok p" and len: "length es = length fs"
    and ok: "chain_ok p es" "chain_ok p fs" and fin: "chain_end es = chain_end fs"
    and es: "\<forall>e \<in> set es. entry_sized e \<and> validate_entry e = None"
    and fs: "\<forall>x \<in> set fs. entry_sized x \<and> validate_entry x = None"
  shows "es = fs \<or> (\<exists>e \<in> set es. \<exists>x \<in> set fs.
     entry_preimage p (e_prev_hash e) e \<noteq> entry_preimage p (e_prev_hash x) x
     \<and> sha256 p (entry_preimage p (e_prev_hash e) e) = sha256 p (entry_preimage p (e_prev_hash x) x))"
  using len ok fin es fs
proof (induction es arbitrary: fs rule: rev_induct)
  case (snoc e es)
  obtain gs x where fs: "fs = gs @ [x]" and l: "length es = length gs"
    using snoc.prems(1) by (cases fs rule: rev_cases) auto
  have e: "chain_ok p es" "e_prev_hash e = chain_end es" "e_hash e = hash_entry p (chain_end es) e"
    and x: "chain_ok p gs" "e_prev_hash x = chain_end gs" "e_hash x = hash_entry p (chain_end gs) x"
    and h: "e_hash e = e_hash x"
    using snoc.prems fs by (simp_all add: chain_ok_snoc)
  have ev: "entry_sized e" "validate_entry e = None" and xv: "entry_sized x" "validate_entry x = None"
    using snoc.prems fs by auto
  show ?case
  proof (cases "entry_preimage p (e_prev_hash e) e = entry_preimage p (e_prev_hash x) x")
    case True
    have "length (e_prev_hash e) = length (e_prev_hash x)"
      using ev xv by (simp add: entry_sized_def)
    from entry_preimage_inj [OF pf this ev(1) xv(1) ev(2) xv(2) True]
    have same: "e_prev_hash e = e_prev_hash x" "e_seq e = e_seq x" "caller_half e = caller_half x" by auto
    then have "e = x" using h by (cases e, cases x) (simp add: caller_half_def)
    moreover have "chain_end es = chain_end gs" using same(1) e(2) x(2) by simp
    ultimately show ?thesis
      using snoc.IH [OF l e(1) x(1)] snoc.prems(5,6) fs by auto
  next
    case False
    moreover have "sha256 p (entry_preimage p (e_prev_hash e) e) = sha256 p (entry_preimage p (e_prev_hash x) x)"
      using h e(2,3) x(2,3) by (simp add: hash_entry_def)
    ultimately show ?thesis using fs by auto
  qed
qed simp

subsection \<open>A worked journal\<close>

definition demo_asset :: asset where
  "demo_asset = \<lparr>asset_chain = ''evm:1'', asset_token = ''usd''\<rparr>"

definition demo_hold :: entry where
  "demo_hold = \<lparr>e_id = ''pi_1/hold'', e_ref = replicate 32 (CHR 0x01), e_kind = KindHold, e_holds = '''',
     e_asset = demo_asset,
     e_legs = [\<lparr>leg_account = ''payer:a'', leg_amount = Some (- 100)\<rparr>, \<lparr>leg_account = ''merchant:b'', leg_amount = Some 100\<rparr>],
     e_by = ''relayer'', e_at = 10, e_tx_hash = '''', e_memo = '''', e_seq = 0, e_prev_hash = [], e_hash = []\<rparr>"

definition demo_post :: entry where
  "demo_post = demo_hold\<lparr>e_id := ''pi_1/post'', e_kind := KindPost, e_holds := ''pi_1/hold'',
     e_legs := [\<lparr>leg_account = ''payer:a'', leg_amount = Some (- 100)\<rparr>, \<lparr>leg_account = ''merchant:b'', leg_amount = Some 99\<rparr>,
                \<lparr>leg_account = ''fee:usd'', leg_amount = Some 1\<rparr>],
     e_by := ''listener'', e_tx_hash := ''0xaa''\<rparr>"

definition demo_void :: entry where
  "demo_void = demo_hold\<lparr>e_id := ''pi_1/void'', e_kind := KindVoid, e_holds := ''pi_1/hold'', e_legs := []\<rparr>"

lemmas demo_entry_defs = demo_hold_def demo_post_def demo_void_def demo_asset_def

lemma ref_size_32: "ref_size = 32"
  by (simp add: ref_size_def)

lemma demo_ref_nonzero [simp]: "\<not> ref_is_zero (replicate 32 (CHR 0x01))"
  by (simp add: ref_is_zero_def zero_ref_def ref_size_32)

lemma demo_entries_valid [simp]:
  "validate_entry demo_hold = None" "validate_entry demo_post = None" "validate_entry demo_void = None"
  by (simp_all add: validate_entry_iff demo_entry_defs legs_balanced_def leg_value_def)

lemma demo_run1: "j_entries (journal_run demo_platform [demo_hold]) = [seal demo_platform [] demo_hold]"
  by (simp add: journal_run_def new_journal_def append_entry_def check_hold_def Let_def)
    (simp add: demo_hold_def)

lemma demo_append_hold:
  "append_entry demo_platform new_journal demo_hold
     = Inr (seal demo_platform [] demo_hold, True, journal_run demo_platform [demo_hold])"
  by (simp add: journal_run_def new_journal_def append_entry_def check_hold_def Let_def)
    (simp add: demo_hold_def)

lemma demo_post_admissible:
  "admissible (j_entries (journal_run demo_platform [demo_hold])) demo_post"
  by (simp add: demo_run1 admissible_def holds_money_def resolved_in_def)
    (simp add: demo_entry_defs)

lemma demo_run2:
  "j_entries (journal_run demo_platform [demo_hold, demo_post]) =
     [seal demo_platform [] demo_hold, seal demo_platform [seal demo_platform [] demo_hold] demo_post]"
proof -
  obtain j' where ap: "append_entry demo_platform (journal_run demo_platform [demo_hold]) demo_post
      = Inr (seal demo_platform (j_entries (journal_run demo_platform [demo_hold])) demo_post, True, j')"
    using append_applied_iff [OF journal_run_inv] demo_post_admissible by blast
  have "journal_run demo_platform [demo_hold, demo_post] = j'"
    using journal_run_append [of demo_platform "[demo_hold]" "[demo_post]"] ap by (simp add: mj.submit_def)
  with append_applied_entries [OF ap] show ?thesis by (simp add: demo_run1)
qed

subsection \<open>Properties\<close>


text \<open>
  C11. Balances are the projection they claim to be, and no money appears or vanishes. After any sequence
  of appends, an account's pending balance is the sum of its legs in the holds that no post or void has
  resolved, its posted balance the sum of its legs in the posts; and over all accounts both add up to
  zero in every asset.
\<close>

theorem balances_conserve:
  fixes p es a
  defines "j \<equiv> journal_run p es"
  defines "accts \<equiv> set (journal_accounts (j_entries j))"
  shows "journal_balance j acct a = spec_balance (j_entries j) (acct, a)
    \<and> (\<Sum>c\<in>accts. pending (journal_balance j c a)) = 0
    \<and> (\<Sum>c\<in>accts. posted (journal_balance j c a)) = 0"
proof -
  have inv: "journal_inv p j" unfolding j_def by (rule journal_run_inv)
  have ent: "\<forall>e \<in> set (j_entries j). validate_entry e = None \<and> set (map leg_account (e_legs e)) \<subseteq> accts"
    using inv ledger_ok_valid by (auto simp: journal_inv_def accts_def journal_accounts_def)
  have fin: "finite accts" by (simp add: accts_def)
  have "(\<Sum>c\<in>accts. \<Sum>e \<leftarrow> open_holds (j_entries j). entry_at (c, a) e) = 0"
    by (rule entries_conserve [OF fin]) (use ent in \<open>simp add: open_holds_def\<close>)
  moreover have "(\<Sum>c\<in>accts. \<Sum>e \<leftarrow> posts (j_entries j). entry_at (c, a) e) = 0"
    by (rule entries_conserve [OF fin]) (use ent in \<open>simp add: posts_def\<close>)
  ultimately show ?thesis
    using journal_balance_spec [OF inv] by (simp add: spec_balance_def)
qed

text \<open>
  Money moves once. In every journal a hold is resolved by at most one post or void; once it is, any
  further valid post or void of it under a fresh id is refused with \<open>ErrAlreadyResolved\<close>.
\<close>

theorem hold_resolved_once:
  fixes p es
  defines "j \<equiv> journal_run p es"
  shows "length (filter (\<lambda>e. e_kind e \<noteq> KindHold \<and> e_holds e = h) (j_entries j)) \<le> 1
    \<and> (resolved_in (j_entries j) (e_holds e) \<longrightarrow> validate_entry e = None \<longrightarrow> e_kind e \<noteq> KindHold
         \<longrightarrow> holds_money (j_entries j) e \<longrightarrow> list_all (\<lambda>x. e_id x \<noteq> e_id e) (j_entries j)
         \<longrightarrow> append_entry p j e = Inl (ErrAlreadyResolved (e_holds e)))"
proof -
  have inv: "journal_inv p j" unfolding j_def by (rule journal_run_inv)
  have "append_entry p j e = Inl (ErrAlreadyResolved (e_holds e))"
    if r: "resolved_in (j_entries j) (e_holds e)" and v: "validate_entry e = None" and k: "e_kind e \<noteq> KindHold"
      and m: "holds_money (j_entries j) e" and f: "list_all (\<lambda>x. e_id x \<noteq> e_id e) (j_entries j)"
  proof -
    obtain h where h: "h \<in> set (j_entries j)" "e_id h = e_holds e" "e_kind h = KindHold" "e_ref h = e_ref e" "e_asset h = e_asset e"
      using m by (auto simp: holds_money_def list_ex_iff)
    obtain i where i: "j_by_id j (e_holds e) = Some i"
      using by_id_None [OF inv, of "e_holds e"] h by (cases "j_by_id j (e_holds e)") auto
    have "j_entries j ! i = h"
      using by_id_Some [OF inv i] same_id_same_entry [OF _ _ h(1), of "j_entries j ! i"] h(2) inv
      by (simp add: journal_inv_def)
    moreover have "j_by_id j (e_id e) = None"
      using by_id_None [OF inv, of "e_id e"] f by (simp add: list_all_iff)
    moreover have "e_kind e = KindPost \<or> e_kind e = KindVoid" using v k by (auto simp: validate_entry_iff)
    moreover have "j_resolved j (e_holds e)" using r inv by (simp add: journal_inv_def)
    ultimately show ?thesis
      using i h v by (auto simp: append_entry_def check_hold_def)
  qed
  moreover have "length (filter (\<lambda>e. e_kind e \<noteq> KindHold \<and> e_holds e = h) (j_entries j)) \<le> 1"
    using resolved_once inv by (simp add: journal_inv_def)
  ultimately show ?thesis by blast
qed

theorem hold_resolved_once_witness:
  "append_entry demo_platform (journal_run demo_platform [demo_hold, demo_post]) demo_void
     = Inl (ErrAlreadyResolved ''pi_1/hold'')"
proof -
  let ?es = "j_entries (journal_run demo_platform [demo_hold, demo_post])"
  have "resolved_in ?es (e_holds demo_void)" "e_kind demo_void \<noteq> KindHold" "holds_money ?es demo_void"
      "list_all (\<lambda>x. e_id x \<noteq> e_id demo_void) ?es" "e_holds demo_void = ''pi_1/hold''"
    by (simp_all add: demo_run2 resolved_in_def holds_money_def) (simp_all add: demo_entry_defs)
  then show ?thesis
    using hold_resolved_once [where p = demo_platform and e = demo_void and es = "[demo_hold, demo_post]"]
      demo_entries_valid(3) by simp
qed

text \<open>
  Recording twice is harmless for ever. Once an entry has been written, then after any number of
  further appends the same entry again is answered with the stored row and changes nothing, and
  different content under its id is refused with \<open>ErrConflict\<close>.
\<close>

theorem append_replays_for_ever:
  assumes "append_entry p (journal_run p es) e = Inr (st, True, j1)"
    and "validate_entry x = None" and "e_id x = e_id e"
  shows "append_entry p (journal_run p (es @ e # fs)) x =
    (if caller_half st = caller_half x then Inr (st, False, journal_run p (es @ e # fs))
     else Inl (ErrConflict (e_id x)))"
proof -
  have "journal_run p (es @ e # fs) = fold (\<lambda>e j. mj.submit p j e) fs j1"
    using assms(1) by (simp add: journal_run_append mj.submit_def)
  from mj.replay_for_ever [OF journal_run_inv assms(1) this assms(2,3)]
  have "append_entry p (journal_run p (es @ e # fs)) x = (if same_entry st x
      then Inr (st, False, journal_run p (es @ e # fs)) else Inl (ErrConflict (e_id x)))" .
  moreover have "st = seal p (j_entries (journal_run p es)) e" "validate_entry e = None"
    using append_applied_iff [OF journal_run_inv, of p es e st] assms(1) unfolding admissible_def by blast+
  then have "validate_entry st = None" by simp
  ultimately show ?thesis using same_entry_iff assms(2) by simp
qed

theorem append_replays_for_ever_witness:
  "append_entry demo_platform (journal_run demo_platform [demo_hold, demo_post]) (demo_hold\<lparr>e_memo := ''x''\<rparr>)
     = Inl (ErrConflict ''pi_1/hold'')"
proof -
  have ap: "append_entry demo_platform (journal_run demo_platform []) demo_hold
      = Inr (seal demo_platform [] demo_hold, True, journal_run demo_platform [demo_hold])"
    using demo_append_hold by (simp add: journal_run_def)
  have x: "validate_entry (demo_hold\<lparr>e_memo := ''x''\<rparr>) = None" "e_id (demo_hold\<lparr>e_memo := ''x''\<rparr>) = e_id demo_hold"
    by (simp_all add: validate_entry_iff demo_entry_defs legs_balanced_def leg_value_def)
  have "e_memo (caller_half (seal demo_platform [] demo_hold)) \<noteq> e_memo (caller_half (demo_hold\<lparr>e_memo := ''x''\<rparr>))"
    by (simp add: caller_half_def) (simp add: demo_hold_def)
  then have "caller_half (seal demo_platform [] demo_hold) \<noteq> caller_half (demo_hold\<lparr>e_memo := ''x''\<rparr>)"
    by metis
  with append_replays_for_ever [OF ap x, of "[demo_post]"] show ?thesis
    by (simp add: demo_hold_def)
qed

text \<open>
  \<open>Verify\<close> accepts every journal the program builds.
\<close>

theorem verify_accepts_own_journal:
  "verify p (journal_run p es) = None"
  using journal_run_inv by (simp add: verify_iff journal_inv_def)

text \<open>
  Tampering shows. Let two journals of the same length both pass \<open>Verify\<close>, with rows of the stored
  shape, and let them end in the same hash: then they are equal row by row, or they exhibit two different
  preimages with one SHA-256. So whoever keeps the last hash elsewhere detects any change of an amount,
  an account, a time, or the place of a row.
\<close>

theorem last_hash_commits_journal:
  assumes "platform_ok p" and "length (j_entries j) = length (j_entries k)"
    and "verify p j = None" "verify p k = None"
    and "chain_end (j_entries j) = chain_end (j_entries k)"
    and "\<forall>e \<in> set (j_entries j). entry_sized e \<and> validate_entry e = None"
    and "\<forall>x \<in> set (j_entries k). entry_sized x \<and> validate_entry x = None"
  shows "j_entries j = j_entries k \<or> (\<exists>e \<in> set (j_entries j). \<exists>x \<in> set (j_entries k).
     entry_preimage p (e_prev_hash e) e \<noteq> entry_preimage p (e_prev_hash x) x
     \<and> sha256 p (entry_preimage p (e_prev_hash e) e) = sha256 p (entry_preimage p (e_prev_hash x) x))"
  by (rule chain_commits) (use assms in \<open>simp_all add: verify_iff\<close>)

theorem last_hash_commits_journal_witness:
  "\<exists>e x. entry_preimage demo_platform (e_prev_hash e) e \<noteq> entry_preimage demo_platform (e_prev_hash x) x
     \<and> sha256 demo_platform (entry_preimage demo_platform (e_prev_hash e) e)
       = sha256 demo_platform (entry_preimage demo_platform (e_prev_hash x) x)"
proof -
  let ?e = "seal demo_platform [] demo_hold" and ?x = "seal demo_platform [] (demo_hold\<lparr>e_by := ''operator''\<rparr>)"
  define j k where "j = new_journal\<lparr>j_entries := [?e]\<rparr>" and "k = new_journal\<lparr>j_entries := [?x]\<rparr>"
  have js: "j_entries j = [?e]" "j_entries k = [?x]" by (simp_all add: j_def k_def)
  have v: "verify demo_platform j = None" "verify demo_platform k = None"
    unfolding verify_iff js using seal_chain [of demo_platform "[]"] by simp_all
  have h: "chain_end (j_entries j) = chain_end (j_entries k)"
    by (simp add: js chain_end_def) (simp add: seal_def Let_def hash_entry_def demo_platform_def)
  have s: "entry_sized ?e \<and> validate_entry ?e = None" "entry_sized ?x \<and> validate_entry ?x = None"
    by (simp_all add: entry_sized_def validate_entry_iff seal_def Let_def hash_entry_def zero_hash_def)
      (simp_all add: demo_entry_defs ref_size_32 demo_platform_def legs_balanced_def leg_value_def)
  have "e_by ?e \<noteq> e_by ?x" by (simp add: demo_hold_def)
  then have "?e \<noteq> ?x" by metis
  then have "j_entries j \<noteq> j_entries k" unfolding js list.inject by blast
  moreover have "length (j_entries j) = length (j_entries k)" by (simp add: js)
  moreover have "\<forall>e \<in> set (j_entries j). entry_sized e \<and> validate_entry e = None"
    and "\<forall>x \<in> set (j_entries k). entry_sized x \<and> validate_entry x = None"
    using s by (simp_all add: js)
  ultimately show ?thesis
    using last_hash_commits_journal [OF demo_platform_ok _ v h] by blast
qed

end
