(* ===== verification/Job_Queue.thy ===== *)
theory Job_Queue
  imports Payment_Ref
begin

section \<open>The work queue: at least once, with leases\<close>

text \<open>
  Models \<open>internal/queue\<close>: jobs and their validation, deliveries and receipts (\<open>queue.go\<close>), and
  \<open>MemoryQueue\<close> with \<open>Enqueue\<close>, \<open>Lease\<close>, \<open>Ack\<close>, \<open>Nack\<close> and \<open>Len\<close> (\<open>memory.go\<close>). The table of slots
  is a function, the order a list of ids; \<open>queue_inv\<close> says they agree, so the nil slot that \<open>Lease\<close>
  would otherwise dereference cannot occur.

  The locale \<open>work_queue\<close> is the contract its clients use, with the set of pending jobs as the abstract
  state: nothing but an accepted \<open>Ack\<close> takes a job out. The properties add the lease's exclusion, the
  fate of stale receipts, and that a visible job is delivered after the jobs queued before it.
\<close>

subsection \<open>Jobs and deliveries\<close>

datatype job_kind = KindSettle | KindUnknownJob string

record job =
  job_id :: string
  job_kind :: job_kind
  job_intent_id :: string
  job_ref :: ref

datatype job_defect = JobIdRequired | JobKindUnknown string | JobIntentRequired | JobRefRequired

type_synonym receipt = string

datatype queue_error =
    ErrInvalidJob job_defect
  | ErrJobNotFound string
  | ErrStaleReceipt string u64 receipt

definition validate_job :: "job \<Rightarrow> queue_error option" where
  "validate_job j =
     (if job_id j = '''' then Some (ErrInvalidJob JobIdRequired)
      else case job_kind j of
          KindUnknownJob s \<Rightarrow> Some (ErrInvalidJob (JobKindUnknown s))
        | KindSettle \<Rightarrow>
            if job_intent_id j = '''' then Some (ErrInvalidJob JobIntentRequired)
            else if ref_is_zero (job_ref j) then Some (ErrInvalidJob JobRefRequired)
            else None)"

record delivery =
  d_job :: job
  d_attempt :: u64
  d_receipt :: receipt
  d_lease_until :: time

definition receipt_of :: "string \<Rightarrow> u64 \<Rightarrow> receipt" where
  "receipt_of k attempt = k @ ''#'' @ show_nat (unat attempt)"

subsection \<open>The memory queue\<close>

record slot =
  slot_job :: job
  slot_attempt :: u64
  slot_not_before :: time
  slot_lease_until :: time

record memory_queue =
  q_jobs :: "string \<Rightarrow> slot option"
  q_order :: "string list"

definition new_queue :: memory_queue where
  "new_queue = \<lparr>q_jobs = (\<lambda>_. None), q_order = []\<rparr>"

definition enqueue :: "memory_queue \<Rightarrow> job \<Rightarrow> time \<Rightarrow> queue_error + (bool \<times> memory_queue)" where
  "enqueue q j now =
     (case validate_job j of
        Some e \<Rightarrow> Inl e
      | None \<Rightarrow>
          if q_jobs q (job_id j) \<noteq> None then Inr (False, q)
          else Inr (True,
            q\<lparr>q_jobs := (q_jobs q)(job_id j \<mapsto>
                 \<lparr>slot_job = j, slot_attempt = 0, slot_not_before = now, slot_lease_until = 0\<rparr>),
              q_order := q_order q @ [job_id j]\<rparr>))"

definition slot_visible :: "slot \<Rightarrow> time \<Rightarrow> bool" where
  "slot_visible s now \<longleftrightarrow> \<not> (slot_not_before s > now \<or> slot_lease_until s > now)"

text \<open>The loop of \<open>Lease\<close>: the first id in order whose slot is visible.\<close>

fun first_visible :: "(string \<Rightarrow> slot option) \<Rightarrow> time \<Rightarrow> string list \<Rightarrow> (string \<times> slot) option" where
  "first_visible jobs now [] = None"
| "first_visible jobs now (k # ks) =
     (case jobs k of
        None \<Rightarrow> first_visible jobs now ks
      | Some s \<Rightarrow> if slot_visible s now then Some (k, s) else first_visible jobs now ks)"

definition lease :: "memory_queue \<Rightarrow> time \<Rightarrow> duration \<Rightarrow> delivery option \<times> memory_queue" where
  "lease q now d =
     (case first_visible (q_jobs q) now (q_order q) of
        None \<Rightarrow> (None, q)
      | Some (k, s) \<Rightarrow>
          let s' = s\<lparr>slot_attempt := slot_attempt s + 1, slot_lease_until := time_add now d\<rparr>
          in (Some \<lparr>d_job = slot_job s', d_attempt = slot_attempt s',
                    d_receipt = receipt_of k (slot_attempt s'), d_lease_until = slot_lease_until s'\<rparr>,
              q\<lparr>q_jobs := (q_jobs q)(k \<mapsto> s')\<rparr>))"

definition current :: "memory_queue \<Rightarrow> delivery \<Rightarrow> queue_error + slot" where
  "current q d =
     (case q_jobs q (job_id (d_job d)) of
        None \<Rightarrow> Inl (ErrJobNotFound (job_id (d_job d)))
      | Some s \<Rightarrow>
          if d_receipt d \<noteq> receipt_of (job_id (slot_job s)) (slot_attempt s)
          then Inl (ErrStaleReceipt (job_id (slot_job s)) (slot_attempt s) (d_receipt d))
          else Inr s)"

definition ack :: "memory_queue \<Rightarrow> delivery \<Rightarrow> queue_error + memory_queue" where
  "ack q d =
     (case current q d of
        Inl e \<Rightarrow> Inl e
      | Inr s \<Rightarrow> Inr (q\<lparr>q_jobs := (q_jobs q)(job_id (slot_job s) := None),
                         q_order := remove1 (job_id (slot_job s)) (q_order q)\<rparr>))"

definition nack :: "memory_queue \<Rightarrow> delivery \<Rightarrow> duration \<Rightarrow> time \<Rightarrow> queue_error + memory_queue" where
  "nack q d retry_after now =
     (case current q d of
        Inl e \<Rightarrow> Inl e
      | Inr s \<Rightarrow> Inr (q\<lparr>q_jobs := (q_jobs q)(job_id (slot_job s) \<mapsto>
                           s\<lparr>slot_lease_until := 0, slot_not_before := time_add now retry_after\<rparr>)\<rparr>))"

text \<open>\<open>Len\<close> counts the map; under the invariant that is the number of ids in order.\<close>

definition queue_len :: "memory_queue \<Rightarrow> nat" where
  "queue_len q = length (filter (\<lambda>k. q_jobs q k \<noteq> None) (remdups (q_order q)))"

subsection \<open>The contract\<close>

datatype queue_op =
    OpEnqueue job time
  | OpLease time duration
  | OpAck delivery
  | OpNack delivery duration time

locale work_queue =
  fixes pending :: "'q \<Rightarrow> string \<Rightarrow> job option"
    and enq :: "'q \<Rightarrow> job \<Rightarrow> time \<Rightarrow> queue_error + (bool \<times> 'q)"
    and deq :: "'q \<Rightarrow> time \<Rightarrow> duration \<Rightarrow> delivery option \<times> 'q"
    and acknowledge :: "'q \<Rightarrow> delivery \<Rightarrow> queue_error + 'q"
    and reject :: "'q \<Rightarrow> delivery \<Rightarrow> duration \<Rightarrow> time \<Rightarrow> queue_error + 'q"
    and inv :: "'q \<Rightarrow> bool"
  assumes enq_spec: "inv q \<Longrightarrow> enq q j now = Inr (b, q') \<Longrightarrow>
      inv q' \<and> (b \<longleftrightarrow> pending q (job_id j) = None)
      \<and> pending q' = (if b then (pending q)(job_id j \<mapsto> j) else pending q)"
    and deq_spec: "inv q \<Longrightarrow> deq q now l = (r, q') \<Longrightarrow>
      inv q' \<and> pending q' = pending q
      \<and> (case r of None \<Rightarrow> True | Some d \<Rightarrow> pending q (job_id (d_job d)) = Some (d_job d))"
    and ack_spec: "inv q \<Longrightarrow> acknowledge q d = Inr q' \<Longrightarrow>
      inv q' \<and> pending q (job_id (d_job d)) \<noteq> None \<and> pending q' = (pending q)(job_id (d_job d) := None)"
    and nack_spec: "inv q \<Longrightarrow> reject q d t now = Inr q' \<Longrightarrow> inv q' \<and> pending q' = pending q"
begin

definition op_step :: "'q \<Rightarrow> queue_op \<Rightarrow> 'q" where
  "op_step q opn = (case opn of
     OpEnqueue j now \<Rightarrow> (case enq q j now of Inl _ \<Rightarrow> q | Inr (_, q') \<Rightarrow> q')
   | OpLease now l \<Rightarrow> snd (deq q now l)
   | OpAck d \<Rightarrow> (case acknowledge q d of Inl _ \<Rightarrow> q | Inr q' \<Rightarrow> q')
   | OpNack d t now \<Rightarrow> (case reject q d t now of Inl _ \<Rightarrow> q | Inr q' \<Rightarrow> q'))"

definition takes_out :: "'q \<Rightarrow> string \<Rightarrow> queue_op \<Rightarrow> bool" where
  "takes_out q k opn = (case opn of OpAck d \<Rightarrow> job_id (d_job d) = k \<and> (\<exists>q'. acknowledge q d = Inr q') | _ \<Rightarrow> False)"

lemma op_step_spec:
  assumes "inv q"
  shows "inv (op_step q opn) \<and> (pending q k = Some j \<longrightarrow> \<not> takes_out q k opn \<longrightarrow> pending (op_step q opn) k = Some j)"
proof (cases opn)
  case (OpEnqueue j' now)
  with assms show ?thesis
    by (auto simp: op_step_def takes_out_def split: sum.splits if_splits dest!: enq_spec [OF assms])
next
  case (OpLease now l)
  obtain r q' where "deq q now l = (r, q')" by (cases "deq q now l")
  with OpLease deq_spec [OF assms this] show ?thesis by (simp add: op_step_def takes_out_def)
next
  case (OpAck d)
  with assms show ?thesis
    by (auto simp: op_step_def takes_out_def split: sum.splits dest: ack_spec)
next
  case (OpNack d t now)
  with assms show ?thesis
    by (auto simp: op_step_def takes_out_def split: sum.splits dest: nack_spec)
qed

text \<open>At least once: a pending job stays pending until an \<open>Ack\<close> of it is accepted.\<close>

lemma pending_until_ack:
  "inv q \<Longrightarrow> pending q k = Some j \<Longrightarrow>
     (\<forall>i < length ops. \<not> takes_out (foldl op_step q (take i ops)) k (ops ! i)) \<Longrightarrow>
     inv (foldl op_step q ops) \<and> pending (foldl op_step q ops) k = Some j"
proof (induction ops rule: rev_induct)
  case (snoc opn ops)
  have *: "\<forall>i < length ops. \<not> takes_out (foldl op_step q (take i ops)) k (ops ! i)"
    using snoc.prems(3) by (auto simp: nth_append dest: less_SucI)
  have last: "\<not> takes_out (foldl op_step q ops) k opn"
    using snoc.prems(3) by auto
  show ?case
    using snoc.IH [OF snoc.prems(1,2) *] op_step_spec [of "foldl op_step q ops" opn k j] last by simp
qed simp

lemma run_inv: "inv q \<Longrightarrow> inv (foldl op_step q ops)"
  using op_step_spec by (induction ops rule: rev_induct) auto

end

definition queue_inv :: "memory_queue \<Rightarrow> bool" where
  "queue_inv q \<longleftrightarrow> distinct (q_order q)
     \<and> (\<forall>k. k \<in> set (q_order q) \<longleftrightarrow> q_jobs q k \<noteq> None)
     \<and> (\<forall>k s. q_jobs q k = Some s \<longrightarrow> job_id (slot_job s) = k)"

definition queue_pending :: "memory_queue \<Rightarrow> string \<Rightarrow> job option" where
  "queue_pending q k = map_option slot_job (q_jobs q k)"

lemma queue_inv_new [inv_intros]: "queue_inv new_queue"
  by (simp add: queue_inv_def new_queue_def)

lemma first_visible_Some:
  "first_visible jobs now ks = Some (k, s) \<Longrightarrow> k \<in> set ks \<and> jobs k = Some s \<and> slot_visible s now"
  by (induction ks) (auto split: option.splits if_splits)

lemma current_Inr:
  "current q d = Inr s \<longleftrightarrow> q_jobs q (job_id (d_job d)) = Some s
     \<and> d_receipt d = receipt_of (job_id (slot_job s)) (slot_attempt s)"
  by (auto simp: current_def split: option.splits if_splits)

interpretation mq: work_queue queue_pending enqueue lease ack nack queue_inv
proof
  fix q q' :: memory_queue and j now b l r d t
  assume inv: "queue_inv q"
  { assume "enqueue q j now = Inr (b, q')"
    with inv show "queue_inv q' \<and> (b \<longleftrightarrow> queue_pending q (job_id j) = None)
      \<and> queue_pending q' = (if b then (queue_pending q)(job_id j \<mapsto> j) else queue_pending q)"
      by (auto simp: enqueue_def queue_inv_def queue_pending_def fun_eq_iff split: option.splits if_splits) }
  { assume l: "lease q now l = (r, q')"
    show "queue_inv q' \<and> queue_pending q' = queue_pending q
      \<and> (case r of None \<Rightarrow> True | Some d \<Rightarrow> queue_pending q (job_id (d_job d)) = Some (d_job d))"
    proof (cases "first_visible (q_jobs q) now (q_order q)")
      case None
      with l inv show ?thesis by (simp add: lease_def)
    next
      case (Some ks)
      obtain k s where ks: "ks = (k, s)" by (cases ks)
      with Some first_visible_Some have "q_jobs q k = Some s" by blast
      with l inv Some ks show ?thesis
        by (auto simp: lease_def Let_def queue_inv_def queue_pending_def fun_eq_iff split: if_splits)
    qed }
  { assume "ack q d = Inr q'"
    then obtain s where s: "current q d = Inr s"
      and q': "q' = q\<lparr>q_jobs := (q_jobs q)(job_id (slot_job s) := None), q_order := remove1 (job_id (slot_job s)) (q_order q)\<rparr>"
      by (auto simp: ack_def split: sum.splits)
    with inv show "queue_inv q' \<and> queue_pending q (job_id (d_job d)) \<noteq> None
        \<and> queue_pending q' = (queue_pending q)(job_id (d_job d) := None)"
      unfolding current_Inr by (auto simp: queue_inv_def queue_pending_def fun_eq_iff) }
  { assume "nack q d t now = Inr q'"
    with inv show "queue_inv q' \<and> queue_pending q' = queue_pending q"
      by (auto simp: nack_def current_Inr queue_inv_def queue_pending_def fun_eq_iff split: sum.splits if_splits) }
qed

subsection \<open>Order of delivery\<close>

definition visible_ids :: "memory_queue \<Rightarrow> time \<Rightarrow> string list" where
  "visible_ids q now = filter (\<lambda>k. case q_jobs q k of None \<Rightarrow> False | Some s \<Rightarrow> slot_visible s now) (q_order q)"

lemma first_visible_filter:
  "first_visible jobs now ks =
     (case filter (\<lambda>k. case jobs k of None \<Rightarrow> False | Some s \<Rightarrow> slot_visible s now) ks of
        [] \<Rightarrow> None | k # _ \<Rightarrow> Some (k, the (jobs k)))"
  by (induction ks) (auto split: option.splits)

lemma lease_None: "visible_ids q now = [] \<Longrightarrow> lease q now l = (None, q)"
  by (simp add: lease_def first_visible_filter visible_ids_def)

lemma lease_Cons:
  assumes "queue_inv q" "visible_ids q now = k # ks"
  obtains s where "q_jobs q k = Some s" "slot_visible s now" "job_id (slot_job s) = k"
    "lease q now l = (Some \<lparr>d_job = slot_job s, d_attempt = slot_attempt s + 1,
        d_receipt = receipt_of k (slot_attempt s + 1), d_lease_until = time_add now l\<rparr>,
      q\<lparr>q_jobs := (q_jobs q)(k \<mapsto> s\<lparr>slot_attempt := slot_attempt s + 1, slot_lease_until := time_add now l\<rparr>)\<rparr>)"
proof -
  have "k \<in> set (visible_ids q now)" using assms(2) by simp
  then obtain s where s: "q_jobs q k = Some s" "slot_visible s now"
    by (auto simp: visible_ids_def split: option.splits)
  moreover have "job_id (slot_job s) = k" using assms(1) s by (simp add: queue_inv_def)
  ultimately show thesis
    using that assms(2) by (simp add: lease_def first_visible_filter visible_ids_def Let_def)
qed

lemma lease_visible_tl:
  assumes inv: "queue_inv q" and l: "0 < l"
  shows "visible_ids (snd (lease q now l)) now = tl (visible_ids q now)"
proof (cases "visible_ids q now")
  case Nil
  then show ?thesis by (simp add: lease_None)
next
  case (Cons k ks)
  let ?V = "\<lambda>j x. case j x of None \<Rightarrow> False | Some s \<Rightarrow> slot_visible s now"
  obtain s where s: "snd (lease q now l) =
      q\<lparr>q_jobs := (q_jobs q)(k \<mapsto> s\<lparr>slot_attempt := slot_attempt s + 1, slot_lease_until := time_add now l\<rparr>)\<rparr>"
    using lease_Cons [OF inv Cons, of l] by (metis snd_conv)
  have "visible_ids (snd (lease q now l)) now = filter (\<lambda>x. x \<noteq> k) (visible_ids q now)"
    using l unfolding s visible_ids_def
    by (auto simp: slot_visible_def time_add_def intro!: filter_cong split: option.splits)
  also have "\<dots> = tl (visible_ids q now)"
  proof -
    have "distinct (visible_ids q now)" using inv by (simp add: visible_ids_def queue_inv_def)
    then have "k \<notin> set ks" using Cons by simp
    then have "filter (\<lambda>x. x \<noteq> k) ks = ks" by (induction ks) auto
    then show ?thesis using Cons by simp
  qed
  finally show ?thesis .
qed

fun lease_times :: "nat \<Rightarrow> memory_queue \<Rightarrow> time \<Rightarrow> duration \<Rightarrow> memory_queue" where
  "lease_times 0 q now l = q"
| "lease_times (Suc n) q now l = snd (lease (lease_times n q now l) now l)"

lemma lease_times_spec:
  "queue_inv q \<Longrightarrow> 0 < l \<Longrightarrow>
     queue_inv (lease_times n q now l) \<and> visible_ids (lease_times n q now l) now = drop n (visible_ids q now)"
proof (induction n)
  case (Suc n)
  then have IH: "queue_inv (lease_times n q now l)"
      "visible_ids (lease_times n q now l) now = drop n (visible_ids q now)" by simp_all
  obtain r q' where "lease (lease_times n q now l) now l = (r, q')" by fastforce
  with mq.deq_spec [OF IH(1) this] lease_visible_tl [OF IH(1) Suc.prems(2), of now] IH(2) show ?case
    by (simp add: drop_Suc tl_drop)
qed simp

subsection \<open>What one delivery may do\<close>

lemma receipt_of_inj [simp]: "receipt_of k a = receipt_of k' b \<longleftrightarrow> k = k' \<and> a = b"
proof
  assume "receipt_of k a = receipt_of k' b"
  then have "k @ CHR ''#'' # show_nat (unat a) = k' @ CHR ''#'' # show_nat (unat b)"
    by (simp add: receipt_of_def)
  from digits_suffix_inj [OF this] show "k = k' \<and> a = b"
    by (simp add: show_nat_digits word_unat_eq_iff)
qed simp

text \<open>
  The operations that leave a delivery alone: leases before it runs out, and acknowledgements that
  carry another receipt for its job.
\<close>

definition leaves_alone :: "delivery \<Rightarrow> queue_op \<Rightarrow> bool" where
  "leaves_alone d opn = (case opn of
     OpEnqueue j now \<Rightarrow> True
   | OpLease now l \<Rightarrow> now < d_lease_until d
   | OpAck x \<Rightarrow> job_id (d_job x) = job_id (d_job d) \<longrightarrow> d_receipt x \<noteq> d_receipt d
   | OpNack x t now \<Rightarrow> job_id (d_job x) = job_id (d_job d) \<longrightarrow> d_receipt x \<noteq> d_receipt d)"

definition held_by :: "memory_queue \<Rightarrow> delivery \<Rightarrow> bool" where
  "held_by q d \<longleftrightarrow> (\<exists>s. current q d = Inr s \<and> job_id (slot_job s) = job_id (d_job d)
     \<and> slot_lease_until s = d_lease_until d)"

lemma lease_held:
  assumes "queue_inv q" "lease q now l = (Some d, q')"
  shows "held_by q' d \<and> d_lease_until d = time_add now l"
proof (cases "visible_ids q now")
  case (Cons k ks)
  show ?thesis
    by (rule lease_Cons [OF assms(1) Cons, of l])
      (use assms(2) in \<open>auto simp: held_by_def current_Inr\<close>)
qed (use assms(2) lease_None in auto)

lemma held_not_delivered:
  assumes "queue_inv q" "held_by q d" "t < d_lease_until d" "lease q t l = (Some d2, q2)"
  shows "job_id (d_job d2) \<noteq> job_id (d_job d)"
proof (cases "visible_ids q t")
  case (Cons k ks)
  show ?thesis
    by (rule lease_Cons [OF assms(1) Cons, of l])
      (use assms(2-4) in \<open>auto simp: held_by_def current_Inr slot_visible_def\<close>)
qed (use assms(4) lease_None in auto)

lemma held_step:
  assumes inv: "queue_inv q" and h: "held_by q d" and la: "leaves_alone d opn"
  shows "held_by (mq.op_step q opn) d"
proof (cases opn)
  case (OpEnqueue j now)
  obtain s where s: "q_jobs q (job_id (d_job d)) = Some s" using h by (auto simp: held_by_def current_Inr)
  have "q_jobs (mq.op_step q opn) (job_id (d_job d)) = Some s"
    using s OpEnqueue by (auto simp: mq.op_step_def enqueue_def split: option.splits)
  with s h show ?thesis by (auto simp: held_by_def current_Inr)
next
  case (OpLease now l)
  show ?thesis
  proof (cases "visible_ids q now")
    case Nil
    with OpLease h show ?thesis by (simp add: mq.op_step_def lease_None)
  next
    case (Cons k ks)
    obtain s where s: "q_jobs q k = Some s" "slot_visible s now"
      and q': "snd (lease q now l) =
        q\<lparr>q_jobs := (q_jobs q)(k \<mapsto> s\<lparr>slot_attempt := slot_attempt s + 1, slot_lease_until := time_add now l\<rparr>)\<rparr>"
      by (rule lease_Cons [OF inv Cons, of l]) (metis snd_conv)
    have "k \<noteq> job_id (d_job d)"
    proof
      assume "k = job_id (d_job d)"
      with s h have "slot_lease_until s = d_lease_until d" by (auto simp: held_by_def current_Inr)
      with s(2) la OpLease show False by (simp add: leaves_alone_def slot_visible_def)
    qed
    with q' h OpLease show ?thesis by (simp add: mq.op_step_def held_by_def current_Inr)
  qed
next
  case (OpAck x)
  show ?thesis
  proof (cases "current q x")
    case (Inl e)
    with OpAck h show ?thesis by (simp add: mq.op_step_def ack_def)
  next
    case (Inr s)
    then have "job_id (slot_job s) = job_id (d_job x)" "job_id (d_job x) \<noteq> job_id (d_job d)"
      using h la inv OpAck by (auto simp: current_Inr held_by_def leaves_alone_def queue_inv_def)
    moreover have "ack q x = Inr (q\<lparr>q_jobs := (q_jobs q)(job_id (slot_job s) := None),
        q_order := remove1 (job_id (slot_job s)) (q_order q)\<rparr>)" by (simp add: ack_def Inr)
    ultimately show ?thesis using OpAck h by (simp add: mq.op_step_def held_by_def current_Inr)
  qed
next
  case (OpNack x t now)
  show ?thesis
  proof (cases "current q x")
    case (Inl e)
    with OpNack h show ?thesis by (simp add: mq.op_step_def nack_def)
  next
    case (Inr s)
    then have "job_id (slot_job s) = job_id (d_job x)" "job_id (d_job x) \<noteq> job_id (d_job d)"
      using h la inv OpNack by (auto simp: current_Inr held_by_def leaves_alone_def queue_inv_def)
    moreover have "nack q x t now = Inr (q\<lparr>q_jobs := (q_jobs q)(job_id (slot_job s) \<mapsto>
        s\<lparr>slot_lease_until := 0, slot_not_before := time_add now t\<rparr>)\<rparr>)" by (simp add: nack_def Inr)
    ultimately show ?thesis using OpNack h by (simp add: mq.op_step_def held_by_def current_Inr)
  qed
qed

lemma held_run:
  "queue_inv q \<Longrightarrow> held_by q d \<Longrightarrow> list_all (leaves_alone d) ops \<Longrightarrow>
     queue_inv (foldl mq.op_step q ops) \<and> held_by (foldl mq.op_step q ops) d"
  using mq.run_inv held_step by (induction ops rule: rev_induct) (auto simp: mq.op_step_spec)

subsection \<open>Properties\<close>

definition demo_job :: job where
  "demo_job = \<lparr>job_id = ''pi_1/settle'', job_kind = KindSettle, job_intent_id = ''pi_1'',
     job_ref = replicate 32 (CHR 0x01)\<rparr>"

lemma demo_job_valid [simp]: "validate_job demo_job = None"
  by (simp add: validate_job_def demo_job_def ref_is_zero_def zero_ref_def ref_size_def)

definition demo_queue :: memory_queue where
  "demo_queue = \<lparr>q_jobs = [''pi_1/settle'' \<mapsto> \<lparr>slot_job = demo_job, slot_attempt = 0, slot_not_before = 10, slot_lease_until = 0\<rparr>],
     q_order = [''pi_1/settle'']\<rparr>"

lemma demo_queue_inv [simp]: "queue_inv demo_queue"
  by (simp add: queue_inv_def demo_queue_def demo_job_def)



text \<open>
  C13. A lease excludes. From the moment \<open>Lease\<close> hands a job out until the lease runs out, whatever the
  other workers enqueue, lease, acknowledge or reject, no \<open>Lease\<close> delivers that job to anybody else and
  the holder's receipt stays valid, unless somebody presents that very receipt.
\<close>

theorem lease_excludes:
  assumes "queue_inv q" "lease q now l = (Some d, q1)" "list_all (leaves_alone d) ops"
    and "q2 = foldl mq.op_step q1 ops" "t < time_add now l"
  shows "(case fst (lease q2 t l') of None \<Rightarrow> True | Some x \<Rightarrow> job_id (d_job x) \<noteq> job_id (d_job d))
    \<and> (\<exists>q3. ack q2 d = Inr q3 \<and> queue_pending q3 = (queue_pending q2)(job_id (d_job d) := None))"
proof -
  have h1: "held_by q1 d" "d_lease_until d = time_add now l" and i1: "queue_inv q1"
    using lease_held [OF assms(1,2)] mq.deq_spec [OF assms(1,2)] by auto
  have h2: "held_by q2 d" and i2: "queue_inv q2"
    using held_run [OF i1 h1(1) assms(3)] assms(4) by auto
  have "(case fst (lease q2 t l') of None \<Rightarrow> True | Some x \<Rightarrow> job_id (d_job x) \<noteq> job_id (d_job d))"
  proof (cases "lease q2 t l'")
    case (Pair r q3)
    with held_not_delivered [OF i2 h2, of t l'] h1(2) assms(5) show ?thesis
      by (auto split: option.splits)
  qed
  moreover obtain q3 where "ack q2 d = Inr q3"
    using h2 by (auto simp: held_by_def ack_def)
  ultimately show ?thesis using mq.ack_spec [OF i2] by blast
qed

theorem lease_excludes_witness:
  "case fst (lease (snd (lease demo_queue 10 60)) 69 60) of None \<Rightarrow> True | Some x \<Rightarrow> job_id (d_job x) \<noteq> ''pi_1/settle''"
proof -
  have v: "visible_ids demo_queue 10 = [''pi_1/settle'']"
    by (simp add: visible_ids_def demo_queue_def slot_visible_def)
  obtain d q1 where l: "lease demo_queue 10 60 = (Some d, q1)" "job_id (d_job d) = ''pi_1/settle''"
    by (rule lease_Cons [OF demo_queue_inv v, of 60]) simp
  show ?thesis
    using lease_excludes [OF demo_queue_inv l(1), of "[]" q1 69 60] l
    by (simp add: time_add_def split: option.splits)
qed

text \<open>How the attempt count of a job moves while nobody takes it out.\<close>

lemma attempt_step:
  assumes inv: "queue_inv q" and s: "q_jobs q k = Some s" and out: "\<not> mq.takes_out q k opn"
  shows "\<exists>s'. q_jobs (mq.op_step q opn) k = Some s' \<and> (slot_attempt s' = slot_attempt s \<or> slot_attempt s' = slot_attempt s + 1)"
proof (cases opn)
  case (OpEnqueue j now)
  with s show ?thesis by (auto simp: mq.op_step_def enqueue_def split: option.splits)
next
  case (OpLease now l)
  show ?thesis
  proof (cases "visible_ids q now")
    case Nil
    with OpLease s show ?thesis by (simp add: mq.op_step_def lease_None)
  next
    case (Cons k' ks)
    obtain s' where s': "q_jobs q k' = Some s'"
      and q': "snd (lease q now l) =
        q\<lparr>q_jobs := (q_jobs q)(k' \<mapsto> s'\<lparr>slot_attempt := slot_attempt s' + 1, slot_lease_until := time_add now l\<rparr>)\<rparr>"
      by (rule lease_Cons [OF inv Cons, of l]) (metis snd_conv)
    with OpLease s show ?thesis by (cases "k' = k") (simp_all add: mq.op_step_def)
  qed
next
  case (OpAck x)
  show ?thesis
  proof (cases "current q x")
    case (Inl e)
    with OpAck s show ?thesis by (simp add: mq.op_step_def ack_def)
  next
    case (Inr s')
    have ak: "ack q x = Inr (q\<lparr>q_jobs := (q_jobs q)(job_id (slot_job s') := None),
        q_order := remove1 (job_id (slot_job s')) (q_order q)\<rparr>)" by (simp add: ack_def Inr)
    moreover from Inr have "job_id (slot_job s') = job_id (d_job x)"
      using inv by (auto simp: current_Inr queue_inv_def)
    moreover have "job_id (d_job x) \<noteq> k" using out ak OpAck by (auto simp: mq.takes_out_def)
    ultimately show ?thesis using OpAck s by (simp add: mq.op_step_def)
  qed
next
  case (OpNack x t now)
  show ?thesis
  proof (cases "current q x")
    case (Inl e)
    with OpNack s show ?thesis by (simp add: mq.op_step_def nack_def)
  next
    case (Inr s')
    have "nack q x t now = Inr (q\<lparr>q_jobs := (q_jobs q)(job_id (slot_job s') \<mapsto>
        s'\<lparr>slot_lease_until := 0, slot_not_before := time_add now t\<rparr>)\<rparr>)" by (simp add: nack_def Inr)
    moreover from Inr have "job_id (slot_job s') = job_id (d_job x)" "q_jobs q (job_id (d_job x)) = Some s'"
      using inv by (auto simp: current_Inr queue_inv_def)
    ultimately show ?thesis using OpNack s by (cases "job_id (d_job x) = k") (simp_all add: mq.op_step_def)
  qed
qed

lemma attempt_run:
  "queue_inv q \<Longrightarrow> q_jobs q k = Some s \<Longrightarrow>
     \<forall>i < length ops. \<not> mq.takes_out (foldl mq.op_step q (take i ops)) k (ops ! i) \<Longrightarrow>
     \<exists>s' m. q_jobs (foldl mq.op_step q ops) k = Some s' \<and> m \<le> length ops \<and> slot_attempt s' = slot_attempt s + of_nat m"
proof (induction ops rule: rev_induct)
  case (snoc opn ops)
  have *: "\<forall>i < length ops. \<not> mq.takes_out (foldl mq.op_step q (take i ops)) k (ops ! i)"
    using snoc.prems(3) by (auto simp: nth_append dest: less_SucI)
  obtain s1 m where s1: "q_jobs (foldl mq.op_step q ops) k = Some s1" "m \<le> length ops"
      "slot_attempt s1 = slot_attempt s + of_nat m"
    using snoc.IH [OF snoc.prems(1,2) *] by blast
  have "\<not> mq.takes_out (foldl mq.op_step q ops) k opn" using snoc.prems(3) by auto
  from attempt_step [OF mq.run_inv [OF snoc.prems(1)] s1(1) this]
  obtain s2 where s2: "q_jobs (mq.op_step (foldl mq.op_step q ops) opn) k = Some s2"
      "slot_attempt s2 = slot_attempt s1 \<or> slot_attempt s2 = slot_attempt s1 + 1" by blast
  from s2(2) have "\<exists>n \<le> Suc m. slot_attempt s2 = slot_attempt s + of_nat n"
  proof
    assume "slot_attempt s2 = slot_attempt s1 + 1"
    then have "slot_attempt s2 = slot_attempt s + of_nat (Suc m)" by (simp add: s1(3))
    then show ?thesis by blast
  qed (use s1(3) in \<open>auto intro: exI [of _ m]\<close>)
  then obtain n where "n \<le> Suc m" "slot_attempt s2 = slot_attempt s + of_nat n" by blast
  with s2(1) s1(2) show ?case by (auto intro!: exI [of _ n])
qed (auto intro: exI [of _ 0])

lemma lease_delivery:
  assumes "queue_inv q" "lease q now l = (Some d, q')"
  obtains s where "q_jobs q' (job_id (d_job d)) = Some s" "job_id (slot_job s) = job_id (d_job d)"
    "slot_attempt s = d_attempt d" "d_receipt d = receipt_of (job_id (d_job d)) (d_attempt d)"
    "\<exists>s0. q_jobs q (job_id (d_job d)) = Some s0 \<and> d_attempt d = slot_attempt s0 + 1"
proof (cases "visible_ids q now")
  case (Cons k ks)
  show thesis
    by (rule lease_Cons [OF assms(1) Cons, of l]) (use assms(2) that in \<open>auto simp: fun_upd_same\<close>)
qed (use assms(2) lease_None in auto)

text \<open>
  A late worker cannot touch a delivery that is no longer its own. If a job is delivered, and after
  fewer than \<open>2^64 - 1\<close> further operations that never took it out of the queue it is delivered again, then
  the first delivery's receipt is refused by \<open>Ack\<close> and by \<open>Nack\<close> with \<open>ErrStaleReceipt\<close>.
\<close>

theorem stale_receipt_refused:
  assumes inv: "queue_inv q" and l1: "lease q now l = (Some d, q1)"
    and kept: "\<forall>i < length ops. \<not> mq.takes_out (foldl mq.op_step q1 (take i ops)) (job_id (d_job d)) (ops ! i)"
    and few: "length ops + 1 < 2 ^ 64"
    and l2: "lease (foldl mq.op_step q1 ops) t l' = (Some d2, q2)" and same: "job_id (d_job d2) = job_id (d_job d)"
  shows "ack q2 d = Inl (ErrStaleReceipt (job_id (d_job d)) (d_attempt d2) (d_receipt d))
    \<and> nack q2 d w t' = Inl (ErrStaleReceipt (job_id (d_job d)) (d_attempt d2) (d_receipt d))"
proof -
  let ?q = "foldl mq.op_step q1 ops"
  have i1: "queue_inv q1" using mq.deq_spec [OF inv l1] by simp
  have i2: "queue_inv ?q" by (rule mq.run_inv [OF i1])
  obtain s1 where s1: "q_jobs q1 (job_id (d_job d)) = Some s1" "slot_attempt s1 = d_attempt d"
      "d_receipt d = receipt_of (job_id (d_job d)) (d_attempt d)"
    by (rule lease_delivery [OF inv l1]) blast
  obtain s' m where s': "q_jobs ?q (job_id (d_job d)) = Some s'" "m \<le> length ops"
      "slot_attempt s' = d_attempt d + of_nat m"
    using attempt_run [OF i1 s1(1) kept] s1(2) by auto
  obtain s2 where s2: "q_jobs q2 (job_id (d_job d)) = Some s2" "job_id (slot_job s2) = job_id (d_job d)"
      "slot_attempt s2 = d_attempt d2" "d_attempt d2 = d_attempt d + of_nat (Suc m)"
    by (rule lease_delivery [OF i2 l2]) (use same s' in \<open>auto simp: algebra_simps\<close>)
  have "(of_nat (Suc m) :: u64) \<noteq> 0"
  proof
    assume "(of_nat (Suc m) :: u64) = 0"
    then have "2 ^ 64 dvd Suc m" by (simp only: word_of_nat_eq_0_iff) simp
    then have "2 ^ 64 \<le> Suc m" by (rule dvd_imp_le) simp
    with s'(2) few show False by simp
  qed
  then have "d_attempt d2 \<noteq> d_attempt d" using s2(4) by simp
  then have "current q2 d = Inl (ErrStaleReceipt (job_id (d_job d)) (d_attempt d2) (d_receipt d))"
    using s1(3) s2 by (auto simp: current_def)
  then show ?thesis by (simp add: ack_def nack_def)
qed

lemma demo_leases:
  "lease demo_queue 10 60 = (Some \<lparr>d_job = demo_job, d_attempt = 1, d_receipt = receipt_of ''pi_1/settle'' 1, d_lease_until = 70\<rparr>,
     demo_queue\<lparr>q_jobs := [''pi_1/settle'' \<mapsto> \<lparr>slot_job = demo_job, slot_attempt = 1, slot_not_before = 10, slot_lease_until = 70\<rparr>]\<rparr>)"
  "lease (demo_queue\<lparr>q_jobs := [''pi_1/settle'' \<mapsto> \<lparr>slot_job = demo_job, slot_attempt = 1, slot_not_before = 10, slot_lease_until = 70\<rparr>]\<rparr>) 70 60
     = (Some \<lparr>d_job = demo_job, d_attempt = 2, d_receipt = receipt_of ''pi_1/settle'' 2, d_lease_until = 130\<rparr>,
     demo_queue\<lparr>q_jobs := [''pi_1/settle'' \<mapsto> \<lparr>slot_job = demo_job, slot_attempt = 2, slot_not_before = 10, slot_lease_until = 130\<rparr>]\<rparr>)"
  by (simp_all add: lease_def demo_queue_def slot_visible_def time_add_def)

theorem stale_receipt_refused_witness:
  "\<exists>d q2. ack q2 d = Inl (ErrStaleReceipt ''pi_1/settle'' 2 (receipt_of ''pi_1/settle'' 1))"
proof -
  let ?d1 = "\<lparr>d_job = demo_job, d_attempt = 1, d_receipt = receipt_of ''pi_1/settle'' 1, d_lease_until = 70\<rparr>"
  have "lease (foldl mq.op_step (demo_queue\<lparr>q_jobs := [''pi_1/settle'' \<mapsto>
      \<lparr>slot_job = demo_job, slot_attempt = 1, slot_not_before = 10, slot_lease_until = 70\<rparr>]\<rparr>) []) 70 60
     = (Some \<lparr>d_job = demo_job, d_attempt = 2, d_receipt = receipt_of ''pi_1/settle'' 2, d_lease_until = 130\<rparr>,
     demo_queue\<lparr>q_jobs := [''pi_1/settle'' \<mapsto> \<lparr>slot_job = demo_job, slot_attempt = 2, slot_not_before = 10, slot_lease_until = 130\<rparr>]\<rparr>)"
    using demo_leases(2) by simp
  from stale_receipt_refused [OF demo_queue_inv demo_leases(1) _ _ this, of 0 0]
  show ?thesis by (auto simp: demo_job_def intro!: exI [of _ ?d1])
qed

text \<open>
  Receipts repeat across re-enqueues. The attempt count lives in the slot and starts again at zero when
  an acknowledged job id is enqueued once more, so the first delivery of the new job carries the receipt
  of the first delivery of the old one; a worker still holding that one can acknowledge, and thereby
  remove, a job that is in another worker's hands.
\<close>

theorem receipt_reused_after_ack:
  assumes "enqueue new_queue j t0 = Inr (True, q1)" "0 \<le> t0" "0 < l"
    and "lease q1 t0 l = (Some d1, q2)" and "lease q2 (t0 + l) l = (Some d2, q3)"
    and "ack q3 d2 = Inr q4" and "enqueue q4 j t1 = Inr (True, q5)" "0 \<le> t1"
    and "lease q5 t1 l = (Some d3, q6)"
  shows "d_receipt d3 = d_receipt d1 \<and> (\<exists>q7. ack q6 d1 = Inr q7 \<and> queue_pending q7 (job_id j) = None)"
proof -
  have q1: "q1 = \<lparr>q_jobs = [job_id j \<mapsto> \<lparr>slot_job = j, slot_attempt = 0, slot_not_before = t0, slot_lease_until = 0\<rparr>],
      q_order = [job_id j]\<rparr>"
    using assms(1) by (auto simp: enqueue_def new_queue_def split: option.splits)
  have q2: "q2 = \<lparr>q_jobs = [job_id j \<mapsto> \<lparr>slot_job = j, slot_attempt = 1, slot_not_before = t0, slot_lease_until = t0 + l\<rparr>],
      q_order = [job_id j]\<rparr>" and d1: "d1 = \<lparr>d_job = j, d_attempt = 1, d_receipt = receipt_of (job_id j) 1, d_lease_until = t0 + l\<rparr>"
    using assms(2,4) by (auto simp: q1 lease_def slot_visible_def time_add_def)
  have q3: "q3 = \<lparr>q_jobs = [job_id j \<mapsto> \<lparr>slot_job = j, slot_attempt = 2, slot_not_before = t0, slot_lease_until = t0 + l + l\<rparr>],
      q_order = [job_id j]\<rparr>" and d2: "d_job d2 = j"
    using assms(3,5) by (auto simp: q2 lease_def slot_visible_def time_add_def)
  have q4: "q4 = \<lparr>q_jobs = (\<lambda>_. None), q_order = []\<rparr>"
    using assms(6) d2 by (auto simp: q3 ack_def current_def fun_eq_iff split: if_splits)
  have q5: "q5 = \<lparr>q_jobs = [job_id j \<mapsto> \<lparr>slot_job = j, slot_attempt = 0, slot_not_before = t1, slot_lease_until = 0\<rparr>],
      q_order = [job_id j]\<rparr>"
    using assms(7) by (auto simp: q4 enqueue_def split: option.splits)
  have q6: "q6 = \<lparr>q_jobs = [job_id j \<mapsto> \<lparr>slot_job = j, slot_attempt = 1, slot_not_before = t1, slot_lease_until = t1 + l\<rparr>],
      q_order = [job_id j]\<rparr>" and d3: "d_receipt d3 = receipt_of (job_id j) 1"
    using assms(8,9) by (auto simp: q5 lease_def slot_visible_def time_add_def)
  show ?thesis
    by (simp add: d1 d3 q6 ack_def current_def queue_pending_def)
qed

theorem receipt_reused_after_ack_witness:
  "\<exists>d1 (d3 :: delivery) q6 q7. d_receipt d3 = d_receipt d1 \<and> ack q6 d1 = Inr q7 \<and> queue_pending q7 ''pi_1/settle'' = None"
proof -
  have e1: "enqueue new_queue demo_job 10 = Inr (True, demo_queue)"
    by (simp add: enqueue_def new_queue_def demo_queue_def) (simp add: demo_job_def)
  let ?s = "\<lambda>a n u. demo_queue\<lparr>q_jobs := [''pi_1/settle'' \<mapsto> \<lparr>slot_job = demo_job, slot_attempt = a, slot_not_before = n, slot_lease_until = u\<rparr>]\<rparr>"
  let ?d = "\<lambda>a u. \<lparr>d_job = demo_job, d_attempt = a, d_receipt = receipt_of ''pi_1/settle'' a, d_lease_until = u\<rparr>"
  have l2: "lease (?s 1 10 70) (10 + 60) 60 = (Some (?d 2 130), ?s 2 10 130)"
    using demo_leases(2) by simp
  have a: "ack (?s 2 10 130) (?d 2 130) = Inr new_queue"
    by (simp add: ack_def current_def demo_queue_def new_queue_def demo_job_def fun_eq_iff)
  have l3: "lease demo_queue 10 60 = (Some (?d 1 70), ?s 1 10 70)"
    by (rule demo_leases(1))
  have "(0::int) \<le> 10" "(0::int) < 60" by simp_all
  from receipt_reused_after_ack [OF e1 this l3 l2 a e1 this(1) l3]
  have "\<exists>q7. ack (?s 1 10 70) (?d 1 70) = Inr q7 \<and> queue_pending q7 (job_id demo_job) = None" by (rule conjunct2)
  then obtain q7 where q7: "ack (?s 1 10 70) (?d 1 70) = Inr q7" "queue_pending q7 (job_id demo_job) = None" by (elim exE conjE)
  have "job_id demo_job = ''pi_1/settle''" by (simp add: demo_job_def)
  with q7(2) have "queue_pending q7 ''pi_1/settle'' = None" by (simp only:)
  with q7(1) have "d_receipt (?d 1 70) = d_receipt (?d 1 70) \<and> ack (?s 1 10 70) (?d 1 70) = Inr q7
      \<and> queue_pending q7 ''pi_1/settle'' = None" by (intro conjI refl)
  then show ?thesis by (intro exI)
qed

end
