(* ===== verification/Tx_Seq.thy ===== *)
theory Tx_Seq
  imports Prelude "HOL-Library.AList"
begin

section \<open>Sequencers: which slot of the account a transaction takes\<close>

text \<open>
  Models \<open>internal/txseq\<close>: reservations and their text (\<open>txseq.go\<close>), the \<open>Unordered\<close> sequencer and
  the \<open>Counter\<close> for nonces and seqnos with \<open>Reserve\<close>, \<open>ReserveGap\<close>, \<open>Resolve\<close>, \<open>Sync\<close>, \<open>Status\<close> and
  \<open>Accounts\<close> (\<open>counter.go\<close>).

  An account's semaphore is the flag \<open>a_sem\<close>, true when the token is there. \<open>Reserve\<close> waits for the
  token or for its context; the argument \<open>gave_up\<close> says that the wait ended with the context, which is
  the only way it can end while the token is away. Both change the map even when they fail, since the
  account is created on first sight, so they return the counter beside the result. Between taking the
  token and the mutex only \<open>Sync\<close> and reads can intervene, so one step per call loses no behaviour.

  The locale \<open>sequencer\<close> is what the relayer relies on for every chain, \<open>exclusive_sequencer\<close> adds one
  number in flight per account; the first is interpreted on both implementations, the second on the
  counter. \<open>seq_reach\<close> is the counter together with the clients that hold its reservations.
\<close>

subsection \<open>Reservations\<close>

record reservation =
  r_account :: string
  r_value :: u64
  r_ordered :: bool
  r_fill :: bool

definition short_account_text :: "string \<Rightarrow> string" where
  "short_account_text a =
     (if length a \<noteq> 42 \<or> take 2 a \<noteq> ''0x'' then a
      else take 6 a @ [CHR 0xE2, CHR 0x80, CHR 0xA6] @ drop 38 a)"

definition reservation_text :: "reservation \<Rightarrow> string" where
  "reservation_text r =
     (if \<not> r_ordered r then ''no slot needed''
      else if r_fill r then short_account_text (r_account r) @ '' #'' @ show_nat (unat (r_value r)) @ '' fill''
      else short_account_text (r_account r) @ '' #'' @ show_nat (unat (r_value r)))"

datatype sent = SentYes | SentNo | SentUnknown | SentOther string

datatype seq_error =
    ErrGap u64
  | ErrStale reservation
  | ErrBusy string u64
  | ErrNoGap
  | ErrContext

subsection \<open>Chains without a sequence\<close>

definition unordered_reserve :: "unit \<Rightarrow> string \<Rightarrow> bool \<Rightarrow> (seq_error + reservation) \<times> unit" where
  "unordered_reserve u acct gave_up = (Inr \<lparr>r_account = acct, r_value = 0, r_ordered = False, r_fill = False\<rparr>, u)"

definition unordered_reserve_gap :: "unit \<Rightarrow> string \<Rightarrow> bool \<Rightarrow> (seq_error + reservation) \<times> unit" where
  "unordered_reserve_gap u acct gave_up = (Inl ErrNoGap, u)"

definition unordered_resolve :: "unit \<Rightarrow> reservation \<Rightarrow> sent \<Rightarrow> seq_error + unit" where
  "unordered_resolve u r s = Inr u"

subsection \<open>The counter\<close>

record seq_account =
  a_sem :: bool
  a_next :: u64
  a_out :: "u64 option"
  a_gap :: "u64 option"

type_synonym counter = "(string \<times> seq_account) list"

definition new_counter :: counter where
  "new_counter = []"

definition new_account :: seq_account where
  "new_account = \<lparr>a_sem = True, a_next = 0, a_out = None, a_gap = None\<rparr>"

definition account_of :: "counter \<Rightarrow> string \<Rightarrow> seq_account" where
  "account_of c name = (case map_of c name of None \<Rightarrow> new_account | Some a \<Rightarrow> a)"

definition put_account :: "counter \<Rightarrow> string \<Rightarrow> seq_account \<Rightarrow> counter" where
  "put_account c name a = AList.update name a c"

definition reserve :: "counter \<Rightarrow> string \<Rightarrow> bool \<Rightarrow> (seq_error + reservation) \<times> counter" where
  "reserve c name gave_up =
     (let a = account_of c name in
      if gave_up \<or> \<not> a_sem a then (Inl ErrContext, put_account c name a)
      else case a_gap a of
          Some g \<Rightarrow> (Inl (ErrGap g), put_account c name a)
        | None \<Rightarrow>
            let v = a_next a in
            (Inr \<lparr>r_account = name, r_value = v, r_ordered = True, r_fill = False\<rparr>,
             put_account c name (a\<lparr>a_sem := False, a_next := v + 1, a_out := Some v\<rparr>)))"

definition reserve_gap :: "counter \<Rightarrow> string \<Rightarrow> bool \<Rightarrow> (seq_error + reservation) \<times> counter" where
  "reserve_gap c name gave_up =
     (let a = account_of c name in
      if gave_up \<or> \<not> a_sem a then (Inl ErrContext, put_account c name a)
      else case a_gap a of
          None \<Rightarrow> (Inl ErrNoGap, put_account c name a)
        | Some v \<Rightarrow>
            (Inr \<lparr>r_account = name, r_value = v, r_ordered = True, r_fill = True\<rparr>,
             put_account c name (a\<lparr>a_sem := False, a_out := Some v\<rparr>)))"

definition resolve_account :: "seq_account \<Rightarrow> reservation \<Rightarrow> sent \<Rightarrow> seq_account" where
  "resolve_account a r s =
     (let a1 = (if r_fill r then (if s = SentYes then a\<lparr>a_gap := None\<rparr> else a)
                else if s = SentNo then a\<lparr>a_next := r_value r\<rparr>
                else if s = SentUnknown then a\<lparr>a_gap := Some (r_value r)\<rparr>
                else a)
      in a1\<lparr>a_out := None, a_sem := True\<rparr>)"

definition resolve :: "counter \<Rightarrow> reservation \<Rightarrow> sent \<Rightarrow> seq_error + counter" where
  "resolve c r s =
     (if \<not> r_ordered r then Inr c
      else case map_of c (r_account r) of
          None \<Rightarrow> Inl (ErrStale r)
        | Some a \<Rightarrow>
            if a_out a = None \<or> a_out a \<noteq> Some (r_value r) then Inl (ErrStale r)
            else Inr (put_account c (r_account r) (resolve_account a r s)))"

definition sync :: "counter \<Rightarrow> string \<Rightarrow> u64 \<Rightarrow> (seq_error option) \<times> counter" where
  "sync c name nxt =
     (let a = account_of c name; c1 = put_account c name a in
      case a_out a of
        Some v \<Rightarrow> (Some (ErrBusy name v), c1)
      | None \<Rightarrow>
          (None, put_account c name
             (a\<lparr>a_next := nxt,
               a_gap := (case a_gap a of None \<Rightarrow> None | Some g \<Rightarrow> if nxt > g then None else Some g)\<rparr>)))"

record seq_status =
  ss_account :: string
  ss_next :: u64
  ss_in_flight :: bool
  ss_gap :: u64
  ss_has_gap :: bool

definition seq_status_text :: "seq_status \<Rightarrow> string" where
  "seq_status_text s =
     short_account_text (ss_account s) @ ''  next '' @ pad_right 4 (show_nat (unat (ss_next s))) @
     '' in-flight '' @ pad_right 4 (if ss_in_flight s then ''yes'' else ''-'') @
     (if ss_has_gap s then '' gap '' @ show_nat (unat (ss_gap s)) else '' gap -'')"

definition counter_status :: "counter \<Rightarrow> string \<Rightarrow> seq_status" where
  "counter_status c name =
     (case map_of c name of
        None \<Rightarrow> \<lparr>ss_account = name, ss_next = 0, ss_in_flight = False, ss_gap = 0, ss_has_gap = False\<rparr>
      | Some a \<Rightarrow> \<lparr>ss_account = name, ss_next = a_next a, ss_in_flight = (a_out a \<noteq> None),
                   ss_gap = (case a_gap a of None \<Rightarrow> 0 | Some g \<Rightarrow> g), ss_has_gap = (a_gap a \<noteq> None)\<rparr>)"

definition counter_accounts :: "counter \<Rightarrow> string list" where
  "counter_accounts c = sort (map fst c)"

subsection \<open>The contracts\<close>

locale sequencer =
  fixes take_slot :: "'s \<Rightarrow> string \<Rightarrow> bool \<Rightarrow> (seq_error + reservation) \<times> 's"
    and retake_slot :: "'s \<Rightarrow> string \<Rightarrow> bool \<Rightarrow> (seq_error + reservation) \<times> 's"
    and settle_slot :: "'s \<Rightarrow> reservation \<Rightarrow> sent \<Rightarrow> seq_error + 's"
    and inv :: "'s \<Rightarrow> bool"
    and resolvable :: "'s \<Rightarrow> reservation \<Rightarrow> bool"
  assumes take_spec: "inv s \<Longrightarrow> take_slot s a g = (res, s') \<Longrightarrow>
      inv s' \<and> (\<forall>q. resolvable s q \<longrightarrow> resolvable s' q)
      \<and> (case res of Inl _ \<Rightarrow> True | Inr r \<Rightarrow> r_account r = a \<and> \<not> r_fill r \<and> resolvable s' r)"
    and retake_spec: "inv s \<Longrightarrow> retake_slot s a g = (res, s') \<Longrightarrow>
      inv s' \<and> (\<forall>q. resolvable s q \<longrightarrow> resolvable s' q)
      \<and> (case res of Inl _ \<Rightarrow> True | Inr r \<Rightarrow> r_account r = a \<and> r_fill r \<and> resolvable s' r)"
    and settle_spec: "inv s \<Longrightarrow> resolvable s r \<Longrightarrow> \<exists>s'. settle_slot s r x = Inr s' \<and> inv s'"
begin

text \<open>Take a slot, send, settle it: the last step never fails, whatever the sender answered.\<close>

lemma cycle_settles:
  assumes "inv s" "take_slot s a g = (Inr r, s') \<or> retake_slot s a g = (Inr r, s')"
  shows "\<exists>s''. settle_slot s' r x = Inr s'' \<and> inv s''"
proof -
  have "inv s' \<and> resolvable s' r"
    using assms(2)
  proof
    assume "take_slot s a g = (Inr r, s')"
    from take_spec [OF assms(1) this] show ?thesis by simp
  next
    assume "retake_slot s a g = (Inr r, s')"
    from retake_spec [OF assms(1) this] show ?thesis by simp
  qed
  then show ?thesis using settle_spec by blast
qed

end

locale exclusive_sequencer = sequencer +
  fixes outstanding :: "'a \<Rightarrow> string \<Rightarrow> u64 option"
  assumes taken_blocks: "inv s \<Longrightarrow> outstanding s a = Some v \<Longrightarrow>
      (\<exists>s'. take_slot s a g = (Inl ErrContext, s') \<and> outstanding s' = outstanding s)
      \<and> (\<exists>s'. retake_slot s a g = (Inl ErrContext, s') \<and> outstanding s' = outstanding s)"
    and take_marks: "inv s \<Longrightarrow> take_slot s a g = (Inr r, s') \<Longrightarrow> outstanding s' = (outstanding s)(a \<mapsto> r_value r)"
    and retake_marks: "inv s \<Longrightarrow> retake_slot s a g = (Inr r, s') \<Longrightarrow> outstanding s' = (outstanding s)(a \<mapsto> r_value r)"
begin

lemma one_in_flight:
  assumes "inv s" "take_slot s a g = (Inr r, s') \<or> retake_slot s a g = (Inr r, s')"
  shows "outstanding s a = None \<and> (\<exists>s''. take_slot s' a g' = (Inl ErrContext, s''))
    \<and> (\<exists>s''. retake_slot s' a g' = (Inl ErrContext, s''))"
proof -
  have "outstanding s a = None"
    using taken_blocks [OF assms(1), of a _ g] assms(2) by (cases "outstanding s a") auto
  moreover have "inv s' \<and> outstanding s' a = Some (r_value r)"
    using assms(2)
  proof
    assume t: "take_slot s a g = (Inr r, s')"
    show ?thesis using take_spec [OF assms(1) t] take_marks [OF assms(1) t] by simp
  next
    assume t: "retake_slot s a g = (Inr r, s')"
    show ?thesis using retake_spec [OF assms(1) t] retake_marks [OF assms(1) t] by simp
  qed
  ultimately show ?thesis using taken_blocks by blast
qed

end
subsection \<open>The invariant of the counter\<close>

definition account_inv :: "seq_account \<Rightarrow> bool" where
  "account_inv a \<longleftrightarrow> (a_sem a \<longleftrightarrow> a_out a = None)"

definition counter_inv :: "counter \<Rightarrow> bool" where
  "counter_inv c \<longleftrightarrow> (\<forall>name a. map_of c name = Some a \<longrightarrow> account_inv a)"

definition counter_out :: "counter \<Rightarrow> string \<Rightarrow> u64 option" where
  "counter_out c name = a_out (account_of c name)"

definition counter_resolvable :: "counter \<Rightarrow> reservation \<Rightarrow> bool" where
  "counter_resolvable c r \<longleftrightarrow> r_ordered r \<and> counter_out c (r_account r) = Some (r_value r)"

lemma account_of_put [simp]:
  "account_of (put_account c name a) n = (if n = name then a else account_of c n)"
  by (simp add: account_of_def put_account_def update_conv')

lemma counter_inv_account: "counter_inv c \<Longrightarrow> account_inv (account_of c name)"
  by (auto simp: counter_inv_def account_of_def account_inv_def new_account_def split: option.splits)

lemma counter_inv_put: "counter_inv c \<Longrightarrow> account_inv a \<Longrightarrow> counter_inv (put_account c name a)"
  by (auto simp: counter_inv_def put_account_def update_conv')

lemma counter_inv_new [inv_intros]: "counter_inv new_counter"
  by (simp add: counter_inv_def new_counter_def)

lemma reserve_cases:
  "reserve c name g = (res, c') \<longleftrightarrow>
     ((g \<or> \<not> a_sem (account_of c name)) \<and> res = Inl ErrContext \<and> c' = put_account c name (account_of c name))
     \<or> (\<not> g \<and> a_sem (account_of c name) \<and> (\<exists>v. a_gap (account_of c name) = Some v \<and> res = Inl (ErrGap v))
          \<and> c' = put_account c name (account_of c name))
     \<or> (\<not> g \<and> a_sem (account_of c name) \<and> a_gap (account_of c name) = None
          \<and> res = Inr \<lparr>r_account = name, r_value = a_next (account_of c name), r_ordered = True, r_fill = False\<rparr>
          \<and> c' = put_account c name ((account_of c name)\<lparr>a_sem := False, a_next := a_next (account_of c name) + 1,
                    a_out := Some (a_next (account_of c name))\<rparr>))"
  by (auto simp: reserve_def Let_def split: option.splits)

lemma reserve_gap_cases:
  "reserve_gap c name g = (res, c') \<longleftrightarrow>
     ((g \<or> \<not> a_sem (account_of c name)) \<and> res = Inl ErrContext \<and> c' = put_account c name (account_of c name))
     \<or> (\<not> g \<and> a_sem (account_of c name) \<and> a_gap (account_of c name) = None \<and> res = Inl ErrNoGap
          \<and> c' = put_account c name (account_of c name))
     \<or> (\<not> g \<and> a_sem (account_of c name) \<and> (\<exists>v. a_gap (account_of c name) = Some v
          \<and> res = Inr \<lparr>r_account = name, r_value = v, r_ordered = True, r_fill = True\<rparr>
          \<and> c' = put_account c name ((account_of c name)\<lparr>a_sem := False, a_out := Some v\<rparr>)))"
  by (auto simp: reserve_gap_def Let_def split: option.splits)

lemma resolve_cases:
  "resolve c r s = Inr c' \<longleftrightarrow> (\<not> r_ordered r \<and> c' = c)
     \<or> (r_ordered r \<and> counter_out c (r_account r) = Some (r_value r)
          \<and> c' = put_account c (r_account r) (resolve_account (account_of c (r_account r)) r s))"
  by (auto simp: resolve_def counter_out_def account_of_def new_account_def split: option.splits if_splits)

lemma resolve_account_frame [simp]:
  "a_out (resolve_account a r s) = None" "a_sem (resolve_account a r s)"
  by (simp_all add: resolve_account_def Let_def)

lemma account_inv_simps [simp]:
  "account_inv (resolve_account a r s)" "account_inv (a\<lparr>a_sem := False, a_out := Some v\<rparr>)"
  "account_inv (a\<lparr>a_sem := False, a_next := n, a_out := Some v\<rparr>)"
  by (simp_all add: account_inv_def)

lemma out_free: "counter_inv c \<Longrightarrow> a_sem (account_of c name) \<longleftrightarrow> counter_out c name = None"
  using counter_inv_account [of c name] by (simp add: account_inv_def counter_out_def)

lemma reserve_keeps_inv: "counter_inv c \<Longrightarrow> reserve c name g = (res, c') \<Longrightarrow> counter_inv c'"
  unfolding reserve_cases by (auto intro!: counter_inv_put counter_inv_account)

lemma reserve_gap_keeps_inv: "counter_inv c \<Longrightarrow> reserve_gap c name g = (res, c') \<Longrightarrow> counter_inv c'"
  unfolding reserve_gap_cases by (auto intro!: counter_inv_put counter_inv_account)

lemma resolve_keeps_inv: "counter_inv c \<Longrightarrow> resolve c r s = Inr c' \<Longrightarrow> counter_inv c'"
  unfolding resolve_cases by (auto intro!: counter_inv_put)

lemma reserve_out:
  assumes "counter_inv c" "reserve c name g = (res, c')"
  shows "counter_out c' = (case res of Inl _ \<Rightarrow> counter_out c | Inr r \<Rightarrow> (counter_out c)(name \<mapsto> r_value r))
    \<and> (\<forall>r. res = Inr r \<longrightarrow> counter_out c name = None \<and> r_account r = name \<and> r_ordered r \<and> \<not> r_fill r)"
  using assms out_free [OF assms(1), of name] unfolding reserve_cases
  by (auto simp: counter_out_def fun_eq_iff)

lemma reserve_gap_out:
  assumes "counter_inv c" "reserve_gap c name g = (res, c')"
  shows "counter_out c' = (case res of Inl _ \<Rightarrow> counter_out c | Inr r \<Rightarrow> (counter_out c)(name \<mapsto> r_value r))
    \<and> (\<forall>r. res = Inr r \<longrightarrow> counter_out c name = None \<and> r_account r = name \<and> r_ordered r \<and> r_fill r)"
  using assms out_free [OF assms(1), of name] unfolding reserve_gap_cases
  by (auto simp: counter_out_def fun_eq_iff)

interpretation ct: exclusive_sequencer reserve reserve_gap resolve counter_inv counter_resolvable counter_out
proof
  fix s s' a g res r x v
  assume inv: "counter_inv s"
  { assume r: "reserve s a g = (res, s')"
    show "counter_inv s' \<and> (\<forall>q. counter_resolvable s q \<longrightarrow> counter_resolvable s' q)
      \<and> (case res of Inl _ \<Rightarrow> True | Inr r \<Rightarrow> r_account r = a \<and> \<not> r_fill r \<and> counter_resolvable s' r)"
      using reserve_keeps_inv [OF inv r] reserve_out [OF inv r]
      by (cases res) (auto simp: counter_resolvable_def) }
  { assume r: "reserve_gap s a g = (res, s')"
    show "counter_inv s' \<and> (\<forall>q. counter_resolvable s q \<longrightarrow> counter_resolvable s' q)
      \<and> (case res of Inl _ \<Rightarrow> True | Inr r \<Rightarrow> r_account r = a \<and> r_fill r \<and> counter_resolvable s' r)"
      using reserve_gap_keeps_inv [OF inv r] reserve_gap_out [OF inv r]
      by (cases res) (auto simp: counter_resolvable_def) }
  { assume "counter_resolvable s r"
    then obtain s' where "resolve s r x = Inr s'"
      unfolding resolve_cases counter_resolvable_def by blast
    then show "\<exists>s'. resolve s r x = Inr s' \<and> counter_inv s'"
      using resolve_keeps_inv [OF inv] by blast }
  { assume "counter_out s a = Some v"
    then have ns: "\<not> a_sem (account_of s a)" using out_free [OF inv, of a] by simp
    have r: "reserve s a g = (Inl ErrContext, put_account s a (account_of s a))"
      and rg: "reserve_gap s a g = (Inl ErrContext, put_account s a (account_of s a))"
      using ns by (simp_all add: reserve_def reserve_gap_def Let_def)
    then show "(\<exists>s'. reserve s a g = (Inl ErrContext, s') \<and> counter_out s' = counter_out s)
      \<and> (\<exists>s'. reserve_gap s a g = (Inl ErrContext, s') \<and> counter_out s' = counter_out s)"
      using reserve_out [OF inv r] reserve_gap_out [OF inv rg] by auto }
  { assume "reserve s a g = (Inr r, s')"
    from reserve_out [OF inv this] show "counter_out s' = (counter_out s)(a \<mapsto> r_value r)" by simp }
  { assume "reserve_gap s a g = (Inr r, s')"
    from reserve_gap_out [OF inv this] show "counter_out s' = (counter_out s)(a \<mapsto> r_value r)" by simp }
qed

interpretation un: sequencer unordered_reserve unordered_reserve_gap unordered_resolve "\<lambda>_. True" "\<lambda>_ _. True"
  by unfold_locales (auto simp: unordered_reserve_def unordered_reserve_gap_def unordered_resolve_def)

subsection \<open>The counter and the clients that hold its numbers\<close>

text \<open>
  Clients obtain reservations from the counter, send or fail to, and settle each reservation they hold
  once; steps of different clients interleave in any order. The log records what may have left: the
  reservations settled as sent or unknown.
\<close>

record seq_world =
  w_counter :: counter
  w_held :: "reservation list"
  w_log :: "reservation list"
  w_steps :: nat

definition seq_world0 :: seq_world where
  "seq_world0 = \<lparr>w_counter = new_counter, w_held = [], w_log = [], w_steps = 0\<rparr>"

definition grant :: "(seq_error + reservation) \<Rightarrow> reservation list \<Rightarrow> reservation list" where
  "grant res held = (case res of Inl _ \<Rightarrow> held | Inr r \<Rightarrow> r # held)"

inductive seq_step :: "seq_world \<Rightarrow> seq_world \<Rightarrow> bool" where
  do_reserve: "reserve (w_counter w) a g = (res, c') \<Longrightarrow>
    seq_step w (w\<lparr>w_counter := c', w_held := grant res (w_held w), w_steps := w_steps w + 1\<rparr>)"
| do_reserve_gap: "reserve_gap (w_counter w) a g = (res, c') \<Longrightarrow>
    seq_step w (w\<lparr>w_counter := c', w_held := grant res (w_held w), w_steps := w_steps w + 1\<rparr>)"
| do_resolve: "r \<in> set (w_held w) \<Longrightarrow> s \<in> {SentYes, SentNo, SentUnknown} \<Longrightarrow> resolve (w_counter w) r s = Inr c' \<Longrightarrow>
    seq_step w (w\<lparr>w_counter := c', w_held := remove1 r (w_held w),
      w_log := (if s = SentNo then w_log w else w_log w @ [r]), w_steps := w_steps w + 1\<rparr>)"

inductive_cases seq_stepE: "seq_step w w'"

definition seq_reach :: "seq_world \<Rightarrow> bool" where
  "seq_reach w \<longleftrightarrow> seq_step\<^sup>*\<^sup>* seq_world0 w"

definition first_sends :: "reservation list \<Rightarrow> (string \<times> u64) list" where
  "first_sends log = map (\<lambda>r. (r_account r, r_value r)) (filter (\<lambda>r. \<not> r_fill r) log)"

lemma first_sends_snoc [simp]:
  "first_sends (log @ [r]) = first_sends log @ (if r_fill r then [] else [(r_account r, r_value r)])"
  by (simp add: first_sends_def)

definition account_ok :: "seq_account \<Rightarrow> string \<Rightarrow> (string \<times> u64) set \<Rightarrow> reservation option \<Rightarrow> nat \<Rightarrow> bool" where
  "account_ok a name used h n \<longleftrightarrow> unat (a_next a) \<le> n
     \<and> (\<forall>v. (name, v) \<in> used \<longrightarrow> unat v < unat (a_next a))
     \<and> (\<forall>g. a_gap a = Some g \<longrightarrow> (name, g) \<in> used)
     \<and> (case h of None \<Rightarrow> a_out a = None
        | Some r \<Rightarrow> r_account r = name \<and> r_ordered r \<and> a_out a = Some (r_value r)
            \<and> (if r_fill r then a_gap a = Some (r_value r)
               else a_gap a = None \<and> unat (a_next a) = unat (r_value r) + 1 \<and> (name, r_value r) \<notin> used))"

definition held_for :: "reservation list \<Rightarrow> string \<Rightarrow> reservation option" where
  "held_for held name = find (\<lambda>r. r_account r = name) held"

definition world_ok :: "seq_world \<Rightarrow> bool" where
  "world_ok w \<longleftrightarrow> counter_inv (w_counter w) \<and> distinct (map r_account (w_held w))
     \<and> (\<forall>name. account_ok (account_of (w_counter w) name) name (set (first_sends (w_log w)))
                 (held_for (w_held w) name) (w_steps w))
     \<and> distinct (first_sends (w_log w))
     \<and> (\<forall>r \<in> set (w_log w). r_fill r \<longrightarrow> (r_account r, r_value r) \<in> set (first_sends (w_log w)))"

lemma account_ok_later:
  "account_ok a name used h n \<Longrightarrow> n \<le> m \<Longrightarrow> account_ok a name used h m"
  by (auto simp: account_ok_def)

lemma held_for_Cons [simp]:
  "held_for (r # held) name = (if r_account r = name then Some r else held_for held name)"
  by (simp add: held_for_def)

lemma held_for_remove1:
  assumes "distinct (map r_account held)" "r \<in> set held"
  shows "held_for (remove1 r held) name = (if r_account r = name then None else held_for held name)
    \<and> held_for held (r_account r) = Some r \<and> distinct (map r_account (remove1 r held))"
  using assms
proof (induction held)
  case (Cons q held)
  have no: "held_for held n = None" if "n \<notin> r_account ` set held" for n
    using that by (auto simp: held_for_def find_None_all)
  show ?case
  proof (cases "q = r")
    case True
    with Cons.prems no show ?thesis by auto
  next
    case False
    with Cons have "r \<in> set held" "r_account q \<noteq> r_account r" by auto
    with Cons False show ?thesis
      by (auto dest: set_remove1_subset [THEN subsetD] simp: image_iff)
  qed
qed simp

lemma world_ok_init: "world_ok seq_world0"
  using counter_inv_new
  by (simp add: world_ok_def seq_world0_def first_sends_def held_for_def account_ok_def
      new_counter_def account_of_def new_account_def)

lemma world_ok_take:
  assumes ok: "world_ok w" and steps: "w_steps w + 1 < 2 ^ 64"
    and res: "reserve (w_counter w) a g = (res, c') \<or> reserve_gap (w_counter w) a g = (res, c')"
  shows "world_ok (w\<lparr>w_counter := c', w_held := grant res (w_held w), w_steps := w_steps w + 1\<rparr>)"
proof -
  let ?A = "account_of (w_counter w)" and ?U = "set (first_sends (w_log w))"
  have inv: "counter_inv (w_counter w)" and acc: "account_ok (?A n) n ?U (held_for (w_held w) n) (w_steps w)" for n
    using ok by (auto simp: world_ok_def)
  have inv': "counter_inv c'"
    using res reserve_keeps_inv [OF inv] reserve_gap_keeps_inv [OF inv] by blast
  have free: "a_sem (?A a) \<Longrightarrow> held_for (w_held w) a = None"
    using acc [of a] out_free [OF inv, of a] by (auto simp: account_ok_def counter_out_def split: option.splits)
  have nowrap: "unat (a_next (?A a) + 1) = unat (a_next (?A a)) + 1"
  proof -
    have "unat (a_next (?A a)) \<le> w_steps w" using acc [of a] by (simp add: account_ok_def)
    then show ?thesis using steps by (simp add: unat_word_ariths)
  qed
  have fresh: "held_for (w_held w) a = None \<Longrightarrow> a \<notin> r_account ` set (w_held w)"
    by (auto simp: held_for_def find_None_all)
  consider (fail) e where "res = Inl e" "c' = put_account (w_counter w) a (?A a)"
    | (new) "a_sem (?A a)" "a_gap (?A a) = None"
        "res = Inr \<lparr>r_account = a, r_value = a_next (?A a), r_ordered = True, r_fill = False\<rparr>"
        "c' = put_account (w_counter w) a ((?A a)\<lparr>a_sem := False, a_next := a_next (?A a) + 1, a_out := Some (a_next (?A a))\<rparr>)"
    | (fill) v where "a_sem (?A a)" "a_gap (?A a) = Some v"
        "res = Inr \<lparr>r_account = a, r_value = v, r_ordered = True, r_fill = True\<rparr>"
        "c' = put_account (w_counter w) a ((?A a)\<lparr>a_sem := False, a_out := Some v\<rparr>)"
    using res unfolding reserve_cases reserve_gap_cases by (elim disjE exE conjE) blast+
  then show ?thesis
  proof cases
    case fail
    have "account_ok (?A n) n ?U (held_for (w_held w) n) (w_steps w + 1)" for n
      by (rule account_ok_later [OF acc]) simp
    with ok inv' fail show ?thesis by (simp add: world_ok_def grant_def)
  next
    case new
    have a: "account_ok ((?A a)\<lparr>a_sem := False, a_next := a_next (?A a) + 1, a_out := Some (a_next (?A a))\<rparr>) a ?U
        (Some \<lparr>r_account = a, r_value = a_next (?A a), r_ordered = True, r_fill = False\<rparr>) (w_steps w + 1)"
      using acc [of a] new(2) nowrap unfolding account_ok_def by (auto dest: less_imp_neq)
    have "account_ok (?A n) n ?U (held_for (w_held w) n) (w_steps w + 1)" for n
      by (rule account_ok_later [OF acc]) simp
    with a ok inv' new free [OF new(1)] fresh show ?thesis by (simp add: world_ok_def grant_def)
  next
    case fill
    have a: "account_ok ((?A a)\<lparr>a_sem := False, a_out := Some v\<rparr>) a ?U
        (Some \<lparr>r_account = a, r_value = v, r_ordered = True, r_fill = True\<rparr>) (w_steps w + 1)"
      using acc [of a] fill(2) unfolding account_ok_def by auto
    have "account_ok (?A n) n ?U (held_for (w_held w) n) (w_steps w + 1)" for n
      by (rule account_ok_later [OF acc]) simp
    with a ok inv' fill free [OF fill(1)] fresh show ?thesis by (simp add: world_ok_def grant_def)
  qed
qed

lemma account_ok_resolve:
  assumes ok: "account_ok a name used (Some r) n"
    and s: "s \<in> {SentYes, SentNo, SentUnknown}"
    and used': "used' = (if s = SentNo \<or> r_fill r then used else insert (name, r_value r) used)"
  shows "account_ok (resolve_account a r s) name used' None n"
proof -
  have "unat v < unat (r_value r)" if "\<not> r_fill r" "(name, v) \<in> used" for v
  proof -
    have "v \<noteq> r_value r" "unat v < unat (r_value r) + 1" using ok that by (auto simp: account_ok_def)
    then show ?thesis by (simp add: word_unat_eq_iff less_Suc_eq)
  qed
  with ok s show ?thesis unfolding used'
    by (auto simp: account_ok_def resolve_account_def Let_def less_Suc_eq split: if_splits)
qed

lemma world_ok_resolve:
  assumes ok: "world_ok w" and r: "r \<in> set (w_held w)" and s: "s \<in> {SentYes, SentNo, SentUnknown}"
    and res: "resolve (w_counter w) r s = Inr c'"
  shows "world_ok (w\<lparr>w_counter := c', w_held := remove1 r (w_held w),
      w_log := (if s = SentNo then w_log w else w_log w @ [r]), w_steps := w_steps w + 1\<rparr>)"
proof -
  let ?A = "account_of (w_counter w)" and ?U = "set (first_sends (w_log w))"
  let ?log = "if s = SentNo then w_log w else w_log w @ [r]"
  have inv: "counter_inv (w_counter w)" and dist: "distinct (map r_account (w_held w))"
    and acc: "account_ok (?A n) n ?U (held_for (w_held w) n) (w_steps w)" for n
    using ok by (auto simp: world_ok_def)
  note hr = held_for_remove1 [OF dist r]
  have mine: "account_ok (?A (r_account r)) (r_account r) ?U (Some r) (w_steps w)"
    using acc [of "r_account r"] hr by simp
  then have ord: "r_ordered r" by (simp add: account_ok_def)
  have c': "c' = put_account (w_counter w) (r_account r) (resolve_account (?A (r_account r)) r s)"
    using res ord by (simp add: resolve_cases)
  have log: "set (first_sends ?log) = (if s = SentNo \<or> r_fill r then ?U else insert (r_account r, r_value r) ?U)"
    by auto
  have "account_ok (account_of c' n) n (set (first_sends ?log)) (held_for (remove1 r (w_held w)) n) (w_steps w + 1)" for n
  proof (cases "n = r_account r")
    case True
    from account_ok_resolve [OF mine s log] have "account_ok (resolve_account (?A (r_account r)) r s) (r_account r)
        (set (first_sends ?log)) None (w_steps w)" .
    from account_ok_later [OF this, of "w_steps w + 1"] show ?thesis
      using hr True by (simp add: c')
  next
    case False
    have "account_ok (?A n) n (set (first_sends ?log)) (held_for (w_held w) n) (w_steps w)"
      using acc [of n] False unfolding log by (auto simp: account_ok_def split: option.splits)
    from account_ok_later [OF this, of "w_steps w + 1"] show ?thesis
      using hr False by (simp add: c')
  qed
  moreover have "distinct (first_sends ?log)"
    using ok mine by (auto simp: world_ok_def account_ok_def)
  moreover have "\<forall>q \<in> set ?log. r_fill q \<longrightarrow> (r_account q, r_value q) \<in> set (first_sends ?log)"
    using ok mine by (auto simp: world_ok_def account_ok_def)
  ultimately show ?thesis
    using resolve_keeps_inv [OF inv res] hr by (simp add: world_ok_def)
qed

lemma seq_reach_ok: "seq_reach w \<Longrightarrow> w_steps w < 2 ^ 64 \<Longrightarrow> world_ok w"
  unfolding seq_reach_def
proof (induction rule: rtranclp_induct)
  case base
  show ?case by (rule world_ok_init)
next
  case (step w w')
  from step.hyps(2) show ?case
  proof (cases rule: seq_step.cases)
    case (do_reserve a g res c')
    with step world_ok_take [of w a g res c'] show ?thesis by simp
  next
    case (do_reserve_gap a g res c')
    with step world_ok_take [of w a g res c'] show ?thesis by simp
  next
    case (do_resolve r s c')
    with step world_ok_resolve [of w r s c'] show ?thesis by simp
  qed
qed

subsection \<open>Properties\<close>

text \<open>
  C12. No number goes out twice as a new transaction. However many clients reserve, send and settle, on
  however many accounts and in whatever order, within \<open>2^64\<close> steps and as long as nobody calls \<open>Sync\<close>: the
  numbers of the new transactions that may have left are all different; a number is handed out again only
  as a fill, for a transaction that may have left before; at most one reservation per account is
  in flight, and its holder can always settle it.
\<close>

theorem numbers_never_reused:
  assumes "seq_reach w" and "w_steps w < 2 ^ 64"
  shows "distinct (first_sends (w_log w))
    \<and> (\<forall>r \<in> set (w_log w). r_fill r \<longrightarrow> (r_account r, r_value r) \<in> set (first_sends (w_log w)))
    \<and> distinct (map r_account (w_held w))
    \<and> (\<forall>r \<in> set (w_held w). (r_account r, r_value r) \<in> set (first_sends (w_log w)) \<longleftrightarrow> r_fill r)
    \<and> (\<forall>r \<in> set (w_held w). \<exists>c'. resolve (w_counter w) r s = Inr c')"
proof -
  have ok: "world_ok w" by (rule seq_reach_ok [OF assms])
  have mine: "account_ok (account_of (w_counter w) (r_account r)) (r_account r) (set (first_sends (w_log w))) (Some r) (w_steps w)"
    if "r \<in> set (w_held w)" for r
    using ok held_for_remove1 [OF _ that] unfolding world_ok_def by metis
  have "(r_account r, r_value r) \<in> set (first_sends (w_log w)) \<longleftrightarrow> r_fill r" if "r \<in> set (w_held w)" for r
    using mine [OF that] by (auto simp: account_ok_def split: if_splits)
  moreover have "\<exists>c'. resolve (w_counter w) r s = Inr c'" if "r \<in> set (w_held w)" for r
    using mine [OF that] by (auto simp: account_ok_def resolve_cases counter_out_def)
  ultimately show ?thesis using ok by (simp add: world_ok_def)
qed

definition demo_res :: "u64 \<Rightarrow> bool \<Rightarrow> reservation" where
  "demo_res v f = \<lparr>r_account = ''hot'', r_value = v, r_ordered = True, r_fill = f\<rparr>"

definition demo_acct :: "bool \<Rightarrow> u64 \<Rightarrow> u64 option \<Rightarrow> u64 option \<Rightarrow> counter" where
  "demo_acct t n u g = [(''hot'', \<lparr>a_sem = t, a_next = n, a_out = u, a_gap = g\<rparr>)]"

lemma demo_counter_steps:
  "reserve new_counter ''hot'' False = (Inr (demo_res 0 False), demo_acct False 1 (Some 0) None)"
  "resolve (demo_acct False 1 (Some 0) None) (demo_res 0 False) SentUnknown = Inr (demo_acct True 1 None (Some 0))"
  "reserve_gap (demo_acct True 1 None (Some 0)) ''hot'' False = (Inr (demo_res 0 True), demo_acct False 1 (Some 0) (Some 0))"
  "resolve (demo_acct False 1 (Some 0) (Some 0)) (demo_res 0 True) SentYes = Inr (demo_acct True 1 None None)"
  by (simp_all add: reserve_def reserve_gap_def resolve_def resolve_account_def Let_def demo_res_def demo_acct_def
      new_counter_def account_of_def put_account_def new_account_def)

theorem numbers_never_reused_witness:
  "\<exists>w. seq_reach w \<and> w_log w = [demo_res 0 False, demo_res 0 True] \<and> distinct (first_sends (w_log w))"
proof -
  let ?w1 = "\<lparr>w_counter = demo_acct False 1 (Some 0) None, w_held = [demo_res 0 False], w_log = [], w_steps = Suc 0\<rparr>"
  let ?w2 = "\<lparr>w_counter = demo_acct True 1 None (Some 0), w_held = [], w_log = [demo_res 0 False], w_steps = Suc (Suc 0)\<rparr>"
  let ?w3 = "\<lparr>w_counter = demo_acct False 1 (Some 0) (Some 0), w_held = [demo_res 0 True], w_log = [demo_res 0 False], w_steps = Suc (Suc (Suc 0))\<rparr>"
  let ?w4 = "\<lparr>w_counter = demo_acct True 1 None None, w_held = [], w_log = [demo_res 0 False, demo_res 0 True], w_steps = Suc (Suc (Suc (Suc 0)))\<rparr>"
  have "seq_step seq_world0 ?w1"
    using do_reserve [of seq_world0 "''hot''" False] demo_counter_steps(1) by (simp add: seq_world0_def grant_def)
  moreover have "seq_step ?w1 ?w2"
    using do_resolve [of "demo_res 0 False" ?w1 SentUnknown] demo_counter_steps(2) by simp
  moreover have "seq_step ?w2 ?w3"
    using do_reserve_gap [of ?w2 "''hot''" False] demo_counter_steps(3) by (simp add: grant_def)
  moreover have "seq_step ?w3 ?w4"
    using do_resolve [of "demo_res 0 True" ?w3 SentYes] demo_counter_steps(4) by simp
  ultimately have "seq_reach ?w4"
    unfolding seq_reach_def by (meson rtranclp.rtrancl_refl rtranclp.rtrancl_into_rtrancl)
  moreover from numbers_never_reused [OF this] have "distinct (first_sends (w_log ?w4))" by simp
  ultimately show ?thesis by (intro exI [of _ ?w4]) simp
qed

text \<open>
  A gap stops the account, and only an answer about it lets it go on. After an unknown outcome \<open>Reserve\<close>
  is refused with \<open>ErrGap\<close> until either a fill of that very number was sent, or \<open>Sync\<close> learned that the
  chain is past it; a fill that was not sent, or whose outcome is unknown, and a \<open>Sync\<close> that is not past
  it, leave the gap.
\<close>

theorem gap_blocks_until_answered:
  assumes "counter_inv c" and "a_gap (account_of c name) = Some g" and "a_sem (account_of c name)"
    and "reserve_gap c name False = (Inr r, c1)"
  shows "(\<exists>c'. reserve c name False = (Inl (ErrGap g), c')) \<and> r_value r = g \<and> r_fill r
    \<and> (\<exists>c'. resolve c1 r s = Inr c' \<and> a_gap (account_of c' name) = (if s = SentYes then None else Some g)
         \<and> a_next (account_of c' name) = a_next (account_of c name))
    \<and> (\<exists>c'. sync c name n = (None, c') \<and> a_gap (account_of c' name) = (if n > g then None else Some g))"
proof -
  have out: "a_out (account_of c name) = None"
    using counter_inv_account [OF assms(1), of name] assms(3) by (simp add: account_inv_def)
  have r: "r = \<lparr>r_account = name, r_value = g, r_ordered = True, r_fill = True\<rparr>"
    and c1: "c1 = put_account c name ((account_of c name)\<lparr>a_sem := False, a_out := Some g\<rparr>)"
    using assms(2-4) by (simp_all add: reserve_gap_def Let_def)
  have "\<exists>c'. resolve c1 r s = Inr c' \<and> a_gap (account_of c' name) = (if s = SentYes then None else Some g)
         \<and> a_next (account_of c' name) = a_next (account_of c name)"
    unfolding resolve_cases using assms(2) by (simp add: r c1 counter_out_def resolve_account_def Let_def)
  then show ?thesis
    using assms(2,3) out by (simp add: reserve_def sync_def r Let_def)
qed

theorem gap_blocks_until_answered_witness:
  "\<exists>c'. reserve (demo_acct True 1 None (Some 0)) ''hot'' False = (Inl (ErrGap 0), c')"
proof -
  have i: "counter_inv (demo_acct True 1 None (Some 0))"
    by (simp add: counter_inv_def account_inv_def demo_acct_def)
  have g: "a_gap (account_of (demo_acct True 1 None (Some 0)) ''hot'') = Some 0"
      "a_sem (account_of (demo_acct True 1 None (Some 0)) ''hot'')"
    by (simp_all add: account_of_def demo_acct_def)
  show ?thesis using gap_blocks_until_answered [OF i g demo_counter_steps(3)] by blast
qed

text \<open>
  \<open>Sync\<close> can undo that. When the chain reports a number at or below an open gap, \<open>Sync\<close> keeps the gap
  but sets the counter back to it, although the comment in \<open>Resolve\<close> says the counter is past the gap: once
  a fill is sent and the gap closes, \<open>Reserve\<close> issues new transactions from the reported number on, and
  when it equals the gap the very number just filled goes out again, for another payment.
\<close>

theorem sync_reissues_filled_number:
  assumes "counter_inv c" and "a_sem (account_of c name)" and "a_gap (account_of c name) = Some g"
    and "sync c name g = (None, c1)" and "reserve_gap c1 name False = (Inr fill, c2)"
    and "resolve c2 fill SentYes = Inr c3" and "reserve c3 name False = (Inr r, c4)"
  shows "r_value fill = g \<and> r_value r = g \<and> \<not> r_fill r"
proof -
  have out: "a_out (account_of c name) = None"
    using counter_inv_account [OF assms(1), of name] assms(2) by (simp add: account_inv_def)
  have c1: "account_of c1 name = (account_of c name)\<lparr>a_next := g, a_gap := Some g\<rparr>"
    using assms(3,4) out by (auto simp: sync_def Let_def)
  then have fill: "fill = \<lparr>r_account = name, r_value = g, r_ordered = True, r_fill = True\<rparr>"
    and c2: "account_of c2 name = (account_of c name)\<lparr>a_next := g, a_gap := Some g, a_sem := False, a_out := Some g\<rparr>"
    using assms(2,5) by (auto simp: reserve_gap_def Let_def)
  have "account_of c3 name = (account_of c name)\<lparr>a_next := g, a_gap := None, a_sem := True, a_out := None\<rparr>"
    using assms(6) c2 unfolding resolve_cases by (auto simp: fill resolve_account_def Let_def)
  then show ?thesis
    using assms(7) by (simp add: reserve_def fill)
      (auto simp: Let_def)
qed

theorem sync_reissues_filled_number_witness:
  "\<exists>c3 c4 r. reserve c3 ''hot'' False = (Inr r, c4) \<and> r_value r = 0 \<and> \<not> r_fill r"
proof -
  have i: "counter_inv (demo_acct True 1 None (Some 0))"
    by (simp add: counter_inv_def account_inv_def demo_acct_def)
  have g: "a_sem (account_of (demo_acct True 1 None (Some 0)) ''hot'')"
      "a_gap (account_of (demo_acct True 1 None (Some 0)) ''hot'') = Some 0"
    by (simp_all add: account_of_def demo_acct_def)
  have s: "sync (demo_acct True 1 None (Some 0)) ''hot'' 0 = (None, demo_acct True 0 None (Some 0))"
    by (simp add: sync_def Let_def account_of_def put_account_def demo_acct_def)
  have f: "reserve_gap (demo_acct True 0 None (Some 0)) ''hot'' False = (Inr (demo_res 0 True), demo_acct False 0 (Some 0) (Some 0))"
    by (simp add: reserve_gap_def Let_def account_of_def put_account_def demo_acct_def demo_res_def)
  have y: "resolve (demo_acct False 0 (Some 0) (Some 0)) (demo_res 0 True) SentYes = Inr (demo_acct True 0 None None)"
    by (simp add: resolve_def resolve_account_def Let_def put_account_def demo_acct_def demo_res_def)
  have r: "reserve (demo_acct True 0 None None) ''hot'' False = (Inr (demo_res 0 False), demo_acct False 1 (Some 0) None)"
    by (simp add: reserve_def Let_def account_of_def put_account_def demo_acct_def demo_res_def)
  from sync_reissues_filled_number [OF i g s f y r] r show ?thesis by blast
qed

end
