(* ===== verification/Tx_Fee.thy ===== *)
theory Tx_Fee
  imports Tx_Seq
begin

section \<open>Replacement fees\<close>

text \<open>
  Models \<open>internal/txfee\<close>: fees and the policy with its \<open>Bump\<close> (\<open>txfee.go\<close>), and the decision table
  \<open>Decide\<close> for a payment that is stuck in \<open>settling\<close> (\<open>plan.go\<close>).

  A fee's two fields are pointers in Go and may be nil. \<open>Bump\<close> on a policy whose base fee is itself nil
  dereferences it; that panic is the error \<open>NilFee\<close>. The factor \<open>100 + pct\<close> is added in \<open>uint64\<close>.
\<close>

subsection \<open>Fees\<close>

record fee =
  fee_cap :: "int option"
  fee_tip :: "int option"

definition no_fee :: fee where
  "no_fee = \<lparr>fee_cap = None, fee_tip = None\<rparr>"

definition new_fee :: "int \<Rightarrow> int \<Rightarrow> fee" where
  "new_fee cap_gwei tip_gwei = \<lparr>fee_cap = Some (cap_gwei * 1000000000), fee_tip = Some (tip_gwei * 1000000000)\<rparr>"

definition fee_zero :: "fee \<Rightarrow> bool" where
  "fee_zero f \<longleftrightarrow> fee_cap f = None \<or> fee_tip f = None \<or> fee_cap f = Some 0 \<or> fee_tip f = Some 0"

text \<open>\<open>big.Int.Quo\<close> and \<open>Rem\<close> truncate towards zero.\<close>

definition quo :: "int \<Rightarrow> int \<Rightarrow> int" where
  "quo a b = sgn a * sgn b * (\<bar>a\<bar> div \<bar>b\<bar>)"

definition rem_trunc :: "int \<Rightarrow> int \<Rightarrow> int" where
  "rem_trunc a b = a - b * quo a b"

text \<open>\<open>%03d\<close>.\<close>

definition zero_pad3 :: "int \<Rightarrow> string" where
  "zero_pad3 v = (if v < 0 then CHR ''-'' # replicate (2 - length (show_nat (nat (- v)))) CHR ''0'' @ show_nat (nat (- v))
     else replicate (3 - length (show_nat (nat v))) CHR ''0'' @ show_nat (nat v))"

definition gwei :: "int option \<Rightarrow> string" where
  "gwei v = (case v of
      None \<Rightarrow> ''-''
    | Some w \<Rightarrow>
        let q = quo w 1000000
        in show_int (quo q 1000) @ ''.'' @ zero_pad3 (rem_trunc q 1000) @ '' gwei'')"

definition fee_text :: "fee \<Rightarrow> string" where
  "fee_text f = (if fee_zero f then ''cap - tip -'' else ''cap '' @ gwei (fee_cap f) @ '' tip '' @ gwei (fee_tip f))"

record fee_policy =
  pol_base :: fee
  pol_bump_percent :: u64
  pol_max_cap :: "int option"
  pol_max_tries :: int

definition default_fee_policy :: fee_policy where
  "default_fee_policy = \<lparr>pol_base = new_fee 30 2, pol_bump_percent = 10, pol_max_cap = fee_cap (new_fee 45 0),
     pol_max_tries = 3\<rparr>"

datatype fee_error = ErrCeiling int int | NilFee

definition fee_error_text :: "fee_error \<Rightarrow> string" where
  "fee_error_text e = (case e of
      ErrCeiling c m \<Rightarrow> ''txfee: bumped fee cap exceeds the ceiling: '' @ gwei (Some c) @ '' > '' @ gwei (Some m)
    | NilFee \<Rightarrow> ''invalid memory address or nil pointer dereference'')"

definition bump :: "int \<Rightarrow> u64 \<Rightarrow> int" where
  "bump v pct =
     (let n = v * uint (100 + pct); q = quo n 100; r = rem_trunc n 100
      in if r \<noteq> 0 then q + 1 else q)"

definition policy_bump :: "fee_policy \<Rightarrow> fee \<Rightarrow> fee_error + fee" where
  "policy_bump p f =
     (let f1 = (if fee_zero f then pol_base p else f) in
      case (fee_cap f1, fee_tip f1) of
        (Some c, Some t) \<Rightarrow>
          let c' = bump c (pol_bump_percent p); t' = bump t (pol_bump_percent p) in
          (case pol_max_cap p of
             Some m \<Rightarrow> if c' > m then Inl (ErrCeiling c' m) else Inr \<lparr>fee_cap = Some c', fee_tip = Some t'\<rparr>
           | None \<Rightarrow> Inr \<lparr>fee_cap = Some c', fee_tip = Some t'\<rparr>)
      | _ \<Rightarrow> Inl NilFee)"

subsection \<open>Decide\<close>

datatype plan_kind = KindWait | KindSpeedUp | KindCancel | KindReview

fun plan_kind_name :: "plan_kind \<Rightarrow> string" where
  "plan_kind_name KindWait = ''wait''"
| "plan_kind_name KindSpeedUp = ''speed-up''"
| "plan_kind_name KindCancel = ''cancel''"
| "plan_kind_name KindReview = ''review''"

fun sent_name :: "sent \<Rightarrow> string" where
  "sent_name SentYes = ''sent''"
| "sent_name SentNo = ''not-sent''"
| "sent_name SentUnknown = ''unknown''"
| "sent_name (SentOther s) = s"

record stuck =
  st_sent :: sent
  st_fee :: fee
  st_tries :: int
  st_age :: duration
  st_stuck_after :: duration

record plan =
  pl_kind :: plan_kind
  pl_fee :: fee
  pl_reason :: string

definition plan_text :: "plan \<Rightarrow> string" where
  "plan_text p =
     (if fee_zero (pl_fee p) then pad_right 9 (plan_kind_name (pl_kind p)) @ '' '' @ pl_reason p
      else pad_right 9 (plan_kind_name (pl_kind p)) @ '' '' @ fee_text (pl_fee p) @ '' ('' @ pl_reason p @ '')'')"

definition decide :: "fee_policy \<Rightarrow> stuck \<Rightarrow> plan" where
  "decide p s =
     (if st_age s < st_stuck_after s then
        \<lparr>pl_kind = KindWait, pl_fee = no_fee,
         pl_reason = ''settling for '' @ show_duration (st_age s) @ '' without tx hash, waiting''\<rparr>
      else case (if st_sent s \<noteq> SentNo then policy_bump p (st_fee s) else Inr (pol_base p)) of
          Inl e \<Rightarrow> \<lparr>pl_kind = KindReview, pl_fee = no_fee, pl_reason = fee_error_text e\<rparr>
        | Inr fee \<Rightarrow>
            if st_tries s \<ge> pol_max_tries p then
              \<lparr>pl_kind = KindCancel, pl_fee = fee,
               pl_reason = ''broadcast '' @ show_int (st_tries s) @ '' times already, giving up on this payment''\<rparr>
            else
              \<lparr>pl_kind = KindSpeedUp, pl_fee = fee,
               pl_reason = ''try '' @ show_int (st_tries s + 1) @ '', last broadcast '' @ sent_name (st_sent s)\<rparr>)"

subsection \<open>Facts about bumping\<close>

lemma quo_nonneg: "0 \<le> a \<Longrightarrow> 0 < b \<Longrightarrow> quo a b = a div b"
  by (cases "a = 0") (simp_all add: quo_def)

lemma bump_ceil:
  assumes "0 \<le> v"
  shows "v * uint (100 + pct) \<le> 100 * bump v pct \<and> 100 * bump v pct < v * uint (100 + pct) + 100"
proof -
  let ?n = "v * uint (100 + pct)"
  have n: "0 \<le> ?n" using assms by simp
  have q: "quo ?n 100 = ?n div 100"
    by (rule quo_nonneg [OF n]) simp
  have r: "rem_trunc ?n 100 = ?n mod 100"
    by (simp add: rem_trunc_def q minus_div_mult_eq_mod [symmetric])
  have split: "?n = 100 * (?n div 100) + ?n mod 100" by simp
  show ?thesis
  proof (cases "?n mod 100 = 0")
    case True
    then have "bump v pct = ?n div 100" by (simp add: bump_def Let_def q r)
    with split True show ?thesis by linarith
  next
    case False
    then have "bump v pct = ?n div 100 + 1" by (simp add: bump_def Let_def q r)
    moreover have "0 \<le> ?n mod 100" "?n mod 100 < 100" by simp_all
    then have "0 < ?n mod 100" "?n mod 100 < 100" using False by linarith+
    ultimately show ?thesis using split by linarith
  qed
qed

lemma pct_factor: "pct \<le> 2 ^ 64 - 101 \<Longrightarrow> uint (100 + pct :: u64) = 100 + uint pct"
proof -
  assume "pct \<le> 2 ^ 64 - 101"
  then have "uint pct \<le> 2 ^ 64 - 101" by (simp add: word_le_def)
  then show ?thesis by (simp add: uint_word_ariths)
qed

lemma bump_grows:
  assumes "0 < v" "0 < pct" "pct \<le> 2 ^ 64 - 101"
  shows "v < bump v pct"
proof -
  have "1 \<le> uint pct" using assms(2) by (simp add: word_less_def)
  then have "v \<le> v * uint pct" using assms(1) by (simp add: mult_le_cancel_left1)
  then have "100 * v < v * (100 + uint pct)" using assms(1) by (simp add: algebra_simps)
  also have "\<dots> \<le> 100 * bump v pct"
    using bump_ceil [of v pct] assms by (simp add: pct_factor)
  finally show ?thesis by simp
qed

lemma policy_bump_Inr:
  "policy_bump p f = Inr g \<longleftrightarrow>
     (\<exists>c t. fee_cap (if fee_zero f then pol_base p else f) = Some c
        \<and> fee_tip (if fee_zero f then pol_base p else f) = Some t
        \<and> g = \<lparr>fee_cap = Some (bump c (pol_bump_percent p)), fee_tip = Some (bump t (pol_bump_percent p))\<rparr>
        \<and> (case pol_max_cap p of None \<Rightarrow> True | Some m \<Rightarrow> bump c (pol_bump_percent p) \<le> m))"
  by (auto simp: policy_bump_def Let_def split: option.splits if_splits)

subsection \<open>Properties\<close>

text \<open>
  A replacement outbids. When \<open>Bump\<close> accepts, both fields are the old ones raised by the policy's
  percentage and rounded up, by less than one wei too much, so they clear the node's rule of integer
  division; both are strictly larger than before, and the cap is not above the ceiling.
\<close>

theorem bump_outbids:
  assumes "policy_bump p f = Inr g" and "fee_cap f = Some c" "fee_tip f = Some t" "0 < c" "0 < t"
    and "0 < pol_bump_percent p" "pol_bump_percent p \<le> 2 ^ 64 - 101"
  shows "\<exists>c' t'. g = \<lparr>fee_cap = Some c', fee_tip = Some t'\<rparr> \<and> c < c' \<and> t < t'
    \<and> c * (100 + uint (pol_bump_percent p)) div 100 \<le> c'
    \<and> t * (100 + uint (pol_bump_percent p)) div 100 \<le> t'
    \<and> 100 * c' < c * (100 + uint (pol_bump_percent p)) + 100
    \<and> 100 * t' < t * (100 + uint (pol_bump_percent p)) + 100
    \<and> (case pol_max_cap p of None \<Rightarrow> True | Some m \<Rightarrow> c' \<le> m)"
proof -
  have g: "g = \<lparr>fee_cap = Some (bump c (pol_bump_percent p)), fee_tip = Some (bump t (pol_bump_percent p))\<rparr>"
      "case pol_max_cap p of None \<Rightarrow> True | Some m \<Rightarrow> bump c (pol_bump_percent p) \<le> m"
    using assms(1-5) unfolding policy_bump_Inr by (auto simp: fee_zero_def)
  show ?thesis
    using g bump_grows [OF assms(4,6,7)] bump_grows [OF assms(5,6,7)]
      bump_ceil [of c "pol_bump_percent p"] bump_ceil [of t "pol_bump_percent p"] assms(4,5)
    by (simp add: pct_factor [OF assms(7)]) linarith
qed

theorem bump_outbids_witness:
  "\<exists>c' t'. policy_bump default_fee_policy (new_fee 30 2) = Inr \<lparr>fee_cap = Some c', fee_tip = Some t'\<rparr>
     \<and> 30000000000 < c' \<and> 2000000000 < t' \<and> c' \<le> 45000000000"
proof -
  have "policy_bump default_fee_policy (new_fee 30 2) = Inr \<lparr>fee_cap = Some 33000000000, fee_tip = Some 2200000000\<rparr>"
    by (simp add: policy_bump_def default_fee_policy_def new_fee_def fee_zero_def bump_def quo_def rem_trunc_def)
  from bump_outbids [OF this, of 30000000000 2000000000] this show ?thesis
    by (simp add: default_fee_policy_def new_fee_def)
qed

text \<open>How often a fee can be bumped: \<open>climb n\<close> is \<open>n\<close> successful bumps in a row.\<close>

fun climb :: "fee_policy \<Rightarrow> nat \<Rightarrow> fee \<Rightarrow> fee_error + fee" where
  "climb p 0 f = Inr f"
| "climb p (Suc n) f = (case policy_bump p f of Inl e \<Rightarrow> Inl e | Inr g \<Rightarrow> climb p n g)"

text \<open>
  Escalation ends. Under a ceiling a fee can only be bumped finitely often: from a positive cap \<open>c\<close> no
  more than \<open>m - c\<close> bumps in a row succeed; with the default policy it is exactly four.
\<close>

theorem escalation_is_bounded:
  assumes "climb p n f = Inr g" and "fee_cap f = Some c" "fee_tip f = Some t" "0 < c" "0 < t"
    and "0 < pol_bump_percent p" "pol_bump_percent p \<le> 2 ^ 64 - 101" and "pol_max_cap p = Some m" "c \<le> m"
  shows "int n \<le> m - c"
  using assms
proof (induction n arbitrary: f c t)
  case (Suc n)
  obtain f1 where f1: "policy_bump p f = Inr f1" "climb p n f1 = Inr g"
    using Suc.prems(1) by (auto split: sum.splits)
  have b: "f1 = \<lparr>fee_cap = Some (bump c (pol_bump_percent p)), fee_tip = Some (bump t (pol_bump_percent p))\<rparr>"
      "bump c (pol_bump_percent p) \<le> m"
    using f1(1) Suc.prems unfolding policy_bump_Inr by (auto simp: fee_zero_def)
  have grow: "c < bump c (pol_bump_percent p)" "t < bump t (pol_bump_percent p)"
    using bump_grows Suc.prems by auto
  have "int n \<le> m - bump c (pol_bump_percent p)"
    by (rule Suc.IH [OF f1(2), of _ "bump t (pol_bump_percent p)"]) (use b grow Suc.prems in auto)
  with grow show ?case by simp
qed simp

theorem escalation_is_bounded_witness:
  "(\<exists>g. climb default_fee_policy 4 (new_fee 30 2) = Inr g) \<and> (4::int) \<le> 45000000000 - 30000000000
   \<and> climb default_fee_policy 5 (new_fee 30 2) = Inl (ErrCeiling 48315300000 45000000000)"
proof -
  have c: "climb default_fee_policy 4 (new_fee 30 2) = Inr \<lparr>fee_cap = Some 43923000000, fee_tip = Some 2928200000\<rparr>"
    and d: "climb default_fee_policy 5 (new_fee 30 2) = Inl (ErrCeiling 48315300000 45000000000)"
    by code_simp+
  from escalation_is_bounded [OF c, of 30000000000 2000000000 45000000000]
  have "int 4 \<le> 45000000000 - 30000000000" by (simp add: new_fee_def default_fee_policy_def)
  with c d show ?thesis by simp
qed

text \<open>
  What \<open>Decide\<close> decides, on every input: it waits exactly while the payment is not yet stuck; it asks for
  review exactly when something may be on chain and cannot be outbid; otherwise it speeds up while there
  are tries left and cancels after that, at the base fee when the last broadcast certainly did not leave,
  and at the bumped fee when it may have.
\<close>

theorem decide_table:
  "(pl_kind (decide p s) = KindWait \<longleftrightarrow> st_age s < st_stuck_after s)
   \<and> (pl_kind (decide p s) = KindReview \<longleftrightarrow>
        \<not> st_age s < st_stuck_after s \<and> st_sent s \<noteq> SentNo \<and> (\<exists>e. policy_bump p (st_fee s) = Inl e))
   \<and> (pl_kind (decide p s) = KindCancel \<longleftrightarrow>
        \<not> st_age s < st_stuck_after s \<and> (st_sent s = SentNo \<or> (\<exists>g. policy_bump p (st_fee s) = Inr g))
        \<and> st_tries s \<ge> pol_max_tries p)
   \<and> (pl_kind (decide p s) \<in> {KindCancel, KindSpeedUp} \<longrightarrow>
        (if st_sent s = SentNo then pl_fee (decide p s) = pol_base p
         else policy_bump p (st_fee s) = Inr (pl_fee (decide p s))))"
  by (auto simp: decide_def split: sum.splits)

theorem decide_table_witness:
  "pl_fee (decide default_fee_policy \<lparr>st_sent = SentUnknown, st_fee = new_fee 30 2, st_tries = 3,
     st_age = 6 * minute, st_stuck_after = 5 * minute\<rparr>) = \<lparr>fee_cap = Some 33000000000, fee_tip = Some 2200000000\<rparr>"
proof -
  let ?s = "\<lparr>st_sent = SentUnknown, st_fee = new_fee 30 2, st_tries = 3, st_age = 6 * minute, st_stuck_after = 5 * minute\<rparr>"
  have b: "policy_bump default_fee_policy (new_fee 30 2) = Inr \<lparr>fee_cap = Some 33000000000, fee_tip = Some 2200000000\<rparr>"
    by (simp add: policy_bump_def default_fee_policy_def new_fee_def fee_zero_def bump_def quo_def rem_trunc_def)
  have k: "pl_kind (decide default_fee_policy ?s) = KindCancel"
    using decide_table [of default_fee_policy ?s] b
    by (simp add: minute_def second_def default_fee_policy_def)
  then show ?thesis using decide_table [of default_fee_policy ?s] b by simp
qed

end
