(* ===== verification/Tx_Fail.thy ===== *)
theory Tx_Fail
  imports Prelude
begin

section \<open>Retry or stop: back-off and the verdict on a failure\<close>

text \<open>
  Models \<open>internal/txfail\<close>: the policy with its \<open>Backoff\<close> and \<open>EqualJitter\<close> (\<open>txfail.go\<close>), and \<open>Judge\<close>
  (\<open>verdict.go\<close>). The doubling in \<open>Backoff\<close> is \<open>int64\<close> multiplication, so it wraps; the lemmas give the
  closed form under a ceiling of at most \<open>2^62\<close> nanoseconds, and show what happens without one.
  \<open>rand.N\<close> is a parameter of \<open>equal_jitter\<close>, whose documented range \<open>[0, n)\<close> is a hypothesis where it
  matters. An error is its text and whether it declares \<open>ErrPoison\<close>.
\<close>

datatype fault_error = PoisonError string | PlainError string

fun is_poison :: "fault_error option \<Rightarrow> bool" where
  "is_poison (Some (PoisonError _)) = True"
| "is_poison _ = False"

datatype fault_class = ClassRetryable | ClassPoison

record retry_policy =
  rp_max_attempts :: int
  rp_max_backoff :: duration
  rp_jitter :: "(duration \<Rightarrow> duration) option"

definition equal_jitter :: "(int \<Rightarrow> int) \<Rightarrow> duration \<Rightarrow> duration" where
  "equal_jitter rand_n d =
     (if d \<le> 0 then 0
      else let half = d div 2 in half + rand_n (d - half + 1))"

definition default_retry_policy :: "(int \<Rightarrow> int) \<Rightarrow> retry_policy" where
  "default_retry_policy rand_n =
     \<lparr>rp_max_attempts = 10, rp_max_backoff = 2 * minute, rp_jitter = Some (equal_jitter rand_n)\<rparr>"

text \<open>The loop of \<open>Backoff\<close>: up to \<open>n\<close> more doublings, none once the ceiling is reached.\<close>

fun double_until :: "nat \<Rightarrow> duration \<Rightarrow> duration \<Rightarrow> duration" where
  "double_until 0 ceiling d = d"
| "double_until (Suc n) ceiling d =
     (if ceiling \<le> 0 \<or> d < ceiling then double_until n ceiling (wrap_int64 (d * 2)) else d)"

definition backoff :: "retry_policy \<Rightarrow> duration \<Rightarrow> u64 \<Rightarrow> duration" where
  "backoff p base attempt =
     (if base \<le> 0 then 0
      else
        let d = double_until (unat attempt - 1) (rp_max_backoff p) base;
            d = (if rp_max_backoff p > 0 \<and> d > rp_max_backoff p then rp_max_backoff p else d)
        in case rp_jitter p of None \<Rightarrow> d | Some j \<Rightarrow> j d)"

record fault =
  ft_err :: "fault_error option"
  ft_attempt :: u64
  ft_base :: duration

record verdict =
  vd_class :: fault_class
  vd_backoff :: duration
  vd_reason :: string

definition verdict_text :: "verdict \<Rightarrow> string" where
  "verdict_text v =
     (let d = (case vd_class v of ClassRetryable \<Rightarrow> show_duration (vd_backoff v) | ClassPoison \<Rightarrow> ''-'');
          c = (case vd_class v of ClassRetryable \<Rightarrow> ''retryable'' | ClassPoison \<Rightarrow> ''poison'')
      in pad_right 9 c @ '' '' @ pad_right 7 d @ '' '' @ vd_reason v)"

text \<open>\<open>uint64(p.MaxAttempts)\<close> converts a positive \<open>int\<close>.\<close>

definition judge :: "retry_policy \<Rightarrow> fault \<Rightarrow> verdict" where
  "judge p f =
     (if is_poison (ft_err f) then
        \<lparr>vd_class = ClassPoison, vd_backoff = 0, vd_reason = ''retrying will not help''\<rparr>
      else if rp_max_attempts p > 0 \<and> ft_attempt f \<ge> of_int (rp_max_attempts p) then
        \<lparr>vd_class = ClassPoison, vd_backoff = 0,
         vd_reason = ''no luck after '' @ show_nat (unat (ft_attempt f)) @ '' deliveries''\<rparr>
      else
        let d = backoff p (ft_base f) (ft_attempt f)
        in \<lparr>vd_class = ClassRetryable, vd_backoff = d,
            vd_reason = ''delivery '' @ show_nat (unat (ft_attempt f)) @ '' failed, next one in '' @ show_duration d\<rparr>)"

subsection \<open>Facts\<close>

lemma double_until_capped:
  assumes "0 < c" "c \<le> 2 ^ 62" "0 < d"
  shows "min (double_until n c d) c = min (d * 2 ^ n) c \<and> 0 < double_until n c d"
  using assms(3)
proof (induction n arbitrary: d)
  case (Suc n)
  show ?case
  proof (cases "d < c")
    case True
    then have w: "wrap_int64 (d * 2) = d * 2"
      using Suc.prems assms(2) by (intro wrap_int64_id) simp_all
    show ?thesis
      using Suc.IH [of "d * 2"] Suc.prems True w by (simp add: mult.assoc)
  next
    case False
    have "d * 1 \<le> d * 2 ^ Suc n" using Suc.prems by (intro mult_left_mono one_le_power) simp_all
    with False have "c \<le> d" "c \<le> d * 2 ^ Suc n" by simp_all
    with False Suc.prems assms(1) show ?thesis by (simp only: double_until.simps) simp
  qed
qed simp

lemma equal_jitter_range:
  assumes "\<And>n. 0 < n \<Longrightarrow> 0 \<le> rnd n \<and> rnd n < n" and "0 < d"
  shows "d div 2 \<le> equal_jitter rnd d \<and> equal_jitter rnd d \<le> d"
proof -
  have "d div 2 \<le> d" using assms(2) by linarith
  then show ?thesis
    using assms(1) [of "d - d div 2 + 1"] assms(2) by (simp add: equal_jitter_def Let_def)
qed

lemma wrap_int64_double: "wrap_int64 (wrap_int64 x * 2) = wrap_int64 (x * 2)"
proof -
  have "(wrap_int64 x * 2 + 2 ^ 63) mod 2 ^ 64 = (x * 2 + 2 ^ 63) mod (2 ^ 64 :: int)"
  proof -
    have "wrap_int64 x mod 2 ^ 64 = x mod (2 ^ 64 :: int)"
      by (simp add: wrap_int64_def mod_simps)
    then show ?thesis by (metis mod_add_left_eq mod_mult_left_eq)
  qed
  then show ?thesis by (simp add: wrap_int64_def)
qed

lemma double_until_unbounded:
  "c \<le> 0 \<Longrightarrow> 0 < n \<Longrightarrow> double_until n c d = wrap_int64 (d * 2 ^ n)"
proof (induction n arbitrary: d)
  case (Suc n)
  show ?case
  proof (cases n)
    case (Suc m)
    have "double_until (Suc n) c d = wrap_int64 (wrap_int64 (d * 2) * 2 ^ n)"
      using Suc.IH Suc.prems Suc by simp
    also have "\<dots> = wrap_int64 (d * 2 ^ Suc n)"
    proof -
      have "wrap_int64 (wrap_int64 x * 2 ^ k) = wrap_int64 (x * 2 ^ k)" for x k
      proof (induction k arbitrary: x)
        case (Suc k)
        have "wrap_int64 (wrap_int64 x * 2 ^ Suc k) = wrap_int64 (wrap_int64 (wrap_int64 x * 2) * 2 ^ k)"
          using Suc.IH [of "wrap_int64 x * 2"] by (simp add: mult.assoc)
        also have "\<dots> = wrap_int64 (wrap_int64 (x * 2) * 2 ^ k)" by (simp add: wrap_int64_double)
        also have "\<dots> = wrap_int64 (x * 2 ^ Suc k)" using Suc.IH [of "x * 2"] by (simp add: mult.assoc)
        finally show ?case .
      qed (simp add: wrap_int64_def mod_simps)
      then show ?thesis by (simp add: mult.assoc)
    qed
    finally show ?thesis .
  qed (use Suc.prems in simp)
qed simp

subsection \<open>Properties\<close>

text \<open>
  Back-off doubles and is capped. With a positive base and a ceiling of up to \<open>2^62\<close> nanoseconds, the
  wait after the n-th delivery is the base doubled n - 1 times, cut at the ceiling; equal jitter keeps it
  between half of that and all of it, whatever the random source answers in its range.
\<close>

theorem backoff_is_capped_exponential:
  assumes "0 < base" and "0 < rp_max_backoff p" "rp_max_backoff p \<le> 2 ^ 62"
    and "d = min (base * 2 ^ (unat attempt - 1)) (rp_max_backoff p)"
  shows "(rp_jitter p = None \<longrightarrow> backoff p base attempt = d)
    \<and> (rp_jitter p = Some (equal_jitter rnd) \<longrightarrow> (\<forall>n > 0. 0 \<le> rnd n \<and> rnd n < n) \<longrightarrow>
         d div 2 \<le> backoff p base attempt \<and> backoff p base attempt \<le> d)"
proof -
  let ?d = "double_until (unat attempt - 1) (rp_max_backoff p) base"
  have D: "(if rp_max_backoff p > 0 \<and> ?d > rp_max_backoff p then rp_max_backoff p else ?d) = d"
    using double_until_capped [OF assms(2,3,1), of "unat attempt - 1"] assms(2,4) by (simp add: min_def split: if_splits)
  have B: "backoff p base attempt = (case rp_jitter p of None \<Rightarrow> d | Some j \<Rightarrow> j d)"
    using assms(1) unfolding backoff_def Let_def D by simp
  have "0 < d" using assms by simp
  then show ?thesis
    using equal_jitter_range [of rnd d] by (simp add: B)
qed

theorem backoff_is_capped_exponential_witness:
  "backoff \<lparr>rp_max_attempts = 10, rp_max_backoff = 2 * minute, rp_jitter = None\<rparr> (5 * second) 4 = 40 * second"
proof -
  have u: "unat (4 :: u64) = 4" by simp
  have "min (5 * second * 2 ^ (unat (4 :: u64) - 1)) (2 * minute) = 40 * second"
    by (simp add: second_def minute_def u)
  with backoff_is_capped_exponential [of "5 * second" "\<lparr>rp_max_attempts = 10, rp_max_backoff = 2 * minute, rp_jitter = None\<rparr>" _ 4]
  show ?thesis by (simp add: second_def minute_def)
qed

text \<open>
  Without a ceiling the doubling wraps. A policy with no positive \<open>MaxBackoff\<close> never cuts the loop, and
  the \<open>int64\<close> product comes back to zero: from the 65th delivery on the wait is no wait at all, although
  the comment says the loop was chosen because a shift would wrap.
\<close>

theorem backoff_without_ceiling_wraps:
  assumes "rp_max_backoff p \<le> 0" and "rp_jitter p = None" and "65 \<le> attempt"
  shows "backoff p base attempt = 0"
proof -
  let ?n = "unat attempt - 1"
  have n: "64 \<le> ?n" using assms(3) by (simp add: word_le_nat_alt)
  then have "(2::int) ^ 64 dvd 2 ^ ?n" by (rule le_imp_power_dvd)
  then have z: "(base * 2 ^ ?n) mod 2 ^ 64 = 0" by (metis dvd_mult dvd_imp_mod_0)
  have "(base * 2 ^ ?n + 2 ^ 63) mod 2 ^ 64 = ((base * 2 ^ ?n) mod 2 ^ 64 + 2 ^ 63) mod (2 ^ 64 :: int)"
    by (simp only: mod_add_left_eq)
  then have "wrap_int64 (base * 2 ^ ?n) = 0"
    unfolding wrap_int64_def z by simp
  moreover have "double_until ?n (rp_max_backoff p) base = wrap_int64 (base * 2 ^ ?n)"
    using double_until_unbounded [OF assms(1), of ?n base] n by simp
  ultimately show ?thesis using assms(1,2) by (simp add: backoff_def)
qed

theorem backoff_without_ceiling_wraps_witness:
  "backoff \<lparr>rp_max_attempts = 0, rp_max_backoff = 0, rp_jitter = None\<rparr> (5 * second) 65 = 0"
  by (rule backoff_without_ceiling_wraps) simp_all

text \<open>
  The verdict on a failure. A job is stopped exactly when its error declares that retrying will not
  help, or the budget of deliveries is spent; otherwise it comes back after the back-off.
\<close>

theorem judge_table:
  assumes "rp_max_attempts p < 2 ^ 63"
  shows "(vd_class (judge p f) = ClassPoison \<longleftrightarrow>
       is_poison (ft_err f) \<or> (0 < rp_max_attempts p \<and> rp_max_attempts p \<le> int (unat (ft_attempt f))))
    \<and> (vd_class (judge p f) = ClassRetryable \<longrightarrow> vd_backoff (judge p f) = backoff p (ft_base f) (ft_attempt f))"
proof -
  have "(of_int m :: u64) \<le> a \<longleftrightarrow> m \<le> int (unat a)" if "0 < m" "m < 2 ^ 63" for m and a :: u64
    using that by (simp add: word_le_def uint_word_of_int)
  with assms show ?thesis by (auto simp: judge_def Let_def)
qed

theorem judge_table_witness:
  "vd_class (judge (default_retry_policy (\<lambda>_. 0)) \<lparr>ft_err = None, ft_attempt = 10, ft_base = 5 * second\<rparr>) = ClassPoison"
  using judge_table [of "default_retry_policy (\<lambda>_. 0)" "\<lparr>ft_err = None, ft_attempt = 10, ft_base = 5 * second\<rparr>"]
  by (simp add: default_retry_policy_def)

end
