(* ===== verification/Dead_Letters.thy ===== *)
theory Dead_Letters
  imports Job_Queue
begin

section \<open>Dead letters: parking, redriving, dropping\<close>

text \<open>
  Models \<open>internal/dlq\<close>: records and their validation (\<open>dlq.go\<close>), \<open>MemoryStore\<close> with \<open>Park\<close>, \<open>Get\<close>,
  \<open>List\<close> and \<open>Resolve\<close> (\<open>memory.go\<close>), and \<open>Redrive\<close> and \<open>Drop\<close> (\<open>redrive.go\<close>). \<open>Redrive\<close> touches the
  queue and the store one after the other, so it returns both beside its result: what it did to the
  queue stays done when the store refuses.

  The locale \<open>parking\<close> is the contract of the store, with the records as the abstract state; it is what
  makes a record be resolved by one person only.
\<close>

datatype dl_status = StatusParked | StatusRedriven | StatusDropped | StatusOther string

fun dl_status_name :: "dl_status \<Rightarrow> string" where
  "dl_status_name StatusParked = ''parked''"
| "dl_status_name StatusRedriven = ''redriven''"
| "dl_status_name StatusDropped = ''dropped''"
| "dl_status_name (StatusOther s) = s"

record dead_record =
  dl_job :: job
  dl_attempts :: u64
  dl_reason :: string
  dl_intent_state :: string
  dl_cycles :: u64
  dl_status :: dl_status
  dl_parked_at :: time
  dl_resolved_by :: string
  dl_resolved_at :: time

datatype record_defect = BadJob queue_error | ReasonRequired | BadTarget dl_status | ByWhom

datatype dlq_error =
    ErrInvalidRecord record_defect
  | ErrRecordNotFound string
  | ErrNotParked string dl_status

definition validate_record :: "dead_record \<Rightarrow> dlq_error option" where
  "validate_record r =
     (case validate_job (dl_job r) of
        Some e \<Rightarrow> Some (ErrInvalidRecord (BadJob e))
      | None \<Rightarrow> if dl_reason r = '''' then Some (ErrInvalidRecord ReasonRequired) else None)"

definition record_text :: "dead_record \<Rightarrow> string" where
  "record_text r =
     pad_right 16 (job_id (dl_job r)) @ '' #'' @ pad_right 2 (show_nat (unat (dl_attempts r))) @ '' '' @
     pad_right 8 (dl_status_name (dl_status r)) @ '' '' @ pad_right 12 (dl_intent_state r) @ '' '' @
     pad_right 4 (if dl_resolved_by r \<noteq> '''' then dl_resolved_by r else ''-'') @ '' '' @ dl_reason r"

record dead_store =
  dl_records :: "string \<Rightarrow> dead_record option"
  dl_order :: "string list"

definition new_dead_store :: dead_store where
  "new_dead_store = \<lparr>dl_records = (\<lambda>_. None), dl_order = []\<rparr>"

definition park :: "dead_store \<Rightarrow> dead_record \<Rightarrow> time \<Rightarrow> dlq_error + (bool \<times> dead_store)" where
  "park s r now =
     (case validate_record r of
        Some e \<Rightarrow> Inl e
      | None \<Rightarrow>
          (let k = job_id (dl_job r);
               fresh = r\<lparr>dl_status := StatusParked, dl_parked_at := now, dl_cycles := 1,
                         dl_resolved_by := '''', dl_resolved_at := 0\<rparr> in
           case dl_records s k of
             Some old \<Rightarrow>
               if dl_status old = StatusParked then Inr (False, s)
               else Inr (True, s\<lparr>dl_records := (dl_records s)(k \<mapsto> fresh\<lparr>dl_cycles := dl_cycles old + 1\<rparr>)\<rparr>)
           | None \<Rightarrow>
               Inr (True, s\<lparr>dl_records := (dl_records s)(k \<mapsto> fresh), dl_order := dl_order s @ [k]\<rparr>)))"

definition dead_get :: "dead_store \<Rightarrow> string \<Rightarrow> dlq_error + dead_record" where
  "dead_get s k = (case dl_records s k of None \<Rightarrow> Inl (ErrRecordNotFound k) | Some r \<Rightarrow> Inr r)"

definition dead_list :: "dead_store \<Rightarrow> dl_status \<Rightarrow> dead_record list" where
  "dead_list s st =
     filter (\<lambda>r. st = StatusOther '''' \<or> dl_status r = st) (map (\<lambda>k. the (dl_records s k)) (dl_order s))"

definition dead_resolve :: "dead_store \<Rightarrow> string \<Rightarrow> dl_status \<Rightarrow> string \<Rightarrow> time \<Rightarrow> dlq_error + (dead_record \<times> dead_store)" where
  "dead_resolve s k to who now =
     (if to \<noteq> StatusRedriven \<and> to \<noteq> StatusDropped then Inl (ErrInvalidRecord (BadTarget to))
      else if who = '''' then Inl (ErrInvalidRecord ByWhom)
      else case dl_records s k of
          None \<Rightarrow> Inl (ErrRecordNotFound k)
        | Some r \<Rightarrow>
            if dl_status r \<noteq> StatusParked then Inl (ErrNotParked k (dl_status r))
            else
              let r' = r\<lparr>dl_status := to, dl_resolved_by := who, dl_resolved_at := now\<rparr>
              in Inr (r', s\<lparr>dl_records := (dl_records s)(k \<mapsto> r')\<rparr>))"

datatype redrive_error = FromStore dlq_error | FromQueue queue_error

definition redrive :: "dead_store \<Rightarrow> memory_queue \<Rightarrow> string \<Rightarrow> string \<Rightarrow> time
    \<Rightarrow> (redrive_error + dead_record) \<times> dead_store \<times> memory_queue" where
  "redrive s q k who now =
     (case dead_get s k of
        Inl e \<Rightarrow> (Inl (FromStore e), s, q)
      | Inr r \<Rightarrow>
          if dl_status r \<noteq> StatusParked then (Inl (FromStore (ErrNotParked k (dl_status r))), s, q)
          else case enqueue q (dl_job r) now of
              Inl e \<Rightarrow> (Inl (FromQueue e), s, q)
            | Inr (_, q') \<Rightarrow>
                (case dead_resolve s k StatusRedriven who now of
                   Inl e \<Rightarrow> (Inl (FromStore e), s, q')
                 | Inr (r', s') \<Rightarrow> (Inr r', s', q')))"

definition drop_record :: "dead_store \<Rightarrow> string \<Rightarrow> string \<Rightarrow> time \<Rightarrow> dlq_error + (dead_record \<times> dead_store)" where
  "drop_record s k who now = dead_resolve s k StatusDropped who now"

subsection \<open>The contract\<close>

locale parking =
  fixes records :: "'s \<Rightarrow> string \<Rightarrow> dead_record option"
    and park_it :: "'s \<Rightarrow> dead_record \<Rightarrow> time \<Rightarrow> dlq_error + (bool \<times> 's)"
    and resolve_it :: "'s \<Rightarrow> string \<Rightarrow> dl_status \<Rightarrow> string \<Rightarrow> time \<Rightarrow> dlq_error + (dead_record \<times> 's)"
  assumes park_spec: "park_it s r now = Inr (b, s') \<Longrightarrow>
      (\<exists>x. records s' (job_id (dl_job r)) = Some x \<and> dl_status x = StatusParked)
      \<and> (\<forall>k. k \<noteq> job_id (dl_job r) \<longrightarrow> records s' k = records s k)
      \<and> (\<not> b \<longrightarrow> s' = s)"
    and resolve_spec: "resolve_it s k to who now = Inr (r, s') \<Longrightarrow>
      (\<exists>x. records s k = Some x \<and> dl_status x = StatusParked)
      \<and> records s' = (records s)(k \<mapsto> r) \<and> dl_status r = to \<and> to \<noteq> StatusParked \<and> dl_resolved_by r = who \<and> who \<noteq> ''''"
    and resolve_refuses: "records s k = Some x \<Longrightarrow> dl_status x \<noteq> StatusParked \<Longrightarrow> who \<noteq> '''' \<Longrightarrow>
      to = StatusRedriven \<or> to = StatusDropped \<Longrightarrow> resolve_it s k to who now = Inl (ErrNotParked k (dl_status x))"
begin

text \<open>Of two people who press a button on one record, the second is told who came first.\<close>

lemma resolved_by_one:
  assumes "resolve_it s k to who now = Inr (r, s')" "who2 \<noteq> ''''" "to2 = StatusRedriven \<or> to2 = StatusDropped"
  shows "resolve_it s' k to2 who2 now2 = Inl (ErrNotParked k to) \<and> records s' k = Some r \<and> dl_resolved_by r = who"
  using resolve_spec [OF assms(1)] resolve_refuses [OF _ _ assms(2,3), of s' k r now2] by auto

text \<open>What has been resolved moves again only by being parked anew.\<close>

lemma resolved_stays:
  assumes "records s k = Some x" "dl_status x \<noteq> StatusParked" "resolve_it s k' to who now = Inr (r, s')"
  shows "records s' k = Some x"
  using resolve_spec [OF assms(3)] assms(1,2) by auto

end

lemma park_Inr:
  "park s r now = Inr (b, s') \<Longrightarrow>
     (\<exists>x. dl_records s' (job_id (dl_job r)) = Some x \<and> dl_status x = StatusParked)
     \<and> (\<forall>k. k \<noteq> job_id (dl_job r) \<longrightarrow> dl_records s' k = dl_records s k) \<and> (\<not> b \<longrightarrow> s' = s)"
  by (cases "dl_records s (job_id (dl_job r))")
    (auto simp: park_def Let_def split: option.splits if_splits)

lemma dead_resolve_Inr:
  "dead_resolve s k to who now = Inr (r, s') \<longleftrightarrow>
     (to = StatusRedriven \<or> to = StatusDropped) \<and> who \<noteq> '''' \<and>
     (\<exists>x. dl_records s k = Some x \<and> dl_status x = StatusParked
        \<and> r = x\<lparr>dl_status := to, dl_resolved_by := who, dl_resolved_at := now\<rparr>
        \<and> s' = s\<lparr>dl_records := (dl_records s)(k \<mapsto> r)\<rparr>)"
  by (cases "dl_records s k") (auto simp: dead_resolve_def Let_def)

interpretation dl: parking dl_records park dead_resolve
proof
  fix s s' :: dead_store and r x now b k to and who :: string
  { assume "park s r now = Inr (b, s')"
    then show "(\<exists>x. dl_records s' (job_id (dl_job r)) = Some x \<and> dl_status x = StatusParked)
      \<and> (\<forall>k. k \<noteq> job_id (dl_job r) \<longrightarrow> dl_records s' k = dl_records s k) \<and> (\<not> b \<longrightarrow> s' = s)"
      by (rule park_Inr) }
  { assume "dead_resolve s k to who now = Inr (r, s')"
    then show "(\<exists>x. dl_records s k = Some x \<and> dl_status x = StatusParked)
      \<and> dl_records s' = (dl_records s)(k \<mapsto> r) \<and> dl_status r = to \<and> to \<noteq> StatusParked \<and> dl_resolved_by r = who \<and> who \<noteq> ''''"
      unfolding dead_resolve_Inr by auto }
  { assume "dl_records s k = Some x" "dl_status x \<noteq> StatusParked" "who \<noteq> ''''" "to = StatusRedriven \<or> to = StatusDropped"
    then show "dead_resolve s k to who now = Inl (ErrNotParked k (dl_status x))"
      by (auto simp: dead_resolve_def) }
qed

subsection \<open>Properties\<close>

definition demo_dead :: dead_record where
  "demo_dead = \<lparr>dl_job = demo_job, dl_attempts = 10, dl_reason = ''no luck'', dl_intent_state = ''settling'',
     dl_cycles = 1, dl_status = StatusParked, dl_parked_at = 5, dl_resolved_by = '''', dl_resolved_at = 0\<rparr>"

definition demo_dead_store :: dead_store where
  "demo_dead_store = \<lparr>dl_records = [''pi_1/settle'' \<mapsto> demo_dead], dl_order = [''pi_1/settle'']\<rparr>"

lemma redrive_ok:
  "redrive s q k who now = (Inr r, s', q') \<Longrightarrow>
     \<exists>x b. dl_records s k = Some x \<and> dl_status x = StatusParked \<and> enqueue q (dl_job x) now = Inr (b, q')
       \<and> dead_resolve s k StatusRedriven who now = Inr (r, s')"
proof -
  assume a: "redrive s q k who now = (Inr r, s', q')"
  obtain x where x: "dl_records s k = Some x"
    using a by (cases "dl_records s k") (simp_all add: redrive_def dead_get_def)
  have p: "dl_status x = StatusParked"
    using a x by (simp add: redrive_def dead_get_def split: if_splits)
  obtain b q1 where q1: "enqueue q (dl_job x) now = Inr (b, q1)"
    using a x p by (cases "enqueue q (dl_job x) now") (auto simp: redrive_def dead_get_def)
  show ?thesis
    using a x p q1 by (cases "dead_resolve s k StatusRedriven who now") (auto simp: redrive_def dead_get_def)
qed

text \<open>
  A redrive happens once and is signed. When it succeeds the record was parked, the job is in the queue,
  and the record carries the operator's name; whoever presses the button next, on that record, is
  refused with \<open>ErrNotParked\<close> and changes neither the queue nor the store.
\<close>

theorem redrive_happens_once:
  assumes "redrive s q k who now = (Inr r, s', q')" and "queue_inv q"
    and "job_id (dl_job (the (dl_records s k))) = k"
  shows "who \<noteq> '''' \<and> dl_resolved_by r = who \<and> queue_pending q' k \<noteq> None
    \<and> redrive s' q' k who2 now2 = (Inl (FromStore (ErrNotParked k StatusRedriven)), s', q')"
proof -
  obtain x b where x: "dl_records s k = Some x" "dl_status x = StatusParked"
      "enqueue q (dl_job x) now = Inr (b, q')" "dead_resolve s k StatusRedriven who now = Inr (r, s')"
    using redrive_ok [OF assms(1)] by blast
  have rs: "dl_records s' k = Some r" "dl_status r = StatusRedriven" "dl_resolved_by r = who" "who \<noteq> ''''"
    using dl.resolve_spec [OF x(4)] by auto
  have "job_id (dl_job x) = k" using assms(3) x(1) by simp
  then have "queue_pending q' k \<noteq> None"
    using mq.enq_spec [OF assms(2) x(3)] by (cases b) auto
  with rs show ?thesis by (simp add: redrive_def dead_get_def)
qed

lemma demo_redrive:
  "redrive demo_dead_store new_queue ''pi_1/settle'' ''amy'' 20
     = (Inr (demo_dead\<lparr>dl_status := StatusRedriven, dl_resolved_by := ''amy'', dl_resolved_at := 20\<rparr>),
        demo_dead_store\<lparr>dl_records := [''pi_1/settle'' \<mapsto> demo_dead\<lparr>dl_status := StatusRedriven, dl_resolved_by := ''amy'', dl_resolved_at := 20\<rparr>]\<rparr>,
        \<lparr>q_jobs = [''pi_1/settle'' \<mapsto> \<lparr>slot_job = demo_job, slot_attempt = 0, slot_not_before = 20, slot_lease_until = 0\<rparr>],
         q_order = [''pi_1/settle'']\<rparr>)"
proof -
  have j: "job_id demo_job = ''pi_1/settle''" by (simp add: demo_job_def)
  show ?thesis
    by (simp add: redrive_def dead_get_def demo_dead_store_def dead_resolve_def Let_def demo_dead_def enqueue_def new_queue_def j)
qed

theorem redrive_happens_once_witness:
  "\<exists>s' q'. redrive s' q' ''pi_1/settle'' ''bob'' 21 = (Inl (FromStore (ErrNotParked ''pi_1/settle'' StatusRedriven)), s', q')"
proof -
  have "job_id (dl_job (the (dl_records demo_dead_store ''pi_1/settle''))) = ''pi_1/settle''"
    by (simp add: demo_dead_store_def demo_dead_def demo_job_def)
  from redrive_happens_once [OF demo_redrive queue_inv_new this] show ?thesis by blast
qed

text \<open>
  No redrive loses the job. Whatever \<open>Redrive\<close> returns, and also if the process dies between its two
  steps, a parked job is afterwards still parked or it is in the queue.
\<close>

theorem redrive_keeps_job:
  assumes "dl_records s k = Some x" "dl_status x = StatusParked" "job_id (dl_job x) = k" "queue_inv q"
    and "redrive s q k who now = (res, s', q')"
  shows "((\<exists>y. dl_records s' k = Some y \<and> dl_status y = StatusParked) \<or> queue_pending q' k \<noteq> None)
    \<and> (\<forall>b q1. enqueue q (dl_job x) now = Inr (b, q1) \<longrightarrow> queue_pending q1 k \<noteq> None)"
proof -
  have enq: "queue_pending q1 k \<noteq> None" if "enqueue q (dl_job x) now = Inr (b, q1)" for q1 b
    using mq.enq_spec [OF assms(4) that] assms(3) by (cases b) auto
  moreover have "(\<exists>y. dl_records s' k = Some y \<and> dl_status y = StatusParked) \<or> queue_pending q' k \<noteq> None"
    using assms(1,2,5) enq by (auto simp: redrive_def dead_get_def split: sum.splits)
  ultimately show ?thesis by blast
qed

theorem redrive_keeps_job_witness:
  "\<exists>res s' q'. redrive demo_dead_store new_queue ''pi_1/settle'' ''amy'' 20 = (res, s', q')
     \<and> ((\<exists>y. dl_records s' ''pi_1/settle'' = Some y \<and> dl_status y = StatusParked) \<or> queue_pending q' ''pi_1/settle'' \<noteq> None)"
proof -
  have x: "dl_records demo_dead_store ''pi_1/settle'' = Some demo_dead" "dl_status demo_dead = StatusParked"
      "job_id (dl_job demo_dead) = ''pi_1/settle''"
    by (simp_all add: demo_dead_store_def demo_dead_def demo_job_def)
  from redrive_keeps_job [OF x queue_inv_new demo_redrive] demo_redrive show ?thesis by blast
qed

text \<open>
  An unsigned redrive is not harmless. \<open>Resolve\<close> insists on a name, but \<open>Redrive\<close> calls it only after
  \<open>Enqueue\<close>: with an empty name the call fails and the record stays parked, yet the job is back in the
  queue and nobody has signed for it.
\<close>

theorem unsigned_redrive_enqueues:
  assumes "dl_records s k = Some x" "dl_status x = StatusParked" "validate_job (dl_job x) = None"
    and "job_id (dl_job x) = k" "q_jobs q k = None"
  shows "\<exists>q'. redrive s q k '''' now = (Inl (FromStore (ErrInvalidRecord ByWhom)), s, q')
    \<and> queue_pending q' k = Some (dl_job x)"
  using assms by (simp add: redrive_def dead_get_def enqueue_def dead_resolve_def queue_pending_def)

theorem unsigned_redrive_enqueues_witness:
  "\<exists>q'. redrive demo_dead_store new_queue ''pi_1/settle'' '''' 20
      = (Inl (FromStore (ErrInvalidRecord ByWhom)), demo_dead_store, q')
    \<and> queue_pending q' ''pi_1/settle'' = Some demo_job"
proof -
  have x: "dl_records demo_dead_store ''pi_1/settle'' = Some demo_dead" "dl_status demo_dead = StatusParked"
      "validate_job (dl_job demo_dead) = None" "job_id (dl_job demo_dead) = ''pi_1/settle''"
      "q_jobs new_queue ''pi_1/settle'' = None" "dl_job demo_dead = demo_job"
    by (simp_all add: demo_dead_store_def demo_dead_def new_queue_def) (simp add: demo_job_def)
  from unsigned_redrive_enqueues [OF x(1-5), of 20] x(6) show ?thesis by simp
qed

end
