(* ===== verification/Finality.thy ===== *)
theory Finality
  imports Prelude
begin

section \<open>Finality: when a transaction can no longer disappear\<close>

text \<open>
  Models \<open>internal/finality/finality.go\<close>: the observation a chain adapter fills in, its depth, the
  policies of the four chains and \<open>Judge\<close>. The lemmas say what each verdict rests on and that a
  verdict of finality survives the growth of the chain.
\<close>

record observation =
  ob_included :: bool
  ob_height :: u64
  ob_head :: u64
  ob_final :: bool
  ob_succeeded :: bool

definition depth :: "observation \<Rightarrow> u64" where
  "depth ob = (if \<not> ob_included ob \<or> ob_head ob < ob_height ob then 0 else ob_head ob - ob_height ob + 1)"

record finality_policy =
  fp_marker :: string
  fp_require_marker :: bool
  fp_confirmations :: u64
  fp_lost_after :: duration

definition finality_defaults :: "string \<Rightarrow> finality_policy option" where
  "finality_defaults = map_of
     [(''evm'', \<lparr>fp_marker = ''finalized'', fp_require_marker = True, fp_confirmations = 0, fp_lost_after = 5 * minute\<rparr>),
      (''solana'', \<lparr>fp_marker = ''finalized'', fp_require_marker = True, fp_confirmations = 0, fp_lost_after = 2 * minute\<rparr>),
      (''ton'', \<lparr>fp_marker = ''masterchain'', fp_require_marker = True, fp_confirmations = 0, fp_lost_after = 2 * minute\<rparr>),
      (''sui'', \<lparr>fp_marker = ''checkpoint'', fp_require_marker = True, fp_confirmations = 0, fp_lost_after = 2 * minute\<rparr>)]"

definition finality_policy_text :: "finality_policy \<Rightarrow> string" where
  "finality_policy_text p =
     ''final when '' @
     (if fp_require_marker p \<and> fp_confirmations p > 0
        then fp_marker p @ '' and '' @ show_nat (unat (fp_confirmations p)) @ '' confirmations''
      else if fp_require_marker p then fp_marker p
      else if fp_confirmations p > 0 then show_nat (unat (fp_confirmations p)) @ '' confirmations''
      else ''included'') @
     (if fp_lost_after p > 0 then ''; lost after '' @ show_duration (fp_lost_after p) else '''')"

datatype finality_kind = KindPending | KindFinal | KindFailed | KindLost

fun finality_kind_name :: "finality_kind \<Rightarrow> string" where
  "finality_kind_name KindPending = ''pending''"
| "finality_kind_name KindFinal = ''final''"
| "finality_kind_name KindFailed = ''failed''"
| "finality_kind_name KindLost = ''lost''"

record finality_verdict =
  fv_kind :: finality_kind
  fv_reason :: string

definition finality_verdict_text :: "finality_verdict \<Rightarrow> string" where
  "finality_verdict_text v = pad_right 8 (finality_kind_name (fv_kind v)) @ '' '' @ fv_reason v"

definition finality_judge :: "finality_policy \<Rightarrow> observation \<Rightarrow> duration \<Rightarrow> finality_verdict" where
  "finality_judge p ob age =
     (if \<not> ob_included ob then
        (if fp_lost_after p > 0 \<and> age \<ge> fp_lost_after p
         then \<lparr>fv_kind = KindLost,
               fv_reason = ''not in any block for '' @ show_duration age @ ''; dropped or reorged out''\<rparr>
         else \<lparr>fv_kind = KindPending, fv_reason = ''not in any block yet''\<rparr>)
      else
        let d = depth ob; at = show_nat (unat (ob_height ob)); dt = show_nat (unat d) in
        if fp_confirmations p > 0 \<and> d < fp_confirmations p
        then \<lparr>fv_kind = KindPending,
              fv_reason = ''included at '' @ at @ '', '' @ dt @ '' of '' @ show_nat (unat (fp_confirmations p)) @ '' confirmations''\<rparr>
        else if fp_require_marker p \<and> \<not> ob_final ob
        then \<lparr>fv_kind = KindPending,
              fv_reason = ''included at '' @ at @ '', '' @ dt @ '' deep, not yet '' @ fp_marker p\<rparr>
        else
          let where_at = (if fp_require_marker p then fp_marker p @ '' at '' @ at @ '', '' @ dt @ '' deep''
                          else dt @ '' confirmations at '' @ at) in
          if \<not> ob_succeeded ob
          then \<lparr>fv_kind = KindFailed, fv_reason = where_at @ '' but the execution failed; gas burned, nothing moved''\<rparr>
          else \<lparr>fv_kind = KindFinal, fv_reason = where_at\<rparr>)"

text \<open>What the policy asks of a transaction before anything about it is believed.\<close>

definition settled_by :: "finality_policy \<Rightarrow> observation \<Rightarrow> bool" where
  "settled_by p ob \<longleftrightarrow> ob_included ob \<and> fp_confirmations p \<le> depth ob \<and> (fp_require_marker p \<longrightarrow> ob_final ob)"

lemma finality_judge_kind:
  "fv_kind (finality_judge p ob age) =
     (if \<not> ob_included ob then (if fp_lost_after p > 0 \<and> age \<ge> fp_lost_after p then KindLost else KindPending)
      else if \<not> settled_by p ob then KindPending
      else if ob_succeeded ob then KindFinal else KindFailed)"
proof -
  have "fp_confirmations p > 0 \<and> depth ob < fp_confirmations p \<longleftrightarrow> \<not> fp_confirmations p \<le> depth ob"
    by (auto simp: word_gt_0)
  then show ?thesis by (auto simp: finality_judge_def settled_by_def Let_def)
qed

text \<open>
  Each verdict rests on what it claims. A transaction counts as final or failed exactly when it is in a
  block, has the confirmations the policy asks for, and, if the policy waits for the chain's own marker,
  carries it; which of the two then is the execution's result. It counts as lost exactly when it is in no
  block and the policy's patience, if it has a limit, is over. So neither success nor failure is ever
  believed early, and a lost verdict never falls on a transaction that is in a block.
\<close>

theorem finality_verdicts:
  "(fv_kind (finality_judge p ob age) = KindFinal \<longleftrightarrow> settled_by p ob \<and> ob_succeeded ob)
   \<and> (fv_kind (finality_judge p ob age) = KindFailed \<longleftrightarrow> settled_by p ob \<and> \<not> ob_succeeded ob)
   \<and> (fv_kind (finality_judge p ob age) = KindLost \<longleftrightarrow>
        \<not> ob_included ob \<and> 0 < fp_lost_after p \<and> fp_lost_after p \<le> age)"
  unfolding finality_judge_kind by (auto simp: settled_by_def)

lemma depth_grows:
  assumes "ob_head ob \<le> ob_head ob'" "ob_height ob' = ob_height ob" "ob_included ob" "ob_included ob'"
    and "ob_head ob' - ob_height ob' < - 1"
  shows "depth ob \<le> depth ob'"
proof (cases "ob_head ob < ob_height ob")
  case False
  have "ob_head ob - ob_height ob \<le> ob_head ob' - ob_height ob'"
    using assms(1,2) False by (simp add: word_le_minus_mono_left)
  moreover have "x + 1 \<le> y + 1" if "x \<le> y" "y < - 1" for x y :: u64
  proof -
    have "y + 1 \<noteq> 0" "x + 1 \<noteq> 0" using that by (auto simp: eq_neg_iff_add_eq_0 [symmetric])
    then have "unat (y + 1) = unat y + 1" "unat (x + 1) = unat x + 1"
      using unatSuc [of y] unatSuc [of x] by (simp_all add: add.commute)
    with that(1) show ?thesis by (simp add: word_le_nat_alt)
  qed
  moreover have "\<not> ob_head ob' < ob_height ob" using False assms(1) by simp
  ultimately show ?thesis using False assms by (simp add: depth_def)
qed (use assms in \<open>simp add: depth_def\<close>)

text \<open>
  A verdict of finality does not change as the chain grows. If a transaction was judged final, or
  failed, and a later observation shows it in the same block with the same result under a head that is
  not lower, still marked if it was, then it is judged the same, whatever the age.
\<close>

theorem finality_is_stable:
  assumes "fv_kind (finality_judge p ob age) = k" and "k = KindFinal \<or> k = KindFailed"
    and "ob_included ob'" "ob_height ob' = ob_height ob" "ob_succeeded ob' = ob_succeeded ob"
    and "ob_head ob \<le> ob_head ob'" "ob_final ob \<longrightarrow> ob_final ob'" "ob_head ob' - ob_height ob' < - 1"
  shows "fv_kind (finality_judge p ob' age') = k"
proof -
  have s: "settled_by p ob" using assms(1,2) unfolding finality_judge_kind by (auto split: if_splits)
  then have "ob_included ob" by (simp add: settled_by_def)
  with depth_grows [OF assms(6,4) _ assms(3,8)] s assms(7) have "settled_by p ob'"
    using assms(3) by (auto simp: settled_by_def)
  with s assms(1,2,3,5) show ?thesis unfolding finality_judge_kind by (auto simp: settled_by_def)
qed

theorem finality_is_stable_witness:
  "fv_kind (finality_judge \<lparr>fp_marker = ''finalized'', fp_require_marker = True, fp_confirmations = 2, fp_lost_after = 0\<rparr>
     \<lparr>ob_included = True, ob_height = 7, ob_head = 100, ob_final = True, ob_succeeded = False\<rparr> 9) = KindFailed"
  by (rule finality_is_stable [where age = 1
        and ob = "\<lparr>ob_included = True, ob_height = 7, ob_head = 8, ob_final = True, ob_succeeded = False\<rparr>"])
    (simp_all add: finality_judge_kind settled_by_def depth_def)

end
