(* ===== verification/Listener.thy ===== *)
theory Listener
  imports Intent_Store Journal Finality
begin

section \<open>The listener: from confirming to settled\<close>

text \<open>
  Models \<open>internal/listener/listener.go\<close>: \<open>Check\<close> with its post entry and its push, over the intent
  store and the journal. The watcher is a function of the intent, since each call asks the chain once;
  the two readings of the clock that a call can use are the arguments \<open>t_age\<close> and \<open>t_at\<close>. The Go
  returns a report beside an error; so does the model, with no outcome in the report where Go leaves it
  empty. \<open>check_plan\<close> is what \<open>Check\<close> has decided before it writes anything, so that what other
  writers do between its steps can be stated.
\<close>

record sighting = observation +
  si_received :: "int option"

datatype outcome = OutcomeWait | OutcomeSettled | OutcomeHandedBack | OutcomeReview | OutcomeNoop

fun outcome_name :: "outcome \<Rightarrow> string" where
  "outcome_name OutcomeWait = ''wait''"
| "outcome_name OutcomeSettled = ''settled''"
| "outcome_name OutcomeHandedBack = ''settling''"
| "outcome_name OutcomeReview = ''needs_review''"
| "outcome_name OutcomeNoop = ''no-op''"

record listener_report =
  lr_intent_id :: string
  lr_tx_hash :: string
  lr_outcome :: "outcome option"
  lr_detail :: string

definition listener_report_text :: "listener_report \<Rightarrow> string" where
  "listener_report_text r =
     trim_right
       (pad_right 8 (lr_intent_id r) @ '' '' @
        pad_right 12 (case lr_outcome r of None \<Rightarrow> '''' | Some o1 \<Rightarrow> outcome_name o1) @
        (if lr_tx_hash r \<noteq> '''' then '' tx '' @ lr_tx_hash r else '''') @
        (if lr_detail r \<noteq> '''' then '' ('' @ lr_detail r @ '')'' else ''''))"

datatype listener_error =
    FromIntents intent_error
  | FromJournal ledger_error
  | FromWatcher string
  | ErrNoPolicy string
  | NilAmount

definition protocol :: "string \<Rightarrow> string" where
  "protocol chain = cut_before (CHR '':'') chain"

definition post_entry :: "intent \<Rightarrow> int \<Rightarrow> entry" where
  "post_entry it received =
     \<lparr>e_id = i_id it @ ''/post'', e_ref = i_ref it, e_kind = KindPost, e_holds = i_id it @ ''/hold'',
      e_asset = \<lparr>asset_chain = i_chain it, asset_token = i_token it\<rparr>,
      e_legs = [\<lparr>leg_account = payer_account (i_payer it), leg_amount = Some (- received)\<rparr>,
                \<lparr>leg_account = merchant_account (i_merchant it), leg_amount = Some received\<rparr>],
      e_by = actor_name ActorListener, e_at = i_updated_at it, e_tx_hash = i_tx_hash it, e_memo = '''',
      e_seq = 0, e_prev_hash = zero_hash, e_hash = zero_hash\<rparr>"

subsection \<open>Deciding\<close>

datatype check_plan =
    PlanError listener_error
  | PlanWait string
  | PlanPush outcome string request
  | PlanPost entry string request

text \<open>Everything \<open>Check\<close> does between reading the intent and its first write.\<close>

definition check_plan :: "(string \<Rightarrow> finality_policy option) \<Rightarrow> (intent \<Rightarrow> string + sighting)
    \<Rightarrow> time \<Rightarrow> time \<Rightarrow> intent \<Rightarrow> check_plan" where
  "check_plan policies lookup t_age t_at it =
     (case policies (protocol (i_chain it)) of
        None \<Rightarrow> PlanError (ErrNoPolicy (i_chain it))
      | Some policy \<Rightarrow>
          (case lookup it of
             Inl e \<Rightarrow> PlanError (FromWatcher e)
           | Inr seen \<Rightarrow>
               let v = finality_judge policy (observation.truncate seen) (time_sub t_age (i_updated_at it));
                   req = (\<lambda>to tx why. \<lparr>req_to = to, req_by = ActorListener, req_tx_hash = tx, req_reason = why, req_at = t_at\<rparr>)
               in case fv_kind v of
                   KindPending \<Rightarrow> PlanWait (fv_reason v)
                 | KindLost \<Rightarrow> PlanPush OutcomeHandedBack (fv_reason v)
                     (req StateSettling '''' (''tx '' @ i_tx_hash it @ '' '' @ fv_reason v))
                 | KindFailed \<Rightarrow> PlanPush OutcomeReview '''' (req StateNeedsReview '''' (fv_reason v))
                 | KindFinal \<Rightarrow>
                     (case si_received seen of
                        None \<Rightarrow> PlanPush OutcomeReview ''''
                          (req StateNeedsReview '''' (fv_reason v @ ''; no transfer carrying our ref, nothing moved''))
                      | Some got \<Rightarrow>
                          (case i_amount it of
                             None \<Rightarrow> PlanError NilAmount
                           | Some amount \<Rightarrow>
                               if got \<noteq> amount then PlanPush OutcomeReview ''''
                                 (req StateNeedsReview '''' (fv_reason v @ ''; received '' @ show_int got @ '', expected '' @ show_int amount))
                               else PlanPost (post_entry it got) (fv_reason v)
                                 (req StateSettled (i_tx_hash it) '''')))))"

subsection \<open>Writing\<close>

definition push :: "platform \<Rightarrow> memory_store \<Rightarrow> intent \<Rightarrow> listener_report \<Rightarrow> outcome \<Rightarrow> request
    \<Rightarrow> (listener_report \<times> listener_error option) \<times> memory_store" where
  "push p st it rep out req =
     (case apply_request it req of
        Inl e \<Rightarrow> ((rep, Some (FromIntents e)), st)
      | Inr (it', applied) \<Rightarrow>
          let done = rep\<lparr>lr_outcome := Some out,
                        lr_detail := (if lr_detail rep = '''' then req_reason req else lr_detail rep)\<rparr> in
          if applied then
            (case store_save p st it' (i_version it) of
               Inl e \<Rightarrow> ((rep, Some (FromIntents e)), st)
             | Inr st' \<Rightarrow> ((done, None), st'))
          else ((done, None), st))"

definition check :: "platform \<Rightarrow> (string \<Rightarrow> finality_policy option) \<Rightarrow> (intent \<Rightarrow> string + sighting)
    \<Rightarrow> time \<Rightarrow> time \<Rightarrow> string \<Rightarrow> memory_store \<Rightarrow> memory_journal
    \<Rightarrow> (listener_report \<times> listener_error option) \<times> memory_store \<times> memory_journal" where
  "check p policies lookup t_age t_at k st j =
     (case store_get st k of
        Inl e \<Rightarrow> ((\<lparr>lr_intent_id = '''', lr_tx_hash = '''', lr_outcome = None, lr_detail = ''''\<rparr>, Some (FromIntents e)), st, j)
      | Inr it \<Rightarrow>
          let rep = \<lparr>lr_intent_id = i_id it, lr_tx_hash = i_tx_hash it, lr_outcome = None, lr_detail = ''''\<rparr> in
          if i_state it \<noteq> StateConfirming then
            ((rep\<lparr>lr_outcome := Some OutcomeNoop, lr_detail := ''already '' @ state_name (i_state it)\<rparr>, None), st, j)
          else case check_plan policies lookup t_age t_at it of
              PlanError e \<Rightarrow> ((rep, Some e), st, j)
            | PlanWait why \<Rightarrow> ((rep\<lparr>lr_outcome := Some OutcomeWait, lr_detail := why\<rparr>, None), st, j)
            | PlanPush out detail req \<Rightarrow>
                (case push p st it (rep\<lparr>lr_detail := detail\<rparr>) out req of (r, st') \<Rightarrow> (r, st', j))
            | PlanPost e detail req \<Rightarrow>
                (case append_entry p j e of
                   Inl err \<Rightarrow> ((rep, Some (FromJournal err)), st, j)
                 | Inr (_, _, j') \<Rightarrow>
                     (case push p st it (rep\<lparr>lr_detail := detail\<rparr>) OutcomeSettled req of (r, st') \<Rightarrow> (r, st', j'))))"

subsection \<open>Facts\<close>

lemma check_plan_post:
  assumes "check_plan policies lookup t_age t_at it = PlanPost e d req"
  shows "\<exists>policy seen got. policies (protocol (i_chain it)) = Some policy \<and> lookup it = Inr seen
    \<and> settled_by policy (observation.truncate seen) \<and> ob_succeeded seen
    \<and> si_received seen = Some got \<and> i_amount it = Some got \<and> e = post_entry it got
    \<and> req_to req = StateSettled \<and> req_by req = ActorListener \<and> req_tx_hash req = i_tx_hash it"
proof -
  obtain policy seen where ps: "policies (protocol (i_chain it)) = Some policy" "lookup it = Inr seen"
    using assms by (auto simp: check_plan_def split: option.splits sum.splits)
  let ?v = "finality_judge policy (observation.truncate seen) (time_sub t_age (i_updated_at it))"
  have v: "fv_kind ?v = KindFinal"
    using assms ps by (simp add: check_plan_def Let_def split: finality_kind.splits)
  obtain got where got: "si_received seen = Some got" "i_amount it = Some got" "e = post_entry it got"
      "req = \<lparr>req_to = StateSettled, req_by = ActorListener, req_tx_hash = i_tx_hash it, req_reason = '''', req_at = t_at\<rparr>"
    using assms ps v by (auto simp: check_plan_def Let_def split: option.splits if_splits)
  have "settled_by policy (observation.truncate seen)" "ob_succeeded (observation.truncate seen)"
    using v unfolding finality_judge_kind by (auto split: if_splits)
  with ps got show ?thesis by (simp add: observation.truncate_def)
qed

lemma check_plan_push:
  assumes "check_plan policies lookup t_age t_at it = PlanPush out d req"
  shows "req_by req = ActorListener \<and> (out = OutcomeHandedBack \<and> req_to req = StateSettling
      \<or> out = OutcomeReview \<and> req_to req = StateNeedsReview)"
proof -
  obtain policy seen where ps: "policies (protocol (i_chain it)) = Some policy" "lookup it = Inr seen"
    using assms by (auto simp: check_plan_def split: option.splits sum.splits)
  let ?v = "finality_judge policy (observation.truncate seen) (time_sub t_age (i_updated_at it))"
  show ?thesis
  proof (cases "fv_kind ?v")
    case KindFinal
    then show ?thesis
      using assms ps by (cases "si_received seen"; cases "i_amount it") (auto simp: check_plan_def Let_def split: if_splits)
  qed (use assms ps in \<open>auto simp: check_plan_def Let_def\<close>)
qed

text \<open>A post is a function of the stored intent: whoever computes it, however late, computes the same.\<close>

lemma check_plan_post_same:
  "check_plan policies lookup t1 t2 it = PlanPost e d req \<Longrightarrow>
   check_plan policies' lookup' t3 t4 it = PlanPost e' d' req' \<Longrightarrow> e = e'"
proof -
  assume a: "check_plan policies lookup t1 t2 it = PlanPost e d req"
    and b: "check_plan policies' lookup' t3 t4 it = PlanPost e' d' req'"
  obtain got where g: "i_amount it = Some got" "e = post_entry it got"
    using check_plan_post [OF a] by blast
  obtain got' where g': "i_amount it = Some got'" "e' = post_entry it got'"
    using check_plan_post [OF b] by blast
  show "e = e'" using g g' by simp
qed

lemma push_done:
  assumes "push p st it rep out req = ((r, None), st')"
  shows "\<exists>it' applied. apply_request it req = Inr (it', applied) \<and> lr_outcome r = Some out
    \<and> (if applied then store_save p st it' (i_version it) = Inr st' else st' = st)"
proof (cases "apply_request it req")
  case (Inr ib)
  obtain it' b where ib: "ib = (it', b)" by (cases ib)
  have "lr_outcome r = Some out \<and> (if b then store_save p st it' (i_version it) = Inr st' else st' = st)"
    using assms Inr ib by (cases b; cases "store_save p st it' (i_version it)") (auto simp: push_def Let_def)
  with Inr ib show ?thesis by blast
qed (use assms in \<open>simp add: push_def\<close>)

lemma push_failed:
  assumes "push p st it rep out req = ((r, Some e), st')"
  shows "st' = st \<and> r = rep"
proof (cases "apply_request it req")
  case (Inr ib)
  obtain it' b where ib: "ib = (it', b)" by (cases ib)
  show ?thesis
  proof (cases b)
    case True
    with assms Inr ib show ?thesis
      by (cases "store_save p st it' (i_version it)") (simp_all add: push_def Let_def)
  qed (use assms Inr ib in \<open>simp add: push_def Let_def\<close>)
qed (use assms in \<open>simp add: push_def\<close>)

lemma push_moves:
  assumes inv: "store_inv p st" and get: "store_get st k = Inr it" and conf: "i_state it = StateConfirming"
    and pu: "push p st it rep out req = ((r, None), st')" and to: "req_to req \<noteq> StateConfirming"
  shows "store_get st' k = Inr (commit it req) \<and> (\<forall>k'. k' \<noteq> k \<longrightarrow> store_get st' k' = store_get st k')
    \<and> store_inv p st' \<and> lr_outcome r = Some out"
proof -
  have k: "i_id it = k" "reachable_intent p it" using store_inv_get [OF inv get] by auto
  obtain it' b where ap: "apply_request it req = Inr (it', b)" and out: "lr_outcome r = Some out"
    and sv: "if b then store_save p st it' (i_version it) = Inr st' else st' = st"
    using push_done [OF pu] by blast
  have b: "b" using ap to conf by (cases b) (auto simp: apply_replay_iff)
  with ap sv have ap': "apply_request it req = Inr (it', True)" and sv': "store_save p st it' (i_version it) = Inr st'"
    by simp_all
  have it': "it' = commit it req" by (rule apply_edge(3) [OF ap'])
  have "i_id it' = k" using k by (simp add: it')
  moreover have "store_inv p st'"
    by (rule store_save_applied_inv [OF inv k(2) ap' sv']) (use get k in simp)
  ultimately show ?thesis
    using store_get_save [OF sv'] out by (simp add: it')
qed

subsection \<open>Properties\<close>

lemma check_settled:
  assumes "store_inv p st" and "journal_inv p j"
    and "check p policies lookup t_age t_at k st j = ((rep, None), st', j')"
    and "lr_outcome rep = Some OutcomeSettled"
  shows "\<exists>it policy seen got x. store_get st k = Inr it \<and> i_state it = StateConfirming
    \<and> policies (protocol (i_chain it)) = Some policy \<and> lookup it = Inr seen
    \<and> settled_by policy (observation.truncate seen) \<and> ob_succeeded seen
    \<and> si_received seen = Some got \<and> i_amount it = Some got
    \<and> (\<exists>it'. store_get st' k = Inr it' \<and> i_state it' = StateSettled \<and> i_tx_hash it' = i_tx_hash it)
    \<and> (\<forall>k'. k' \<noteq> k \<longrightarrow> store_get st' k' = store_get st k')
    \<and> x \<in> set (j_entries j') \<and> e_id x = k @ ''/post'' \<and> same_entry x (post_entry it got)"
proof -
  obtain it where it: "store_get st k = Inr it"
    using assms(3) by (cases "store_get st k") (auto simp: check_def)
  have conf: "i_state it = StateConfirming"
    using assms(3,4) it by (auto simp: check_def Let_def split: if_splits)
  obtain e d req where plan: "check_plan policies lookup t_age t_at it = PlanPost e d req"
  proof (cases "check_plan policies lookup t_age t_at it")
    case (PlanPush out d req)
    with assms(3) it conf obtain r st1 where "push p st it \<lparr>lr_intent_id = i_id it, lr_tx_hash = i_tx_hash it,
        lr_outcome = None, lr_detail = d\<rparr> out req = ((r, None), st1)" "rep = r"
      by (auto simp: check_def Let_def split: prod.splits)
    with push_done assms(4) have "out = OutcomeSettled" by fastforce
    with check_plan_push [OF PlanPush] show ?thesis by simp
  qed (use assms(3,4) it conf that in \<open>auto simp: check_def Let_def\<close>)
  obtain policy seen got where f: "policies (protocol (i_chain it)) = Some policy" "lookup it = Inr seen"
      "settled_by policy (observation.truncate seen)" "ob_succeeded seen" "si_received seen = Some got"
      "i_amount it = Some got" "e = post_entry it got" "req_to req = StateSettled" "req_tx_hash req = i_tx_hash it"
    using check_plan_post [OF plan] by blast
  obtain x b j1 where ap: "append_entry p j e = Inr (x, b, j1)"
    using assms(3) it conf plan by (cases "append_entry p j e") (auto simp: check_def Let_def)
  then have j1: "j1 = j'" and pu: "push p st it \<lparr>lr_intent_id = i_id it, lr_tx_hash = i_tx_hash it,
        lr_outcome = None, lr_detail = d\<rparr> OutcomeSettled req = ((rep, None), st')"
    using assms(3) it conf plan by (auto simp: check_def Let_def split: prod.splits)
  note moved = push_moves [OF assms(1) it conf pu]
  have "x \<in> set (j_entries j') \<and> e_id x = e_id e \<and> same_entry x e"
    using mj.append_new [OF assms(2)] mj.append_replay [OF assms(2)] append_replay_iff [OF assms(2)] ap j1
    by (cases b) auto
  moreover have "e_id e = k @ ''/post''"
    using f(7) store_inv_get [OF assms(1) it] by (simp add: post_entry_def)
  ultimately show ?thesis
    using it conf f moved by (auto simp: commit_def)
qed

text \<open>
  C4. Settled means final, successful, and paid in full. If \<open>Check\<close> reports \<open>settled\<close>, then the intent was
  confirming, the chain's policy was satisfied and the execution succeeded, and the merchant received
  exactly the amount asked for; afterwards the stored intent is settled on the same transaction hash, no
  other intent has changed, and the post for the received amount is in the journal.
\<close>

theorem settled_only_on_proof:
  assumes "store_inv p st" and "journal_inv p j"
    and "check p policies lookup t_age t_at k st j = ((rep, None), st', j')"
    and "lr_outcome rep = Some OutcomeSettled"
  shows "\<exists>it policy seen got x. store_get st k = Inr it \<and> i_state it = StateConfirming
    \<and> policies (protocol (i_chain it)) = Some policy \<and> lookup it = Inr seen
    \<and> settled_by policy (observation.truncate seen) \<and> ob_succeeded seen
    \<and> si_received seen = Some got \<and> i_amount it = Some got
    \<and> (\<exists>it'. store_get st' k = Inr it' \<and> i_state it' = StateSettled \<and> i_tx_hash it' = i_tx_hash it)
    \<and> (\<forall>k'. k' \<noteq> k \<longrightarrow> store_get st' k' = store_get st k')
    \<and> x \<in> set (j_entries j') \<and> e_id x = k @ ''/post'' \<and> same_entry x (post_entry it got)"
  using assms by (rule check_settled)

definition demo_conf_store :: memory_store where
  "demo_conf_store = \<lparr>st_rows = [(''pi_1'', demo_confirming)],
     st_by_ref = (\<lambda>_. None)(replicate 32 (CHR 0x01) \<mapsto> ''pi_1'')\<rparr>"

definition demo_sighting :: sighting where
  "demo_sighting = \<lparr>ob_included = True, ob_height = 7, ob_head = 100, ob_final = True, ob_succeeded = True, si_received = Some 100\<rparr>"

lemma demo_confirming_simps [simp]:
  "i_id demo_confirming = ''pi_1''" "i_state demo_confirming = StateConfirming" "i_tx_hash demo_confirming = ''0xaa''"
  "i_ref demo_confirming = replicate 32 (CHR 0x01)" "i_amount demo_confirming = Some 100"
  "i_chain demo_confirming = ''evm:1''" "i_token demo_confirming = ''usd''" "i_updated_at demo_confirming = 20"
  "i_payer demo_confirming = ''alice''" "i_merchant demo_confirming = ''bob''"
  by (simp_all add: demo_confirming_def demo_settling_def demo_authorized_def demo_intent_def demo_request_def commit_def)

lemma demo_conf_get: "store_get demo_conf_store k = (if k = ''pi_1'' then Inr demo_confirming else Inl ErrIntentNotFound)"
  by (simp add: store_get_def demo_conf_store_def)

lemma demo_conf_inv: "store_inv demo_platform demo_conf_store"
  unfolding store_inv_def demo_conf_get
  using demo_reachable(4) by (auto simp: demo_conf_store_def)

lemma demo_protocol [simp]: "protocol ''evm:1'' = ''evm''"
  by (simp add: protocol_def cut_before_def)

lemma demo_plan:
  "\<exists>d. check_plan finality_defaults (\<lambda>_. Inr demo_sighting) 30 31 demo_confirming
     = PlanPost (post_entry demo_confirming 100) d
         \<lparr>req_to = StateSettled, req_by = ActorListener, req_tx_hash = ''0xaa'', req_reason = '''', req_at = 31\<rparr>"
proof -
  obtain policy where pol: "finality_defaults ''evm'' = Some policy"
    and k: "fv_kind (finality_judge policy (observation.truncate demo_sighting) age) = KindFinal" for age
    by (simp add: finality_defaults_def finality_judge_kind settled_by_def depth_def demo_sighting_def observation.truncate_def)
  show ?thesis
    by (simp add: check_plan_def pol k Let_def) (simp add: demo_sighting_def)
qed

lemma demo_post_entry_admissible:
  "admissible (j_entries (journal_run demo_platform [demo_hold])) (post_entry demo_confirming 100)"
proof -
  have "validate_entry (post_entry demo_confirming 100) = None"
    by (simp add: validate_entry_iff post_entry_def legs_balanced_def leg_value_def payer_account_def merchant_account_def)
  then show ?thesis
    by (simp add: demo_run1 admissible_def holds_money_def resolved_in_def)
      (simp add: demo_entry_defs post_entry_def)
qed

lemma demo_check:
  "\<exists>rep st' j'. check demo_platform finality_defaults (\<lambda>_. Inr demo_sighting) 30 31 ''pi_1'' demo_conf_store
      (journal_run demo_platform [demo_hold]) = ((rep, None), st', j') \<and> lr_outcome rep = Some OutcomeSettled"
proof -
  let ?req = "\<lparr>req_to = StateSettled, req_by = ActorListener, req_tx_hash = ''0xaa'', req_reason = '''', req_at = 31\<rparr>"
  obtain d where plan: "check_plan finality_defaults (\<lambda>_. Inr demo_sighting) 30 31 demo_confirming
     = PlanPost (post_entry demo_confirming 100) d ?req"
    using demo_plan by blast
  obtain x j' where ap: "append_entry demo_platform (journal_run demo_platform [demo_hold]) (post_entry demo_confirming 100) = Inr (x, True, j')"
    using append_applied_iff [OF journal_run_inv] demo_post_entry_admissible by blast
  have rq: "apply_request demo_confirming ?req = Inr (commit demo_confirming ?req, True)"
    by (simp add: apply_executed_iff lookup_rule_def rules_def guard_def)
  obtain st' where sv: "store_save demo_platform demo_conf_store (commit demo_confirming ?req) (i_version demo_confirming) = Inr st'"
    using ms.save_succeeds [where s = demo_conf_store and it = "commit demo_confirming ?req" and cur = demo_confirming
        and p = demo_platform] by (auto simp: demo_conf_get)
  show ?thesis
    using plan ap rq sv by (simp add: check_def demo_conf_get push_def Let_def)
qed

theorem settled_only_on_proof_witness:
  "\<exists>st' (j' :: memory_journal) it' x. store_get st' ''pi_1'' = Inr it' \<and> i_state it' = StateSettled
     \<and> x \<in> set (j_entries j') \<and> e_id x = ''pi_1/post''"
proof -
  obtain rep st' j' where c: "check demo_platform finality_defaults (\<lambda>_. Inr demo_sighting) 30 31 ''pi_1'' demo_conf_store
      (journal_run demo_platform [demo_hold]) = ((rep, None), st', j')" "lr_outcome rep = Some OutcomeSettled"
    using demo_check by blast
  obtain it' x where a: "store_get st' ''pi_1'' = Inr it'" "i_state it' = StateSettled"
      "x \<in> set (j_entries j')" "e_id x = ''pi_1'' @ ''/post''"
    using settled_only_on_proof [OF demo_conf_inv journal_run_inv c] by blast
  have "e_id x = ''pi_1/post''" using a(4) by simp
  with a(1-3) show ?thesis by blast
qed

text \<open>
  Dying between the post and the settlement costs nothing. If \<open>Check\<close> has written its post and died
  before it pushed the intent, then any later check of that intent that comes to the same conclusion finds
  its own post, adds nothing to the journal, and settles the intent.
\<close>

theorem check_resumes_after_crash:
  assumes "store_inv p st" "journal_inv p j" and "store_get st k = Inr it" "i_state it = StateConfirming"
    and "check_plan policies lookup t1 t2 it = PlanPost e d req" and "append_entry p j e = Inr (x, True, j1)"
    and "check_plan policies lookup' t3 t4 it = PlanPost e' d' req'"
  shows "\<exists>rep st'. check p policies lookup' t3 t4 k st j1 = ((rep, None), st', j1)
    \<and> lr_outcome rep = Some OutcomeSettled
    \<and> (\<exists>it'. store_get st' k = Inr it' \<and> i_state it' = StateSettled \<and> i_tx_hash it' = i_tx_hash it)"
proof -
  have same: "e' = e" by (rule check_plan_post_same [OF assms(7,5)])
  obtain got where req': "req_to req' = StateSettled" "req_by req' = ActorListener" "req_tx_hash req' = i_tx_hash it"
    using check_plan_post [OF assms(7)] by blast
  have va: "validate_entry e = None"
    using assms(6) append_applied_iff [OF assms(2), of e x] by (auto simp: admissible_def)
  have ap: "append_entry p j1 e = Inr (x, False, j1)"
    using mj.replay_for_ever [OF assms(2,6), of j1 "[]" e] va mj.append_new [OF assms(2,6)] by simp
  have "i_tx_hash it \<noteq> []"
    using store_inv_get_inv [OF assms(1,3)] assms(4) by (auto simp: intent_inv_def tx_hash_ok_def)
  then have rq: "apply_request it req' = Inr (commit it req', True)"
    using assms(4) req' by (simp add: apply_executed_iff lookup_rule_def rules_def guard_def)
  have k: "i_id it = k" "i_ref it = derive p (intent_terms it)"
    using store_inv_get [OF assms(1,3)] store_inv_get_inv [OF assms(1,3)] by (auto simp: intent_inv_def)
  then obtain st' where sv: "store_save p st (commit it req') (i_version it) = Inr st'"
    using ms.save_succeeds [where s = st and it = "commit it req'" and cur = it and p = p] assms(3) by auto
  have "store_get st' k = Inr (commit it req')"
    using ms.save_then_get [OF sv] k by simp
  moreover have "check p policies lookup' t3 t4 k st j1 =
     ((\<lparr>lr_intent_id = i_id it, lr_tx_hash = i_tx_hash it, lr_outcome = Some OutcomeSettled,
        lr_detail = (if d' = [] then req_reason req' else d')\<rparr>, None), st', j1)"
    using assms(3,4,7) same ap rq sv by (simp add: check_def push_def Let_def)
  ultimately show ?thesis using req' by (auto simp: commit_def)
qed

theorem check_resumes_after_crash_witness:
  "\<exists>rep st' j1. check demo_platform finality_defaults (\<lambda>_. Inr demo_sighting) 30 31 ''pi_1'' demo_conf_store j1
     = ((rep, None), st', j1) \<and> lr_outcome rep = Some OutcomeSettled"
proof -
  obtain d where plan: "check_plan finality_defaults (\<lambda>_. Inr demo_sighting) 30 31 demo_confirming
     = PlanPost (post_entry demo_confirming 100) d
         \<lparr>req_to = StateSettled, req_by = ActorListener, req_tx_hash = ''0xaa'', req_reason = '''', req_at = 31\<rparr>"
    using demo_plan by blast
  obtain x j' where ap: "append_entry demo_platform (journal_run demo_platform [demo_hold]) (post_entry demo_confirming 100) = Inr (x, True, j')"
    using append_applied_iff [OF journal_run_inv] demo_post_entry_admissible by blast
  have g: "store_get demo_conf_store ''pi_1'' = Inr demo_confirming" "i_state demo_confirming = StateConfirming"
    by (simp_all add: demo_conf_get)
  from check_resumes_after_crash [OF demo_conf_inv journal_run_inv g plan ap plan] show ?thesis by blast
qed

text \<open>
  Two listeners that disagree can split the books from the state. The first has written its post; before
  it pushes, the second, whose node does not show the transaction, hands the intent back to the relayer.
  The first one's push then fails, so the intent is back in \<open>settling\<close> without a hash although its hold has
  been posted; and from then on a post of the payment under any other transaction hash is refused with
  \<open>ErrConflict\<close>, so a second transaction of this payment can never be booked.
\<close>

theorem post_then_handed_back:
  assumes "store_inv p st" "journal_inv p j" and "store_get st k = Inr it" "i_state it = StateConfirming"
    and "check_plan policies lookup t1 t2 it = PlanPost e d req" and "append_entry p j e = Inr (x, True, j1)"
    and "check p policies lookup' t3 t4 k st j1 = ((rep, None), st1, j2)" "lr_outcome rep = Some OutcomeHandedBack"
    and "i_id it2 = k" "i_tx_hash it2 \<noteq> i_tx_hash it" "validate_entry (post_entry it2 got2) = None"
  shows "(\<exists>it'. store_get st1 k = Inr it' \<and> i_state it' = StateSettling \<and> i_tx_hash it' = '''')
    \<and> resolved_in (j_entries j2) (k @ ''/hold'')
    \<and> push p st1 it rep0 OutcomeSettled req = ((rep0, Some (FromIntents ErrVersionConflict)), st1)
    \<and> append_entry p j2 (post_entry it2 got2) = Inl (ErrConflict (k @ ''/post''))"
proof -
  have k: "i_id it = k" using store_inv_get [OF assms(1,3)] by simp
  obtain got where e: "e = post_entry it got" and req: "req_to req = StateSettled" "req_by req = ActorListener" "req_tx_hash req = i_tx_hash it"
    using check_plan_post [OF assms(5)] by blast
  obtain out d' req' where plan': "check_plan policies lookup' t3 t4 it = PlanPush out d' req'"
      and pu: "push p st it \<lparr>lr_intent_id = i_id it, lr_tx_hash = i_tx_hash it, lr_outcome = None, lr_detail = d'\<rparr> out req' = ((rep, None), st1)"
      and j2: "j2 = j1"
  proof (cases "check_plan policies lookup' t3 t4 it")
    case (PlanPush out d' req')
    with assms(3,4,7) that show ?thesis by (auto simp: check_def Let_def split: prod.splits)
  next
    case (PlanPost e' d' req')
    then obtain r s where "push p st it \<lparr>lr_intent_id = i_id it, lr_tx_hash = i_tx_hash it, lr_outcome = None, lr_detail = d'\<rparr>
        OutcomeSettled req' = ((rep, None), s)"
      using assms(3,4,7) by (auto simp: check_def Let_def split: prod.splits sum.splits)
    with push_done assms(8) show ?thesis by fastforce
  qed (use assms(3,4,7,8) in \<open>auto simp: check_def Let_def\<close>)
  have out: "out = OutcomeHandedBack" using push_done [OF pu] assms(8) by auto
  then have to: "req_to req' = StateSettling" using check_plan_push [OF plan'] by simp
  have moved: "store_get st1 k = Inr (commit it req')"
    using push_moves [OF assms(1,3,4) pu] to by simp
  have "store_save p st1 (commit it req) (i_version it) = Inl ErrVersionConflict"
    by (rule ms.save_conflict [where cur = "commit it req'"]) (use moved k in \<open>simp_all add: commit_def\<close>)
  moreover have "i_tx_hash it \<noteq> []"
    using store_inv_get_inv [OF assms(1,3)] assms(4) by (auto simp: intent_inv_def tx_hash_ok_def)
  then have "apply_request it req = Inr (commit it req, True)"
    using assms(4) req by (simp add: apply_executed_iff lookup_rule_def rules_def guard_def)
  ultimately have pf: "push p st1 it rep0 OutcomeSettled req = ((rep0, Some (FromIntents ErrVersionConflict)), st1)"
    by (simp add: push_def Let_def)
  note new = mj.append_new [OF assms(2,6)]
  have x: "x \<in> set (j_entries j2)" using new j2 by simp
  have xs: "e_kind x = KindPost" "e_holds x = k @ ''/hold''" "e_tx_hash x = i_tx_hash it"
    using new e k by (simp_all add: same_entry_def post_entry_def)
  have "resolved_in (j_entries j2) (k @ ''/hold'')"
    using x xs unfolding resolved_in_def list_ex_iff by (intro bexI [of _ x]) simp_all
  moreover have "append_entry p j2 (post_entry it2 got2) = Inl (ErrConflict (k @ ''/post''))"
  proof -
    have "e_id (post_entry it2 got2) = e_id e" using assms(9) e k by (simp add: post_entry_def)
    moreover have "\<not> same_entry x (post_entry it2 got2)"
      using xs(3) assms(10) by (auto simp: same_entry_def post_entry_def)
    ultimately have "append_entry p j2 (post_entry it2 got2) = Inl (ErrConflict (e_id (post_entry it2 got2)))"
      using mj.replay_for_ever [OF assms(2,6), of j2 "[]" "post_entry it2 got2"] assms(11) j2 by simp
    then show ?thesis using assms(9) by (simp add: post_entry_def)
  qed
  moreover have "i_state (commit it req') = StateSettling" "i_tx_hash (commit it req') = ''''"
    using to by (simp_all add: commit_def)
  ultimately show ?thesis using moved pf by blast
qed

definition demo_unseen :: sighting where
  "demo_unseen = demo_sighting\<lparr>ob_included := False\<rparr>"

lemma demo_handed_back:
  "\<exists>rep st1. check demo_platform finality_defaults (\<lambda>_. Inr demo_unseen) (20 + 5 * minute) 40 ''pi_1'' demo_conf_store j
     = ((rep, None), st1, j) \<and> lr_outcome rep = Some OutcomeHandedBack"
proof -
  obtain policy where pol: "finality_defaults ''evm'' = Some policy" "fp_lost_after policy = 5 * minute"
    by (simp add: finality_defaults_def)
  let ?v = "finality_judge policy (observation.truncate demo_unseen) (5 * minute)"
  have v: "fv_kind ?v = KindLost"
    by (simp add: finality_judge_kind pol demo_unseen_def demo_sighting_def observation.truncate_def minute_def second_def)
  have age: "time_sub (20 + 5 * minute) 20 = 5 * minute" by (simp add: time_sub_def minute_def second_def)
  let ?req = "\<lparr>req_to = StateSettling, req_by = ActorListener, req_tx_hash = '''', req_reason = ''tx 0xaa '' @ fv_reason ?v, req_at = 40\<rparr>"
  have plan: "check_plan finality_defaults (\<lambda>_. Inr demo_unseen) (20 + 5 * minute) 40 demo_confirming
      = PlanPush OutcomeHandedBack (fv_reason ?v) ?req"
    by (simp add: check_plan_def pol(1) age v Let_def)
  have rq: "apply_request demo_confirming ?req = Inr (commit demo_confirming ?req, True)"
    by (simp add: apply_executed_iff lookup_rule_def rules_def guard_def)
  obtain st' where sv: "store_save demo_platform demo_conf_store (commit demo_confirming ?req) (i_version demo_confirming) = Inr st'"
    using ms.save_succeeds [where s = demo_conf_store and it = "commit demo_confirming ?req" and cur = demo_confirming
        and p = demo_platform] by (auto simp: demo_conf_get)
  show ?thesis
    using plan rq sv by (simp add: check_def demo_conf_get push_def Let_def)
qed

theorem post_then_handed_back_witness:
  "\<exists>(st1 :: memory_store) j2 it' it2. store_get st1 ''pi_1'' = Inr it' \<and> i_state it' = StateSettling
     \<and> resolved_in (j_entries (j2 :: memory_journal)) ''pi_1/hold''
     \<and> append_entry demo_platform j2 (post_entry it2 100) = Inl (ErrConflict ''pi_1/post'')"
proof -
  let ?it2 = "demo_confirming\<lparr>i_tx_hash := ''0xbb''\<rparr>"
  obtain d where plan: "check_plan finality_defaults (\<lambda>_. Inr demo_sighting) 30 31 demo_confirming
     = PlanPost (post_entry demo_confirming 100) d
         \<lparr>req_to = StateSettled, req_by = ActorListener, req_tx_hash = ''0xaa'', req_reason = '''', req_at = 31\<rparr>"
    using demo_plan by blast
  obtain x j1 where ap: "append_entry demo_platform (journal_run demo_platform [demo_hold]) (post_entry demo_confirming 100) = Inr (x, True, j1)"
    using append_applied_iff [OF journal_run_inv] demo_post_entry_admissible by blast
  have g: "store_get demo_conf_store ''pi_1'' = Inr demo_confirming" "i_state demo_confirming = StateConfirming"
    by (simp_all add: demo_conf_get)
  obtain rep st1 where c: "check demo_platform finality_defaults (\<lambda>_. Inr demo_unseen) (20 + 5 * minute) 40 ''pi_1'' demo_conf_store j1
     = ((rep, None), st1, j1)" "lr_outcome rep = Some OutcomeHandedBack"
    using demo_handed_back by blast
  have it2: "i_id ?it2 = ''pi_1''" "i_tx_hash ?it2 \<noteq> i_tx_hash demo_confirming" "validate_entry (post_entry ?it2 100) = None"
    by (simp_all add: validate_entry_iff post_entry_def legs_balanced_def leg_value_def payer_account_def merchant_account_def)
  note r = post_then_handed_back [OF demo_conf_inv journal_run_inv g plan ap c it2, of undefined]
  then obtain it' where "store_get st1 ''pi_1'' = Inr it'" "i_state it' = StateSettling" by blast
  moreover have "resolved_in (j_entries j1) ''pi_1/hold''"
    "append_entry demo_platform j1 (post_entry ?it2 100) = Inl (ErrConflict ''pi_1/post'')"
    using r by simp_all
  ultimately show ?thesis by blast
qed

end
