(* ===== verification/Relayer.thy ===== *)
theory Relayer
  imports Intent_Store Journal Job_Queue Tx_Seq Tx_Fee Tx_Fail Dead_Letters
begin

section \<open>The relayer: from authorized to confirming\<close>

text \<open>
  Models the worker of \<open>internal/relayer\<close>: \<open>RunOnce\<close>, \<open>process\<close>, \<open>advance\<close> and the hold entry
  (\<open>relayer.go\<close>), the broadcast book (\<open>broadcast.go\<close>), \<open>rescue\<close> with \<open>reserveFor\<close> and \<open>review\<close>
  (\<open>replace.go\<close>), and \<open>poison\<close> with \<open>giveUp\<close> (\<open>poison.go\<close>). Each is a function from the world, the
  stores the worker is wired to, to the world it leaves; the deferred \<open>Resolve\<close> runs where Go runs it,
  when the function returns.

  What one \<open>RunOnce\<close> meets outside is the record \<open>env\<close>: the readings of its clock in the order of
  the calls, whether the limiter's wait ended in an error, whether the waits for a number were given up,
  what the sender answers, and the texts of errors. A sender is one of the three interfaces the code tests
  for. The world also logs every call of the sender with its answer: nothing reads this log, the
  properties are about it.
\<close>

subsection \<open>The broadcast book\<close>

record broadcast =
  b_intent_id :: string
  b_account :: string
  b_nonce :: u64
  b_ordered :: bool
  b_fill :: bool
  b_fee :: fee
  b_tx_hash :: string
  b_sent :: sent
  b_at :: time

definition broadcast_text :: "broadcast \<Rightarrow> string" where
  "broadcast_text b =
     (let slot = (if b_ordered b then ''#'' @ show_nat (unat (b_nonce b)) @ (if b_fill b then ''f'' else '''') else ''-'');
          tx = (if b_tx_hash b = '''' then ''-'' else b_tx_hash b)
      in pad_right 4 slot @ '' '' @ pad_right 9 (sent_name (b_sent b)) @ '' '' @ pad_right 8 tx @ '' '' @ fee_text (b_fee b))"

type_synonym broadcasts = "string \<Rightarrow> broadcast list"

definition record_row :: "broadcasts \<Rightarrow> broadcast \<Rightarrow> broadcasts" where
  "record_row m b = m(b_intent_id b := m (b_intent_id b) @ [b])"

definition last_broadcast :: "broadcasts \<Rightarrow> string \<Rightarrow> (broadcast \<times> int) option" where
  "last_broadcast m k = (if m k = [] then None else Some (last (m k), int (length (m k))))"

subsection \<open>Senders, environment and world\<close>

record send_error =
  se_text :: string
  se_not_sent :: bool
  se_poison :: bool

datatype sender = PlainSender | OrderedSender "intent \<Rightarrow> string" | ReplacingSender "intent \<Rightarrow> string"

fun ordered_account :: "sender \<Rightarrow> (intent \<Rightarrow> string) option" where
  "ordered_account PlainSender = None"
| "ordered_account (OrderedSender acct) = Some acct"
| "ordered_account (ReplacingSender acct) = Some acct"

fun replacing_account :: "sender \<Rightarrow> (intent \<Rightarrow> string) option" where
  "replacing_account (ReplacingSender acct) = Some acct"
| "replacing_account _ = None"

datatype relayer_error = RelIntent intent_error | RelJournal ledger_error | RelDead dlq_error | RelQueue queue_error

record env =
  ev_now :: "nat \<Rightarrow> time"
  ev_throttled :: "string option"
  ev_gave_up :: bool
  ev_gave_up_gap :: bool
  ev_send :: "intent \<Rightarrow> reservation \<Rightarrow> send_error + string"
  ev_replace :: "intent \<Rightarrow> reservation \<Rightarrow> fee \<Rightarrow> send_error + string"
  ev_cancel :: "string \<Rightarrow> reservation \<Rightarrow> fee \<Rightarrow> send_error + string"
  ev_error_text :: "relayer_error \<Rightarrow> string"
  ev_seq_text :: "seq_error \<Rightarrow> string"

datatype send_call =
    CallSend string reservation
  | CallReplace string reservation fee
  | CallCancel string reservation fee

record world =
  wd_queue :: memory_queue
  wd_store :: memory_store
  wd_journal :: memory_journal
  wd_seq :: counter
  wd_bcasts :: broadcasts
  wd_dead :: dead_store
  wd_calls :: "(send_call \<times> (send_error + string)) list"

datatype relay_outcome =
    RelayNone | RelaySent | RelayNoop | RelayRetry | RelayReview | RelayReplaced | RelayCleared | RelayPoison

fun relay_outcome_name :: "relay_outcome \<Rightarrow> string" where
  "relay_outcome_name RelayNone = ''''"
| "relay_outcome_name RelaySent = ''sent''"
| "relay_outcome_name RelayNoop = ''no-op''"
| "relay_outcome_name RelayRetry = ''retry''"
| "relay_outcome_name RelayReview = ''needs_review''"
| "relay_outcome_name RelayReplaced = ''replaced''"
| "relay_outcome_name RelayCleared = ''cleared''"
| "relay_outcome_name RelayPoison = ''poison''"

record relay_report =
  rr_job :: "job option"
  rr_attempt :: u64
  rr_outcome :: relay_outcome
  rr_tx_hash :: string
  rr_detail :: string
  rr_err :: "fault_error option"

definition relay_report_text :: "relay_report \<Rightarrow> string" where
  "relay_report_text r =
     pad_right 16 (case rr_job r of None \<Rightarrow> '''' | Some j \<Rightarrow> job_id j) @ '' #'' @
     pad_right 2 (show_nat (unat (rr_attempt r))) @ '' '' @ pad_right 12 (relay_outcome_name (rr_outcome r)) @
     (if rr_tx_hash r \<noteq> '''' then '' tx '' @ rr_tx_hash r else '''') @
     (if rr_detail r \<noteq> '''' then '' ('' @ rr_detail r @ '')'' else '''')"

definition report :: "relay_outcome \<Rightarrow> string \<Rightarrow> relay_report" where
  "report out detail = \<lparr>rr_job = None, rr_attempt = 0, rr_outcome = out, rr_tx_hash = '''', rr_detail = detail, rr_err = None\<rparr>"

record relay_config =
  cf_lease :: duration
  cf_retry_after :: duration
  cf_stuck_after :: duration

definition default_relay_config :: relay_config where
  "default_relay_config = \<lparr>cf_lease = 30 * second, cf_retry_after = 5 * second, cf_stuck_after = 5 * minute\<rparr>"

record worker =
  wk_platform :: platform
  wk_sender :: sender
  wk_cfg :: relay_config
  wk_fee :: fee_policy
  wk_faults :: retry_policy

definition new_worker :: "platform \<Rightarrow> sender \<Rightarrow> (int \<Rightarrow> int) \<Rightarrow> worker" where
  "new_worker p s rand_n = \<lparr>wk_platform = p, wk_sender = s, wk_cfg = default_relay_config,
     wk_fee = default_fee_policy, wk_faults = default_retry_policy rand_n\<rparr>"

subsection \<open>Helpers of the worker\<close>

definition relayer_advance :: "platform \<Rightarrow> world \<Rightarrow> intent \<Rightarrow> request \<Rightarrow> intent_error option \<times> intent \<times> world" where
  "relayer_advance p w it req =
     (case apply_request it req of
        Inl e \<Rightarrow> (Some e, it, w)
      | Inr (it', applied) \<Rightarrow>
          if \<not> applied then (None, it', w)
          else case store_save p (wd_store w) it' (i_version it) of
              Inl e \<Rightarrow> (Some e, it', w)
            | Inr st \<Rightarrow> (None, it', w\<lparr>wd_store := st\<rparr>))"

text \<open>A nil amount would panic in \<open>Neg\<close>; stored intents have one, and \<open>Append\<close> refuses a leg without.\<close>

definition hold_entry :: "intent \<Rightarrow> entry" where
  "hold_entry it =
     \<lparr>e_id = i_id it @ ''/hold'', e_ref = i_ref it, e_kind = KindHold, e_holds = '''',
      e_asset = \<lparr>asset_chain = i_chain it, asset_token = i_token it\<rparr>,
      e_legs = [\<lparr>leg_account = payer_account (i_payer it), leg_amount = map_option uminus (i_amount it)\<rparr>,
                \<lparr>leg_account = merchant_account (i_merchant it), leg_amount = i_amount it\<rparr>],
      e_by = actor_name ActorRelayer, e_at = i_updated_at it, e_tx_hash = '''', e_memo = '''',
      e_seq = 0, e_prev_hash = zero_hash, e_hash = zero_hash\<rparr>"

definition void_entry :: "intent \<Rightarrow> entry" where
  "void_entry it =
     \<lparr>e_id = i_id it @ ''/void'', e_ref = i_ref it, e_kind = KindVoid, e_holds = i_id it @ ''/hold'',
      e_asset = \<lparr>asset_chain = i_chain it, asset_token = i_token it\<rparr>, e_legs = [],
      e_by = actor_name ActorRelayer, e_at = i_updated_at it, e_tx_hash = '''',
      e_memo = ''nothing was broadcast, releasing the hold'',
      e_seq = 0, e_prev_hash = zero_hash, e_hash = zero_hash\<rparr>"

definition record_broadcast :: "world \<Rightarrow> intent \<Rightarrow> reservation \<Rightarrow> fee \<Rightarrow> string \<Rightarrow> sent \<Rightarrow> time \<Rightarrow> world" where
  "record_broadcast w it res fee tx sent now =
     w\<lparr>wd_bcasts := record_row (wd_bcasts w)
         \<lparr>b_intent_id = i_id it, b_account = r_account res, b_nonce = r_value res, b_ordered = r_ordered res,
          b_fill = r_fill res, b_fee = fee, b_tx_hash = tx, b_sent = sent, b_at = now\<rparr>\<rparr>"

definition log_call :: "world \<Rightarrow> send_call \<Rightarrow> send_error + string \<Rightarrow> world" where
  "log_call w c ans = w\<lparr>wd_calls := wd_calls w @ [(c, ans)]\<rparr>"

definition finish_slot :: "world \<Rightarrow> reservation \<Rightarrow> sent \<Rightarrow> world" where
  "finish_slot w res sent = (case resolve (wd_seq w) res sent of Inl _ \<Rightarrow> w | Inr c \<Rightarrow> w\<lparr>wd_seq := c\<rparr>)"

definition sent_of_error :: "send_error \<Rightarrow> sent" where
  "sent_of_error e = (if se_not_sent e then SentNo else SentUnknown)"

definition fault_of_error :: "send_error \<Rightarrow> fault_error" where
  "fault_of_error e = (if se_poison e then PoisonError (se_text e) else PlainError (se_text e))"

definition no_reservation :: reservation where
  "no_reservation = \<lparr>r_account = '''', r_value = 0, r_ordered = False, r_fill = False\<rparr>"

definition relay_request :: "state \<Rightarrow> string \<Rightarrow> string \<Rightarrow> time \<Rightarrow> request" where
  "relay_request to tx why now =
     \<lparr>req_to = to, req_by = ActorRelayer, req_tx_hash = tx, req_reason = why, req_at = now\<rparr>"

subsection \<open>The normal path\<close>

text \<open>What the code does with the sender's answer: note it in the book, and move on if there is a hash.\<close>

definition after_send :: "worker \<Rightarrow> env \<Rightarrow> world \<Rightarrow> intent \<Rightarrow> reservation \<Rightarrow> send_error + string
    \<Rightarrow> relay_report \<times> relayer_error option \<times> sent \<times> world" where
  "after_send k ev w it res ans =
     (case ans of
        Inl se \<Rightarrow>
          ((report RelayRetry (''send: '' @ se_text se))\<lparr>rr_err := Some (fault_of_error se)\<rparr>, None,
           sent_of_error se,
           record_broadcast w it res (pol_base (wk_fee k)) '''' (sent_of_error se) (ev_now ev 3))
      | Inr tx \<Rightarrow>
          (case relayer_advance (wk_platform k)
                  (record_broadcast w it res (pol_base (wk_fee k)) tx SentYes (ev_now ev 3)) it
                  (relay_request StateConfirming tx '''' (ev_now ev 4)) of
             (Some e, _, w1) \<Rightarrow> (report RelayNone '''', Some (RelIntent e), SentYes, w1)
           | (None, _, w1) \<Rightarrow> ((report RelaySent '''')\<lparr>rr_tx_hash := tx\<rparr>, None, SentYes, w1)))"

text \<open>From the claim to \<open>settling\<close> to the end of the case, with what became of the number.\<close>

definition claim_and_send :: "worker \<Rightarrow> env \<Rightarrow> world \<Rightarrow> intent \<Rightarrow> reservation
    \<Rightarrow> relay_report \<times> relayer_error option \<times> sent \<times> world" where
  "claim_and_send k ev w it res =
     (case relayer_advance (wk_platform k) w it (relay_request StateSettling '''' '''' (ev_now ev 2)) of
        (Some e, _, w1) \<Rightarrow>
          if e = ErrVersionConflict
          then (report RelayRetry ''lost the race to settling, will re-read'', None, SentNo, w1)
          else (report RelayNone '''', Some (RelIntent e), SentNo, w1)
      | (None, it1, w1) \<Rightarrow>
          (case append_entry (wk_platform k) (wd_journal w1) (hold_entry it1) of
             Inl e \<Rightarrow> (report RelayNone '''', Some (RelJournal e), SentNo, w1)
           | Inr (_, _, j) \<Rightarrow>
               let ans = ev_send ev it1 res
               in after_send k ev (log_call (w1\<lparr>wd_journal := j\<rparr>) (CallSend (i_id it1) res) ans) it1 res ans))"

definition process_authorized :: "worker \<Rightarrow> env \<Rightarrow> world \<Rightarrow> intent \<Rightarrow> relay_report \<times> relayer_error option \<times> world" where
  "process_authorized k ev w it =
     (case ev_throttled ev of
        Some e \<Rightarrow> (report RelayRetry (''throttled: '' @ e), None, w)
      | None \<Rightarrow>
          (case ordered_account (wk_sender k) of
             None \<Rightarrow> (case claim_and_send k ev w it no_reservation of (rep, err, _, w1) \<Rightarrow> (rep, err, w1))
           | Some acct \<Rightarrow>
               (case reserve (wd_seq w) (acct it) (ev_gave_up ev) of
                  (Inl e, c) \<Rightarrow> (report RelayRetry (''no slot: '' @ ev_seq_text ev e), None, w\<lparr>wd_seq := c\<rparr>)
                | (Inr res, c) \<Rightarrow>
                    (case claim_and_send k ev (w\<lparr>wd_seq := c\<rparr>) it res of
                       (rep, err, sent, w1) \<Rightarrow> (rep, err, finish_slot w1 res sent)))))"

subsection \<open>Rescue\<close>

definition review_intent :: "worker \<Rightarrow> env \<Rightarrow> world \<Rightarrow> intent \<Rightarrow> string
    \<Rightarrow> bool \<times> relayer_error option \<times> intent \<times> world" where
  "review_intent k ev w it reason =
     (case relayer_advance (wk_platform k) w it (relay_request StateNeedsReview '''' reason (ev_now ev 6)) of
        (Some e, it', w1) \<Rightarrow>
          if e = ErrVersionConflict then (True, None, it', w1) else (False, Some (RelIntent e), it', w1)
      | (None, it', w1) \<Rightarrow> (False, None, it', w1))"

definition review :: "worker \<Rightarrow> env \<Rightarrow> world \<Rightarrow> intent \<Rightarrow> string \<Rightarrow> relay_report \<times> relayer_error option \<times> world" where
  "review k ev w it reason =
     (case review_intent k ev w it reason of
        (_, Some e, _, w1) \<Rightarrow> (report RelayNone '''', Some e, w1)
      | (conflict, None, _, w1) \<Rightarrow>
          if conflict then (report RelayRetry ''lost the race to needs_review, will re-read'', None, w1)
          else (report RelayReview reason, None, w1))"

definition reserve_for :: "env \<Rightarrow> counter \<Rightarrow> string \<Rightarrow> plan_kind \<Rightarrow> (seq_error + reservation) \<times> counter" where
  "reserve_for ev c acct kind =
     (case reserve_gap c acct (ev_gave_up_gap ev) of
        (Inr r, c1) \<Rightarrow> (Inr r, c1)
      | (Inl e, c1) \<Rightarrow>
          if kind = KindCancel \<or> e \<noteq> ErrNoGap then (Inl e, c1) else reserve c1 acct (ev_gave_up ev))"

definition stuck_of :: "worker \<Rightarrow> env \<Rightarrow> world \<Rightarrow> intent \<Rightarrow> stuck" where
  "stuck_of k ev w it =
     (let age = time_sub (ev_now ev 5) (i_updated_at it); after = cf_stuck_after (wk_cfg k) in
      case last_broadcast (wd_bcasts w) (i_id it) of
        None \<Rightarrow> \<lparr>st_sent = SentUnknown, st_fee = pol_base (wk_fee k), st_tries = 1, st_age = age, st_stuck_after = after\<rparr>
      | Some (b, tries) \<Rightarrow>
          \<lparr>st_sent = b_sent b, st_fee = b_fee b, st_tries = tries, st_age = age, st_stuck_after = after\<rparr>)"

definition slot_text :: "plan \<Rightarrow> reservation \<Rightarrow> string" where
  "slot_text pl res = plan_kind_name (pl_kind pl) @ '' #'' @ show_nat (unat (r_value res)) @
     (if r_fill res then '' fill'' else '''') @ '', '' @ fee_text (pl_fee pl)"

text \<open>What the code does with the answer to the replacement or the no-op.\<close>

definition after_rescue :: "worker \<Rightarrow> env \<Rightarrow> world \<Rightarrow> intent \<Rightarrow> reservation \<Rightarrow> plan \<Rightarrow> send_error + string
    \<Rightarrow> relay_report \<times> relayer_error option \<times> sent \<times> world" where
  "after_rescue k ev w it res pl ans =
     (case ans of
        Inl se \<Rightarrow>
          ((report RelayRetry (plan_kind_name (pl_kind pl) @ '': '' @ se_text se))\<lparr>rr_err := Some (fault_of_error se)\<rparr>,
           None, sent_of_error se,
           record_broadcast w it res (pl_fee pl) '''' (sent_of_error se) (ev_now ev 3))
      | Inr tx \<Rightarrow>
          let w1 = record_broadcast w it res (pl_fee pl) tx SentYes (ev_now ev 3);
              detail = slot_text pl res
          in if pl_kind pl = KindCancel then
               (case review_intent k ev w1 it (detail @ ''; sent no-op tx '' @ tx @ '' to clear the slot, outcome still unknown'') of
                  (_, Some e, _, w2) \<Rightarrow> (report RelayNone '''', Some e, SentYes, w2)
                | (_, None, _, w2) \<Rightarrow> ((report RelayCleared detail)\<lparr>rr_tx_hash := tx\<rparr>, None, SentYes, w2))
             else
               (case relayer_advance (wk_platform k) w1 it (relay_request StateConfirming tx '''' (ev_now ev 4)) of
                  (Some e, _, w2) \<Rightarrow>
                    if e = ErrVersionConflict
                    then (report RelayRetry ''lost the race to confirming, will re-read'', None, SentYes, w2)
                    else (report RelayNone '''', Some (RelIntent e), SentYes, w2)
                | (None, _, w2) \<Rightarrow> ((report RelayReplaced detail)\<lparr>rr_tx_hash := tx\<rparr>, None, SentYes, w2)))"

text \<open>From the reservation to the end of \<open>rescue\<close>.\<close>

definition replace_or_cancel :: "worker \<Rightarrow> env \<Rightarrow> world \<Rightarrow> intent \<Rightarrow> string \<Rightarrow> reservation \<Rightarrow> plan
    \<Rightarrow> relay_report \<times> relayer_error option \<times> sent \<times> world" where
  "replace_or_cancel k ev w it acct res pl =
     (let cancel = (pl_kind pl = KindCancel);
          ans = (if cancel then ev_cancel ev acct res (pl_fee pl) else ev_replace ev it res (pl_fee pl));
          call = (if cancel then CallCancel acct res (pl_fee pl) else CallReplace (i_id it) res (pl_fee pl))
      in after_rescue k ev (log_call w call ans) it res pl ans)"

definition rescue :: "worker \<Rightarrow> env \<Rightarrow> world \<Rightarrow> intent \<Rightarrow> relay_report \<times> relayer_error option \<times> world" where
  "rescue k ev w it =
     (let stuck = stuck_of k ev w it; pl = decide (wk_fee k) stuck in
      if pl_kind pl = KindWait then (report RelayRetry (pl_reason pl), None, w)
      else if pl_kind pl = KindReview then review k ev w it (pl_reason pl)
      else case replacing_account (wk_sender k) of
          None \<Rightarrow> review k ev w it (''settling for '' @ show_duration (st_age stuck) @ '' without tx hash; broadcast outcome unknown'')
        | Some acct \<Rightarrow>
            (case ev_throttled ev of
               Some e \<Rightarrow> (report RelayRetry (''throttled: '' @ e), None, w)
             | None \<Rightarrow>
                 (case reserve_for ev (wd_seq w) (acct it) (pl_kind pl) of
                    (Inl e, c) \<Rightarrow>
                      if e = ErrNoGap then review k ev (w\<lparr>wd_seq := c\<rparr>) it (''no slot to clear: '' @ pl_reason pl)
                      else (report RelayRetry (''no slot: '' @ ev_seq_text ev e), None, w\<lparr>wd_seq := c\<rparr>)
                  | (Inr res, c) \<Rightarrow>
                      (case replace_or_cancel k ev (w\<lparr>wd_seq := c\<rparr>) it (acct it) res pl of
                         (rep, err, sent, w1) \<Rightarrow> (rep, err, finish_slot w1 res sent)))))"

definition process :: "worker \<Rightarrow> env \<Rightarrow> world \<Rightarrow> delivery \<Rightarrow> relay_report \<times> relayer_error option \<times> world" where
  "process k ev w d =
     (case store_get (wd_store w) (job_intent_id (d_job d)) of
        Inl e \<Rightarrow>
          if e = ErrIntentNotFound then (report RelayNoop ''intent not found, dropping job'', None, w)
          else (report RelayNone '''', Some (RelIntent e), w)
      | Inr it \<Rightarrow>
          (case i_state it of
             StateCreated \<Rightarrow> (report RelayRetry ''not authorized yet'', None, w)
           | StateAuthorized \<Rightarrow> process_authorized k ev w it
           | StateSettling \<Rightarrow> rescue k ev w it
           | _ \<Rightarrow> (report RelayNoop (''already '' @ state_name (i_state it)), None, w)))"

subsection \<open>Giving up\<close>

text \<open>The last step of \<open>giveUp\<close>: with the hold released, declare the intent failed.\<close>

definition give_up_fail :: "worker \<Rightarrow> env \<Rightarrow> world \<Rightarrow> intent \<Rightarrow> string \<Rightarrow> verdict
    \<Rightarrow> relay_report \<times> string \<times> relayer_error option \<times> world" where
  "give_up_fail k ev w it reason v =
     (case relayer_advance (wk_platform k) w it (relay_request StateFailed '''' reason (ev_now ev 7)) of
        (Some e, _, w1) \<Rightarrow>
          if e = ErrVersionConflict
          then (report RelayRetry ''lost the race to failed, will re-read'', '''', None, w1)
          else (report RelayNone '''', '''', Some (RelIntent e), w1)
      | (None, it1, w1) \<Rightarrow>
          (report RelayPoison (vd_reason v @ ''; nothing was sent, so the intent failed''), state_name (i_state it1), None, w1))"

definition give_up :: "worker \<Rightarrow> env \<Rightarrow> world \<Rightarrow> delivery \<Rightarrow> relay_report \<Rightarrow> verdict
    \<Rightarrow> relay_report \<times> string \<times> relayer_error option \<times> world" where
  "give_up k ev w d rep v =
     (case store_get (wd_store w) (job_intent_id (d_job d)) of
        Inl e \<Rightarrow>
          if e = ErrIntentNotFound
          then (report RelayPoison (vd_reason v @ ''; intent not found, dropping job''), ''-'', None, w)
          else (report RelayNone '''', '''', Some (RelIntent e), w)
      | Inr it \<Rightarrow>
          if i_state it \<noteq> StateSettling then
            (report RelayPoison (vd_reason v @ ''; job dropped, intent still '' @ state_name (i_state it)),
             state_name (i_state it), None, w)
          else
            let sent = (case last_broadcast (wd_bcasts w) (i_id it) of None \<Rightarrow> SentUnknown | Some (b, _) \<Rightarrow> b_sent b);
                reason = vd_reason v @ '' ('' @ rr_detail rep @ '')''
            in if sent \<noteq> SentNo then
                 (case review_intent k ev w it (reason @ ''; last broadcast '' @ sent_name sent @ '', outcome unknown'') of
                    (_, Some e, _, w1) \<Rightarrow> (report RelayNone '''', '''', Some e, w1)
                  | (conflict, None, it1, w1) \<Rightarrow>
                      if conflict then (report RelayRetry ''lost the race to needs_review, will re-read'', '''', None, w1)
                      else (report RelayPoison (vd_reason v @ ''; last broadcast '' @ sent_name sent @ '', needs review''),
                            state_name (i_state it1), None, w1))
               else
                 (case append_entry (wk_platform k) (wd_journal w) (void_entry it) of
                    Inl (ErrNoSuchHold a h) \<Rightarrow> give_up_fail k ev w it (reason @ ''; nothing was broadcast, no money moved'') v
                  | Inl (ErrAlreadyResolved h) \<Rightarrow> give_up_fail k ev w it (reason @ ''; nothing was broadcast, no money moved'') v
                  | Inl e \<Rightarrow> (report RelayNone '''', '''', Some (RelJournal e), w)
                  | Inr (_, _, j) \<Rightarrow>
                      give_up_fail k ev (w\<lparr>wd_journal := j\<rparr>) it (reason @ ''; nothing was broadcast, no money moved'') v))"


definition poison :: "worker \<Rightarrow> env \<Rightarrow> world \<Rightarrow> delivery \<Rightarrow> relay_report \<Rightarrow> verdict
    \<Rightarrow> relay_report \<times> relayer_error option \<times> world" where
  "poison k ev w d rep v =
     (case give_up k ev w d rep v of
        (out, st, err, w1) \<Rightarrow>
          if err \<noteq> None \<or> rr_outcome out \<noteq> RelayPoison then (out, err, w1)
          else case park (wd_dead w1)
                 \<lparr>dl_job = d_job d, dl_attempts = d_attempt d, dl_reason = rr_detail out, dl_intent_state = st,
                  dl_cycles = 0, dl_status = StatusOther '''', dl_parked_at = 0, dl_resolved_by = '''', dl_resolved_at = 0\<rparr>
                 (ev_now ev 8) of
              Inl e \<Rightarrow> (report RelayNone '''', Some (RelDead e), w1)
            | Inr (_, s) \<Rightarrow> (out, None, w1\<lparr>wd_dead := s\<rparr>))"

subsection \<open>RunOnce\<close>

definition ack_or_nack :: "world \<Rightarrow> delivery \<Rightarrow> relay_report \<Rightarrow> duration \<Rightarrow> time \<Rightarrow> queue_error option \<times> world" where
  "ack_or_nack w d rep retry_in now =
     (case (if rr_outcome rep = RelayRetry then nack (wd_queue w) d retry_in now else ack (wd_queue w) d) of
        Inl e \<Rightarrow> (Some e, w)
      | Inr q \<Rightarrow> (None, w\<lparr>wd_queue := q\<rparr>))"

fun is_stale_receipt :: "queue_error \<Rightarrow> bool" where
  "is_stale_receipt (ErrStaleReceipt _ _ _) = True"
| "is_stale_receipt _ = False"

text \<open>The result: the report, whether there was a job, the error for the caller, the world.\<close>

definition run_once :: "worker \<Rightarrow> env \<Rightarrow> world \<Rightarrow> relay_report \<times> bool \<times> relayer_error option \<times> world" where
  "run_once k ev w =
     (case lease (wd_queue w) (ev_now ev 0) (cf_lease (wk_cfg k)) of
        (None, q) \<Rightarrow> (report RelayNone '''', False, None, w\<lparr>wd_queue := q\<rparr>)
      | (Some d, q) \<Rightarrow>
          (case process k ev (w\<lparr>wd_queue := q\<rparr>) d of
             (rep0, perr, w1) \<Rightarrow>
               let rep1 = rep0\<lparr>rr_job := Some (d_job d), rr_attempt := d_attempt d\<rparr>;
                   rep = (case perr of None \<Rightarrow> rep1
                          | Some e \<Rightarrow> rep1\<lparr>rr_outcome := RelayRetry, rr_detail := ''error: '' @ ev_error_text ev e,
                                           rr_err := Some (PlainError (ev_error_text ev e))\<rparr>);
                   v = judge (wk_faults k) \<lparr>ft_err = rr_err rep, ft_attempt = d_attempt d, ft_base = cf_retry_after (wk_cfg k)\<rparr>;
                   finish = (\<lambda>rep retry_in w.
                     case ack_or_nack w d rep retry_in (ev_now ev 9) of
                       (Some e, w2) \<Rightarrow> if is_stale_receipt e then (rep, True, perr, w2) else (rep, True, Some (RelQueue e), w2)
                     | (None, w2) \<Rightarrow> (rep, True, perr, w2))
               in if rr_outcome rep \<noteq> RelayRetry then finish rep (cf_retry_after (wk_cfg k)) w1
                  else if vd_class v \<noteq> ClassPoison then finish rep (vd_backoff v) w1
                  else (case poison k ev w1 d rep v of
                      (_, Some e, w2) \<Rightarrow> (rep, True, Some e, w2)
                    | (r, None, w2) \<Rightarrow>
                        finish (r\<lparr>rr_job := Some (d_job d), rr_attempt := d_attempt d\<rparr>) (cf_retry_after (wk_cfg k)) w2)))"

end
