(* ===== verification/Relayer_Safety.thy ===== *)
theory Relayer_Safety
  imports Relayer
begin

section \<open>What one run of the relayer may do\<close>

text \<open>
  Facts and properties about the worker of \<open>Relayer\<close>: every run keeps the invariants of all the
  stores and gives back the number it took; money is sent only behind a claim and a hold; a job that is
  given up is parked. Two properties show where the code falls short of its comments: a rescue that
  finds no gap pays again at a fresh number, and giving up looks at the last broadcast only.
\<close>

definition world_inv :: "platform \<Rightarrow> world \<Rightarrow> bool" where
  "world_inv p w \<longleftrightarrow> store_inv p (wd_store w) \<and> journal_inv p (wd_journal w) \<and> queue_inv (wd_queue w)
     \<and> counter_inv (wd_seq w)"

lemma world_invD:
  "world_inv p w \<Longrightarrow> store_inv p (wd_store w)" "world_inv p w \<Longrightarrow> journal_inv p (wd_journal w)"
  "world_inv p w \<Longrightarrow> queue_inv (wd_queue w)" "world_inv p w \<Longrightarrow> counter_inv (wd_seq w)"
  by (simp_all add: world_inv_def)

subsection \<open>Advancing an intent\<close>

lemma relayer_advance_Some:
  "relayer_advance p w it req = (Some e, it', w') \<Longrightarrow> w' = w"
  by (auto simp: relayer_advance_def split: sum.splits if_splits)

lemma relayer_advance_frame:
  assumes "relayer_advance p w it req = (r, it', w')"
  shows "wd_queue w' = wd_queue w \<and> wd_journal w' = wd_journal w \<and> wd_seq w' = wd_seq w
    \<and> wd_bcasts w' = wd_bcasts w \<and> wd_dead w' = wd_dead w \<and> wd_calls w' = wd_calls w"
  using assms by (auto simp: relayer_advance_def split: sum.splits if_splits)

lemma relayer_advance_current:
  assumes inv: "store_inv p (wd_store w)" and get: "store_get (wd_store w) (i_id it) = Inr it"
    and ne: "i_state it \<noteq> req_to req" and ad: "relayer_advance p w it req = (None, it', w')"
  shows "it' = commit it req \<and> i_id it' = i_id it \<and> store_get (wd_store w') (i_id it) = Inr it'
    \<and> store_inv p (wd_store w') \<and> (\<forall>k. k \<noteq> i_id it \<longrightarrow> store_get (wd_store w') k = store_get (wd_store w) k)
    \<and> apply_request it req = Inr (it', True)"
proof -
  obtain b where ap: "apply_request it req = Inr (it', b)"
    using ad by (auto simp: relayer_advance_def split: sum.splits if_splits)
  have b: b using ap ne by (cases b) (auto simp: apply_replay_iff)
  then have ap': "apply_request it req = Inr (it', True)" using ap by simp
  obtain st where sv: "store_save p (wd_store w) it' (i_version it) = Inr st" and w': "w' = w\<lparr>wd_store := st\<rparr>"
    using ad ap' by (cases "store_save p (wd_store w) it' (i_version it)") (auto simp: relayer_advance_def)
  have it': "it' = commit it req" by (rule apply_edge(3) [OF ap'])
  have re: "reachable_intent p it" using store_inv_get [OF inv get] by simp
  have "store_inv p st"
    by (rule store_save_applied_inv [OF inv re ap' sv]) (use get in simp)
  moreover have "store_get st k = (if k = i_id it then Inr it' else store_get (wd_store w) k)" for k
    using store_get_save [OF sv, of k] it' by simp
  ultimately show ?thesis using it' ap' w' by simp
qed

text \<open>On the intent as it is stored, an advance that the table allows succeeds.\<close>

lemma relayer_advance_succeeds:
  assumes inv: "store_inv p (wd_store w)" and get: "store_get (wd_store w) (i_id it) = Inr it"
    and ap: "apply_request it req = Inr (commit it req, True)"
  shows "\<exists>w'. relayer_advance p w it req = (None, commit it req, w')"
proof -
  have "i_ref it = derive p (intent_terms it)"
    using store_inv_get_inv [OF inv get] by (simp add: intent_inv_def)
  then obtain st where "store_save p (wd_store w) (commit it req) (i_version it) = Inr st"
    using ms.save_succeeds [where s = "wd_store w" and it = "commit it req" and cur = it and p = p] get by auto
  then show ?thesis using ap by (simp add: relayer_advance_def)
qed

text \<open>An advance of the intent as it is stored: what changes, and that it cannot lose a race.\<close>

definition same_rest :: "world \<Rightarrow> world \<Rightarrow> bool" where
  "same_rest w w' \<longleftrightarrow> wd_queue w' = wd_queue w \<and> wd_journal w' = wd_journal w \<and> wd_seq w' = wd_seq w
     \<and> wd_dead w' = wd_dead w \<and> wd_calls w' = wd_calls w"

lemma same_rest_refl [simp]: "same_rest w w"
  by (simp add: same_rest_def)

lemma same_rest_trans: "same_rest a b \<Longrightarrow> same_rest b c \<Longrightarrow> same_rest a c"
  by (simp add: same_rest_def)

lemma apply_no_conflict: "apply_request it req \<noteq> Inl ErrVersionConflict"
  by (auto simp: apply_request_def guard_def split: option.splits if_splits)

lemma advance_effect:
  assumes inv: "world_inv p w" and get: "store_get (wd_store w) (i_id it) = Inr it"
    and ne: "i_state it \<noteq> req_to req" and ad: "relayer_advance p w it req = (r, it', w')"
  shows "world_inv p w' \<and> same_rest w w' \<and> wd_bcasts w' = wd_bcasts w \<and> r \<noteq> Some ErrVersionConflict
    \<and> (\<exists>it1. store_get (wd_store w') (i_id it) = Inr it1 \<and> i_id it1 = i_id it \<and> i_ref it1 = i_ref it
          \<and> i_state it1 = (if r = None then req_to req else i_state it) \<and> (r = None \<longrightarrow> it1 = it'))"
proof (cases r)
  case None
  with ad have ad': "relayer_advance p w it req = (None, it', w')" by simp
  note cur = relayer_advance_current [OF world_invD(1) [OF inv] get ne ad']
  with None inv relayer_advance_frame [OF ad] show ?thesis
    by (simp add: world_inv_def same_rest_def)
next
  case (Some e)
  have "e \<noteq> ErrVersionConflict"
  proof
    assume "e = ErrVersionConflict"
    with ad Some have "\<exists>it1. apply_request it req = Inr (it1, True) \<and> it' = it1"
      using apply_no_conflict [of it req] by (auto simp: relayer_advance_def split: sum.splits if_splits)
    then have "apply_request it req = Inr (commit it req, True)" using apply_edge(3) by blast
    then obtain w2 where "relayer_advance p w it req = (None, commit it req, w2)"
      using relayer_advance_succeeds [OF world_invD(1) [OF inv] get] by blast
    with ad Some show False by simp
  qed
  then show ?thesis using inv get Some relayer_advance_Some [of p w it req e it' w'] ad by simp
qed

lemma other_frames [simp]:
  "wd_store (log_call w c a) = wd_store w" "wd_journal (log_call w c a) = wd_journal w"
  "wd_seq (log_call w c a) = wd_seq w" "wd_queue (log_call w c a) = wd_queue w"
  "wd_bcasts (log_call w c a) = wd_bcasts w" "wd_dead (log_call w c a) = wd_dead w"
  "wd_calls (log_call w c a) = wd_calls w @ [(c, a)]"
  "wd_store (record_broadcast w it res f tx s t) = wd_store w"
  "wd_journal (record_broadcast w it res f tx s t) = wd_journal w"
  "wd_seq (record_broadcast w it res f tx s t) = wd_seq w"
  "wd_queue (record_broadcast w it res f tx s t) = wd_queue w"
  "wd_dead (record_broadcast w it res f tx s t) = wd_dead w"
  "wd_calls (record_broadcast w it res f tx s t) = wd_calls w"
  by (simp_all add: log_call_def record_broadcast_def)

lemma finish_slot_frame [simp]:
  "wd_store (finish_slot w r s) = wd_store w" "wd_journal (finish_slot w r s) = wd_journal w"
  "wd_queue (finish_slot w r s) = wd_queue w" "wd_bcasts (finish_slot w r s) = wd_bcasts w"
  "wd_dead (finish_slot w r s) = wd_dead w" "wd_calls (finish_slot w r s) = wd_calls w"
  by (simp_all add: finish_slot_def split: sum.splits)

subsection \<open>After the sender has answered\<close>

fun sent_of :: "send_error + string \<Rightarrow> sent" where
  "sent_of (Inl e) = sent_of_error e"
| "sent_of (Inr tx) = SentYes"

text \<open>The book has one more row for \<open>k\<close>: the number that was used and what became of it.\<close>

definition booked :: "world \<Rightarrow> world \<Rightarrow> string \<Rightarrow> reservation \<Rightarrow> sent \<Rightarrow> bool" where
  "booked w w' k res s \<longleftrightarrow>
     (\<exists>row. wd_bcasts w' = (wd_bcasts w)(k := wd_bcasts w k @ [row]) \<and> b_nonce row = r_value res \<and> b_sent row = s)"

lemma record_booked: "booked w (record_broadcast w it res f tx s t) (i_id it) res s"
  by (auto simp: booked_def record_broadcast_def record_row_def)

lemma booked_cong: "booked w w1 k res s \<Longrightarrow> wd_bcasts w2 = wd_bcasts w1 \<Longrightarrow> booked w w2 k res s"
  by (simp add: booked_def)

definition moved_to :: "world \<Rightarrow> intent \<Rightarrow> state set \<Rightarrow> bool" where
  "moved_to w it S \<longleftrightarrow>
     (\<exists>it1. store_get (wd_store w) (i_id it) = Inr it1 \<and> i_id it1 = i_id it \<and> i_ref it1 = i_ref it \<and> i_state it1 \<in> S)"

lemma moved_mono: "moved_to w it S \<Longrightarrow> S \<subseteq> T \<Longrightarrow> moved_to w it T"
  by (auto simp: moved_to_def)

lemma record_world:
  "world_inv p w \<Longrightarrow> world_inv p (record_broadcast w it res f tx s t)"
  "same_rest w (record_broadcast w it res f tx s t)"
  by (simp_all add: world_inv_def same_rest_def)

lemma after_send_spec:
  assumes inv: "world_inv p w" and p: "wk_platform k = p" and get: "store_get (wd_store w) (i_id it) = Inr it"
    and st: "i_state it = StateSettling" and as: "after_send k ev w it res ans = (rep, err, s, w')"
  shows "world_inv p w' \<and> same_rest w w' \<and> s = sent_of ans \<and> booked w w' (i_id it) res s
    \<and> moved_to w' it (if rr_outcome rep = RelaySent then {StateConfirming} else {StateSettling, StateConfirming})
    \<and> (err = None \<longrightarrow> rr_outcome rep \<in> {RelaySent, RelayRetry})"
proof (cases ans)
  case (Inl se)
  with as have "w' = record_broadcast w it res (pol_base (wk_fee k)) '''' (sent_of_error se) (ev_now ev 3)"
      "s = sent_of_error se" "rr_outcome rep = RelayRetry"
    by (auto simp: after_send_def report_def)
  with Inl inv get st show ?thesis
    by (simp add: record_world record_booked moved_to_def)
next
  case (Inr tx)
  define w1 where "w1 = record_broadcast w it res (pol_base (wk_fee k)) tx SentYes (ev_now ev 3)"
  let ?rq = "relay_request StateConfirming tx '''' (ev_now ev 4)"
  obtain r it2 w2 where ad: "relayer_advance p w1 it ?rq = (r, it2, w2)" by (metis prod_cases3)
  have w1: "world_inv p w1" "same_rest w w1" "booked w w1 (i_id it) res SentYes"
      "store_get (wd_store w1) (i_id it) = Inr it"
    using inv get by (simp_all add: w1_def record_world record_booked)
  have ef: "world_inv p w2 \<and> same_rest w1 w2 \<and> wd_bcasts w2 = wd_bcasts w1
      \<and> moved_to w2 it (if r = None then {StateConfirming} else {StateSettling})"
    using advance_effect [OF w1(1) w1(4) _ ad] st by (auto simp: relay_request_def moved_to_def)
  have res: "w' = w2" "s = SentYes" "rr_outcome rep = (if r = None then RelaySent else RelayNone)" "(err = None) = (r = None)"
    using as Inr ad p by (auto simp: after_send_def w1_def report_def split: option.splits)
  have "moved_to w2 it (if rr_outcome rep = RelaySent then {StateConfirming} else {StateSettling, StateConfirming})"
    using ef res(3) by (auto simp: moved_to_def split: if_splits)
  then show ?thesis
    using ef w1 res Inr same_rest_trans booked_cong by (auto split: if_splits)
qed

text \<open>Claim, hold and send: either nothing was sent, or the hold was in the journal when it was.\<close>

definition held :: "world \<Rightarrow> intent \<Rightarrow> bool" where
  "held w it \<longleftrightarrow>
     (\<exists>x \<in> set (j_entries (wd_journal w)). e_id x = i_id it @ ''/hold'' \<and> e_kind x = KindHold \<and> e_ref x = i_ref it)"

lemma append_hold:
  assumes inv: "journal_inv p j" and ap: "append_entry p j (hold_entry it) = Inr (x, b, j')"
  shows "journal_inv p j' \<and> (\<exists>x \<in> set (j_entries j'). e_id x = i_id it @ ''/hold'' \<and> e_kind x = KindHold \<and> e_ref x = i_ref it)"
proof -
  have "x \<in> set (j_entries j') \<and> e_id x = i_id it @ ''/hold'' \<and> e_kind x = KindHold \<and> e_ref x = i_ref it"
    using append_replay_iff [OF inv] mj.append_new [OF inv] ap
    by (cases b) (auto simp: hold_entry_def same_entry_def)
  then show ?thesis using append_inv [OF inv ap] by blast
qed

lemma claim_and_send_spec:
  assumes inv: "world_inv p w" and p: "wk_platform k = p"
    and get: "store_get (wd_store w) (i_id it) = Inr it" and au: "i_state it = StateAuthorized"
    and cs: "claim_and_send k ev w it res = (rep, err, s, w')"
  shows "world_inv p w' \<and> wd_seq w' = wd_seq w \<and> wd_queue w' = wd_queue w \<and> wd_dead w' = wd_dead w
    \<and> (err = None \<longrightarrow> rr_outcome rep = RelayRetry \<or> rr_outcome rep = RelaySent \<and> moved_to w' it {StateConfirming})
    \<and> ((wd_calls w' = wd_calls w \<and> s = SentNo \<and> wd_bcasts w' = wd_bcasts w \<and> err \<noteq> None)
       \<or> (\<exists>ans. wd_calls w' = wd_calls w @ [(CallSend (i_id it) res, ans)] \<and> s = sent_of ans
            \<and> booked w w' (i_id it) res s \<and> held w' it \<and> moved_to w' it {StateSettling, StateConfirming}))"
proof -
  let ?rq = "relay_request StateSettling '''' '''' (ev_now ev 2)"
  obtain r it1 w1 where a1: "relayer_advance p w it ?rq = (r, it1, w1)" by (metis prod_cases3)
  have ne: "i_state it \<noteq> req_to ?rq" by (simp add: relay_request_def au)
  note ef = advance_effect [OF inv get ne a1]
  show ?thesis
  proof (cases r)
    case (Some e)
    with cs a1 p ef show ?thesis by (auto simp: claim_and_send_def same_rest_def)
  next
    case None
    with ef have it1: "store_get (wd_store w1) (i_id it) = Inr it1" "i_id it1 = i_id it" "i_ref it1 = i_ref it"
        "i_state it1 = StateSettling" by (auto simp: relay_request_def)
    from ef have w1: "world_inv p w1" "same_rest w w1" "wd_bcasts w1 = wd_bcasts w" by simp_all
    show ?thesis
    proof (cases "append_entry p (wd_journal w1) (hold_entry it1)")
      case (Inl e)
      with cs a1 None p w1 show ?thesis by (auto simp: claim_and_send_def same_rest_def)
    next
      case (Inr xbj)
      obtain x b j where ap: "append_entry p (wd_journal w1) (hold_entry it1) = Inr (x, b, j)"
        using Inr by (cases xbj) auto
      note hold = append_hold [OF world_invD(2) [OF w1(1)] ap]
      define ans where "ans = ev_send ev it1 res"
      define w2 where "w2 = log_call (w1\<lparr>wd_journal := j\<rparr>) (CallSend (i_id it1) res) ans"
      have as: "after_send k ev w2 it1 res ans = (rep, err, s, w')"
        using cs a1 None p ap by (simp add: claim_and_send_def Let_def ans_def w2_def)
      have inv2: "world_inv p w2" and get2: "store_get (wd_store w2) (i_id it1) = Inr it1"
        using w1 hold it1 by (simp_all add: world_inv_def w2_def)
      note sp = after_send_spec [OF inv2 p get2 it1(4) as]
      have mv: "moved_to w' it S = moved_to w' it1 S" for S by (simp add: moved_to_def it1)
      have mv': "moved_to w' it (if rr_outcome rep = RelaySent then {StateConfirming} else {StateSettling, StateConfirming})"
        using sp mv by simp
      then have "moved_to w' it {StateSettling, StateConfirming}"
        by (rule moved_mono) auto
      moreover have "err = None \<longrightarrow> rr_outcome rep = RelayRetry \<or> rr_outcome rep = RelaySent \<and> moved_to w' it {StateConfirming}"
        using sp mv' by (cases "rr_outcome rep = RelaySent") auto
      moreover have "booked w w' (i_id it) res s = booked w2 w' (i_id it1) res s"
        using w1 it1 by (simp add: booked_def w2_def)
      moreover have "held w' it" using sp hold it1 by (simp add: held_def same_rest_def w2_def)
      moreover have "wd_calls w' = wd_calls w @ [(CallSend (i_id it) res, ans)]"
          "wd_seq w' = wd_seq w" "wd_queue w' = wd_queue w" "wd_dead w' = wd_dead w"
        using sp w1 it1 by (simp_all add: same_rest_def w2_def)
      ultimately show ?thesis using sp by blast
    qed
  qed
qed

lemma finish_slot_releases:
  assumes inv: "counter_inv (wd_seq w)" and rs: "counter_resolvable (wd_seq w) res"
  shows "counter_inv (wd_seq (finish_slot w res s))
    \<and> counter_out (wd_seq (finish_slot w res s)) = (counter_out (wd_seq w))(r_account res := None)"
proof -
  obtain c where c: "resolve (wd_seq w) res s = Inr c" "counter_inv c"
    using ct.settle_spec [OF inv rs] by blast
  then have "counter_out c = (counter_out (wd_seq w))(r_account res := None)"
    using rs by (auto simp: resolve_cases counter_resolvable_def counter_out_def fun_eq_iff)
  then show ?thesis using c by (simp add: finish_slot_def)
qed

text \<open>Take a number, do something that leaves the counter alone, hand the number back.\<close>

lemma slot_cycle:
  assumes inv: "counter_inv c" and out: "counter_inv c1" "counter_out c1 = (counter_out c)(a \<mapsto> r_value res)"
      "counter_out c a = None" "r_account res = a" "r_ordered res"
    and w: "wd_seq w = c1"
  shows "counter_inv (wd_seq (finish_slot w res s)) \<and> counter_out (wd_seq (finish_slot w res s)) = counter_out c"
proof -
  have "counter_resolvable (wd_seq w) res" using out w by (simp add: counter_resolvable_def)
  from finish_slot_releases [OF _ this] out w show ?thesis by (auto simp: fun_eq_iff)
qed

lemma reserve_spec:
  assumes "counter_inv c" "reserve c a g = (Inr res, c1)"
  shows "counter_inv c1 \<and> counter_out c1 = (counter_out c)(a \<mapsto> r_value res) \<and> counter_out c a = None
    \<and> r_account res = a \<and> r_ordered res"
  using reserve_keeps_inv [OF assms] reserve_out [OF assms] by simp

lemma reserve_gap_spec:
  assumes "counter_inv c" "reserve_gap c a g = (Inr res, c1)"
  shows "counter_inv c1 \<and> counter_out c1 = (counter_out c)(a \<mapsto> r_value res) \<and> counter_out c a = None
    \<and> r_account res = a \<and> r_ordered res"
  using reserve_gap_keeps_inv [OF assms] reserve_gap_out [OF assms] by simp

lemma reserve_fails:
  assumes "counter_inv c" "reserve c a g = (Inl e, c1)"
  shows "counter_inv c1 \<and> counter_out c1 = counter_out c"
  using reserve_keeps_inv [OF assms] reserve_out [OF assms] by simp

lemma reserve_gap_fails:
  assumes "counter_inv c" "reserve_gap c a g = (Inl e, c1)"
  shows "counter_inv c1 \<and> counter_out c1 = counter_out c"
  using reserve_gap_keeps_inv [OF assms] reserve_gap_out [OF assms] by simp

subsection \<open>The rescue path\<close>

lemma review_intent_spec:
  assumes inv: "world_inv p w" and p: "wk_platform k = p" and get: "store_get (wd_store w) (i_id it) = Inr it"
    and st: "i_state it \<noteq> StateNeedsReview" and rv: "review_intent k ev w it why = (conflict, err, it', w')"
  shows "world_inv p w' \<and> same_rest w w' \<and> wd_bcasts w' = wd_bcasts w \<and> \<not> conflict
    \<and> moved_to w' it (if err = None then {StateNeedsReview} else {i_state it})
    \<and> (err = None \<longrightarrow> i_state it' = StateNeedsReview)"
proof -
  let ?rq = "relay_request StateNeedsReview '''' why (ev_now ev 6)"
  obtain r it1 w1 where ad: "relayer_advance p w it ?rq = (r, it1, w1)" by (metis prod_cases3)
  have "i_state it \<noteq> req_to ?rq" using st by (simp add: relay_request_def)
  note ef = advance_effect [OF inv get this ad]
  from rv ad p ef show ?thesis
    by (cases r) (auto simp: review_intent_def moved_to_def relay_request_def split: if_splits)
qed

lemma review_spec:
  assumes inv: "world_inv p w" and p: "wk_platform k = p" and get: "store_get (wd_store w) (i_id it) = Inr it"
    and st: "i_state it \<noteq> StateNeedsReview" and rv: "review k ev w it why = (rep, err, w')"
  shows "world_inv p w' \<and> same_rest w w' \<and> wd_bcasts w' = wd_bcasts w
    \<and> (err = None \<longrightarrow> moved_to w' it {StateNeedsReview})"
proof -
  obtain conflict e it' w1 where r: "review_intent k ev w it why = (conflict, e, it', w1)" by (metis prod_cases4)
  note sp = review_intent_spec [OF inv p get st r]
  from rv r sp show ?thesis by (cases e) (auto simp: review_def split: if_splits)
qed

lemma after_rescue_spec:
  assumes inv: "world_inv p w" and p: "wk_platform k = p" and get: "store_get (wd_store w) (i_id it) = Inr it"
    and st: "i_state it = StateSettling" and as: "after_rescue k ev w it res pl ans = (rep, err, s, w')"
  shows "world_inv p w' \<and> same_rest w w' \<and> s = sent_of ans \<and> booked w w' (i_id it) res s
    \<and> moved_to w' it {StateSettling, StateConfirming, StateNeedsReview}
    \<and> (err = None \<longrightarrow> rr_outcome rep \<noteq> RelayRetry \<longrightarrow> moved_to w' it {StateConfirming, StateNeedsReview})"
proof (cases ans)
  case (Inl se)
  with as have "w' = record_broadcast w it res (pl_fee pl) '''' (sent_of_error se) (ev_now ev 3)"
      "s = sent_of_error se" "rr_outcome rep = RelayRetry"
    by (auto simp: after_rescue_def report_def)
  with Inl inv get st show ?thesis
    by (simp add: record_world record_booked moved_to_def)
next
  case (Inr tx)
  define w1 where "w1 = record_broadcast w it res (pl_fee pl) tx SentYes (ev_now ev 3)"
  have w1: "world_inv p w1" "same_rest w w1" "booked w w1 (i_id it) res SentYes"
      "store_get (wd_store w1) (i_id it) = Inr it"
    using inv get by (simp_all add: w1_def record_world record_booked)
  have "world_inv p w' \<and> same_rest w1 w' \<and> s = SentYes \<and> wd_bcasts w' = wd_bcasts w1
      \<and> (moved_to w' it {StateConfirming, StateNeedsReview} \<or> err \<noteq> None \<and> moved_to w' it {StateSettling})"
  proof (cases "pl_kind pl = KindCancel")
    case True
    define why where "why = slot_text pl res @ ''; sent no-op tx '' @ tx @ '' to clear the slot, outcome still unknown''"
    obtain conflict e it' w2 where r: "review_intent k ev w1 it why = (conflict, e, it', w2)" by (metis prod_cases4)
    have "s = SentYes \<and> w' = w2 \<and> err = e"
      using as Inr True r by (auto simp: after_rescue_def Let_def w1_def why_def split: option.splits)
    with review_intent_spec [OF w1(1) p w1(4) _ r] st show ?thesis
      by (cases e) (auto simp: moved_to_def)
  next
    case False
    let ?rq = "relay_request StateConfirming tx '''' (ev_now ev 4)"
    obtain r it2 w2 where ad: "relayer_advance p w1 it ?rq = (r, it2, w2)" by (metis prod_cases3)
    note ef = advance_effect [OF w1(1) w1(4) _ ad]
    have ne: "i_state it \<noteq> req_to ?rq" by (simp add: relay_request_def st)
    have "s = SentYes \<and> w' = w2 \<and> (err = None) = (r = None)"
      using as Inr False ad p ef [OF ne] by (auto simp: after_rescue_def Let_def w1_def split: option.splits if_splits)
    with ef [OF ne] st show ?thesis by (auto simp: moved_to_def relay_request_def split: if_splits)
  qed
  then show ?thesis
    using w1 Inr same_rest_trans booked_cong by (auto simp: moved_to_def)
qed

lemma after_rescue_calls: "after_rescue k ev w it res pl ans = (rep, err, s, w') \<Longrightarrow> wd_calls w' = wd_calls w"
  by (auto simp: after_rescue_def review_intent_def Let_def split: sum.splits if_splits option.splits prod.splits
      dest!: relayer_advance_frame)

text \<open>
  What entitles the worker to each call: a claim and a hold for a first send; for the other two an intent
  in \<open>settling\<close> for \<open>StuckAfter\<close> at least and the plan of the fee policy; a gap in the account for a
  no-op.
\<close>

fun justified :: "worker \<Rightarrow> env \<Rightarrow> world \<Rightarrow> world \<Rightarrow> intent \<Rightarrow> send_call \<Rightarrow> bool" where
  "justified k ev w w' it (CallSend i res) \<longleftrightarrow> i = i_id it \<and> i_state it = StateAuthorized \<and> held w' it"
| "justified k ev w w' it (CallReplace i res f) \<longleftrightarrow> i = i_id it \<and> i_state it = StateSettling
     \<and> cf_stuck_after (wk_cfg k) \<le> time_sub (ev_now ev 5) (i_updated_at it)
     \<and> pl_kind (decide (wk_fee k) (stuck_of k ev w it)) = KindSpeedUp \<and> f = pl_fee (decide (wk_fee k) (stuck_of k ev w it))"
| "justified k ev w w' it (CallCancel a res f) \<longleftrightarrow> i_state it = StateSettling
     \<and> cf_stuck_after (wk_cfg k) \<le> time_sub (ev_now ev 5) (i_updated_at it)
     \<and> pl_kind (decide (wk_fee k) (stuck_of k ev w it)) = KindCancel \<and> f = pl_fee (decide (wk_fee k) (stuck_of k ev w it))
     \<and> r_account res = a \<and> r_fill res \<and> a_gap (account_of (wd_seq w) a) = Some (r_value res)"

fun call_slot :: "send_call \<Rightarrow> reservation" where
  "call_slot (CallSend i res) = res"
| "call_slot (CallReplace i res f) = res"
| "call_slot (CallCancel a res f) = res"

text \<open>One justified call, entered in the book with what became of it, or none and the book as it was.\<close>

definition calls_once :: "worker \<Rightarrow> env \<Rightarrow> world \<Rightarrow> world \<Rightarrow> intent \<Rightarrow> bool" where
  "calls_once k ev w w' it \<longleftrightarrow>
     (wd_calls w' = wd_calls w \<and> wd_bcasts w' = wd_bcasts w)
     \<or> (\<exists>call ans. wd_calls w' = wd_calls w @ [(call, ans)] \<and> justified k ev w w' it call
          \<and> booked w w' (i_id it) (call_slot call) (sent_of ans))"

definition at_rest :: "world \<Rightarrow> string \<Rightarrow> bool" where
  "at_rest w i \<longleftrightarrow> (\<forall>it. store_get (wd_store w) i = Inr it \<longrightarrow> i_state it \<notin> {StateCreated, StateAuthorized, StateSettling})"

lemma moved_at_rest:
  "moved_to w it S \<Longrightarrow> S \<inter> {StateCreated, StateAuthorized, StateSettling} = {} \<Longrightarrow> at_rest w (i_id it)"
  by (auto simp: moved_to_def at_rest_def)

text \<open>What \<open>process\<close> may do to the world, whatever path it takes.\<close>

definition step_ok :: "platform \<Rightarrow> worker \<Rightarrow> env \<Rightarrow> world \<Rightarrow> intent \<Rightarrow> relay_report \<Rightarrow> relayer_error option \<Rightarrow> world \<Rightarrow> bool" where
  "step_ok p k ev w it rep err w' \<longleftrightarrow>
     world_inv p w' \<and> wd_queue w' = wd_queue w \<and> wd_dead w' = wd_dead w
     \<and> counter_out (wd_seq w') = counter_out (wd_seq w)
     \<and> calls_once k ev w w' it
     \<and> (err = None \<longrightarrow> rr_outcome rep \<noteq> RelayRetry \<longrightarrow> at_rest w' (i_id it))"

lemma decide_stuck: "pl_kind (decide p s) \<noteq> KindWait \<Longrightarrow> st_stuck_after s \<le> st_age s"
  by (auto simp: decide_def split: if_splits)

lemma stuck_of_times [simp]:
  "st_stuck_after (stuck_of k ev w it) = cf_stuck_after (wk_cfg k)"
  "st_age (stuck_of k ev w it) = time_sub (ev_now ev 5) (i_updated_at it)"
  by (auto simp: stuck_of_def Let_def split: option.splits)

lemma reserve_for_spec:
  assumes inv: "counter_inv c" and rf: "reserve_for ev c a kind = (r, c1)"
  shows "(\<forall>e. r = Inl e \<longrightarrow> counter_inv c1 \<and> counter_out c1 = counter_out c)
    \<and> (\<forall>res. r = Inr res \<longrightarrow> counter_inv c1 \<and> counter_out c1 = (counter_out c)(a \<mapsto> r_value res) \<and> counter_out c a = None
          \<and> r_account res = a \<and> r_ordered res \<and> (kind = KindCancel \<longrightarrow> r_fill res \<and> a_gap (account_of c a) = Some (r_value res)))"
proof (cases "reserve_gap c a (ev_gave_up_gap ev)")
  case (Pair q c2)
  show ?thesis
  proof (cases q)
    case (Inr res)
    with Pair rf reserve_gap_spec [OF inv] reserve_gap_cases [of c a "ev_gave_up_gap ev" q c2] show ?thesis
      by (auto simp: reserve_for_def)
  next
    case (Inl e)
    note fail = reserve_gap_fails [OF inv, of a "ev_gave_up_gap ev" e c2]
    show ?thesis
    proof (cases "kind = KindCancel \<or> e \<noteq> ErrNoGap")
      case True
      with Inl Pair rf fail show ?thesis by (auto simp: reserve_for_def)
    next
      case False
      with Inl Pair rf have rs: "reserve c2 a (ev_gave_up ev) = (r, c1)" by (auto simp: reserve_for_def)
      have c2: "counter_inv c2" "counter_out c2 = counter_out c" using fail Pair Inl by simp_all
      show ?thesis
        using False reserve_spec [OF c2(1)] reserve_fails [OF c2(1)] rs c2(2) by (cases r) auto
    qed
  qed
qed

lemma replace_or_cancel_spec:
  assumes inv: "world_inv p w" and p: "wk_platform k = p" and get: "store_get (wd_store w) (i_id it) = Inr it"
    and st: "i_state it = StateSettling" and rc: "replace_or_cancel k ev w it acct res pl = (rep, err, s, w')"
  shows "world_inv p w' \<and> wd_queue w' = wd_queue w \<and> wd_dead w' = wd_dead w \<and> wd_seq w' = wd_seq w
    \<and> (err = None \<longrightarrow> rr_outcome rep \<noteq> RelayRetry \<longrightarrow> at_rest w' (i_id it))
    \<and> (\<exists>ans. wd_calls w' = wd_calls w @ [(if pl_kind pl = KindCancel then CallCancel acct res (pl_fee pl)
               else CallReplace (i_id it) res (pl_fee pl), ans)]
         \<and> s = sent_of ans \<and> booked w w' (i_id it) res s)"
proof -
  let ?call = "if pl_kind pl = KindCancel then CallCancel acct res (pl_fee pl) else CallReplace (i_id it) res (pl_fee pl)"
  obtain ans where as: "after_rescue k ev (log_call w ?call ans) it res pl ans = (rep, err, s, w')"
    using rc by (auto simp: replace_or_cancel_def Let_def)
  have lc: "world_inv p (log_call w ?call ans)" "store_get (wd_store (log_call w ?call ans)) (i_id it) = Inr it"
    using inv get by (simp_all add: world_inv_def)
  note sp = after_rescue_spec [OF lc(1) p lc(2) st as]
  have "booked w w' (i_id it) res s = booked (log_call w ?call ans) w' (i_id it) res s" by (simp add: booked_def)
  moreover have "err = None \<longrightarrow> rr_outcome rep \<noteq> RelayRetry \<longrightarrow> at_rest w' (i_id it)"
    using sp moved_at_rest [of w' it "{StateConfirming, StateNeedsReview}"] by auto
  moreover have "wd_calls w' = wd_calls w @ [(?call, ans)]" "wd_queue w' = wd_queue w" "wd_dead w' = wd_dead w" "wd_seq w' = wd_seq w"
    using sp by (simp_all add: same_rest_def)
  ultimately show ?thesis using sp by blast
qed

lemma review_step:
  assumes inv: "world_inv p w" and p: "wk_platform k = p" and get: "store_get (wd_store w) (i_id it) = Inr it"
    and st: "i_state it = StateSettling" and c: "counter_inv c" "counter_out c = counter_out (wd_seq w)"
    and rv: "review k ev (w\<lparr>wd_seq := c\<rparr>) it why = (rep, err, w')"
  shows "step_ok p k ev w it rep err w'"
proof -
  have w1: "world_inv p (w\<lparr>wd_seq := c\<rparr>)" "store_get (wd_store (w\<lparr>wd_seq := c\<rparr>)) (i_id it) = Inr it"
    using inv get c by (simp_all add: world_inv_def)
  have "i_state it \<noteq> StateNeedsReview" by (simp add: st)
  from review_spec [OF w1(1) p w1(2) this rv] c moved_at_rest [of w' it "{StateNeedsReview}"]
  show ?thesis by (auto simp: step_ok_def same_rest_def calls_once_def)
qed

lemma seq_self [simp]: "w\<lparr>wd_seq := wd_seq w\<rparr> = w" for w :: world
  by simp

lemma retry_step:
  assumes inv: "world_inv p w" and c: "counter_inv c" "counter_out c = counter_out (wd_seq w)"
  shows "rr_outcome rep = RelayRetry \<Longrightarrow> step_ok p k ev w it rep None (w\<lparr>wd_seq := c\<rparr>)"
  using inv c by (simp add: step_ok_def calls_once_def world_inv_def)

lemma rescue_spec:
  assumes inv: "world_inv p w" and p: "wk_platform k = p" and get: "store_get (wd_store w) (i_id it) = Inr it"
    and st: "i_state it = StateSettling" and rs: "rescue k ev w it = (rep, err, w')"
  shows "step_ok p k ev w it rep err w'"
proof -
  define pl where "pl = decide (wk_fee k) (stuck_of k ev w it)"
  note cinv = world_invD(4) [OF inv]
  consider (wait) "pl_kind pl = KindWait" | (rev) why where "review k ev w it why = (rep, err, w')"
    | (throttle) "err = None" "rr_outcome rep = RelayRetry" "w' = w"
    | (act) acct where "pl_kind pl \<noteq> KindWait" "pl_kind pl \<noteq> KindReview" "replacing_account (wk_sender k) = Some acct"
        "ev_throttled ev = None"
    using rs by (auto simp: rescue_def Let_def pl_def [symmetric] report_def split: if_splits option.splits)
  then show ?thesis
  proof cases
    case wait
    with rs have "rep = report RelayRetry (pl_reason pl)" "err = None" "w' = w"
      by (auto simp: rescue_def Let_def pl_def)
    with retry_step [OF inv cinv refl] show ?thesis by (simp add: report_def)
  next
    case rev
    with review_step [OF inv p get st cinv refl] show ?thesis by simp
  next
    case throttle
    with retry_step [OF inv cinv refl] show ?thesis by simp
  next
    case act
    define slot where "slot = reserve_for ev (wd_seq w) (acct it) (pl_kind pl)"
    obtain r c where slot: "slot = (r, c)" by (cases slot)
    note rf = reserve_for_spec [OF cinv, of ev "acct it" "pl_kind pl" r c]
    have slot': "reserve_for ev (wd_seq w) (acct it) (pl_kind pl) = (r, c)" using slot slot_def by simp
    show ?thesis
    proof (cases r)
      case (Inl e)
      with rf slot' have c: "counter_inv c" "counter_out c = counter_out (wd_seq w)" by auto
      show ?thesis
      proof (cases "e = ErrNoGap")
        case True
        with rs act slot' Inl have "review k ev (w\<lparr>wd_seq := c\<rparr>) it (''no slot to clear: '' @ pl_reason pl) = (rep, err, w')"
          by (simp add: rescue_def Let_def pl_def [symmetric])
        from review_step [OF inv p get st c this] show ?thesis .
      next
        case False
        with rs act slot' Inl have "rr_outcome rep = RelayRetry" "err = None" "w' = w\<lparr>wd_seq := c\<rparr>"
          by (auto simp: rescue_def Let_def pl_def [symmetric] report_def)
        with retry_step [OF inv c] show ?thesis by simp
      qed
    next
      case (Inr res)
      define w1 where "w1 = w\<lparr>wd_seq := c\<rparr>"
      obtain rep2 err2 s w2 where rc: "replace_or_cancel k ev w1 it (acct it) res pl = (rep2, err2, s, w2)"
        by (metis prod_cases4)
      have fin: "rep = rep2" "err = err2" "w' = finish_slot w2 res s"
        using rs act slot' Inr rc by (auto simp: rescue_def Let_def pl_def [symmetric] w1_def)
      from rf slot' Inr have c: "counter_inv c" "counter_out c = (counter_out (wd_seq w))(acct it \<mapsto> r_value res)"
          "counter_out (wd_seq w) (acct it) = None" "r_account res = acct it" "r_ordered res"
          "pl_kind pl = KindCancel \<longrightarrow> r_fill res \<and> a_gap (account_of (wd_seq w) (acct it)) = Some (r_value res)" by auto
      have w1: "world_inv p w1" "store_get (wd_store w1) (i_id it) = Inr it"
        using inv get c by (simp_all add: world_inv_def w1_def)
      note sp = replace_or_cancel_spec [OF w1(1) p w1(2) st rc]
      then have "wd_seq w2 = c" by (simp add: w1_def)
      note fs = slot_cycle [OF cinv c(1-5) this, of s]
      have kind: "pl_kind pl = KindCancel \<or> pl_kind pl = KindSpeedUp" using act by (cases "pl_kind pl") auto
      have age: "cf_stuck_after (wk_cfg k) \<le> time_sub (ev_now ev 5) (i_updated_at it)"
        using decide_stuck [of "wk_fee k" "stuck_of k ev w it"] act by (simp add: pl_def)
      have "calls_once k ev w w' it"
        using sp fin kind age c(4,6) st
        by (auto simp: calls_once_def w1_def booked_def pl_def)
      then show ?thesis
        using sp fin fs by (auto simp: step_ok_def world_inv_def w1_def at_rest_def)
    qed
  qed
qed

subsection \<open>One delivery\<close>

lemma authorized_spec:
  assumes inv: "world_inv p w" and p: "wk_platform k = p" and get: "store_get (wd_store w) (i_id it) = Inr it"
    and st: "i_state it = StateAuthorized" and pa: "process_authorized k ev w it = (rep, err, w')"
  shows "step_ok p k ev w it rep err w'"
proof -
  note cinv = world_invD(4) [OF inv]
  have rest: "at_rest w2 (i_id it)" if "moved_to w2 it {StateConfirming}" for w2
    using moved_at_rest [OF that] by simp
  show ?thesis
  proof (cases "ev_throttled ev")
    case (Some e)
    with pa have "rep = report RelayRetry (''throttled: '' @ e)" "err = None" "w' = w"
      by (auto simp: process_authorized_def)
    with retry_step [OF inv cinv refl] show ?thesis by (simp add: report_def)
  next
    case None
    show ?thesis
    proof (cases "ordered_account (wk_sender k)")
      case no: None
      obtain s where "claim_and_send k ev w it no_reservation = (rep, err, s, w')"
        using pa None no by (auto simp: process_authorized_def split: prod.splits)
      note sp = claim_and_send_spec [OF inv p get st this]
      then have "calls_once k ev w w' it" using st by (auto simp: calls_once_def)
      with sp rest show ?thesis by (auto simp: step_ok_def)
    next
      case acct: (Some acct)
      obtain r c where rs: "reserve (wd_seq w) (acct it) (ev_gave_up ev) = (r, c)" by fastforce
      show ?thesis
      proof (cases r)
        case (Inl e)
        with pa None acct rs have "rep = report RelayRetry (''no slot: '' @ ev_seq_text ev e)" "err = None" "w' = w\<lparr>wd_seq := c\<rparr>"
          by (auto simp: process_authorized_def)
        with retry_step [OF inv, of c rep] reserve_fails [OF cinv] rs Inl show ?thesis by (simp add: report_def)
      next
        case (Inr res)
        define w1 where "w1 = w\<lparr>wd_seq := c\<rparr>"
        obtain rep2 err2 s w2 where cs: "claim_and_send k ev w1 it res = (rep2, err2, s, w2)" by (metis prod_cases4)
        have fin: "rep = rep2" "err = err2" "w' = finish_slot w2 res s"
          using pa None acct rs Inr cs by (simp_all add: process_authorized_def w1_def)
        from reserve_spec [OF cinv] rs Inr have c: "counter_inv c" "counter_out c = (counter_out (wd_seq w))(acct it \<mapsto> r_value res)"
            "counter_out (wd_seq w) (acct it) = None" "r_account res = acct it" "r_ordered res" by auto
        have w1: "world_inv p w1" "store_get (wd_store w1) (i_id it) = Inr it"
          using inv get c by (simp_all add: world_inv_def w1_def)
        note sp = claim_and_send_spec [OF w1(1) p w1(2) st cs]
        then have "wd_seq w2 = c" by (simp add: w1_def)
        note fs = slot_cycle [OF cinv c this, of s]
        have h: "held w' it = held w2 it" "booked w w' i q t = booked w1 w2 i q t" "at_rest w' i = at_rest w2 i" for i q t
          using fin by (simp_all add: held_def booked_def w1_def at_rest_def)
        have "calls_once k ev w w' it"
          using sp fin h st by (auto simp: calls_once_def w1_def)
        then show ?thesis
          using sp fin fs h rest by (auto simp: step_ok_def world_inv_def w1_def)
      qed
    qed
  qed
qed

definition the_intent :: "world \<Rightarrow> delivery \<Rightarrow> intent option" where
  "the_intent w d = (case store_get (wd_store w) (job_intent_id (d_job d)) of Inl _ \<Rightarrow> None | Inr it \<Rightarrow> Some it)"

lemma process_spec:
  assumes inv: "world_inv p w" and p: "wk_platform k = p" and pr: "process k ev w d = (rep, err, w')"
  shows "case the_intent w d of
      None \<Rightarrow> w' = w \<and> (err = None \<longrightarrow> at_rest w' (job_intent_id (d_job d)))
    | Some it \<Rightarrow> i_id it = job_intent_id (d_job d) \<and> step_ok p k ev w it rep err w'"
proof (cases "store_get (wd_store w) (job_intent_id (d_job d))")
  case (Inl e)
  with pr show ?thesis by (auto simp: process_def the_intent_def at_rest_def split: if_splits)
next
  case (Inr it)
  have "i_id it = job_intent_id (d_job d)" using store_inv_get [OF world_invD(1) [OF inv] Inr] by simp
  then have get: "store_get (wd_store w) (i_id it) = Inr it" and k: "i_id it = job_intent_id (d_job d)"
    using Inr by simp_all
  note cinv = world_invD(4) [OF inv]
  have rest: "step_ok p k ev w it rep None w" if "i_state it \<notin> {StateCreated, StateAuthorized, StateSettling}"
    using inv get that by (auto simp: step_ok_def calls_once_def at_rest_def)
  have "step_ok p k ev w it rep err w'"
  proof (cases "i_state it")
    case StateAuthorized
    with pr Inr have "process_authorized k ev w it = (rep, err, w')" by (simp add: process_def)
    from authorized_spec [OF inv p get StateAuthorized this] show ?thesis .
  next
    case StateSettling
    with pr Inr have "rescue k ev w it = (rep, err, w')" by (simp add: process_def)
    from rescue_spec [OF inv p get StateSettling this] show ?thesis .
  next
    case StateCreated
    with pr Inr have "rep = report RelayRetry ''not authorized yet''" "err = None" "w' = w" by (auto simp: process_def)
    with retry_step [OF inv cinv refl] show ?thesis by (simp add: report_def)
  qed (use pr Inr rest in \<open>auto simp: process_def\<close>)
  with Inr k show ?thesis by (simp add: the_intent_def)
qed

subsection \<open>Giving up\<close>

text \<open>The hold of the intent, if the journal has it, has been posted or voided.\<close>

definition released :: "world \<Rightarrow> intent \<Rightarrow> bool" where
  "released w it \<longleftrightarrow>
     (\<forall>x \<in> set (j_entries (wd_journal w)). e_id x = i_id it @ ''/hold'' \<and> e_kind x = KindHold \<and> e_ref x = i_ref it
        \<and> e_asset x = \<lparr>asset_chain = i_chain it, asset_token = i_token it\<rparr> \<longrightarrow> resolved_in (j_entries (wd_journal w)) (e_id x))"

lemma by_id_Some_unique:
  assumes "journal_inv p j" "j_by_id j k = Some i" "x \<in> set (j_entries j)" "e_id x = k"
  shows "x = j_entries j ! i"
  using by_id_Some [OF assms(1,2)] same_id_same_entry assms unfolding journal_inv_def by metis

lemma void_refused_released:
  assumes inv: "journal_inv p (wd_journal w)"
    and ap: "append_entry p (wd_journal w) (void_entry it) = Inl e"
    and e: "(\<exists>a h. e = ErrNoSuchHold a h) \<or> (\<exists>h. e = ErrAlreadyResolved h)"
  shows "released w it"
proof -
  let ?j = "wd_journal w" and ?h = "i_id it @ ''/hold''"
  have ch: "check_hold ?j (void_entry it) = Some e"
    using ap e by (auto simp: append_entry_def Let_def validate_entry_def void_entry_def split: option.splits if_splits)
  show ?thesis
  proof (cases "j_by_id ?j ?h")
    case None
    with by_id_None [OF inv, of ?h] show ?thesis by (auto simp: released_def)
  next
    case (Some i)
    have x: "x = j_entries ?j ! i" if "x \<in> set (j_entries ?j)" "e_id x = ?h" for x
      using by_id_Some_unique [OF inv Some that] .
    have "j_resolved ?j ?h \<Longrightarrow> resolved_in (j_entries ?j) ?h" using inv by (simp add: journal_inv_def)
    with ch Some x show ?thesis
      by (auto simp: released_def check_hold_def void_entry_def Let_def split: if_splits)
  qed
qed

lemma void_accepted_released:
  assumes inv: "journal_inv p (wd_journal w)"
    and ap: "append_entry p (wd_journal w) (void_entry it) = Inr (x, b, j)"
  shows "journal_inv p j \<and> released (w\<lparr>wd_journal := j\<rparr>) it"
proof -
  have "x \<in> set (j_entries j) \<and> e_kind x = KindVoid \<and> e_holds x = i_id it @ ''/hold''"
    using append_replay_iff [OF inv] mj.append_new [OF inv] ap
    by (cases b) (auto simp: void_entry_def same_entry_def)
  then have "resolved_in (j_entries j) (i_id it @ ''/hold'')"
    unfolding resolved_in_def list_ex_iff by (intro bexI [of _ x]) auto
  then show ?thesis using append_inv [OF inv ap] by (auto simp: released_def)
qed

definition last_sent :: "world \<Rightarrow> string \<Rightarrow> sent" where
  "last_sent w i = (case last_broadcast (wd_bcasts w) i of None \<Rightarrow> SentUnknown | Some (b, n) \<Rightarrow> b_sent b)"

definition same_but_books :: "world \<Rightarrow> world \<Rightarrow> bool" where
  "same_but_books w w' \<longleftrightarrow> wd_queue w' = wd_queue w \<and> wd_seq w' = wd_seq w \<and> wd_dead w' = wd_dead w
     \<and> wd_calls w' = wd_calls w \<and> wd_bcasts w' = wd_bcasts w"

lemma same_but_books_refl [simp]: "same_but_books w w" "same_but_books w (w\<lparr>wd_journal := j\<rparr>)"
  by (simp_all add: same_but_books_def)

text \<open>What giving up may do to an intent in \<open>settling\<close>: declare it failed, or put it up for review.\<close>

definition given_up :: "world \<Rightarrow> world \<Rightarrow> intent \<Rightarrow> bool" where
  "given_up w w' it \<longleftrightarrow> moved_to w' it {StateNeedsReview} \<and> last_sent w (i_id it) \<noteq> SentNo
     \<or> moved_to w' it {StateFailed} \<and> last_sent w (i_id it) = SentNo \<and> released w' it"

lemma give_up_fail_spec:
  assumes inv: "world_inv p w" and p: "wk_platform k = p" and get: "store_get (wd_store w) (i_id it) = Inr it"
    and st: "i_state it = StateSettling" and rl: "released w it"
    and gf: "give_up_fail k ev w it why v = (out, note_text, err, w')"
  shows "world_inv p w' \<and> same_but_books w w'
    \<and> (err = None \<longrightarrow> rr_outcome out = RelayPoison \<and> moved_to w' it {StateFailed} \<and> released w' it)"
proof -
  let ?rq = "relay_request StateFailed '''' why (ev_now ev 7)"
  obtain r it1 w1 where ad: "relayer_advance p w it ?rq = (r, it1, w1)" by (metis prod_cases3)
  have "i_state it \<noteq> req_to ?rq" using st by (simp add: relay_request_def)
  note ef = advance_effect [OF inv get this ad]
  have fin: "w' = w1 \<and> (err = None) = (r = None) \<and> (err = None \<longrightarrow> rr_outcome out = RelayPoison)"
    using gf ad p ef by (cases r) (auto simp: give_up_fail_def report_def split: if_splits)
  have "released w1 it" using ef rl by (simp add: released_def same_rest_def)
  with ef fin show ?thesis by (auto simp: same_rest_def same_but_books_def moved_to_def relay_request_def)
qed

lemma give_up_settling:
  assumes inv: "world_inv p w" and p: "wk_platform k = p"
    and get: "store_get (wd_store w) (job_intent_id (d_job d)) = Inr it" and st: "i_state it = StateSettling"
    and gu: "give_up k ev w d rep v = (out, note_text, err, w')"
  shows "world_inv p w' \<and> same_but_books w w' \<and> (err = None \<longrightarrow> rr_outcome out = RelayPoison \<and> given_up w w' it)"
proof -
  have k: "i_id it = job_intent_id (d_job d)" using store_inv_get [OF world_invD(1) [OF inv] get] by simp
  then have get': "store_get (wd_store w) (i_id it) = Inr it" using get by simp
  define why where "why = vd_reason v @ '' ('' @ rr_detail rep @ '')''"
  show ?thesis
  proof (cases "last_sent w (i_id it) = SentNo")
    case False
    define msg where "msg = why @ ''; last broadcast '' @ sent_name (last_sent w (i_id it)) @ '', outcome unknown''"
    obtain conflict e it' w1 where r: "review_intent k ev w it msg = (conflict, e, it', w1)" by (metis prod_cases4)
    have "i_state it \<noteq> StateNeedsReview" by (simp add: st)
    note sp = review_intent_spec [OF inv p get' this r]
    have "w' = w1 \<and> err = e \<and> (err = None \<longrightarrow> rr_outcome out = RelayPoison)"
      using gu get st False r sp
      by (auto simp: give_up_def Let_def last_sent_def msg_def why_def report_def split: option.splits prod.splits)
    with sp False show ?thesis by (auto simp: given_up_def same_rest_def same_but_books_def)
  next
    case True
    note jinv = world_invD(2) [OF inv]
    let ?msg = "why @ ''; nothing was broadcast, no money moved''"
    have g: "give_up k ev w d rep v = (case append_entry p (wd_journal w) (void_entry it) of
          Inl (ErrNoSuchHold a h) \<Rightarrow> give_up_fail k ev w it ?msg v
        | Inl (ErrAlreadyResolved h) \<Rightarrow> give_up_fail k ev w it ?msg v
        | Inl e \<Rightarrow> (report RelayNone '''', '''', Some (RelJournal e), w)
        | Inr (_, _, j) \<Rightarrow> give_up_fail k ev (w\<lparr>wd_journal := j\<rparr>) it ?msg v)"
      using get st True unfolding why_def p [symmetric]
      by (simp add: give_up_def Let_def last_sent_def split: sum.split ledger_error.split prod.split)
    consider (err) "err \<noteq> None" "w' = w"
      | (refused) e where "append_entry p (wd_journal w) (void_entry it) = Inl e"
          "(\<exists>a h. e = ErrNoSuchHold a h) \<or> (\<exists>h. e = ErrAlreadyResolved h)" "give_up_fail k ev w it ?msg v = (out, note_text, err, w')"
      | (ok) x b j where "append_entry p (wd_journal w) (void_entry it) = Inr (x, b, j)"
          "give_up_fail k ev (w\<lparr>wd_journal := j\<rparr>) it ?msg v = (out, note_text, err, w')"
      using gu g by (auto split: sum.splits ledger_error.splits)
    then show ?thesis
    proof cases
      case err
      with inv show ?thesis by auto
    next
      case refused
      have "released w it" by (rule void_refused_released [OF jinv refused(1,2)])
      from give_up_fail_spec [OF inv p get' st this refused(3)] True show ?thesis by (auto simp: given_up_def)
    next
      case ok
      note vr = void_accepted_released [OF jinv ok(1)]
      have inv2: "world_inv p (w\<lparr>wd_journal := j\<rparr>)" and get2: "store_get (wd_store (w\<lparr>wd_journal := j\<rparr>)) (i_id it) = Inr it"
        using inv vr get' by (simp_all add: world_inv_def)
      from give_up_fail_spec [OF inv2 p get2 st conjunct2 [OF vr] ok(2)] True
      show ?thesis by (auto simp: given_up_def same_but_books_def)
    qed
  qed
qed

subsection \<open>Poison and RunOnce\<close>

definition parked :: "world \<Rightarrow> string \<Rightarrow> bool" where
  "parked w i \<longleftrightarrow> (\<exists>x. dl_records (wd_dead w) i = Some x \<and> dl_status x = StatusParked)"

lemma give_up_frame:
  assumes inv: "world_inv p w" and p: "wk_platform k = p" and gu: "give_up k ev w d rep v = (out, note_text, err, w')"
  shows "world_inv p w' \<and> same_but_books w w' \<and> (err = None \<longrightarrow> rr_outcome out = RelayPoison)"
proof (cases "store_get (wd_store w) (job_intent_id (d_job d))")
  case (Inl e)
  with gu inv show ?thesis by (auto simp: give_up_def report_def split: if_splits)
next
  case (Inr it)
  show ?thesis
  proof (cases "i_state it = StateSettling")
    case True
    from give_up_settling [OF inv p Inr True gu] show ?thesis by simp
  next
    case False
    with Inr gu inv show ?thesis by (auto simp: give_up_def report_def)
  qed
qed

lemma poison_spec:
  assumes inv: "world_inv p w" and p: "wk_platform k = p" and po: "poison k ev w d rep v = (out, err, w')"
  shows "world_inv p w' \<and> wd_queue w' = wd_queue w \<and> wd_seq w' = wd_seq w \<and> wd_calls w' = wd_calls w
    \<and> wd_bcasts w' = wd_bcasts w \<and> (err = None \<longrightarrow> rr_outcome out = RelayPoison \<and> parked w' (job_id (d_job d)))"
proof -
  obtain out1 st err1 w1 where gu: "give_up k ev w d rep v = (out1, st, err1, w1)" by (metis prod_cases4)
  note fr = give_up_frame [OF inv p gu]
  show ?thesis
  proof (cases "err1 = None")
    case False
    with po gu fr show ?thesis by (auto simp: poison_def same_but_books_def)
  next
    case True
    define r where "r = \<lparr>dl_job = d_job d, dl_attempts = d_attempt d, dl_reason = rr_detail out1, dl_intent_state = st,
        dl_cycles = 0, dl_status = StatusOther '''', dl_parked_at = 0, dl_resolved_by = '''', dl_resolved_at = 0\<rparr>"
    show ?thesis
    proof (cases "park (wd_dead w1) r (ev_now ev 8)")
      case (Inl e)
      with po gu fr True show ?thesis by (auto simp: poison_def same_but_books_def r_def)
    next
      case (Inr bs)
      then obtain b s where ps: "park (wd_dead w1) r (ev_now ev 8) = Inr (b, s)" by (cases bs) auto
      have "\<exists>x. dl_records s (job_id (d_job d)) = Some x \<and> dl_status x = StatusParked"
        using dl.park_spec [OF ps] by (simp add: r_def)
      moreover have "w' = w1\<lparr>wd_dead := s\<rparr>" "out = out1" "err = None"
        using po gu fr True ps by (auto simp: poison_def r_def)
      ultimately show ?thesis using fr True by (auto simp: parked_def world_inv_def same_but_books_def)
    qed
  qed
qed

lemma ack_or_nack_spec:
  assumes inv: "world_inv p w" and sj: "ack_or_nack w d rep t now = (qe, w')"
  shows "world_inv p w' \<and> wd_store w' = wd_store w \<and> wd_journal w' = wd_journal w \<and> wd_seq w' = wd_seq w
    \<and> wd_bcasts w' = wd_bcasts w \<and> wd_dead w' = wd_dead w \<and> wd_calls w' = wd_calls w
    \<and> (queue_pending (wd_queue w') = queue_pending (wd_queue w)
       \<or> rr_outcome rep \<noteq> RelayRetry \<and> queue_pending (wd_queue w') = (queue_pending (wd_queue w))(job_id (d_job d) := None))"
proof (cases "rr_outcome rep = RelayRetry")
  case True
  with sj show ?thesis
    using inv mq.nack_spec [OF world_invD(3) [OF inv]]
    by (cases "nack (wd_queue w) d t now") (auto simp: ack_or_nack_def world_inv_def)
next
  case False
  with sj show ?thesis
    using inv mq.ack_spec [OF world_invD(3) [OF inv]]
    by (cases "ack (wd_queue w) d") (auto simp: ack_or_nack_def world_inv_def)
qed

text \<open>The report after \<open>process\<close>, and the judgement of it, as \<open>RunOnce\<close> computes them.\<close>

definition noted :: "env \<Rightarrow> delivery \<Rightarrow> relay_report \<Rightarrow> relayer_error option \<Rightarrow> relay_report" where
  "noted ev d rep0 perr =
     (let rep1 = rep0\<lparr>rr_job := Some (d_job d), rr_attempt := d_attempt d\<rparr> in
      case perr of None \<Rightarrow> rep1
      | Some e \<Rightarrow> rep1\<lparr>rr_outcome := RelayRetry, rr_detail := ''error: '' @ ev_error_text ev e,
                       rr_err := Some (PlainError (ev_error_text ev e))\<rparr>)"

definition judged :: "worker \<Rightarrow> delivery \<Rightarrow> relay_report \<Rightarrow> verdict" where
  "judged k d rep = judge (wk_faults k) \<lparr>ft_err = rr_err rep, ft_attempt = d_attempt d, ft_base = cf_retry_after (wk_cfg k)\<rparr>"

lemma noted_outcome [simp]: "rr_outcome (noted ev d rep0 perr) = (if perr = None then rr_outcome rep0 else RelayRetry)"
  by (simp add: noted_def Let_def split: option.splits)

text \<open>The ways through \<open>RunOnce\<close>, by what \<open>process\<close>, \<open>poison\<close> and the queue did.\<close>

lemma run_once_cases:
  assumes "run_once k ev w = (rep, ok, err, w')"
  obtains (idle) q where "lease (wd_queue w) (ev_now ev 0) (cf_lease (wk_cfg k)) = (None, q)" "w' = w\<lparr>wd_queue := q\<rparr>"
  | (settled) d q rep0 perr w1 qe t where
      "lease (wd_queue w) (ev_now ev 0) (cf_lease (wk_cfg k)) = (Some d, q)"
      "process k ev (w\<lparr>wd_queue := q\<rparr>) d = (rep0, perr, w1)"
      "ack_or_nack w1 d (noted ev d rep0 perr) t (ev_now ev 9) = (qe, w')"
  | (stopped) d q rep0 perr w1 out e where
      "lease (wd_queue w) (ev_now ev 0) (cf_lease (wk_cfg k)) = (Some d, q)"
      "process k ev (w\<lparr>wd_queue := q\<rparr>) d = (rep0, perr, w1)"
      "vd_class (judged k d (noted ev d rep0 perr)) = ClassPoison"
      "poison k ev w1 d (noted ev d rep0 perr) (judged k d (noted ev d rep0 perr)) = (out, Some e, w')"
  | (dead) d q rep0 perr w1 out w2 rep2 qe t where
      "lease (wd_queue w) (ev_now ev 0) (cf_lease (wk_cfg k)) = (Some d, q)"
      "process k ev (w\<lparr>wd_queue := q\<rparr>) d = (rep0, perr, w1)"
      "vd_class (judged k d (noted ev d rep0 perr)) = ClassPoison"
      "poison k ev w1 d (noted ev d rep0 perr) (judged k d (noted ev d rep0 perr)) = (out, None, w2)"
      "ack_or_nack w2 d rep2 t (ev_now ev 9) = (qe, w')"
proof -
  obtain dq q where l: "lease (wd_queue w) (ev_now ev 0) (cf_lease (wk_cfg k)) = (dq, q)" by fastforce
  show ?thesis
  proof (cases dq)
    case None
    with assms l idle show ?thesis by (simp add: run_once_def)
  next
    case (Some d)
    obtain rep0 perr w1 where pr: "process k ev (w\<lparr>wd_queue := q\<rparr>) d = (rep0, perr, w1)" by (metis prod_cases3)
    note l' = l [unfolded Some]
    define rp where "rp = noted ev d rep0 perr"
    define v where "v = judged k d rp"
    define finish where "finish = (\<lambda>rep retry_in w.
        case ack_or_nack w d rep retry_in (ev_now ev 9) of
          (Some e, w2) \<Rightarrow> if is_stale_receipt e then (rep, True, perr, w2) else (rep, True, Some (RelQueue e), w2)
        | (None, w2) \<Rightarrow> (rep, True, perr, w2))"
    have fin: "\<exists>qe. ack_or_nack w2 d r t (ev_now ev 9) = (qe, w')" if "finish r t w2 = (rep, ok, err, w')" for r t w2
      using that by (auto simp: finish_def split: prod.splits option.splits if_splits)
    have ro: "(if rr_outcome rp \<noteq> RelayRetry then finish rp (cf_retry_after (wk_cfg k)) w1
        else if vd_class v \<noteq> ClassPoison then finish rp (vd_backoff v) w1
        else case poison k ev w1 d rp v of
            (_, Some e, w2) \<Rightarrow> (rp, True, Some e, w2)
          | (r, None, w2) \<Rightarrow>
              finish (r\<lparr>rr_job := Some (d_job d), rr_attempt := d_attempt d\<rparr>) (cf_retry_after (wk_cfg k)) w2)
        = (rep, ok, err, w')"
      using assms l' pr unfolding run_once_def Let_def finish_def rp_def v_def judged_def noted_def by simp
    show ?thesis
    proof (cases "rr_outcome rp = RelayRetry \<and> vd_class v = ClassPoison")
      case False
      with ro obtain t where "finish rp t w1 = (rep, ok, err, w')" by (auto split: if_splits)
      from fin [OF this] settled [OF l' pr] show ?thesis unfolding rp_def by blast
    next
      case True
      obtain out e w2 where po: "poison k ev w1 d rp v = (out, e, w2)" by (metis prod_cases3)
      show ?thesis
      proof (cases e)
        case (Some e2)
        with ro True po have "w2 = w'" by simp
        with stopped [OF l' pr] True po Some show ?thesis unfolding rp_def v_def by blast
      next
        case None
        with ro True po have "finish (out\<lparr>rr_job := Some (d_job d), rr_attempt := d_attempt d\<rparr>) (cf_retry_after (wk_cfg k)) w2
            = (rep, ok, err, w')" by simp
        from fin [OF this] dead [OF l' pr] True po None show ?thesis unfolding rp_def v_def by blast
      qed
    qed
  qed
qed

subsection \<open>A demo world\<close>

definition demo_world :: world where
  "demo_world = \<lparr>wd_queue = demo_queue, wd_store = demo_store, wd_journal = new_journal, wd_seq = new_counter,
     wd_bcasts = (\<lambda>_. []), wd_dead = new_dead_store, wd_calls = []\<rparr>"

definition demo_worker :: worker where
  "demo_worker = (new_worker demo_platform (ReplacingSender (\<lambda>_. ''hot'')) (\<lambda>_. 0))
     \<lparr>wk_cfg := \<lparr>cf_lease = 30, cf_retry_after = 5, cf_stuck_after = 300\<rparr>\<rparr>"

definition demo_env :: "time \<Rightarrow> send_error + string \<Rightarrow> env" where
  "demo_env t ans = \<lparr>ev_now = (\<lambda>_. t), ev_throttled = None, ev_gave_up = False, ev_gave_up_gap = False,
     ev_send = (\<lambda>_ _. ans), ev_replace = (\<lambda>_ _ _. ans), ev_cancel = (\<lambda>_ _ _. ans),
     ev_error_text = (\<lambda>_. ''''), ev_seq_text = (\<lambda>_. '''')\<rparr>"

definition demo_timeout :: send_error where
  "demo_timeout = \<lparr>se_text = ''timeout'', se_not_sent = False, se_poison = False\<rparr>"

definition demo_reverted :: send_error where
  "demo_reverted = \<lparr>se_text = ''reverted'', se_not_sent = True, se_poison = True\<rparr>"

text \<open>The first run sends and times out; the second, later than \<open>StuckAfter\<close>, replaces and is refused.\<close>

definition demo_world_timeout :: world where
  "demo_world_timeout = snd (snd (snd (run_once demo_worker (demo_env 20 (Inl demo_timeout)) demo_world)))"

definition demo_world_refused :: world where
  "demo_world_refused =
     snd (snd (snd (run_once demo_worker (demo_env 400 (Inl demo_reverted)) demo_world_timeout)))"

lemma demo_world_inv: "world_inv demo_platform demo_world"
  by (simp add: world_inv_def demo_world_def demo_store_inv journal_inv_new counter_inv_new)

lemma demo_worker_platform [simp]: "wk_platform demo_worker = demo_platform"
  by (simp add: demo_worker_def new_worker_def)

definition demo_delivery :: delivery where
  "demo_delivery = \<lparr>d_job = demo_job, d_attempt = 1, d_receipt = ''pi_1/settle#1'', d_lease_until = 50\<rparr>"

subsection \<open>Properties\<close>

lemma run_once_frame:
  assumes inv: "world_inv p w" and p: "wk_platform k = p" and ro: "run_once k ev w = (rep, ok, err, w')"
  shows "world_inv p w' \<and> counter_out (wd_seq w') = counter_out (wd_seq w)
    \<and> (\<exists>new. wd_calls w' = wd_calls w @ new \<and> length new \<le> 1)"
proof -
  have proc: "world_inv p w1 \<and> counter_out (wd_seq w1) = counter_out (wd_seq w) \<and> (\<exists>new. wd_calls w1 = wd_calls w @ new \<and> length new \<le> 1)"
    if l: "lease (wd_queue w) (ev_now ev 0) (cf_lease (wk_cfg k)) = (dq, q)"
      and pr: "process k ev (w\<lparr>wd_queue := q\<rparr>) d = (rep0, perr, w1)" for dq q d rep0 perr w1
  proof -
    have "world_inv p (w\<lparr>wd_queue := q\<rparr>)"
      using inv mq.deq_spec [OF world_invD(3) [OF inv] l] by (simp add: world_inv_def)
    from process_spec [OF this p pr] this show ?thesis
      by (auto simp: step_ok_def calls_once_def split: option.splits)
  qed
  show ?thesis
  proof (cases rule: run_once_cases [OF ro, case_names idle settled stopped dead])
    case (idle q)
    with inv mq.deq_spec [OF world_invD(3) [OF inv] idle(1)] show ?thesis by (simp add: world_inv_def)
  next
    case (settled d q rep0 perr w1 qe t)
    with proc [OF settled(1,2)] ack_or_nack_spec [of p w1] show ?thesis by metis
  next
    case (stopped d q rep0 perr w1 out e)
    with proc [OF stopped(1,2)] poison_spec [OF _ p stopped(4)] show ?thesis by simp
  next
    case (dead d q rep0 perr w1 out w2 rep2 qe t)
    with proc [OF dead(1,2)] poison_spec [OF _ p dead(4)] ack_or_nack_spec [of p w2 d rep2 t _ qe w'] show ?thesis by simp
  qed
qed

text \<open>
  C5. Every \<open>RunOnce\<close>, whatever it meets and wherever it returns, leaves the intent store, the journal,
  the queue and the sequencer consistent, hands back the number it took, and asks the sender at most
  once.
\<close>

theorem run_keeps_the_books:
  assumes "world_inv p w" and "wk_platform k = p" and "run_once k ev w = (rep, ok, err, w')"
  shows "world_inv p w' \<and> counter_out (wd_seq w') = counter_out (wd_seq w)
    \<and> (wd_calls w' = wd_calls w \<or> (\<exists>c. wd_calls w' = wd_calls w @ [c]))"
  using run_once_frame [OF assms] by (auto simp: le_Suc_eq length_Suc_conv)

theorem run_keeps_the_books_witness:
  "world_inv demo_platform demo_world_timeout \<and> counter_out (wd_seq demo_world_timeout) ''hot'' = None
   \<and> length (wd_calls demo_world_timeout) = 1"
proof -
  obtain rep ok err where r: "run_once demo_worker (demo_env 20 (Inl demo_timeout)) demo_world = (rep, ok, err, demo_world_timeout)"
    unfolding demo_world_timeout_def by (metis prod.collapse)
  note k = run_keeps_the_books [OF demo_world_inv demo_worker_platform r]
  have "length (wd_calls demo_world_timeout) = 1" by code_simp
  with k show ?thesis by (simp add: demo_world_def new_counter_def counter_out_def account_of_def new_account_def)
qed



lemma at_rest_store: "at_rest w i \<Longrightarrow> wd_store w' = wd_store w \<Longrightarrow> at_rest w' i"
  by (simp add: at_rest_def)



text \<open>
  What giving up on a payment does to it. If it was in \<open>settling\<close> and the last broadcast is on record
  as not sent, the intent is declared \<open>failed\<close>, and then its hold does not stay pending: the journal has
  resolved it, or never had it. If the last broadcast may have gone out, or there is no record of one, the
  intent is put up for review and no hold is touched.
\<close>

theorem giving_up_settles_the_intent:
  assumes "world_inv p w" and "wk_platform k = p"
    and "store_get (wd_store w) (job_intent_id (d_job d)) = Inr it" and "i_state it = StateSettling"
    and "give_up k ev w d rep v = (out, note_text, None, w')"
  shows "(last_sent w (i_id it) = SentNo \<longrightarrow> moved_to w' it {StateFailed} \<and> released w' it)
    \<and> (last_sent w (i_id it) \<noteq> SentNo \<longrightarrow> moved_to w' it {StateNeedsReview})"
  using give_up_settling [OF assms] by (auto simp: given_up_def)

lemma demo_timeout_world: "world_inv demo_platform demo_world_timeout"
proof -
  obtain rep ok err where r: "run_once demo_worker (demo_env 20 (Inl demo_timeout)) demo_world = (rep, ok, err, demo_world_timeout)"
    unfolding demo_world_timeout_def by (metis prod.collapse)
  then show ?thesis using run_once_frame [OF demo_world_inv demo_worker_platform r] by simp
qed

definition stored :: "world \<Rightarrow> string \<Rightarrow> intent" where
  "stored w i = (case store_get (wd_store w) i of Inl _ \<Rightarrow> demo_intent | Inr it \<Rightarrow> it)"

definition demo_report :: relay_report where
  "demo_report = report RelayRetry ''send: timeout''"

definition demo_verdict :: verdict where
  "demo_verdict = \<lparr>vd_class = ClassPoison, vd_backoff = 0, vd_reason = ''retrying will not help''\<rparr>"

lemma stored_Inr: "store_get (wd_store w) i \<noteq> Inl ErrIntentNotFound \<Longrightarrow> store_get (wd_store w) i = Inr (stored w i)"
  by (auto simp: stored_def store_get_def split: option.splits)

lemma demo_timeout_stored:
  "store_get (wd_store demo_world_timeout) (job_intent_id (d_job demo_delivery)) = Inr (stored demo_world_timeout ''pi_1'')
   \<and> i_state (stored demo_world_timeout ''pi_1'') = StateSettling \<and> i_id (stored demo_world_timeout ''pi_1'') = ''pi_1''"
  by code_simp

theorem giving_up_settles_the_intent_witness:
  "moved_to (snd (snd (snd (give_up demo_worker (demo_env 400 (Inl demo_timeout)) demo_world_timeout demo_delivery demo_report demo_verdict))))
     (stored demo_world_timeout ''pi_1'') {StateNeedsReview}"
proof -
  obtain out note_text err w' where g: "give_up demo_worker (demo_env 400 (Inl demo_timeout)) demo_world_timeout demo_delivery demo_report demo_verdict
      = (out, note_text, err, w')" by (metis prod_cases4)
  have "fst (snd (snd (give_up demo_worker (demo_env 400 (Inl demo_timeout)) demo_world_timeout demo_delivery demo_report demo_verdict))) = None"
    by code_simp
  then have g': "give_up demo_worker (demo_env 400 (Inl demo_timeout)) demo_world_timeout demo_delivery demo_report demo_verdict
      = (out, note_text, None, w')" using g by simp
  have "last_sent demo_world_timeout ''pi_1'' \<noteq> SentNo" by code_simp
  with giving_up_settles_the_intent [OF demo_timeout_world demo_worker_platform _ _ g'] demo_timeout_stored g'
  show ?thesis by simp
qed

text \<open>
  C38. A shortcoming of giving up. \<open>giveUp\<close> asks the broadcast book for the last row only, so an earlier
  broadcast whose fate is unknown does not stop it: if the latest attempt is on record as not sent, the
  intent is declared \<open>failed\<close> with the reason that no money moved and its hold is voided, although the
  earlier transaction may be mined at any time.
\<close>

theorem giving_up_forgets_an_unknown_broadcast:
  assumes "world_inv p w" and "wk_platform k = p"
    and "store_get (wd_store w) (job_intent_id (d_job d)) = Inr it" and "i_state it = StateSettling"
    and "wd_bcasts w (i_id it) = rows @ [b]" and "b_sent b = SentNo"
    and "\<exists>x \<in> set rows. b_sent x = SentUnknown"
    and "give_up k ev w d rep v = (out, note_text, None, w')"
  shows "moved_to w' it {StateFailed} \<and> released w' it
    \<and> (\<exists>x \<in> set (wd_bcasts w' (i_id it)). b_sent x = SentUnknown)"
proof -
  have "last_sent w (i_id it) = SentNo" using assms(5,6) by (simp add: last_sent_def last_broadcast_def)
  with give_up_settling [OF assms(1-4,8)] assms(5,7) show ?thesis
    by (auto simp: given_up_def same_but_books_def)
qed

text \<open>The world of the demo between the refused replacement and giving up.\<close>

definition demo_world_replaced :: world where
  "demo_world_replaced = snd (snd (process demo_worker (demo_env 400 (Inl demo_reverted)) demo_world_timeout demo_delivery))"

lemma demo_replaced_world: "world_inv demo_platform demo_world_replaced"
proof -
  obtain rep err w' where r: "process demo_worker (demo_env 400 (Inl demo_reverted)) demo_world_timeout demo_delivery = (rep, err, w')"
    by (metis prod_cases3)
  from process_spec [OF demo_timeout_world demo_worker_platform r] demo_timeout_stored r show ?thesis
    by (simp add: the_intent_def step_ok_def demo_world_replaced_def)
qed

theorem giving_up_forgets_an_unknown_broadcast_witness:
  "moved_to (snd (snd (snd (give_up demo_worker (demo_env 400 (Inl demo_reverted)) demo_world_replaced demo_delivery demo_report demo_verdict))))
     (stored demo_world_replaced ''pi_1'') {StateFailed}"
proof -
  let ?g = "give_up demo_worker (demo_env 400 (Inl demo_reverted)) demo_world_replaced demo_delivery demo_report demo_verdict"
  have "fst (snd (snd ?g)) = None" by code_simp
  then obtain out note_text w' where g: "?g = (out, note_text, None, w')" by (metis prod_cases4 fst_conv snd_conv)
  have st: "store_get (wd_store demo_world_replaced) (job_intent_id (d_job demo_delivery)) = Inr (stored demo_world_replaced ''pi_1'')
      \<and> i_state (stored demo_world_replaced ''pi_1'') = StateSettling \<and> i_id (stored demo_world_replaced ''pi_1'') = ''pi_1''"
    by code_simp
  have "map b_sent (wd_bcasts demo_world_replaced ''pi_1'') = [SentUnknown, SentNo]" by code_simp
  then obtain x b where "wd_bcasts demo_world_replaced ''pi_1'' = [x] @ [b]" "b_sent x = SentUnknown" "b_sent b = SentNo"
    by (auto simp: map_eq_Cons_conv)
  with giving_up_forgets_an_unknown_broadcast
      [where rows = "[x]" and b = b, OF demo_replaced_world demo_worker_platform _ _ _ _ _ g] st g
  show ?thesis by simp
qed

text \<open>
  C39. A shortcoming of the rescue. Where the account has no gap, \<open>reserveFor\<close> takes the next number, on
  the assumption that the last broadcast did not go out. Nothing checks that: also when the last row of
  the book says \<open>sent\<close> or \<open>unknown\<close>, which happens once \<open>Sync\<close> has learnt from the node that the number is
  used up, the payment is sent again at a number of its own, and both transactions can be mined.
\<close>

theorem rescue_without_gap_pays_again:
  assumes "i_state it = StateSettling" and "replacing_account (wk_sender k) = Some acct"
    and "ev_throttled ev = None" and "\<not> ev_gave_up ev" and "\<not> ev_gave_up_gap ev"
    and "pl_kind (decide (wk_fee k) (stuck_of k ev w it)) = KindSpeedUp"
    and "a_sem (account_of (wd_seq w) (acct it))" and "a_gap (account_of (wd_seq w) (acct it)) = None"
    and "wd_bcasts w (i_id it) = rows @ [b]" and "b_sent b \<noteq> SentNo"
    and "b_nonce b \<noteq> a_next (account_of (wd_seq w) (acct it))"
    and "rescue k ev w it = (rep, err, w')"
  shows "\<exists>res f ans. wd_calls w' = wd_calls w @ [(CallReplace (i_id it) res f, ans)]
    \<and> \<not> r_fill res \<and> r_value res \<noteq> b_nonce b"
proof -
  define v where "v = a_next (account_of (wd_seq w) (acct it))"
  define res where "res = \<lparr>r_account = acct it, r_value = v, r_ordered = True, r_fill = False\<rparr>"
  define pl where "pl = decide (wk_fee k) (stuck_of k ev w it)"
  have "\<exists>c. reserve_for ev (wd_seq w) (acct it) KindSpeedUp = (Inr res, c)"
    using assms(4,5,7,8) by (simp add: reserve_for_def reserve_gap_def reserve_def Let_def res_def v_def)
  then obtain c where rf: "reserve_for ev (wd_seq w) (acct it) KindSpeedUp = (Inr res, c)" by blast
  obtain rep2 err2 s w2 where rc: "replace_or_cancel k ev (w\<lparr>wd_seq := c\<rparr>) it (acct it) res pl = (rep2, err2, s, w2)"
    by (metis prod_cases4)
  have fin: "w' = finish_slot w2 res s"
    using assms(2,3,6,12) rf rc by (simp add: rescue_def Let_def pl_def)
  obtain ans where as: "after_rescue k ev (log_call (w\<lparr>wd_seq := c\<rparr>) (CallReplace (i_id it) res (pl_fee pl)) ans) it res pl ans
      = (rep2, err2, s, w2)"
    using rc assms(6) by (auto simp: replace_or_cancel_def Let_def pl_def)
  have "wd_calls w2 = wd_calls w @ [(CallReplace (i_id it) res (pl_fee pl), ans)]"
    using after_rescue_calls [OF as] by simp
  then show ?thesis using fin assms(11) by (auto simp: res_def v_def)
qed

text \<open>The demo world after the node has reported, through \<open>Sync\<close>, that number 0 is used up.\<close>

definition demo_world_synced :: world where
  "demo_world_synced = demo_world_timeout\<lparr>wd_seq := snd (sync (wd_seq demo_world_timeout) ''hot'' 1)\<rparr>"

theorem rescue_without_gap_pays_again_witness:
  "map (call_slot \<circ> fst) (wd_calls (snd (snd (rescue demo_worker (demo_env 400 (Inr ''0xbb'')) demo_world_synced
       (stored demo_world_synced ''pi_1''))))) \<noteq> map (call_slot \<circ> fst) (wd_calls demo_world_synced)"
proof -
  let ?it = "stored demo_world_synced ''pi_1''" and ?ev = "demo_env 400 (Inr ''0xbb'')"
  obtain rep err w' where r: "rescue demo_worker ?ev demo_world_synced ?it = (rep, err, w')" by (metis prod_cases3)
  have st: "i_state ?it = StateSettling \<and> i_id ?it = ''pi_1''" by code_simp
  have ev: "ev_throttled ?ev = None" "\<not> ev_gave_up ?ev" "\<not> ev_gave_up_gap ?ev" by (simp_all add: demo_env_def)
  have sd: "replacing_account (wk_sender demo_worker) = Some (\<lambda>_. ''hot'')" by (simp add: demo_worker_def new_worker_def)
  have pl: "pl_kind (decide (wk_fee demo_worker) (stuck_of demo_worker ?ev demo_world_synced ?it)) = KindSpeedUp" by code_simp
  have ac: "a_sem (account_of (wd_seq demo_world_synced) ''hot'') \<and> a_gap (account_of (wd_seq demo_world_synced) ''hot'') = None
      \<and> a_next (account_of (wd_seq demo_world_synced) ''hot'') = 1" by code_simp
  have "map (\<lambda>b. (b_sent b, b_nonce b)) (wd_bcasts demo_world_synced ''pi_1'') = [(SentUnknown, 0)]" by code_simp
  then obtain b where b: "wd_bcasts demo_world_synced ''pi_1'' = [] @ [b]" "b_sent b = SentUnknown" "b_nonce b = 0"
    by (auto simp: map_eq_Cons_conv)
  from rescue_without_gap_pays_again [where rows = "[]" and b = b, OF _ sd ev pl _ _ _ _ _ r] st ac b r
  show ?thesis by auto
qed

end
