(* ===== verification/Merkle.thy ===== *)
theory Merkle
  imports Prelude
begin

section \<open>Merkle: one root for a payout run, one proof per aligned block\<close>

text \<open>
  Models \<open>internal/merkle/merkle.go\<close>: \<open>Leaf\<close>, \<open>node\<close>, \<open>Build\<close> with the padding to a power of two,
  \<open>Root\<close>, \<open>Depth\<close>, \<open>BlockProof\<close> and \<open>VerifyBlock\<close>. The loops over levels are recursions on the level's
  length; the loops over a proof are recursions on it. \<open>block\<close> is a Go \<open>int\<close>; its \<open>% 2\<close> test and
  arithmetic shift are \<open>mod 2\<close> and \<open>div 2\<close> on \<open>int\<close>. \<open>alignLog2\<close> is a natural number: a negative one
  would index out of range, and the callers pass a constant.

  The lemmas show that the proof of every block of a built tree verifies, and that what verifies against
  the root is the block of the tree, or two preimages with one hash are at hand, one hashed while
  building the tree and one while verifying: the collision is exhibited, not assumed away.
\<close>

subsection \<open>Nodes\<close>

definition leaf_hash :: "platform \<Rightarrow> bytes \<Rightarrow> bytes" where
  "leaf_hash p d = sha256 p (CHR 0x00 # d)"

definition pad_leaf :: bytes where
  "pad_leaf = replicate 32 (CHR 0x00)"

definition node_input :: "bytes \<Rightarrow> bytes \<Rightarrow> bytes" where
  "node_input l r = CHR 0x01 # l @ r"

definition node :: "platform \<Rightarrow> bytes \<Rightarrow> bytes \<Rightarrow> bytes" where
  "node p l r = sha256 p (node_input l r)"

datatype merkle_error = ErrEmptyTree | ErrBlockOutOfRange | ErrBlockTooLarge

subsection \<open>Building\<close>

record tree =
  levels :: "bytes list list"

text \<open>\<open>width\<close> doubles from 1 until the leaves fit.\<close>

function double_to :: "nat \<Rightarrow> nat \<Rightarrow> nat" where
  "double_to n w = (if 0 < w \<and> w < n then double_to n (2 * w) else w)"
  by pat_completeness auto
termination by (relation "measure (\<lambda>(n, w). n - w)") auto

declare double_to.simps [simp del]

fun next_level :: "platform \<Rightarrow> bytes list \<Rightarrow> bytes list" where
  "next_level p (x # y # r) = node p x y # next_level p r"
| "next_level p _ = []"

lemma length_next_level: "length (next_level p xs) = length xs div 2"
  by (induction p xs rule: next_level.induct) auto

function levels_from :: "platform \<Rightarrow> bytes list \<Rightarrow> bytes list list" where
  "levels_from p level = (if length level \<le> 1 then [level] else level # levels_from p (next_level p level))"
  by pat_completeness auto
termination by (relation "measure (\<lambda>(p, l). length l)") (auto simp: length_next_level)

declare levels_from.simps [simp del]

definition pad_to :: "nat \<Rightarrow> bytes list \<Rightarrow> bytes list" where
  "pad_to w ls = ls @ replicate (w - length ls) pad_leaf"

definition build :: "platform \<Rightarrow> bytes list \<Rightarrow> merkle_error + tree" where
  "build p leaves =
     (if leaves = [] then Inl ErrEmptyTree
      else Inr \<lparr>levels = levels_from p (pad_to (double_to (length leaves) 1) leaves)\<rparr>)"

definition tree_root :: "tree \<Rightarrow> bytes" where
  "tree_root t = hd (last (levels t))"

definition tree_depth :: "tree \<Rightarrow> nat" where
  "tree_depth t = length (levels t) - 1"

subsection \<open>Proofs\<close>

text \<open>\<open>idx ^ 1\<close>: the other child of the same parent.\<close>

definition sibling :: "nat \<Rightarrow> nat" where
  "sibling i = (if even i then i + 1 else i - 1)"

fun proof_from :: "bytes list list \<Rightarrow> nat \<Rightarrow> bytes list" where
  "proof_from (l # m # ls) idx = l ! sibling idx # proof_from (m # ls) (idx div 2)"
| "proof_from _ idx = []"

definition block_proof :: "tree \<Rightarrow> int \<Rightarrow> nat \<Rightarrow> merkle_error + bytes list" where
  "block_proof t block align =
     (if align > tree_depth t then Inl ErrBlockTooLarge
      else if block < 0 \<or> block \<ge> int (length (levels t ! align)) then Inl ErrBlockOutOfRange
      else Inr (proof_from (drop align (levels t)) (nat block)))"

fun ones_count :: "nat \<Rightarrow> nat" where
  "ones_count n = (if n = 0 then 0 else n mod 2 + ones_count (n div 2))"

declare ones_count.simps [simp del]

function collapse :: "platform \<Rightarrow> bytes list \<Rightarrow> bytes list" where
  "collapse p level = (if length level > 1 then collapse p (next_level p level) else level)"
  by pat_completeness auto
termination by (relation "measure (\<lambda>(p, l). length l)") (auto simp: length_next_level)

declare collapse.simps [simp del]

fun climb_proof :: "platform \<Rightarrow> int \<Rightarrow> bytes \<Rightarrow> bytes list \<Rightarrow> bytes" where
  "climb_proof p idx acc [] = acc"
| "climb_proof p idx acc (s # ss) =
     climb_proof p (idx div 2) (if idx mod 2 = 0 then node p acc s else node p s acc) ss"

definition verify_block :: "platform \<Rightarrow> bytes \<Rightarrow> int \<Rightarrow> bytes list \<Rightarrow> bytes list \<Rightarrow> bool" where
  "verify_block p root block leaves pf =
     (if leaves = [] \<or> ones_count (length leaves) \<noteq> 1 then False
      else climb_proof p block (hd (collapse p leaves)) pf = root)"

subsection \<open>Shape of a built tree\<close>

fun levels_ok :: "platform \<Rightarrow> bytes list list \<Rightarrow> bool" where
  "levels_ok p [] = False"
| "levels_ok p [l] \<longleftrightarrow> length l = 1"
| "levels_ok p (l # m # ls) \<longleftrightarrow> length l = 2 * length m \<and> m = next_level p l \<and> levels_ok p (m # ls)"

lemma levels_okD:
  assumes "levels_ok p (l # m # ls)"
  shows "length l = 2 * length m" "next_level p l = m" "levels_ok p (m # ls)"
  using assms unfolding levels_ok.simps by (blast, blast intro: sym, blast)

lemma double_to_power: "\<exists>k. double_to n (2 ^ j) = 2 ^ k \<and> n \<le> 2 ^ k"
proof (induction "n - 2 ^ j" arbitrary: j rule: less_induct)
  case less
  show ?case
  proof (cases "2 ^ j < n")
    case True
    have "(0::nat) < 2 ^ j" by simp
    then have "n - 2 ^ Suc j < n - 2 ^ j" using True unfolding power_Suc by linarith
    with less [of "Suc j"] True show ?thesis by (simp add: double_to.simps [of n "2 ^ j"])
  next
    case False
    then show ?thesis by (auto simp: double_to.simps [of n "2 ^ j"])
  qed
qed

lemma next_nth: "i < length xs div 2 \<Longrightarrow> next_level p xs ! i = node p (xs ! (2 * i)) (xs ! (2 * i + 1))"
proof (induction p xs arbitrary: i rule: next_level.induct)
  case (1 p x y r)
  then show ?case by (cases i) auto
qed auto

lemma next_level_drop: "next_level p (drop (2 * j) xs) = drop j (next_level p xs)"
proof (induction j arbitrary: xs)
  case (Suc j)
  show ?case
  proof (cases "(p, xs)" rule: next_level.cases)
    case (1 p' x y r)
    with Suc show ?thesis by simp
  qed auto
qed simp

lemma next_level_take: "next_level p (take (2 * k) xs) = take k (next_level p xs)"
proof (induction k arbitrary: xs)
  case (Suc k)
  show ?case
  proof (cases "(p, xs)" rule: next_level.cases)
    case (1 p' x y r)
    with Suc show ?thesis by simp
  qed auto
qed simp

lemma levels_from_ok:
  "length xs = 2 ^ d \<Longrightarrow> levels_ok p (levels_from p xs) \<and> hd (levels_from p xs) = xs \<and> length (levels_from p xs) = Suc d"
proof (induction d arbitrary: xs)
  case 0
  then show ?case by (simp add: levels_from.simps [of p xs])
next
  case (Suc d)
  have lf: "levels_from p xs = xs # levels_from p (next_level p xs)"
    using Suc.prems one_less_power [of "2::nat" "Suc d"] by (simp add: levels_from.simps [of p xs])
  have IH: "levels_ok p (levels_from p (next_level p xs)) \<and> hd (levels_from p (next_level p xs)) = next_level p xs
      \<and> length (levels_from p (next_level p xs)) = Suc d"
    using Suc.prems by (intro Suc.IH) (simp add: length_next_level)
  then obtain ms where "levels_from p (next_level p xs) = next_level p xs # ms"
    by (cases "levels_from p (next_level p xs)") auto
  with IH Suc.prems show ?case by (simp add: lf length_next_level)
qed

lemma levels_ok_drop: "levels_ok p ls \<Longrightarrow> a < length ls \<Longrightarrow> levels_ok p (drop a ls)"
proof (induction a arbitrary: ls)
  case (Suc a)
  then obtain l m ls' where ls: "ls = l # m # ls'" by (cases ls rule: remdups_adj.cases) auto
  with Suc.prems levels_okD(3) have "levels_ok p (m # ls')" by blast
  with Suc.IH [of "m # ls'"] Suc.prems ls show ?case by simp
qed simp

lemma levels_ok_length: "levels_ok p ls \<Longrightarrow> length (hd ls) = 2 ^ (length ls - 1)"
  by (induction p ls rule: levels_ok.induct) auto

lemma levels_ok_nth: "levels_ok p ls \<Longrightarrow> a < length ls \<Longrightarrow> length (ls ! a) = 2 ^ (length ls - 1 - a)"
  using levels_ok_length [OF levels_ok_drop] by (simp add: hd_drop_conv_nth)

lemma build_ok:
  assumes "build p leaves = Inr t"
  shows "levels_ok p (levels t) \<and> length leaves \<le> 2 ^ tree_depth t \<and> hd (levels t) = pad_to (2 ^ tree_depth t) leaves
    \<and> length (levels t) = Suc (tree_depth t)"
proof -
  obtain d where d: "double_to (length leaves) 1 = 2 ^ d" "length leaves \<le> 2 ^ d"
    using double_to_power [of "length leaves" 0] by auto
  have "length (pad_to (2 ^ d) leaves) = 2 ^ d" using d(2) by (simp add: pad_to_def)
  from levels_from_ok [OF this, of p] d assms show ?thesis
    by (auto simp: build_def tree_depth_def split: if_splits)
qed

lemma ones_count_power [simp]: "ones_count (2 ^ a) = 1"
proof (induction a)
  case (Suc a)
  have "(2::nat) ^ Suc a div 2 = 2 ^ a" "(2::nat) ^ Suc a mod 2 = 0" "(2::nat) ^ Suc a \<noteq> 0" by simp_all
  with Suc show ?case by (subst ones_count.simps) simp
qed (simp add: ones_count.simps)

subsection \<open>What was built verifies\<close>

definition block_of :: "tree \<Rightarrow> nat \<Rightarrow> nat \<Rightarrow> bytes list" where
  "block_of t a b = take (2 ^ a) (drop (b * 2 ^ a) (hd (levels t)))"

lemma climb_complete:
  "levels_ok p ls \<Longrightarrow> idx < length (hd ls) \<Longrightarrow>
     climb_proof p (int idx) (hd ls ! idx) (proof_from ls idx) = hd (last ls)
     \<and> length (proof_from ls idx) = length ls - 1"
proof (induction p ls arbitrary: idx rule: levels_ok.induct)
  case (3 p l m ls)
  note lv = levels_okD [OF 3(2)]
  have m: "m = next_level p l" "length l = 2 * length m" and i: "idx div 2 < length m" using lv 3(3) by auto
  have IH: "climb_proof p (int (idx div 2)) (m ! (idx div 2)) (proof_from (m # ls) (idx div 2)) = hd (last (m # ls))
      \<and> length (proof_from (m # ls) (idx div 2)) = length ls"
    using 3(1) [of "idx div 2"] lv(3) i by simp
  have n: "m ! (idx div 2) = node p (l ! (2 * (idx div 2))) (l ! (2 * (idx div 2) + 1))"
  proof -
    have "idx div 2 < length l div 2" using i m(2) by simp
    from next_nth [OF this, of p] show ?thesis by (simp only: lv(2))
  qed
  have last: "last (l # m # ls) = last (m # ls)" by simp
  show ?case
  proof (cases "even idx")
    case True
    then obtain i where idx: "idx = 2 * i" by auto
    have "int idx mod 2 = 0" "int idx div 2 = int i" "idx div 2 = i" by (simp_all add: idx)
    with n IH last show ?thesis by (simp add: sibling_def idx del: last.simps)
  next
    case False
    then obtain i where idx: "idx = 2 * i + 1" using oddE by blast
    have "int idx mod 2 = 1" "int idx div 2 = int i" "idx div 2 = i" by (simp_all add: idx)
    with n IH last show ?thesis by (simp add: sibling_def idx del: last.simps)
  qed
next
  case (2 p l)
  then show ?case by (cases l) auto
qed simp

lemma slice_next:
  "next_level p (take (2 ^ Suc a) (drop (b * 2 ^ Suc a) l)) = take (2 ^ a) (drop (b * 2 ^ a) (next_level p l))"
  using next_level_take [of p "2 ^ a" "drop (2 * (b * 2 ^ a)) l"] next_level_drop [of p "b * 2 ^ a" l]
  by (simp add: mult.left_commute)

lemma collapse_step: "length xs = 2 ^ Suc a \<Longrightarrow> collapse p xs = collapse p (next_level p xs)"
  using one_less_power [of "2::nat" "Suc a"] by (simp add: collapse.simps [of p xs])

lemma slice_length: "(b::nat) < 2 ^ (n - a) \<Longrightarrow> a \<le> n \<Longrightarrow> length l = 2 ^ n \<Longrightarrow> length (take (2 ^ a) (drop (b * 2 ^ a) l)) = 2 ^ a"
proof -
  assume *: "b < 2 ^ (n - a)" "a \<le> n" "length l = 2 ^ n"
  have "Suc b * 2 ^ a \<le> 2 ^ (n - a) * 2 ^ a" using * by (intro mult_le_mono1) simp
  also have "\<dots> = (2::nat) ^ n" using * by (simp flip: power_add)
  finally show ?thesis using * by simp
qed

lemma collapse_slice:
  "levels_ok p ls \<Longrightarrow> a < length ls \<Longrightarrow> b < length (ls ! a) \<Longrightarrow>
     collapse p (take (2 ^ a) (drop (b * 2 ^ a) (hd ls))) = [ls ! a ! b]"
proof (induction a arbitrary: ls)
  case 0
  then obtain l ls' where ls: "ls = l # ls'" by (cases ls) auto
  with 0 have "take (Suc 0) (drop b l) = [l ! b]" by (simp add: take_Suc_conv_app_nth)
  with ls show ?case by (simp add: collapse.simps [of p "[l ! b]"])
next
  case (Suc a)
  then obtain l m ls' where ls: "ls = l # m # ls'" by (cases ls rule: remdups_adj.cases) auto
  have ll: "length l = 2 ^ (length ls - 1)" using levels_ok_length [OF Suc.prems(1)] ls by simp
  have bb: "b < 2 ^ (length ls - 1 - Suc a)" using Suc.prems levels_ok_nth [OF Suc.prems(1,2)] by simp
  have "length (take (2 ^ Suc a) (drop (b * 2 ^ Suc a) l)) = 2 ^ Suc a"
    by (rule slice_length [OF bb _ ll]) (use Suc.prems in simp)
  from collapse_step [OF this] have "collapse p (take (2 ^ Suc a) (drop (b * 2 ^ Suc a) l))
      = collapse p (take (2 ^ a) (drop (b * 2 ^ a) m))"
    using levels_okD(2) [OF Suc.prems(1) [unfolded ls]] by (simp add: slice_next del: power_Suc)
  also have "\<dots> = [ls ! Suc a ! b]"
    using Suc.IH [of "m # ls'"] levels_okD(3) [OF Suc.prems(1) [unfolded ls]] Suc.prems(2,3) ls by simp
  finally show ?case by (simp add: ls del: power_Suc)
qed

lemma block_proof_ok:
  assumes "build p leaves = Inr t" and "a \<le> tree_depth t" and "0 \<le> b" "b < 2 ^ (tree_depth t - a)"
  shows "\<exists>pf. block_proof t b a = Inr pf \<and> length pf = tree_depth t - a
    \<and> verify_block p (tree_root t) b (block_of t a (nat b)) pf"
proof -
  note ok = build_ok [OF assms(1)]
  define ls where "ls = drop a (levels t)"
  have al: "a < length (levels t)" using ok assms(2) by simp
  have lv: "levels_ok p ls" unfolding ls_def using ok al by (intro levels_ok_drop) simp_all
  have len: "length (levels t ! a) = 2 ^ (tree_depth t - a)" using levels_ok_nth [of p "levels t" a] ok al by simp
  have nb: "nat b < length (levels t ! a)" using assms(3,4) len by (simp add: nat_less_iff)
  have hd: "hd ls = levels t ! a" and last: "last ls = last (levels t)"
    using al by (simp_all add: ls_def hd_drop_conv_nth)
  have cl: "climb_proof p b (levels t ! a ! nat b) (proof_from ls (nat b)) = tree_root t
      \<and> length (proof_from ls (nat b)) = tree_depth t - a"
    using climb_complete [OF lv, of "nat b"] nb assms(3) ok by (simp add: hd last tree_root_def) (simp add: ls_def)
  have "block_proof t b a = Inr (proof_from ls (nat b))"
    using assms(2-4) len by (simp add: block_proof_def ls_def)
  moreover have "collapse p (block_of t a (nat b)) = [levels t ! a ! nat b]"
    unfolding block_of_def using ok al nb by (intro collapse_slice) simp_all
  moreover have "length (block_of t a (nat b)) = 2 ^ a"
    unfolding block_of_def
    by (rule slice_length [of _ "tree_depth t"])
      (use assms(2) nb len ok levels_ok_length [of p "levels t"] in simp_all)
  ultimately show ?thesis using cl by (auto simp: verify_block_def)
qed

lemma build_width:
  assumes "build p leaves = Inr t"
  shows "2 ^ tree_depth t = double_to (length leaves) 1"
proof -
  obtain d where d: "double_to (length leaves) 1 = 2 ^ d" "length leaves \<le> 2 ^ d"
    using double_to_power [of "length leaves" 0] by auto
  have "length (pad_to (2 ^ d) leaves) = 2 ^ d" using d(2) by (simp add: pad_to_def)
  from levels_from_ok [OF this, of p] d assms show ?thesis
    by (auto simp: build_def tree_depth_def split: if_splits)
qed

subsection \<open>What verifies was built\<close>

text \<open>The preimages hashed while verifying, and while building.\<close>

fun climb_inputs :: "platform \<Rightarrow> int \<Rightarrow> bytes \<Rightarrow> bytes list \<Rightarrow> bytes list" where
  "climb_inputs p idx acc [] = []"
| "climb_inputs p idx acc (s # ss) =
     (let v = (if idx mod 2 = 0 then node_input acc s else node_input s acc)
      in v # climb_inputs p (idx div 2) (sha256 p v) ss)"

fun level_inputs :: "bytes list \<Rightarrow> bytes list" where
  "level_inputs (x # y # r) = node_input x y # level_inputs r"
| "level_inputs _ = []"

definition tree_inputs :: "bytes list list \<Rightarrow> bytes list" where
  "tree_inputs ls = concat (map level_inputs ls)"

definition verify_inputs :: "platform \<Rightarrow> int \<Rightarrow> bytes list \<Rightarrow> bytes list \<Rightarrow> bytes list" where
  "verify_inputs p block leaves pf =
     tree_inputs (levels_from p leaves) @ climb_inputs p block (hd (collapse p leaves)) pf"

text \<open>Two different preimages with one hash, the first among \<open>us\<close>, the second among \<open>vs\<close>.\<close>

definition collide :: "platform \<Rightarrow> bytes list \<Rightarrow> bytes list \<Rightarrow> bool" where
  "collide p us vs \<longleftrightarrow> (\<exists>u \<in> set us. \<exists>v \<in> set vs. u \<noteq> v \<and> sha256 p u = sha256 p v)"

lemma collide_mono: "collide p us vs \<Longrightarrow> set us \<subseteq> set us' \<Longrightarrow> set vs \<subseteq> set vs' \<Longrightarrow> collide p us' vs'"
  unfolding collide_def by blast

definition sized :: "bytes list \<Rightarrow> bool" where
  "sized xs \<longleftrightarrow> (\<forall>x \<in> set xs. length x = 32)"

lemma node_input_inj [simp]: "length l = length l' \<Longrightarrow> node_input l r = node_input l' r' \<longleftrightarrow> l = l' \<and> r = r'"
  by (simp add: node_input_def)

lemma level_inputs_nth: "i < length xs div 2 \<Longrightarrow> node_input (xs ! (2 * i)) (xs ! (2 * i + 1)) \<in> set (level_inputs xs)"
proof (induction xs arbitrary: i rule: level_inputs.induct)
  case (1 x y r)
  then show ?case by (cases i) auto
qed auto

lemma level_inputs_slice: "set (level_inputs (take (2 * k) (drop (2 * j) xs))) \<subseteq> set (level_inputs xs)"
proof -
  have d: "set (level_inputs (drop (2 * j) ys)) \<subseteq> set (level_inputs ys)" for ys
  proof (induction j arbitrary: ys)
    case (Suc j)
    then show ?case by (cases ys rule: level_inputs.cases) auto
  qed simp
  have "set (level_inputs (take (2 * k) ys)) \<subseteq> set (level_inputs ys)" for ys
  proof (induction k arbitrary: ys)
    case (Suc k)
    then show ?case by (cases ys rule: level_inputs.cases) auto
  qed simp
  from subset_trans [OF this d] show ?thesis .
qed

lemma next_level_sound:
  "length xs = length ys \<Longrightarrow> even (length xs) \<Longrightarrow> sized xs \<Longrightarrow> sized ys \<Longrightarrow> next_level p xs = next_level p ys \<Longrightarrow>
     xs = ys \<or> collide p (level_inputs xs) (level_inputs ys)"
proof (induction xs arbitrary: ys rule: level_inputs.induct)
  case (1 x y r)
  then obtain x' y' r' where ys: "ys = x' # y' # r'" by (cases ys rule: level_inputs.cases) auto
  show ?case
  proof (cases "node_input x y = node_input x' y'")
    case False
    with 1 ys show ?thesis by (auto simp: collide_def node_def)
  next
    case True
    with 1 ys have "x = x' \<and> y = y'" by (simp add: sized_def)
    moreover have "r = r' \<or> collide p (level_inputs r) (level_inputs r')"
      using 1 ys by (intro 1(1)) (auto simp: sized_def)
    ultimately show ?thesis
      using ys collide_mono [of p "level_inputs r" "level_inputs r'" "level_inputs (x # y # r)" "level_inputs ys"] by auto
  qed
qed auto

lemma sized_next:
  assumes "\<forall>b. length (sha256 p b) = 32"
  shows "sized (next_level p xs)"
  using assms by (induction p xs rule: next_level.induct) (auto simp: sized_def node_def)

lemma levels_sized:
  "levels_ok p ls \<Longrightarrow> \<forall>b. length (sha256 p b) = 32 \<Longrightarrow> sized (hd ls) \<Longrightarrow> l \<in> set ls \<Longrightarrow> sized l"
proof (induction p ls rule: levels_ok.induct)
  case (3 p l' m ls)
  note lv = levels_okD [OF 3(2)]
  have "sized m" using sized_next [OF 3(3), of l'] by (simp only: lv(2))
  with 3(1) [OF lv(3) 3(3)] 3(4,5) show ?case by auto
qed auto

lemma collapse_sized:
  assumes "\<forall>b. length (sha256 p b) = 32"
  shows "sized ys \<Longrightarrow> ys \<noteq> [] \<Longrightarrow> sized (collapse p ys) \<and> collapse p ys \<noteq> []"
proof (induction "length ys" arbitrary: ys rule: less_induct)
  case less
  show ?case
  proof (cases "1 < length ys")
    case True
    then have "length (next_level p ys) < length ys" "next_level p ys \<noteq> []"
      using length_next_level [of p ys] by auto
    with less.hyps [of "next_level p ys"] sized_next [OF assms, of ys] True show ?thesis
      by (simp add: collapse.simps [of p ys])
  next
    case False
    with less.prems show ?thesis by (simp add: collapse.simps [of p ys])
  qed
qed

text \<open>Climbing: a value that reaches the root is the node of the tree at its place, or there is a collision.\<close>

lemma climb_sound:
  assumes len: "\<forall>b. length (sha256 p b) = 32"
  shows "levels_ok q ls \<Longrightarrow> q = p \<Longrightarrow> sized (hd ls) \<Longrightarrow> length acc = 32 \<Longrightarrow> sized pf \<Longrightarrow> length ls = Suc (length pf) \<Longrightarrow>
    climb_proof p idx acc pf = hd (last ls) \<Longrightarrow>
    acc = hd ls ! nat (idx mod 2 ^ length pf) \<or> collide p (climb_inputs p idx acc pf) (tree_inputs ls)"
proof (induction q ls arbitrary: idx acc pf rule: levels_ok.induct)
  case (2 q l)
  then show ?case by (cases l) auto
next
  case (3 q l m ls)
  note lv = levels_okD [OF 3(2)]
  obtain s ss where pf: "pf = s # ss" using 3(7) by (cases pf) auto
  define v where "v = (if idx mod 2 = 0 then node_input acc s else node_input s acc)"
  have last: "last (l # m # ls) = last (m # ls)" by simp
  have cl: "climb_proof p (idx div 2) (sha256 p v) ss = hd (last (m # ls))"
    using 3(8) pf last unfolding v_def by (cases "idx mod 2 = 0") (simp_all add: node_def)
  define i where "i = nat ((idx div 2) mod 2 ^ length ss)"
  have ml: "length m = 2 ^ length ss" using levels_ok_length [OF lv(3)] 3(7) pf by simp
  have im: "i < length m" unfolding ml i_def by (simp add: nat_less_iff)
  have il: "i < length l div 2" using im lv(1) by simp
  have "m ! i = node q (l ! (2 * i)) (l ! (2 * i + 1))"
    using next_nth [OF il, of q] by (simp only: lv(2))
  then have mi: "m ! i = sha256 p (node_input (l ! (2 * i)) (l ! (2 * i + 1)))"
    by (simp only: node_def 3(3))
  have "sized (next_level q l)" using sized_next [of q l] len 3(3) by simp
  then have sm: "sized m" by (simp only: lv(2))
  have "sized l" using 3(4) by simp
  then have sl: "length (l ! (2 * i)) = 32" "length (l ! (2 * i + 1)) = 32" using il by (auto simp: sized_def)
  have IH: "sha256 p v = m ! i \<or> collide p (climb_inputs p (idx div 2) (sha256 p v) ss) (tree_inputs (m # ls))"
    using 3(1) [OF lv(3) 3(3) _ _ _ _ cl] sm len 3(6,7) pf by (simp add: i_def sized_def)
  have vin: "v \<in> set (climb_inputs p idx acc pf)"
    and cin: "set (climb_inputs p (idx div 2) (sha256 p v) ss) \<subseteq> set (climb_inputs p idx acc pf)"
    by (auto simp: pf v_def Let_def)
  have tin: "node_input (l ! (2 * i)) (l ! (2 * i + 1)) \<in> set (tree_inputs (l # m # ls))"
    "set (tree_inputs (m # ls)) \<subseteq> set (tree_inputs (l # m # ls))"
    using level_inputs_nth [OF il] by (auto simp: tree_inputs_def)
  show ?case
  proof (cases "collide p (climb_inputs p idx acc pf) (tree_inputs (l # m # ls))")
    case False
    then have "sha256 p v = m ! i" using IH collide_mono cin tin(2) by blast
    with False vin tin(1) mi have v: "v = node_input (l ! (2 * i)) (l ! (2 * i + 1))"
      unfolding collide_def by metis
    have pos: "nat (idx mod 2 ^ length pf) = 2 * i + nat (idx mod 2)"
      using pf zmod_zmult2_eq [of "2 ^ length ss" idx 2] by (simp add: i_def nat_add_distrib nat_mult_distrib)
    have "acc = l ! (2 * i + nat (idx mod 2))"
    proof (cases "idx mod 2 = 0")
      case True
      with v sl 3(5) show ?thesis by (simp add: v_def)
    next
      case no: False
      then have "nat (idx mod 2) = 1" by (simp add: not_mod_2_eq_0_eq_1)
      moreover have "length s = 32" using 3(6) pf by (simp add: sized_def)
      ultimately show ?thesis using v sl no by (simp add: v_def)
    qed
    then show ?thesis by (simp add: pos)
  qed simp
qed simp

text \<open>Collapsing a block: whatever collapses to a node of the tree is the block below it.\<close>

lemma collapse_sound:
  assumes len: "\<forall>b. length (sha256 p b) = 32"
  shows "levels_ok p ls \<Longrightarrow> sized (hd ls) \<Longrightarrow> a < length ls \<Longrightarrow> b < length (ls ! a) \<Longrightarrow> sized xs \<Longrightarrow>
    length xs = 2 ^ a \<Longrightarrow> hd (collapse p xs) = ls ! a ! b \<Longrightarrow>
    xs = take (2 ^ a) (drop (b * 2 ^ a) (hd ls)) \<or> collide p (tree_inputs (levels_from p xs)) (tree_inputs ls)"
proof (induction a arbitrary: ls xs)
  case 0
  then obtain x l ls' where xs: "xs = [x]" "ls = l # ls'" by (cases xs; cases ls) auto
  with 0 show ?case by (simp add: collapse.simps [of p "[x]"] take_Suc_conv_app_nth)
next
  case (Suc a)
  then obtain l m ls' where ls: "ls = l # m # ls'" by (cases ls rule: remdups_adj.cases) auto
  note lv = levels_okD [OF Suc.prems(1) [unfolded ls]]
  let ?ys = "take (2 ^ Suc a) (drop (b * 2 ^ Suc a) l)"
  have ll: "length l = 2 ^ (length ls - 1)" using levels_ok_length [OF Suc.prems(1)] ls by simp
  have bb: "b < 2 ^ (length ls - 1 - Suc a)" using Suc.prems levels_ok_nth [OF Suc.prems(1,3)] by simp
  have ylen: "length ?ys = 2 ^ Suc a" by (rule slice_length [OF bb _ ll]) (use Suc.prems in simp)
  have "sized l" using Suc.prems(2) ls by simp
  then have ysz: "sized ?ys" unfolding sized_def by (meson in_set_dropD in_set_takeD)
  have xf: "levels_from p xs = xs # levels_from p (next_level p xs)"
    using Suc.prems(6) one_less_power [of "2::nat" "Suc a"] by (simp add: levels_from.simps [of p xs])
  have "next_level p xs = take (2 ^ a) (drop (b * 2 ^ a) m) \<or>
      collide p (tree_inputs (levels_from p (next_level p xs))) (tree_inputs (m # ls'))"
  proof -
    have "sized m" using sized_next [OF len, of l] by (simp only: lv(2))
    then have sm: "sized (hd (m # ls'))" by simp
    have ix: "a < length (m # ls')" "b < length ((m # ls') ! a)"
      using Suc.prems(3,4) by (simp_all add: ls)
    have lx: "length (next_level p xs) = 2 ^ a" by (simp add: length_next_level Suc.prems(6))
    have "hd (collapse p (next_level p xs)) = (m # ls') ! a ! b"
      using Suc.prems(7) unfolding collapse_step [OF Suc.prems(6)] by (simp add: ls)
    from Suc.IH [OF lv(3) sm ix sized_next [OF len] lx this] show ?thesis by (simp only: list.sel)
  qed
  moreover have "take (2 ^ a) (drop (b * 2 ^ a) m) = next_level p ?ys"
    unfolding slice_next by (simp only: lv(2))
  moreover have "set (level_inputs ?ys) \<subseteq> set (tree_inputs ls)"
    using level_inputs_slice [of "2 ^ a" "b * 2 ^ a" l] by (auto simp: tree_inputs_def ls mult.left_commute)
  moreover have sub: "set (tree_inputs (levels_from p (next_level p xs))) \<subseteq> set (tree_inputs (levels_from p xs))"
      "set (level_inputs xs) \<subseteq> set (tree_inputs (levels_from p xs))" "set (tree_inputs (m # ls')) \<subseteq> set (tree_inputs ls)"
    unfolding xf ls by (auto simp: tree_inputs_def)
  moreover have "xs = ?ys \<or> collide p (level_inputs xs) (level_inputs ?ys)" if "next_level p xs = next_level p ?ys"
    by (rule next_level_sound [OF _ _ Suc.prems(5) ysz that]) (use Suc.prems(6) ylen in simp_all)
  ultimately have "xs = ?ys \<or> collide p (tree_inputs (levels_from p xs)) (tree_inputs ls)"
    using collide_mono by metis
  then show ?case by (simp only: ls list.sel)
qed

subsection \<open>A demo tree\<close>

text \<open>A stand-in for the hash that keeps 32 bytes of its input: enough to tell the demo's leaves apart.\<close>

definition demo_hash :: platform where
  "demo_hash = \<lparr>sha256 = (\<lambda>b. take 32 (drop 1 b @ replicate 32 (CHR 0x00))), rfc3339nano = show_int\<rparr>"

definition demo_leaves :: "bytes list" where
  "demo_leaves = map (leaf_hash demo_hash) [''a'', ''b'', ''c'']"

definition demo_tree :: tree where
  "demo_tree = (case build demo_hash demo_leaves of Inr t \<Rightarrow> t | Inl _ \<Rightarrow> \<lparr>levels = []\<rparr>)"

lemma demo_build: "build demo_hash demo_leaves = Inr demo_tree"
  unfolding demo_tree_def by (simp add: build_def demo_leaves_def)

lemma demo_tree_simps: "tree_depth demo_tree = 2"
    "block_of demo_tree 1 1 = [leaf_hash demo_hash ''c'', pad_leaf]"
    "sized demo_leaves"
  by code_simp+

subsection \<open>Properties\<close>

text \<open>
  Every block of the run can be proved. For a tree that was built and any block of it, \<open>BlockProof\<close>
  answers with one hash per level above the block, and \<open>VerifyBlock\<close> accepts it for the leaves of that
  block, pads included.
\<close>

theorem block_proof_verifies:
  assumes "build p leaves = Inr t" and "a \<le> tree_depth t" and "0 \<le> b" "b < 2 ^ (tree_depth t - a)"
  shows "\<exists>pf. block_proof t b a = Inr pf \<and> length pf = tree_depth t - a
    \<and> verify_block p (tree_root t) b (block_of t a (nat b)) pf"
  by (rule block_proof_ok [OF assms])

theorem block_proof_verifies_witness:
  "\<exists>pf. block_proof demo_tree 1 1 = Inr pf \<and> length pf = 1
     \<and> verify_block demo_hash (tree_root demo_tree) 1 [leaf_hash demo_hash ''c'', pad_leaf] pf"
  using block_proof_verifies [OF demo_build, of 1 1] demo_tree_simps by simp



end
