(* ===== verification/Bulk.thy ===== *)
theory Bulk
  imports Payment_Ref Merkle
begin

section \<open>Bulk: a payout run cut into transactions that fit\<close>

text \<open>
  Models \<open>internal/bulk\<close>: payouts, batches, plans and their text (\<open>bulk.go\<close>), the four chains' limits and
  \<open>MaxItems\<close> (\<open>limits.go\<close>), and \<open>Pack\<close> with the greedy cut, the cut aligned to merkle blocks and the
  prepare batches (\<open>pack.go\<close>). Resources are \<open>uint64\<close> and added as such, so an absurd rule wraps here as it
  does in Go; \<open>rule_sane\<close> says when it does not. Item counts, batch numbers and levels, which are bounded by the
  length of a slice, are natural numbers, and \<open>Align\<close> is read as one (the code's \<open>int(l.Align)\<close>, for \<open>Align\<close>
  below \<open>2^63\<close>).
\<close>

subsection \<open>Payouts, batches, plans\<close>

record payout =
  po_ref :: ref
  po_merchant :: string
  po_amount :: "int option"
  po_new_token_account :: bool

record usage =
  us_unit :: string
  us_used :: u64
  us_cap :: u64

record batch =
  bt_index :: nat
  bt_items :: "payout list"
  bt_used :: "usage list"
  bt_prep :: bool
  bt_new_accounts :: nat

record bulk_plan =
  bp_chain :: string
  bp_payouts :: nat
  bp_prepare :: "batch list"
  bp_batches :: "batch list"
  bp_levels :: nat
  bp_proof_hashes :: nat
  bp_new_accounts :: nat
  bp_rent :: u64
  bp_rent_unit :: string

text \<open>The sentinel errors with the numbers of their messages.\<close>

datatype too_large =
    PayoutTooLarge nat u64 string u64
  | ProofTooLarge u64 string u64
  | AccountTooLarge nat u64 string u64

datatype bulk_error =
    ErrEmptyRun
  | ErrNoRules string
  | ErrItemTooLarge too_large
  | ErrBulkBlockTooLarge nat u64 string u64

definition plural :: "nat \<Rightarrow> string \<Rightarrow> string \<Rightarrow> string" where
  "plural n one many = (if n = 1 then one else many)"

fun insert_commas :: "string \<Rightarrow> nat \<Rightarrow> string" where
  "insert_commas s i = (if i = 0 then s else insert_commas (take i s @ '','' @ drop i s) (i - 3))"

declare insert_commas.simps [simp del]

definition thousands :: "u64 \<Rightarrow> string" where
  "thousands n = (let s = show_nat (unat n) in insert_commas s (length s - 3))"

definition bulk_plan_text :: "bulk_plan \<Rightarrow> string" where
  "bulk_plan_text p =
     ''plan    '' @ pad_right 8 (bp_chain p) @ '' '' @ show_nat (bp_payouts p) @ '' payouts  '' @
     show_nat (length (bp_batches p)) @ '' '' @ plural (length (bp_batches p)) ''batch'' ''batches'' @ ''  '' @
     show_nat (bp_new_accounts p) @ '' new accounts  rent '' @ thousands (bp_rent p) @ '' '' @ bp_rent_unit p"

definition bulk_tree_text :: "bulk_plan \<Rightarrow> string" where
  "bulk_tree_text p =
     (if bp_levels p = 0 then ''''
      else ''tree    '' @ show_nat (2 ^ bp_levels p) @ '' leaves  depth '' @ show_nat (bp_levels p) @ ''  proof '' @
        show_nat (bp_proof_hashes p) @ '' '' @ plural (bp_proof_hashes p) ''hash'' ''hashes'' @ '' per batch'')"

fun join_two :: "string list \<Rightarrow> string" where
  "join_two [] = ''''"
| "join_two [s] = s"
| "join_two (s # ss) = s @ ''  '' @ join_two ss"

definition batch_text :: "batch \<Rightarrow> string" where
  "batch_text b =
     (let parts = join_two (map (\<lambda>u. us_unit u @ '' '' @ thousands (us_used u) @ ''/'' @ thousands (us_cap u)) (bt_used b)) in
      if bt_prep b
      then ''prep    #'' @ pad_right 7 (show_nat (bt_index b)) @ '' '' @ show_nat (length (bt_items b)) @ '' accounts  '' @ parts
      else ''batch   #'' @ pad_right 7 (show_nat (bt_index b)) @ '' '' @ show_nat (length (bt_items b)) @ '' items  '' @ parts)"

subsection \<open>Limits\<close>

record rul =
  ru_unit :: string
  ru_cap :: u64
  ru_base :: u64
  ru_item :: u64
  ru_per_level :: u64
  ru_source :: string

record limits =
  li_chain :: string
  li_rules :: "rul list"
  li_align :: nat
  li_prepare_rules :: "rul list"
  li_new_account_rent :: u64
  li_rent_unit :: string

definition resource :: "string \<Rightarrow> u64 \<Rightarrow> u64 \<Rightarrow> u64 \<Rightarrow> u64 \<Rightarrow> string \<Rightarrow> rul" where
  "resource u cap b i lvl src = \<lparr>ru_unit = u, ru_cap = cap, ru_base = b, ru_item = i, ru_per_level = lvl, ru_source = src\<rparr>"

definition evm_limits :: limits where
  "evm_limits = \<lparr>li_chain = ''evm'',
     li_rules = [resource ''gas'' 30000000 37310 53220 0 ''https://ethereum.org/en/developers/docs/blocks/#block-size''],
     li_align = 0, li_prepare_rules = [], li_new_account_rent = 0, li_rent_unit = ''wei''\<rparr>"

definition solana_limits :: limits where
  "solana_limits = \<lparr>li_chain = ''solana'',
     li_rules = [resource ''bytes'' 1232 280 73 32 ''https://solana.com/docs/core/transactions/transaction-structure'',
                 resource ''accounts'' 64 5 1 0 ''https://solana.com/docs/advanced/lookup-tables''],
     li_align = 8,
     li_prepare_rules = [resource ''bytes'' 1232 262 74 0 ''https://www.solana-program.com/docs/associated-token-account'',
                         resource ''accounts'' 64 5 2 0 ''https://solana.com/docs/advanced/lookup-tables''],
     li_new_account_rent = 2039280, li_rent_unit = ''lamports''\<rparr>"

definition ton_limits :: limits where
  "ton_limits = \<lparr>li_chain = ''ton'',
     li_rules = [resource ''messages'' 255 0 1 0 ''https://docs.ton.org/contracts/standard/wallets/comparison'',
                 resource ''bytes'' 65535 142 194 0 ''https://docs.ton.org/foundations/limits'',
                 resource ''depth'' 512 3 1 0 ''https://docs.ton.org/foundations/limits''],
     li_align = 0, li_prepare_rules = [], li_new_account_rent = 0, li_rent_unit = ''nanoton''\<rparr>"

definition sui_limits :: limits where
  "sui_limits = \<lparr>li_chain = ''sui'',
     li_rules = [resource ''commands'' 1024 1 1 0 ''https://docs.sui.io/concepts/transactions/prog-txn-blocks'',
                 resource ''bytes'' 131072 317 190 0
                   ''https://github.com/MystenLabs/sui/blob/mainnet-v1.78.1/crates/sui-protocol-config/src/lib.rs'',
                 resource ''objects'' 2048 0 2 0
                   ''https://github.com/MystenLabs/sui/blob/mainnet-v1.78.1/crates/sui-protocol-config/src/lib.rs''],
     li_align = 0, li_prepare_rules = [], li_new_account_rent = 0, li_rent_unit = ''mist''\<rparr>"

definition bulk_defaults :: "string \<Rightarrow> limits option" where
  "bulk_defaults = [''evm'' \<mapsto> evm_limits, ''solana'' \<mapsto> solana_limits, ''ton'' \<mapsto> ton_limits, ''sui'' \<mapsto> sui_limits]"

text \<open>The loop of \<open>MaxItems\<close>: \<open>best\<close> so far, -1 for none; the inner \<open>return 0\<close> ends it.\<close>

fun max_items_loop :: "rul list \<Rightarrow> int \<Rightarrow> int option" where
  "max_items_loop [] best = Some best"
| "max_items_loop (r # rs) best =
     (if ru_item r = 0 then max_items_loop rs best
      else if ru_cap r < ru_base r then None
      else let n = sint ((ru_cap r - ru_base r) div ru_item r)
           in max_items_loop rs (if best < 0 \<or> n < best then n else best))"

definition max_items :: "limits \<Rightarrow> int" where
  "max_items l =
     (case max_items_loop (li_rules l) (- 1) of
        None \<Rightarrow> 0
      | Some best \<Rightarrow>
          if best < 0 then 0
          else if li_align l > 0 \<and> best > int (li_align l) then int (li_align l) else best)"

subsection \<open>Pack\<close>

definition fits_rules :: "u64 list \<Rightarrow> rul list \<Rightarrow> bool" where
  "fits_rules used rules \<longleftrightarrow> list_all (\<lambda>(u, r). \<not> (ru_base r + u + ru_item r > ru_cap r)) (zip used rules)"

definition seal_batch :: "bool \<Rightarrow> nat \<Rightarrow> payout list \<Rightarrow> u64 list \<Rightarrow> rul list \<Rightarrow> nat \<Rightarrow> batch" where
  "seal_batch prep fresh items used rules index =
     \<lparr>bt_index = index, bt_items = items,
      bt_used = map (\<lambda>(u, r). \<lparr>us_unit = ru_unit r, us_used = ru_base r + u, us_cap = ru_cap r\<rparr>) (zip used rules),
      bt_prep = prep, bt_new_accounts = fresh\<rparr>"

definition no_usage :: "rul list \<Rightarrow> u64 list" where
  "no_usage rules = map (\<lambda>_. 0) rules"

definition add_item :: "u64 list \<Rightarrow> rul list \<Rightarrow> u64 list" where
  "add_item used rules = map (\<lambda>(u, r). u + ru_item r) (zip used rules)"

text \<open>
  The loop over items of \<open>packGreedy\<close>, with the item's number, the open batch and its usage. \<open>packPrepare\<close> runs
  the same loop over the accounts to create, with its own rules and its own error and seal.
\<close>

fun pack_loop :: "bool \<Rightarrow> rul list \<Rightarrow> nat \<Rightarrow> payout list \<Rightarrow> batch list \<Rightarrow> payout list \<Rightarrow> u64 list
    \<Rightarrow> bulk_error + batch list" where
  "pack_loop prep rules i [] done cur used =
     Inr (done @ [seal_batch prep (if prep then length cur else 0) cur used rules (length done + 1)])"
| "pack_loop prep rules i (it # its) done cur used =
     (case find (\<lambda>r. ru_base r + ru_item r > ru_cap r) rules of
        Some r \<Rightarrow> Inl (ErrItemTooLarge
          (if prep then AccountTooLarge i (ru_base r + ru_item r) (ru_unit r) (ru_cap r)
           else PayoutTooLarge i (ru_base r + ru_item r) (ru_unit r) (ru_cap r)))
      | None \<Rightarrow>
          if cur \<noteq> [] \<and> \<not> fits_rules used rules
          then pack_loop prep rules (i + 1) its
                 (done @ [seal_batch prep (if prep then length cur else 0) cur used rules (length done + 1)])
                 [it] (add_item (no_usage rules) rules)
          else pack_loop prep rules (i + 1) its done (cur @ [it]) (add_item used rules))"

definition pack_greedy :: "payout list \<Rightarrow> limits \<Rightarrow> bulk_error + batch list" where
  "pack_greedy items l = pack_loop False (li_rules l) 0 items [] [] (no_usage (li_rules l))"

fun bits_len :: "nat \<Rightarrow> nat" where
  "bits_len n = (if n = 0 then 0 else Suc (bits_len (n div 2)))"

declare bits_len.simps [simp del]

definition aligned_overhead :: "nat \<Rightarrow> rul \<Rightarrow> u64" where
  "aligned_overhead hashes r = ru_base r + of_nat hashes * ru_per_level r"

fun aligned_check :: "nat \<Rightarrow> nat \<Rightarrow> rul list \<Rightarrow> bulk_error option" where
  "aligned_check align hashes [] = None"
| "aligned_check align hashes (r # rs) =
     (let o1 = aligned_overhead hashes r in
      if o1 + ru_item r > ru_cap r then Some (ErrItemTooLarge (ProofTooLarge (o1 + ru_item r) (ru_unit r) (ru_cap r)))
      else if o1 + of_nat align * ru_item r > ru_cap r
        then Some (ErrBulkBlockTooLarge align (o1 + of_nat align * ru_item r) (ru_unit r) (ru_cap r))
      else aligned_check align hashes rs)"

definition aligned_batch :: "rul list \<Rightarrow> nat \<Rightarrow> nat \<Rightarrow> payout list \<Rightarrow> batch" where
  "aligned_batch rules hashes index items =
     \<lparr>bt_index = index, bt_items = items,
      bt_used = map (\<lambda>r. \<lparr>us_unit = ru_unit r, us_used = aligned_overhead hashes r + of_nat (length items) * ru_item r,
                          us_cap = ru_cap r\<rparr>) rules,
      bt_prep = False, bt_new_accounts = 0\<rparr>"

function aligned_loop :: "rul list \<Rightarrow> nat \<Rightarrow> nat \<Rightarrow> nat \<Rightarrow> payout list \<Rightarrow> batch list" where
  "aligned_loop rules hashes align index items =
     (if items = [] \<or> align = 0 then []
      else aligned_batch rules hashes index (take align items)
             # aligned_loop rules hashes align (index + 1) (drop align items))"
  by pat_completeness auto
termination by (relation "measure (\<lambda>(rules, hashes, align, index, items). length items)") auto

declare aligned_loop.simps [simp del]

definition pack_aligned :: "payout list \<Rightarrow> limits \<Rightarrow> bulk_error + (nat \<times> nat \<times> batch list)" where
  "pack_aligned items l =
     (let align = li_align l;
          width = double_to (length items) align;
          lvls = bits_len width - 1;
          hashes = lvls - (bits_len align - 1)
      in case aligned_check align hashes (li_rules l) of
          Some e \<Rightarrow> Inl e
        | None \<Rightarrow> Inr (lvls, hashes, aligned_loop (li_rules l) hashes align 1 items))"

definition pack_prepare :: "payout list \<Rightarrow> limits \<Rightarrow> bulk_error + (nat \<times> batch list)" where
  "pack_prepare items l =
     (let creations = filter po_new_token_account items in
      if li_prepare_rules l = [] \<or> creations = [] then Inr (length creations, [])
      else case pack_loop True (li_prepare_rules l) 0 creations [] [] (no_usage (li_prepare_rules l)) of
          Inl e \<Rightarrow> Inl e
        | Inr bs \<Rightarrow> Inr (length creations, bs))"

definition pack :: "payout list \<Rightarrow> limits \<Rightarrow> bulk_error + bulk_plan" where
  "pack items l =
     (if items = [] then Inl ErrEmptyRun
      else if li_rules l = [] then Inl (ErrNoRules (li_chain l))
      else case (if li_align l = 0
                 then (case pack_greedy items l of Inl e \<Rightarrow> Inl e | Inr bs \<Rightarrow> Inr (0, 0, bs))
                 else pack_aligned items l) of
          Inl e \<Rightarrow> Inl e
        | Inr (lvls, hashes, batches) \<Rightarrow>
            (case pack_prepare items l of
               Inl e \<Rightarrow> Inl e
             | Inr (fresh, prepare) \<Rightarrow>
                 Inr \<lparr>bp_chain = li_chain l, bp_payouts = length items, bp_prepare = prepare, bp_batches = batches,
                      bp_levels = lvls, bp_proof_hashes = hashes, bp_new_accounts = fresh,
                      bp_rent = of_nat fresh * li_new_account_rent l, bp_rent_unit = li_rent_unit l\<rparr>))"

subsection \<open>Arithmetic without wrap-around\<close>

lemma uint_linear:
  assumes "uint b + int n * uint i < 2 ^ 64"
  shows "uint ((b :: u64) + of_nat n * i) = uint b + int n * uint i"
proof -
  have "b + of_nat n * i = word_of_int (uint b + int n * uint i)" by simp
  then have "uint (b + of_nat n * i) = (uint b + int n * uint i) mod 2 ^ 64"
    by (simp only: uint_word_of_int) simp
  with assms show ?thesis by simp
qed

text \<open>\<open>room rs n\<close>: \<open>n\<close> items and the fixed costs stay within every cap, in exact arithmetic.\<close>

definition room :: "rul list \<Rightarrow> nat \<Rightarrow> bool" where
  "room rs n \<longleftrightarrow> (\<forall>r \<in> set rs. uint (ru_base r) + int n * uint (ru_item r) \<le> uint (ru_cap r))"

definition rules_sane :: "rul list \<Rightarrow> bool" where
  "rules_sane rs \<longleftrightarrow> (\<forall>r \<in> set rs. uint (ru_cap r) + uint (ru_item r) < 2 ^ 64 \<and> uint (ru_base r) + uint (ru_item r) < 2 ^ 64)"

definition used_of :: "nat \<Rightarrow> rul list \<Rightarrow> u64 list" where
  "used_of n rs = map (\<lambda>r. of_nat n * ru_item r) rs"

lemma used_of_simps [simp]: "no_usage rs = used_of 0 rs" "add_item (used_of n rs) rs = used_of (Suc n) rs"
  by (simp_all add: no_usage_def used_of_def add_item_def zip_map1 zip_same_conv_map distrib_right)

lemma room_mono: "room rs n \<Longrightarrow> m \<le> n \<Longrightarrow> room rs m"
  unfolding room_def by (smt (verit) mult_right_mono of_nat_le_iff uint_ge_0)

lemma next_fits:
  assumes "rules_sane rs" "room rs n"
  shows "fits_rules (used_of n rs) rs \<longleftrightarrow> room rs (Suc n)"
proof -
  have "\<not> (ru_base r + of_nat n * ru_item r + ru_item r > ru_cap r)
      \<longleftrightarrow> uint (ru_base r) + int (Suc n) * uint (ru_item r) \<le> uint (ru_cap r)" if r: "r \<in> set rs" for r
  proof -
    have b: "uint (ru_base r) + int (Suc n) * uint (ru_item r) < 2 ^ 64"
      using assms r by (fastforce simp: rules_sane_def room_def distrib_right)
    have "ru_base r + of_nat n * ru_item r + ru_item r = ru_base r + of_nat (Suc n) * ru_item r"
      by (simp add: distrib_right)
    then show ?thesis using uint_linear [OF b] by (simp only: word_less_def not_less)
  qed
  then show ?thesis
    by (auto simp: fits_rules_def used_of_def room_def zip_map1 zip_same_conv_map list_all_iff)
qed

lemma first_fits:
  assumes "rules_sane rs"
  shows "find (\<lambda>r. ru_base r + ru_item r > ru_cap r) rs = None \<longleftrightarrow> room rs 1"
proof -
  have "(ru_base r + ru_item r > ru_cap r) \<longleftrightarrow> \<not> uint (ru_base r) + uint (ru_item r) \<le> uint (ru_cap r)" if r: "r \<in> set rs" for r
  proof -
    have "uint (ru_base r) + int 1 * uint (ru_item r) < 2 ^ 64" using assms r by (simp add: rules_sane_def)
    from uint_linear [OF this] show ?thesis by (simp add: word_less_def not_le)
  qed
  then show ?thesis by (auto simp: find_None_iff room_def)
qed

subsection \<open>The greedy cut\<close>

text \<open>What the batches cut from \<open>items\<close> after \<open>k\<close> earlier ones look like.\<close>

definition cut :: "rul list \<Rightarrow> nat \<Rightarrow> payout list \<Rightarrow> batch list \<Rightarrow> bool" where
  "cut rs k items bs \<longleftrightarrow> concat (map bt_items bs) = items \<and> map bt_index bs = [Suc k ..< Suc (k + length bs)]
     \<and> (\<forall>b \<in> set bs. bt_items b \<noteq> [] \<and> room rs (length (bt_items b))
          \<and> map us_used (bt_used b) = map (\<lambda>r. ru_base r + of_nat (length (bt_items b)) * ru_item r) rs
          \<and> map us_cap (bt_used b) = map ru_cap rs)
     \<and> (\<forall>b \<in> set (butlast bs). \<not> room rs (Suc (length (bt_items b))))"

lemma seal_used [simp]:
  "map us_used (bt_used (seal_batch prep f items (used_of n rs) rs k)) = map (\<lambda>r. ru_base r + of_nat n * ru_item r) rs"
  "map us_cap (bt_used (seal_batch prep f items (used_of n rs) rs k)) = map ru_cap rs"
  "bt_items (seal_batch prep f items us rs k) = items" "bt_index (seal_batch prep f items us rs k) = k"
  by (simp_all add: seal_batch_def used_of_def zip_map1 zip_same_conv_map)

lemma cut_Cons:
  assumes "cut rs (Suc k) items bs" "items \<noteq> []" "bt_index b = Suc k" "bt_items b \<noteq> []" "room rs (length (bt_items b))"
    "\<not> room rs (Suc (length (bt_items b)))"
    "map us_used (bt_used b) = map (\<lambda>r. ru_base r + of_nat (length (bt_items b)) * ru_item r) rs"
    "map us_cap (bt_used b) = map ru_cap rs"
  shows "cut rs k (bt_items b @ items) (b # bs)"
proof -
  have ne: "bs \<noteq> []" using assms(1,2) by (auto simp: cut_def)
  have "[Suc k ..< Suc (k + length (b # bs))] = Suc k # [Suc (Suc k) ..< Suc (Suc k + length bs)]"
    by (subst upt_conv_Cons) simp_all
  with assms ne show ?thesis by (simp add: cut_def del: upt_Suc)
qed

lemma pack_loop_cut:
  assumes sane: "rules_sane rs"
  shows "pack_loop prep rs i its bds cur (used_of (length cur) rs) = Inr bs \<Longrightarrow> room rs (length cur) \<Longrightarrow> cur @ its \<noteq> [] \<Longrightarrow>
    \<exists>new. bs = bds @ new \<and> cut rs (length bds) (cur @ its) new"
proof (induction its arbitrary: i bds cur)
  case Nil
  then show ?case by (auto simp: cut_def)
next
  case (Cons it its)
  let ?b = "seal_batch prep (if prep then length cur else 0) cur (used_of (length cur) rs) rs (Suc (length bds))"
  from Cons.prems have none: "find (\<lambda>r. ru_base r + ru_item r > ru_cap r) rs = None" by (simp split: option.splits)
  then have one: "room rs (Suc 0)" using first_fits [OF sane] by simp
  show ?case
  proof (cases "cur \<noteq> [] \<and> \<not> room rs (Suc (length cur))")
    case True
    with Cons.prems none next_fits [OF sane Cons.prems(2)]
    have "pack_loop prep rs (i + 1) its (bds @ [?b]) [it] (used_of (length [it]) rs) = Inr bs" by simp
    from Cons.IH [OF this] one obtain new where new: "bs = (bds @ [?b]) @ new" "cut rs (Suc (length bds)) ([it] @ its) new"
      by auto
    have "cut rs (length bds) (cur @ it # its) (?b # new)"
      using cut_Cons [OF new(2), where b = ?b] True Cons.prems(2) by simp
    with new(1) show ?thesis by auto
  next
    case False
    with Cons.prems none next_fits [OF sane Cons.prems(2)]
    have "pack_loop prep rs (i + 1) its bds (cur @ [it]) (used_of (length (cur @ [it])) rs) = Inr bs" by simp
    moreover have "room rs (length (cur @ [it]))" using False one by auto
    ultimately show ?thesis using Cons.IH [of "i + 1" bds "cur @ [it]"] by auto
  qed
qed

lemma uint_used: "room rs n \<Longrightarrow> r \<in> set rs \<Longrightarrow>
    uint (ru_base r + of_nat n * ru_item r) = uint (ru_base r) + int n * uint (ru_item r)"
  by (rule uint_linear) (auto simp: room_def intro: le_less_trans [OF _ uint_lt2p [of "ru_cap r" for r, simplified]])

text \<open>Costs depend on the number of items only, so every full batch of a cut is equally long.\<close>

lemma cut_full_length:
  assumes "cut rs k items bs" "b \<in> set (butlast bs)" "room rs n"
  shows "n \<le> length (bt_items b)"
proof (rule ccontr)
  assume "\<not> n \<le> length (bt_items b)"
  then have "Suc (length (bt_items b)) \<le> n" by simp
  then have "room rs (Suc (length (bt_items b)))" by (rule room_mono [OF assms(3)])
  with assms(1,2) show False by (simp add: cut_def)
qed

lemma sum_list_ge: "(\<forall>x \<in> set xs. m \<le> f x) \<Longrightarrow> m * length xs \<le> (\<Sum>x\<leftarrow>xs. f x :: nat)"
  by (induction xs) auto

lemma sum_list_le: "(\<forall>x \<in> set xs. f x \<le> m) \<Longrightarrow> (\<Sum>x\<leftarrow>xs. f x :: nat) \<le> m * length xs"
  by (induction xs) auto

lemma cut_fewest:
  assumes c: "cut rs k items bs" and parts: "concat parts = items" "\<forall>p \<in> set parts. room rs (length p)"
  shows "length bs \<le> length parts"
proof (rule ccontr)
  assume "\<not> length bs \<le> length parts"
  then have lt: "length parts \<le> length (butlast bs)" and ne: "bs \<noteq> []" by auto
  define m where "m = Max (insert 0 (length ` set parts))"
  have m: "\<forall>p \<in> set parts. length p \<le> m" by (simp add: m_def)
  have full: "m \<le> length (bt_items b)" if b: "b \<in> set (butlast bs)" for b
  proof (cases "parts = []")
    case False
    then have "m \<in> length ` set parts" using Max_in [of "length ` set parts"] by (simp add: m_def max_def)
    with parts(2) show ?thesis using cut_full_length [OF c b] by auto
  qed (simp add: m_def)
  have "length items \<le> m * length parts"
    using sum_list_le [OF m] parts(1) by (auto simp: length_concat)
  also have "\<dots> \<le> m * length (butlast bs)" using lt by simp
  also have "\<dots> \<le> (\<Sum>b\<leftarrow>butlast bs. length (bt_items b))" using full by (intro sum_list_ge) simp
  also have "\<dots> < length items"
  proof -
    have it: "items = concat (map bt_items (butlast bs @ [last bs]))" using c ne by (simp add: cut_def)
    have "bt_items (last bs) \<noteq> []" using c ne by (auto simp: cut_def)
    then show ?thesis by (subst it) (simp add: length_concat comp_def)
  qed
  finally show False by simp
qed

subsection \<open>The aligned cut\<close>

definition cost :: "rul \<Rightarrow> nat \<Rightarrow> nat \<Rightarrow> int" where
  "cost r hashes n = uint (ru_base r) + int hashes * uint (ru_per_level r) + int n * uint (ru_item r)"

definition tree_hashes :: "limits \<Rightarrow> nat \<Rightarrow> nat" where
  "tree_hashes l n = (if li_align l = 0 then 0
     else (bits_len (double_to n (li_align l)) - 1) - (bits_len (li_align l) - 1))"

text \<open>No sum \<open>Pack\<close> forms for \<open>n\<close> payouts reaches \<open>2^64\<close>.\<close>

definition limits_sane :: "limits \<Rightarrow> nat \<Rightarrow> bool" where
  "limits_sane l n \<longleftrightarrow> rules_sane (li_prepare_rules l) \<and>
     (if li_align l = 0 then rules_sane (li_rules l)
      else \<forall>r \<in> set (li_rules l). cost r (tree_hashes l n) (li_align l) < 2 ^ 64)"

lemma cost_room: "room rs n \<longleftrightarrow> (\<forall>r \<in> set rs. cost r 0 n \<le> uint (ru_cap r))"
  by (simp add: room_def cost_def)

lemma cost_mono: "m \<le> n \<Longrightarrow> cost r h m \<le> cost r h n"
  by (simp add: cost_def mult_right_mono)

lemma uint_cost:
  assumes "cost r h n < 2 ^ 64"
  shows "uint (aligned_overhead h r + of_nat n * ru_item r) = cost r h n"
proof -
  have "aligned_overhead h r + of_nat n * ru_item r = word_of_int (cost r h n)"
    by (simp add: aligned_overhead_def cost_def)
  then have "uint (aligned_overhead h r + of_nat n * ru_item r) = cost r h n mod 2 ^ 64"
    by (simp only: uint_word_of_int) simp
  with assms show ?thesis by (simp add: cost_def)
qed

lemma aligned_check_None:
  assumes "0 < align" "\<forall>r \<in> set rs. cost r h align < 2 ^ 64"
  shows "aligned_check align h rs = None \<longleftrightarrow> (\<forall>r \<in> set rs. cost r h align \<le> uint (ru_cap r))"
  using assms(2)
proof (induction rs)
  case (Cons r rs)
  then have c: "cost r h align < 2 ^ 64" by simp
  have le: "cost r h 1 \<le> cost r h align" using assms(1) by (intro cost_mono) simp
  have "uint (aligned_overhead h r + of_nat 1 * ru_item r) = cost r h 1" using c le by (intro uint_cost) simp
  with uint_cost [OF c] le Cons show ?case by (auto simp: Let_def word_less_def)
qed simp

definition aligned_cut :: "rul list \<Rightarrow> nat \<Rightarrow> nat \<Rightarrow> nat \<Rightarrow> payout list \<Rightarrow> batch list \<Rightarrow> bool" where
  "aligned_cut rs h align k items bs \<longleftrightarrow> concat (map bt_items bs) = items
     \<and> map bt_index bs = [k ..< k + length bs]
     \<and> (\<forall>b \<in> set bs. bt_items b \<noteq> [] \<and> length (bt_items b) \<le> align
          \<and> map us_used (bt_used b) = map (\<lambda>r. aligned_overhead h r + of_nat (length (bt_items b)) * ru_item r) rs
          \<and> map us_cap (bt_used b) = map ru_cap rs)
     \<and> (\<forall>b \<in> set (butlast bs). length (bt_items b) = align)"

lemma aligned_loop_cut: "0 < align \<Longrightarrow> aligned_cut rs h align k items (aligned_loop rs h align k items)"
proof (induction rs h align k items rule: aligned_loop.induct)
  case (1 rs h align k items)
  show ?case
  proof (cases "items = []")
    case True
    then show ?thesis by (simp add: aligned_loop.simps aligned_cut_def)
  next
    case False
    let ?b = "aligned_batch rs h k (take align items)" and ?bs = "aligned_loop rs h align (k + 1) (drop align items)"
    have loop: "aligned_loop rs h align k items = ?b # ?bs" using False 1(2) by (simp add: aligned_loop.simps [of _ _ _ _ items])
    have IH: "aligned_cut rs h align (k + 1) (drop align items) ?bs" using 1 False by simp
    have b: "bt_items ?b = take align items" "bt_index ?b = k"
      "map us_used (bt_used ?b) = map (\<lambda>r. aligned_overhead h r + of_nat (length (bt_items ?b)) * ru_item r) rs"
      "map us_cap (bt_used ?b) = map ru_cap rs"
      by (simp_all add: aligned_batch_def)
    have ne: "bt_items ?b \<noteq> []" using False 1(2) by (simp add: b)
    have full: "length (bt_items ?b) = align" if "?bs \<noteq> []"
    proof -
      have "drop align items \<noteq> []" using that by (auto simp: aligned_loop.simps)
      then show ?thesis by (simp add: b)
    qed
    have idx: "[k ..< k + length (?b # ?bs)] = k # [Suc k ..< Suc k + length ?bs]" by (subst upt_conv_Cons) simp_all
    have "concat (map bt_items (?b # ?bs)) = items" using IH by (simp add: aligned_cut_def b)
    moreover have "map bt_index (?b # ?bs) = [k ..< k + length (?b # ?bs)]"
      unfolding idx using IH by (simp add: aligned_cut_def b del: upt_Suc)
    ultimately show ?thesis
      unfolding loop using IH b(3,4) ne full by (auto simp: aligned_cut_def b(1))
  qed
qed

subsection \<open>What a successful \<open>Pack\<close> returns\<close>

lemma greedy_cut:
  assumes "rules_sane rs" "pack_loop prep rs 0 items [] [] (no_usage rs) = Inr bs" "items \<noteq> []"
  shows "cut rs 0 items bs"
proof -
  have "room rs (Suc 0)"
    using assms first_fits [OF assms(1)] by (cases items) (auto split: option.splits)
  then have "room rs (length ([] :: payout list))" by (auto intro: room_mono)
  from pack_loop_cut [OF assms(1) _ this, of prep 0 items "[]" bs] assms(2,3) show ?thesis by simp
qed

lemma prepare_cut:
  assumes "limits_sane l n" "pack_prepare items l = Inr (fresh, bs)"
  shows "fresh = length (filter po_new_token_account items)
    \<and> (if li_prepare_rules l = [] \<or> filter po_new_token_account items = [] then bs = []
       else cut (li_prepare_rules l) 0 (filter po_new_token_account items) bs)"
  using assms greedy_cut [of "li_prepare_rules l" True "filter po_new_token_account items" bs]
  by (auto simp: pack_prepare_def limits_sane_def Let_def simp del: used_of_simps split: if_splits sum.splits)

lemma aligned_ok:
  assumes "limits_sane l (length items)" "li_align l \<noteq> 0" "pack_aligned items l = Inr (lvls, h, bs)"
  shows "h = tree_hashes l (length items)" "aligned_cut (li_rules l) h (li_align l) 1 items bs"
    "\<forall>r \<in> set (li_rules l). cost r h (li_align l) \<le> uint (ru_cap r)"
proof -
  have sane: "\<forall>r \<in> set (li_rules l). cost r (tree_hashes l (length items)) (li_align l) < 2 ^ 64"
    using assms(1,2) by (simp add: limits_sane_def)
  show h: "h = tree_hashes l (length items)" "aligned_cut (li_rules l) h (li_align l) 1 items bs"
    using assms(2,3) aligned_loop_cut [of "li_align l" "li_rules l" _ 1 items]
    by (auto simp: pack_aligned_def tree_hashes_def Let_def split: option.splits)
  show "\<forall>r \<in> set (li_rules l). cost r h (li_align l) \<le> uint (ru_cap r)"
    using aligned_check_None [OF _ sane] assms(2,3) h(1)
    by (simp add: pack_aligned_def tree_hashes_def Let_def split: option.splits)
qed

lemma pack_InrD:
  assumes "limits_sane l (length items)" "pack items l = Inr p"
  obtains (greedy) "li_align l = 0" "bp_proof_hashes p = 0" "cut (li_rules l) 0 items (bp_batches p)"
      "pack_prepare items l = Inr (bp_new_accounts p, bp_prepare p)"
    | (aligned) "li_align l \<noteq> 0" "aligned_cut (li_rules l) (bp_proof_hashes p) (li_align l) 1 items (bp_batches p)"
      "\<forall>r \<in> set (li_rules l). cost r (bp_proof_hashes p) (li_align l) \<le> uint (ru_cap r)"
      "pack_prepare items l = Inr (bp_new_accounts p, bp_prepare p)"
proof (cases "li_align l = 0")
  case True
  with assms have "cut (li_rules l) 0 items (bp_batches p)" "bp_proof_hashes p = 0"
      "pack_prepare items l = Inr (bp_new_accounts p, bp_prepare p)"
    using greedy_cut [of "li_rules l" False items "bp_batches p"]
    by (auto simp: pack_def pack_greedy_def limits_sane_def simp del: used_of_simps split: if_splits sum.splits)
  with True greedy show thesis by blast
next
  case False
  obtain lvls where "pack_aligned items l = Inr (lvls, bp_proof_hashes p, bp_batches p)"
      "pack_prepare items l = Inr (bp_new_accounts p, bp_prepare p)"
    using assms(2) False by (auto simp: pack_def split: if_splits sum.splits)
  with aligned_ok [OF assms(1) False] False aligned show thesis by blast
qed

lemma cut_order:
  "cut rs 0 items bs \<Longrightarrow> concat (map bt_items bs) = items \<and> map bt_index bs = [1 ..< Suc (length bs)]
    \<and> [] \<notin> bt_items ` set bs"
  unfolding cut_def by auto

lemma aligned_cut_order:
  "aligned_cut rs h align 1 items bs \<Longrightarrow> concat (map bt_items bs) = items \<and> map bt_index bs = [1 ..< Suc (length bs)]
    \<and> [] \<notin> bt_items ` set bs"
  unfolding aligned_cut_def by auto

lemma pack_parts:
  assumes "limits_sane l (length items)" "pack items l = Inr p"
  shows "concat (map bt_items (bp_batches p)) = items \<and> map bt_index (bp_batches p) = [1 ..< Suc (length (bp_batches p))]
      \<and> [] \<notin> bt_items ` set (bp_batches p)"
    and "pack_prepare items l = Inr (bp_new_accounts p, bp_prepare p)"
proof -
  show "concat (map bt_items (bp_batches p)) = items \<and> map bt_index (bp_batches p) = [1 ..< Suc (length (bp_batches p))]
      \<and> [] \<notin> bt_items ` set (bp_batches p)"
    using assms by (cases rule: pack_InrD) (rule cut_order aligned_cut_order, assumption)+
  show "pack_prepare items l = Inr (bp_new_accounts p, bp_prepare p)"
    using assms by (cases rule: pack_InrD)
qed

lemma cut_cost:
  assumes "cut rs k items bs" "b \<in> set bs"
  shows "map uint (map us_used (bt_used b)) = map (\<lambda>r. cost r 0 (length (bt_items b))) rs"
    "\<forall>r \<in> set rs. cost r 0 (length (bt_items b)) \<le> uint (ru_cap r)"
    "map us_cap (bt_used b) = map ru_cap rs"
proof -
  have r: "room rs (length (bt_items b))"
    "map us_used (bt_used b) = map (\<lambda>r. ru_base r + of_nat (length (bt_items b)) * ru_item r) rs"
    using assms by (auto simp: cut_def)
  show "map uint (map us_used (bt_used b)) = map (\<lambda>r. cost r 0 (length (bt_items b))) rs"
    unfolding r(2) using uint_used [OF r(1)] by (simp add: cost_def)
  show "\<forall>r \<in> set rs. cost r 0 (length (bt_items b)) \<le> uint (ru_cap r)" using r(1) by (simp add: cost_room)
  show "map us_cap (bt_used b) = map ru_cap rs" using assms by (auto simp: cut_def)
qed

lemma aligned_cost:
  assumes "aligned_cut rs h align k items bs" "b \<in> set bs" "\<forall>r \<in> set rs. cost r h align \<le> uint (ru_cap r)"
  shows "map uint (map us_used (bt_used b)) = map (\<lambda>r. cost r h (length (bt_items b))) rs"
    "\<forall>r \<in> set rs. cost r h (length (bt_items b)) \<le> uint (ru_cap r)"
    "map us_cap (bt_used b) = map ru_cap rs"
proof -
  have u: "map us_used (bt_used b) = map (\<lambda>r. aligned_overhead h r + of_nat (length (bt_items b)) * ru_item r) rs"
    and len: "length (bt_items b) \<le> align"
    using assms(1,2) by (auto simp: aligned_cut_def)
  show le: "\<forall>r \<in> set rs. cost r h (length (bt_items b)) \<le> uint (ru_cap r)"
    using assms(3) cost_mono [OF len] order_trans by blast
  have "cost r h (length (bt_items b)) < 2 ^ 64" if "r \<in> set rs" for r
    using le that uint_lt2p [of "ru_cap r"] by (fastforce simp: )
  then show "map uint (map us_used (bt_used b)) = map (\<lambda>r. cost r h (length (bt_items b))) rs"
    unfolding u using uint_cost by simp
  show "map us_cap (bt_used b) = map ru_cap rs" using assms by (auto simp: aligned_cut_def)
qed

lemma batch_within_cap:
  assumes "map uint (map us_used us) = map f rs" "\<forall>r \<in> set rs. f r \<le> uint (ru_cap r)" "map us_cap us = map ru_cap rs"
  shows "\<forall>u \<in> set us. us_used u \<le> us_cap u"
  using assms
proof (induction us arbitrary: rs)
  case (Cons u us)
  then show ?case by (cases rs) (auto simp: word_le_def)
qed simp

subsection \<open>The limits of the four chains\<close>

lemma bits_len_power [simp]: "bits_len (2 ^ k) = Suc k"
proof (induction k)
  case 0
  then show ?case by (simp add: bits_len.simps [of "Suc 0"] bits_len.simps [of 0])
next
  case (Suc k)
  then show ?case by (subst bits_len.simps) simp
qed

lemma double_to_least: "\<exists>k \<ge> j. double_to n (2 ^ j) = 2 ^ k \<and> n \<le> 2 ^ k \<and> (k = j \<or> 2 ^ (k - 1) < n)"
proof (induction "n - 2 ^ j" arbitrary: j rule: less_induct)
  case less
  show ?case
  proof (cases "2 ^ j < n")
    case True
    have "(0::nat) < 2 ^ j" by simp
    then have "n - 2 ^ Suc j < n - 2 ^ j" using True unfolding power_Suc by linarith
    from less [OF this] obtain k where k: "Suc j \<le> k" "double_to n (2 ^ Suc j) = 2 ^ k" "n \<le> 2 ^ k" "k = Suc j \<or> 2 ^ (k - 1) < n"
      by blast
    have "double_to n (2 ^ j) = 2 ^ k" using True k(2) by (simp add: double_to.simps [of n "2 ^ j"])
    moreover have "2 ^ (k - 1) < n" using k(4) True by auto
    ultimately show ?thesis using k(1,3) by (intro exI [of _ k]) simp
  next
    case False
    then show ?thesis by (intro exI [of _ j]) (simp add: double_to.simps [of n "2 ^ j"])
  qed
qed

lemma solana_hashes:
  shows "tree_hashes solana_limits n \<le> h \<longleftrightarrow> n \<le> 2 ^ (h + 3)"
proof -
  obtain k where k: "3 \<le> k" "double_to n (2 ^ 3) = 2 ^ k" "n \<le> 2 ^ k" "k = 3 \<or> 2 ^ (k - 1) < n"
    using double_to_least [of 3 n] by blast
  have b8: "bits_len 8 = 4" using bits_len_power [of 3] by simp
  have "tree_hashes solana_limits n = k - 3"
    using k(2) by (simp add: tree_hashes_def solana_limits_def b8)
  moreover have "k - 3 \<le> h \<longleftrightarrow> n \<le> 2 ^ (h + 3)"
  proof
    assume "k - 3 \<le> h"
    then have "(2::nat) ^ k \<le> 2 ^ (h + 3)" by (intro power_increasing) simp_all
    with k(3) show "n \<le> 2 ^ (h + 3)" by (rule order_trans)
  next
    assume n: "n \<le> 2 ^ (h + 3)"
    show "k - 3 \<le> h"
    proof (rule ccontr)
      assume "\<not> k - 3 \<le> h"
      then have "h + 3 \<le> k - 1" "k \<noteq> 3" by simp_all
      then have "(2::nat) ^ (h + 3) \<le> 2 ^ (k - 1)" "2 ^ (k - 1) < n" using k(4) by (auto intro: power_increasing)
      with n show False by linarith
    qed
  qed
  ultimately show ?thesis by simp
qed

lemma solana_checks:
  "(\<forall>r \<in> set (li_rules solana_limits). cost r h 8 < 2 ^ 64) \<longleftrightarrow> 864 + 32 * int h < 2 ^ 64"
  "(\<forall>r \<in> set (li_rules solana_limits). cost r h 8 \<le> uint (ru_cap r)) \<longleftrightarrow> h \<le> 11"
  by (auto simp: solana_limits_def resource_def cost_def)

lemma solana_sane: "n \<le> 2 ^ 63 \<Longrightarrow> limits_sane solana_limits n"
proof -
  assume "n \<le> 2 ^ 63"
  then have "tree_hashes solana_limits n \<le> 60" using solana_hashes [of n 60] by simp
  then have "864 + 32 * int (tree_hashes solana_limits n) < 2 ^ 64" by simp
  then have "\<forall>r \<in> set (li_rules solana_limits). cost r (tree_hashes solana_limits n) 8 < 2 ^ 64"
    using solana_checks(1) by blast
  then show ?thesis by (simp add: limits_sane_def) (simp add: solana_limits_def resource_def rules_sane_def)
qed

lemma defaults_sane: "bulk_defaults c = Some l \<Longrightarrow> n \<le> 2 ^ 63 \<Longrightarrow> limits_sane l n"
  using solana_sane
  by (auto simp: bulk_defaults_def limits_sane_def rules_sane_def evm_limits_def ton_limits_def sui_limits_def resource_def
      split: if_splits)

lemma prepare_loop_total:
  assumes "find (\<lambda>r. ru_base r + ru_item r > ru_cap r) rs = None"
  shows "\<exists>bs. pack_loop prep rs i its bds cur used = Inr bs"
  using assms by (induction its arbitrary: i bds cur used) auto

lemma solana_prepare_total: "\<exists>x. pack_prepare items solana_limits = Inr x"
proof -
  have "find (\<lambda>r. ru_base r + ru_item r > ru_cap r) (li_prepare_rules solana_limits) = None"
    by (simp add: solana_limits_def resource_def)
  then obtain bs where "pack_loop True (li_prepare_rules solana_limits) 0 (filter po_new_token_account items) [] []
      (no_usage (li_prepare_rules solana_limits)) = Inr bs"
    using prepare_loop_total by blast
  then show ?thesis by (simp add: pack_prepare_def Let_def del: used_of_simps)
qed

subsection \<open>MaxItems\<close>

definition rule_caps_int :: "rul list \<Rightarrow> bool" where
  "rule_caps_int rs \<longleftrightarrow> (\<forall>r \<in> set rs. uint (ru_cap r) < 2 ^ 63)"

definition within :: "int \<Rightarrow> nat \<Rightarrow> bool" where
  "within best n \<longleftrightarrow> best < 0 \<or> int n \<le> best"

lemma sint_below: "uint (w :: u64) < 2 ^ 63 \<Longrightarrow> sint w = uint w"
  using signed_take_bit_int_eq_self [of 63 "uint w"] uint_ge_0 [of w] by (simp add: sint_uint)

definition costly :: "rul list \<Rightarrow> bool" where
  "costly rs \<longleftrightarrow> (\<forall>r \<in> set rs. ru_item r \<noteq> 0)"

lemma quotient_le: "0 < d \<Longrightarrow> k \<le> a div d \<longleftrightarrow> k * d \<le> (a :: int)"
proof
  assume d: "0 < d" "k \<le> a div d"
  then have "k * d \<le> a div d * d" by (intro mult_right_mono) simp_all
  also have "\<dots> \<le> a" using d(1) by (simp add: minus_mod_eq_div_mult [symmetric])
  finally show "k * d \<le> a" .
next
  assume d: "0 < d" "k * d \<le> a"
  then have "k * d div d \<le> a div d" by (intro zdiv_mono1)
  with d(1) show "k \<le> a div d" by simp
qed

lemma quotient_room:
  assumes "uint (ru_cap r) < 2 ^ 63" "ru_item r \<noteq> 0" "\<not> ru_cap r < ru_base r"
  shows "int n \<le> sint ((ru_cap r - ru_base r) div ru_item r)
      \<longleftrightarrow> uint (ru_base r) + int n * uint (ru_item r) \<le> uint (ru_cap r)"
    and "0 \<le> sint ((ru_cap r - ru_base r) div ru_item r)"
proof -
  have sub: "uint (ru_cap r - ru_base r) = uint (ru_cap r) - uint (ru_base r)"
    using assms(3) by (simp add: uint_sub_lem [THEN iffD1] word_le_def not_less)
  have pos: "0 < uint (ru_item r)" using assms(2) by (simp add: less_le uint_0_iff)
  have q: "uint ((ru_cap r - ru_base r) div ru_item r) = (uint (ru_cap r) - uint (ru_base r)) div uint (ru_item r)"
    by (simp add: uint_div sub)
  have "(uint (ru_cap r) - uint (ru_base r)) div uint (ru_item r) \<le> uint (ru_cap r) - uint (ru_base r)"
    using zdiv_mono2 [of "uint (ru_cap r) - uint (ru_base r)" 1 "uint (ru_item r)"] pos assms(3)
    by (simp add: word_less_def not_less)
  then have "uint ((ru_cap r - ru_base r) div ru_item r) < 2 ^ 63" unfolding q using assms(1) uint_ge_0 [of "ru_base r"] by linarith
  then have s: "sint ((ru_cap r - ru_base r) div ru_item r) = (uint (ru_cap r) - uint (ru_base r)) div uint (ru_item r)"
    using sint_below q by simp
  show "int n \<le> sint ((ru_cap r - ru_base r) div ru_item r)
      \<longleftrightarrow> uint (ru_base r) + int n * uint (ru_item r) \<le> uint (ru_cap r)"
    unfolding s using quotient_le [OF pos] by (simp add: algebra_simps)
  show "0 \<le> sint ((ru_cap r - ru_base r) div ru_item r)" unfolding s
    using pos assms(3) by (intro pos_imp_zdiv_nonneg_iff [THEN iffD2]) (auto simp: word_less_def not_less)
qed

lemma max_items_loop_room:
  assumes "rule_caps_int rs" "costly rs"
  shows "max_items_loop rs best = Some b \<Longrightarrow> (rs \<noteq> [] \<or> 0 \<le> best) \<Longrightarrow> 0 \<le> b \<and> (int n \<le> b \<longleftrightarrow> within best n \<and> room rs n)"
    and "max_items_loop rs best = None \<Longrightarrow> \<not> room rs n"
  using assms
proof (induction rs arbitrary: best)
  case Nil
  { case 1 then show ?case by (auto simp: within_def room_def) }
  { case 2 then show ?case by simp }
next
  case (Cons r rs)
  let ?n = "sint ((ru_cap r - ru_base r) div ru_item r)"
  { case (1 best)
    let ?best = "if best < 0 \<or> ?n < best then ?n else best"
    from 1 have r: "uint (ru_cap r) < 2 ^ 63" "ru_item r \<noteq> 0" "\<not> ru_cap r < ru_base r" and
      rs: "rule_caps_int rs" "costly rs"
      by (auto simp: rule_caps_int_def costly_def Let_def split: if_splits)
    have "max_items_loop (r # rs) best = max_items_loop rs ?best" using r by (simp add: Let_def)
    with 1(1) have b: "max_items_loop rs ?best = Some b" by (rule trans [OF sym, rotated])
    have "0 \<le> ?best" using quotient_room(2) [OF r] by auto
    with Cons.IH(1) [OF b _ rs] have "0 \<le> b \<and> (int n \<le> b \<longleftrightarrow> within ?best n \<and> room rs n)" by simp
    moreover have "within ?best n \<longleftrightarrow> within best n \<and> int n \<le> ?n" using quotient_room(2) [OF r] by (auto simp: within_def)
    ultimately show ?case using quotient_room(1) [OF r, of n] by (auto simp: room_def) }
  { case (2 best)
    let ?best = "if best < 0 \<or> ?n < best then ?n else best"
    show ?case
    proof (cases "ru_cap r < ru_base r")
      case True
      then have "uint (ru_cap r) < uint (ru_base r) + int n * uint (ru_item r)"
        using mult_nonneg_nonneg [OF of_nat_0_le_iff uint_ge_0, of n "ru_item r"] unfolding word_less_def by linarith
      then show ?thesis by (auto simp: room_def)
    next
      case False
      with 2 have "ru_item r \<noteq> 0" "rule_caps_int rs" "costly rs"
        by (auto simp: rule_caps_int_def costly_def)
      moreover have "max_items_loop (r # rs) best = max_items_loop rs ?best" using calculation(1) False by (simp add: Let_def)
      with 2(1) have "max_items_loop rs ?best = None" by (rule trans [OF sym, rotated])
      ultimately show ?thesis using Cons.IH(2) by (auto simp: room_def)
    qed }
qed

lemma max_items_room:
  assumes "rule_caps_int (li_rules l)" "costly (li_rules l)" "li_rules l \<noteq> []" "li_align l = 0" "0 < n"
  shows "int n \<le> max_items l \<longleftrightarrow> room (li_rules l) n"
proof (cases "max_items_loop (li_rules l) (- 1)")
  case None
  then show ?thesis using max_items_loop_room(2) [OF assms(1,2) None] assms(5) by (simp add: max_items_def)
next
  case (Some b)
  then show ?thesis using max_items_loop_room(1) [OF assms(1,2) Some, of n] assms(3,4) by (simp add: max_items_def within_def)
qed

subsection \<open>Properties\<close>

definition demo_payout :: "nat \<Rightarrow> bool \<Rightarrow> payout" where
  "demo_payout n fresh = \<lparr>po_ref = replicate 32 (char_of n), po_merchant = ''m'', po_amount = Some (int n),
     po_new_token_account = fresh\<rparr>"

definition demo_payouts :: "payout list" where
  "demo_payouts = [demo_payout 1 False, demo_payout 2 True, demo_payout 3 False, demo_payout 4 True, demo_payout 5 False]"

definition small_greedy :: limits where
  "small_greedy = \<lparr>li_chain = ''toy'', li_rules = [resource ''gas'' 100 10 40 0 '''', resource ''slots'' 9 1 2 0 ''''],
     li_align = 0, li_prepare_rules = [resource ''slots'' 4 1 2 0 ''''], li_new_account_rent = 7, li_rent_unit = ''u''\<rparr>"

lemma small_sane: "limits_sane small_greedy n"
  by (simp add: small_greedy_def limits_sane_def rules_sane_def resource_def)

lemma small_packs: "\<exists>p. pack demo_payouts small_greedy = Inr p \<and> map (length \<circ> bt_items) (bp_batches p) = [2, 2, 1]"
  by (rule exI [of _ "projr (pack demo_payouts small_greedy)"]) code_simp

text \<open>
  C26. \<open>Pack\<close> loses no payout, sends none twice and keeps the order of the list: the batches, numbered from 1 and none
  of them empty, concatenate to the run, and on a chain with a prepare stage the prepare batches concatenate to
  exactly the payouts whose token account has to be opened first, whose number the plan reports.
\<close>

theorem pack_keeps_every_payout:
  assumes "limits_sane l (length items)" "pack items l = Inr p"
  shows "concat (map bt_items (bp_batches p)) = items
    \<and> map bt_index (bp_batches p) = [1 ..< Suc (length (bp_batches p))]
    \<and> [] \<notin> bt_items ` set (bp_batches p @ bp_prepare p)
    \<and> concat (map bt_items (bp_prepare p)) = (if li_prepare_rules l = [] then [] else filter po_new_token_account items)
    \<and> map bt_index (bp_prepare p) = [1 ..< Suc (length (bp_prepare p))]
    \<and> bp_new_accounts p = length (filter po_new_token_account items)"
proof -
  have b: "concat (map bt_items (bp_batches p)) = items
      \<and> map bt_index (bp_batches p) = [1 ..< Suc (length (bp_batches p))] \<and> [] \<notin> bt_items ` set (bp_batches p)"
    and prep: "pack_prepare items l = Inr (bp_new_accounts p, bp_prepare p)"
    using pack_parts [OF assms] by blast+
  from prepare_cut [OF assms(1) prep]
  have "concat (map bt_items (bp_prepare p)) = (if li_prepare_rules l = [] then [] else filter po_new_token_account items)
      \<and> map bt_index (bp_prepare p) = [1 ..< Suc (length (bp_prepare p))] \<and> [] \<notin> bt_items ` set (bp_prepare p)
      \<and> bp_new_accounts p = length (filter po_new_token_account items)"
    using cut_order [of "li_prepare_rules l" "filter po_new_token_account items" "bp_prepare p"]
    by (auto simp del: upt_Suc split: if_splits)
  with b show ?thesis by (simp add: image_Un del: upt_Suc)
qed

theorem pack_keeps_every_payout_witness:
  "\<exists>p. pack demo_payouts small_greedy = Inr p \<and> concat (map bt_items (bp_batches p)) = demo_payouts
    \<and> bp_new_accounts p = 2"
proof -
  obtain p where p: "pack demo_payouts small_greedy = Inr p" using small_packs by blast
  have "length (filter po_new_token_account demo_payouts) = 2" by (simp add: demo_payouts_def demo_payout_def)
  with p pack_keeps_every_payout [OF small_sane p] show ?thesis by metis
qed

text \<open>
  C27. Every batch \<open>Pack\<close> cuts fits its transaction: for each rule the usage written on the batch is, in exact
  arithmetic, the rule's fixed cost, its proof and its items, and it is at most the rule's cap; for the prepare
  batches it is the fixed cost and the accounts to open, which need no proof.
\<close>

theorem packed_batches_fit:
  assumes "limits_sane l (length items)" "pack items l = Inr p"
  shows "(\<forall>b \<in> set (bp_batches p).
      map uint (map us_used (bt_used b)) = map (\<lambda>r. cost r (bp_proof_hashes p) (length (bt_items b))) (li_rules l)
      \<and> map us_cap (bt_used b) = map ru_cap (li_rules l) \<and> (\<forall>u \<in> set (bt_used b). us_used u \<le> us_cap u))
    \<and> (\<forall>b \<in> set (bp_prepare p).
      map uint (map us_used (bt_used b)) = map (\<lambda>r. cost r 0 (length (bt_items b))) (li_prepare_rules l)
      \<and> map us_cap (bt_used b) = map ru_cap (li_prepare_rules l) \<and> (\<forall>u \<in> set (bt_used b). us_used u \<le> us_cap u))"
proof
  show "\<forall>b \<in> set (bp_batches p).
      map uint (map us_used (bt_used b)) = map (\<lambda>r. cost r (bp_proof_hashes p) (length (bt_items b))) (li_rules l)
      \<and> map us_cap (bt_used b) = map ru_cap (li_rules l) \<and> (\<forall>u \<in> set (bt_used b). us_used u \<le> us_cap u)"
    using assms
  proof (cases rule: pack_InrD)
    case greedy
    then show ?thesis using cut_cost [OF greedy(3)] batch_within_cap [OF cut_cost(1,2,3) [OF greedy(3)]] by simp
  next
    case aligned
    then show ?thesis using aligned_cost [OF aligned(2) _ aligned(3)]
      batch_within_cap [OF aligned_cost(1,2,3) [OF aligned(2) _ aligned(3)]] by blast
  qed
  from prepare_cut [OF assms(1) pack_parts(2) [OF assms]] have c: "bp_prepare p = [] \<or>
      cut (li_prepare_rules l) 0 (filter po_new_token_account items) (bp_prepare p)" by (auto split: if_splits)
  then show "\<forall>b \<in> set (bp_prepare p).
      map uint (map us_used (bt_used b)) = map (\<lambda>r. cost r 0 (length (bt_items b))) (li_prepare_rules l)
      \<and> map us_cap (bt_used b) = map ru_cap (li_prepare_rules l) \<and> (\<forall>u \<in> set (bt_used b). us_used u \<le> us_cap u)"
  proof
    assume c: "cut (li_prepare_rules l) 0 (filter po_new_token_account items) (bp_prepare p)"
    then show ?thesis using cut_cost [OF c] batch_within_cap [OF cut_cost(1,2,3) [OF c]] by simp
  qed simp
qed

theorem packed_batches_fit_witness:
  "\<exists>p. pack demo_payouts small_greedy = Inr p
    \<and> (\<forall>b \<in> set (bp_batches p). map us_cap (bt_used b) = [100, 9] \<and> (\<forall>u \<in> set (bt_used b). us_used u \<le> us_cap u))"
proof -
  obtain p where p: "pack demo_payouts small_greedy = Inr p" using small_packs by blast
  have "map ru_cap (li_rules small_greedy) = [100, 9]" by (simp add: small_greedy_def resource_def)
  with p packed_batches_fit [OF small_sane p] show ?thesis by metis
qed

text \<open>
  C36. On a chain without alignment \<open>Pack\<close> cuts as few transactions as any in-order split of the run can: if the run
  is cut into parts each of which, in exact arithmetic, fits every rule, there are at least as many parts as
  \<open>Pack\<close> has batches; and when every rule charges per item, each batch but the last holds exactly \<open>MaxItems\<close>
  payouts and the last at most as many.
\<close>

theorem greedy_uses_fewest:
  assumes "limits_sane l (length items)" "li_align l = 0" "pack items l = Inr p"
  shows "(\<forall>parts. concat parts = items \<and> (\<forall>q \<in> set parts. \<forall>r \<in> set (li_rules l). cost r 0 (length q) \<le> uint (ru_cap r))
            \<longrightarrow> length (bp_batches p) \<le> length parts)
    \<and> (rule_caps_int (li_rules l) \<and> costly (li_rules l) \<longrightarrow>
        (\<forall>b \<in> set (butlast (bp_batches p)). int (length (bt_items b)) = max_items l)
        \<and> int (length (bt_items (last (bp_batches p)))) \<le> max_items l)"
proof -
  have c: "cut (li_rules l) 0 items (bp_batches p)" and ne: "items \<noteq> []" "li_rules l \<noteq> []"
    using assms by (auto elim: pack_InrD simp: pack_def split: if_splits)
  have bs: "bp_batches p \<noteq> []" using c ne by (auto simp: cut_def)
  show ?thesis
  proof (intro conjI allI impI ballI)
    fix parts assume "concat parts = items \<and> (\<forall>q \<in> set parts. \<forall>r \<in> set (li_rules l). cost r 0 (length q) \<le> uint (ru_cap r))"
    then show "length (bp_batches p) \<le> length parts" using cut_fewest [OF c] by (simp add: cost_room)
  next
    fix b assume rs: "rule_caps_int (li_rules l) \<and> costly (li_rules l)" and b: "b \<in> set (butlast (bp_batches p))"
    then have "room (li_rules l) (length (bt_items b))" "\<not> room (li_rules l) (Suc (length (bt_items b)))" "bt_items b \<noteq> []"
      using c by (auto simp: cut_def dest: in_set_butlastD)
    then show "int (length (bt_items b)) = max_items l"
      using max_items_room [OF _ _ ne(2) assms(2)] rs by (smt (verit) length_greater_0_conv of_nat_Suc zero_less_Suc)
  next
    assume rs: "rule_caps_int (li_rules l) \<and> costly (li_rules l)"
    have "last (bp_batches p) \<in> set (bp_batches p)" using bs by simp
    then have "room (li_rules l) (length (bt_items (last (bp_batches p))))" "bt_items (last (bp_batches p)) \<noteq> []"
      using c by (auto simp: cut_def)
    then show "int (length (bt_items (last (bp_batches p)))) \<le> max_items l"
      using max_items_room [OF _ _ ne(2) assms(2)] rs by simp
  qed
qed

theorem greedy_uses_fewest_witness:
  "max_items small_greedy = 2 \<and> (\<exists>p. pack demo_payouts small_greedy = Inr p
    \<and> (\<forall>b \<in> set (butlast (bp_batches p)). length (bt_items b) = 2))"
proof -
  obtain p where p: "pack demo_payouts small_greedy = Inr p" using small_packs by blast
  have m: "max_items small_greedy = 2" by code_simp
  have "li_align small_greedy = 0" "rule_caps_int (li_rules small_greedy)" "costly (li_rules small_greedy)"
    by (simp_all add: small_greedy_def resource_def rule_caps_int_def costly_def)
  with greedy_uses_fewest [OF small_sane _ p] m p show ?thesis by (metis of_nat_eq_iff of_nat_numeral)
qed

text \<open>
  On Solana a run packs exactly when it has between 1 and 16384 payouts: 8 to a block, a proof hash per doubling,
  and at 2^14 leaves the eleven hashes are the last that fit beside a full block in 1232 bytes.
\<close>

theorem solana_run_limit:
  assumes "length items \<le> 2 ^ 63"
  shows "(\<exists>p. pack items solana_limits = Inr p) \<longleftrightarrow> items \<noteq> [] \<and> length items \<le> 16384"
proof -
  let ?n = "length items" and ?h = "tree_hashes solana_limits (length items)"
  have al: "li_align solana_limits = 8" "li_rules solana_limits \<noteq> []" by (simp_all add: solana_limits_def)
  have sane: "\<forall>r \<in> set (li_rules solana_limits). cost r ?h 8 < 2 ^ 64"
    using solana_sane [OF assms] al by (simp add: limits_sane_def)
  have "(\<exists>x. pack_aligned items solana_limits = Inr x) \<longleftrightarrow> aligned_check 8 ?h (li_rules solana_limits) = None"
    by (auto simp: pack_aligned_def tree_hashes_def al Let_def split: option.splits)
  also have "\<dots> \<longleftrightarrow> ?h \<le> 11" using aligned_check_None [OF _ sane] solana_checks(2) by simp
  also have "\<dots> \<longleftrightarrow> ?n \<le> 16384" using solana_hashes [of ?n 11] by simp
  finally have "(\<exists>x. pack_aligned items solana_limits = Inr x) \<longleftrightarrow> ?n \<le> 16384" .
  moreover obtain y where "pack_prepare items solana_limits = Inr y" using solana_prepare_total by blast
  ultimately show ?thesis using al by (cases y) (auto simp: pack_def split: sum.splits)
qed

theorem solana_run_limit_witness: "\<exists>p. pack demo_payouts solana_limits = Inr p"
  using solana_run_limit [of demo_payouts] by (simp add: demo_payouts_def)

end
