(* ===== verification/Solana_Msg.thy ===== *)
theory Solana_Msg
  imports Bulk
begin

section \<open>Solana messages: a payout run and the transaction of one block\<close>

text \<open>
  Models \<open>internal/chain/solanamsg.go\<close>: \<open>NewRun\<close> with its guards and the leaf of every payout, \<open>Root\<close>,
  \<open>Blocks\<close>, \<open>Depth\<close>, \<open>PayBatchMessage\<close> with the account table, and \<open>appendCompactU16\<close>. The reader of the
  bytes is the on-chain program \<open>contracts/solana/payout-run/src/lib.rs\<close>: \<open>pay_batch\<close> is modelled from it, on the
  run account's fields, with the leaves recomputed from the accounts and the data it was handed, the climb to
  the root, the bitmap and the transfers.

  Between the two stands the transaction format of the Solana runtime, which is not in the repository:
  \<open>parse_message\<close> states it, as the code's comments and the public format give it (header, compact-u16 account
  table, blockhash, one instruction), and is a specification, not a translation.
\<close>

subsection \<open>Keys and accounts\<close>

type_synonym pubkey = bytes

definition zero_key :: pubkey where
  "zero_key = replicate 32 (CHR 0x00)"

record solana_accounts =
  sa_fee_payer :: pubkey
  sa_run :: pubkey
  sa_vault :: pubkey
  sa_token_program :: pubkey
  sa_program :: pubkey

datatype run_error =
    ErrPayoutRunEmpty
  | ErrRunTooLarge nat
  | ErrAccountsMismatch nat nat
  | ErrRunBadAmount nat
  | ErrAmountOverflow nat int
  | ErrRunZeroRef nat
  | ErrZeroAccountOf nat
  | ErrZeroFixedAccount
  | ErrNoSuchBlock int nat
  | ErrRunMerkle merkle_error

definition run_block :: nat where
  "run_block = 8"

definition pay_batch_discriminator :: "platform \<Rightarrow> bytes" where
  "pay_batch_discriminator p = take 8 (sha256 p ''global:pay_batch'')"

record payout_run =
  pr_items :: "payout list"
  pr_accounts :: "pubkey list"
  pr_tree :: tree

text \<open>\<open>binary.LittleEndian\<close>: \<open>k\<close> bytes, low first.\<close>

fun put_le :: "nat \<Rightarrow> nat \<Rightarrow> bytes" where
  "put_le 0 n = []"
| "put_le (Suc k) n = char_of (n mod 256) # put_le k (n div 256)"

definition leaf_data :: "nat \<Rightarrow> pubkey \<Rightarrow> nat \<Rightarrow> bytes \<Rightarrow> bytes" where
  "leaf_data i acct amount r = put_le 2 i @ acct @ put_le 8 amount @ r"

text \<open>The loop of \<open>NewRun\<close> from payout \<open>i\<close> on.\<close>

fun run_leaves :: "platform \<Rightarrow> nat \<Rightarrow> payout list \<Rightarrow> pubkey list \<Rightarrow> run_error + bytes list" where
  "run_leaves p i [] accts = Inr []"
| "run_leaves p i (it # its) accts =
     (case po_amount it of
        None \<Rightarrow> Inl (ErrRunBadAmount i)
      | Some a \<Rightarrow>
          if a \<le> 0 then Inl (ErrRunBadAmount i)
          else if a \<ge> 2 ^ 64 then Inl (ErrAmountOverflow i a)
          else if ref_is_zero (po_ref it) then Inl (ErrRunZeroRef i)
          else if hd accts = zero_key then Inl (ErrZeroAccountOf i)
          else (case run_leaves p (i + 1) its (tl accts) of
                  Inl e \<Rightarrow> Inl e
                | Inr ls \<Rightarrow> Inr (leaf_hash p (leaf_data i (hd accts) (nat a) (po_ref it)) # ls)))"

definition new_run :: "platform \<Rightarrow> payout list \<Rightarrow> pubkey list \<Rightarrow> run_error + payout_run" where
  "new_run p items accts =
     (if items = [] then Inl ErrPayoutRunEmpty
      else if length items > 2 ^ 16 then Inl (ErrRunTooLarge (length items))
      else if length accts \<noteq> length items then Inl (ErrAccountsMismatch (length items) (length accts))
      else case run_leaves p 0 items accts of
          Inl e \<Rightarrow> Inl e
        | Inr ls \<Rightarrow>
            (case build p (ls @ replicate (run_block - length ls) pad_leaf) of
               Inl e \<Rightarrow> Inl (ErrRunMerkle e)
             | Inr t \<Rightarrow> Inr \<lparr>pr_items = items, pr_accounts = accts, pr_tree = t\<rparr>))"

definition run_root :: "payout_run \<Rightarrow> bytes" where
  "run_root r = tree_root (pr_tree r)"

definition run_blocks :: "payout_run \<Rightarrow> nat" where
  "run_blocks r = (length (pr_items r) + run_block - 1) div run_block"

definition run_depth :: "payout_run \<Rightarrow> nat" where
  "run_depth r = tree_depth (pr_tree r)"

subsection \<open>The message of one block\<close>

fun append_compact_u16 :: "bytes \<Rightarrow> nat \<Rightarrow> bytes" where
  "append_compact_u16 b v =
     (if v div 128 = 0 then b @ [char_of (v mod 128)]
      else append_compact_u16 (b @ [char_of (v mod 128 + 128)]) (v div 128))"

declare append_compact_u16.simps [simp del]

text \<open>The account table: a token account seen before keeps its place, a new one is appended.\<close>

fun key_table :: "pubkey list \<Rightarrow> pubkey list \<Rightarrow> (pubkey \<Rightarrow> nat option) \<Rightarrow> pubkey list \<times> nat list" where
  "key_table [] keys seen = (keys, [])"
| "key_table (ta # tas) keys seen =
     (case seen ta of
        Some at \<Rightarrow> (let (ks, ix) = key_table tas keys seen in (ks, at # ix))
      | None \<Rightarrow> (let (ks, ix) = key_table tas (keys @ [ta]) (seen(ta \<mapsto> length keys)) in (ks, length keys # ix)))"

definition payout_amount :: "payout \<Rightarrow> nat" where
  "payout_amount it = (case po_amount it of None \<Rightarrow> 0 | Some a \<Rightarrow> nat a)"

definition pay_batch_data :: "platform \<Rightarrow> nat \<Rightarrow> payout list \<Rightarrow> bytes list \<Rightarrow> bytes" where
  "pay_batch_data p block items pf =
     pay_batch_discriminator p @ put_le 2 block @ [char_of (length items)]
       @ concat (map (\<lambda>it. put_le 8 (payout_amount it) @ po_ref it) items) @ concat pf"

definition pay_batch_message :: "platform \<Rightarrow> payout_run \<Rightarrow> solana_accounts \<Rightarrow> bytes \<Rightarrow> int \<Rightarrow> run_error + bytes" where
  "pay_batch_message p r acc blockhash block =
     (if zero_key \<in> set [sa_fee_payer acc, sa_run acc, sa_vault acc, sa_token_program acc, sa_program acc]
      then Inl ErrZeroFixedAccount
      else if block < 0 \<or> wrap_int64 (block * int run_block) \<ge> int (length (pr_items r))
      then Inl (ErrNoSuchBlock block (run_blocks r))
      else
        let start = nat (wrap_int64 (block * int run_block));
            items = take run_block (drop start (pr_items r));
            (ks, ix) = key_table (take (length items) (drop start (pr_accounts r)))
                         [sa_fee_payer acc, sa_run acc, sa_vault acc] (\<lambda>_. None);
            readonly_at = length ks;
            keys = ks @ [sa_token_program acc, sa_program acc];
            msg = append_compact_u16 (map char_of [1 :: nat, 0, 2]) (length keys) @ concat keys @ blockhash;
            msg = append_compact_u16 msg 1 @ [char_of (readonly_at + 1)];
            msg = append_compact_u16 msg (3 + length items) @ map char_of [1, 2, readonly_at] @ map char_of ix
        in case block_proof (pr_tree r) block 3 of
             Inl e \<Rightarrow> Inl (ErrRunMerkle e)
           | Inr pf \<Rightarrow>
               let data = pay_batch_data p (nat block) items pf
               in Inr (append_compact_u16 msg (length data) @ data))"

subsection \<open>The runtime's reading of a message\<close>

fun read_le :: "bytes \<Rightarrow> nat" where
  "read_le [] = 0"
| "read_le (c # cs) = of_char c + 256 * read_le cs"

fun read_compact :: "bytes \<Rightarrow> (nat \<times> bytes) option" where
  "read_compact [] = None"
| "read_compact (c # cs) =
     (if (of_char c :: nat) < 128 then Some (of_char c, cs)
      else case read_compact cs of None \<Rightarrow> None | Some (v, r) \<Rightarrow> Some (of_char c - 128 + 128 * v, r))"

fun chunks :: "nat \<Rightarrow> nat \<Rightarrow> bytes \<Rightarrow> bytes list" where
  "chunks k 0 b = []"
| "chunks k (Suc n) b = take k b # chunks k n (drop k b)"

record instruction =
  in_program :: pubkey
  in_accounts :: "pubkey list"
  in_data :: bytes

text \<open>
  One signature, no readonly signer, two readonly accounts at the end; the table; the blockhash; one instruction. An
  index outside the table, or bytes left over, is not a message.
\<close>

definition parse_instruction :: "bytes list \<Rightarrow> bytes \<Rightarrow> instruction option" where
  "parse_instruction keys b =
     (case b of
        [] \<Rightarrow> None
      | prog # b \<Rightarrow>
          (case read_compact b of
             None \<Rightarrow> None
           | Some (n, b) \<Rightarrow>
               (case read_compact (drop n b) of
                  None \<Rightarrow> None
                | Some (len, d) \<Rightarrow>
                    if n > length b \<or> length d \<noteq> len
                      \<or> (\<exists>c \<in> set (prog # take n b). (of_char c :: nat) \<ge> length keys) then None
                    else Some \<lparr>in_program = keys ! of_char prog,
                               in_accounts = map (\<lambda>c. keys ! of_char c) (take n b), in_data = d\<rparr>)))"

definition parse_message :: "bytes \<Rightarrow> (bytes \<times> pubkey list \<times> instruction) option" where
  "parse_message m =
     (if length m < 3 \<or> take 3 m \<noteq> map char_of [1 :: nat, 0, 2] then None
      else case read_compact (drop 3 m) of
          None \<Rightarrow> None
        | Some (n, b) \<Rightarrow>
            (let keys = chunks 32 n b; b = drop (32 * n) b
             in if length b < 32 then None
                else case read_compact (drop 32 b) of
                    None \<Rightarrow> None
                  | Some (k, c) \<Rightarrow>
                      if k \<noteq> 1 then None
                      else map_option (\<lambda>i. (take 32 b, keys, i)) (parse_instruction keys c)))"

subsection \<open>The program that reads it\<close>

datatype payout_error =
    InvalidInstructionData
  | NotEnoughAccountKeys
  | AlreadyClawedBack
  | RunExpired
  | InvalidProof
  | AlreadyPaid
  | BlockOutOfRange
  | WrongBatchShape

text \<open>The run account: the fields of its fixed header that \<open>pay_batch\<close> reads, and the bitmap as a list of bits.\<close>

record run_state =
  rs_clawed :: bool
  rs_root :: bytes
  rs_total_paid :: nat
  rs_deadline :: int
  rs_leaf_count :: nat
  rs_bits :: "bool list"

fun depth_from :: "nat \<Rightarrow> nat \<Rightarrow> nat \<Rightarrow> nat \<Rightarrow> nat" where
  "depth_from 0 leaf_count width depth = depth"
| "depth_from (Suc fuel) leaf_count width depth =
     (if width < leaf_count then depth_from fuel leaf_count (width * 2) (depth + 1) else depth)"

text \<open>The loop of \<open>depth_for\<close> doubles from 8: 64 rounds are more than a 64-bit width can take.\<close>

definition depth_for :: "nat \<Rightarrow> nat" where
  "depth_for leaf_count = depth_from 64 leaf_count 8 3"

definition program_leaf :: "platform \<Rightarrow> nat \<Rightarrow> nat \<Rightarrow> pubkey list \<Rightarrow> bytes \<Rightarrow> nat \<Rightarrow> bytes" where
  "program_leaf p block count merchants d i =
     (if i < count
      then leaf_hash p (put_le 2 ((block * 8 + i) mod 2 ^ 16) @ merchants ! i
             @ put_le 8 (read_le (take 8 (drop (3 + i * 40) d))) @ take 32 (drop (3 + i * 40 + 8) d))
      else pad_leaf)"

text \<open>The bitmap loop: the bits of one block, refused at the first that is set.\<close>

fun flip_bits :: "bool list \<Rightarrow> nat \<Rightarrow> nat \<Rightarrow> bool list option" where
  "flip_bits bits from 0 = Some bits"
| "flip_bits bits from (Suc n) = (if bits ! from then None else flip_bits (bits[from := True]) (from + 1) n)"

text \<open>The checks of \<open>pay_batch\<close>, in its order, up to the proof.\<close>

definition program_checks :: "platform \<Rightarrow> int \<Rightarrow> run_state \<Rightarrow> pubkey list \<Rightarrow> bytes \<Rightarrow> payout_error option" where
  "program_checks p now st accounts d =
     (if length d < 3 then Some InvalidInstructionData
      else
        let block = read_le (take 2 d); count = of_char (d ! 2) :: nat;
            pf = drop (3 + count * 40) d
        in if count = 0 \<or> count > 8 \<or> length d < 3 + count * 40 then Some InvalidInstructionData
           else if length pf mod 32 \<noteq> 0 then Some InvalidInstructionData
           else if length accounts < 3 then Some NotEnoughAccountKeys
           else if rs_clawed st then Some AlreadyClawedBack
           else if now \<ge> rs_deadline st then Some RunExpired
           else if block * 8 \<ge> rs_leaf_count st then Some BlockOutOfRange
           else if count \<noteq> min (rs_leaf_count st - block * 8) 8 then Some WrongBatchShape
           else if length pf \<noteq> (depth_for (rs_leaf_count st) - 3) * 32 then Some InvalidProof
           else if length (drop 3 accounts) \<noteq> count then Some WrongBatchShape
           else if climb_proof p (int block)
                     (hd (collapse p (map (program_leaf p block count (drop 3 accounts) d) [0 ..< 8])))
                     (chunks 32 (length pf div 32) pf) \<noteq> rs_root st then Some InvalidProof
           else None)"

definition program_pay_batch :: "platform \<Rightarrow> int \<Rightarrow> run_state \<Rightarrow> pubkey list \<Rightarrow> bytes
    \<Rightarrow> payout_error + run_state \<times> (pubkey \<times> nat) list" where
  "program_pay_batch p now st accounts d =
     (case program_checks p now st accounts d of
        Some e \<Rightarrow> Inl e
      | None \<Rightarrow>
          (case flip_bits (rs_bits st) (read_le (take 2 d) * 8) (of_char (d ! 2)) of
             None \<Rightarrow> Inl AlreadyPaid
           | Some bits \<Rightarrow>
               let amounts = map (\<lambda>i. read_le (take 8 (drop (3 + i * 40) d))) [0 ..< of_char (d ! 2)]
               in if rs_total_paid st + sum_list amounts \<ge> 2 ^ 64 then Inl InvalidInstructionData
                  else Inr (st\<lparr>rs_bits := bits, rs_total_paid := rs_total_paid st + sum_list amounts\<rparr>,
                            zip (drop 3 accounts) amounts)))"

subsection \<open>Bytes written and read back\<close>

lemma length_put_le [simp]: "length (put_le k n) = k"
  by (induction k arbitrary: n) auto

lemma read_put_le: "n < 256 ^ k \<Longrightarrow> read_le (put_le k n) = n"
proof (induction k arbitrary: n)
  case (Suc k)
  then have "n div 256 < 256 ^ k" by (simp add: less_mult_imp_div_less mult.commute)
  with Suc.IH show ?case by simp
qed simp

lemma compact_uvarint: "append_compact_u16 b v = b @ uvarint v"
proof (induction v arbitrary: b rule: uvarint.induct)
  case (1 n)
  show ?case
  proof (cases "n < 128")
    case True
    then show ?thesis by (simp add: append_compact_u16.simps [of b n] uvarint.simps [of n])
  next
    case False
    then have "n div 128 \<noteq> 0" by simp
    then have "append_compact_u16 b n = append_compact_u16 (b @ [char_of (n mod 128 + 128)]) (n div 128)"
      by (simp add: append_compact_u16.simps [of b n])
    then show ?thesis using 1 [OF False] False by (simp add: uvarint.simps [of n])
  qed
qed

lemma read_compact_uvarint: "read_compact (uvarint v @ r) = Some (v, r)"
proof (induction v rule: uvarint.induct)
  case (1 n)
  show ?case
  proof (cases "n < 128")
    case True
    then show ?thesis by (simp add: uvarint.simps [of n])
  next
    case False
    have "(of_char (char_of (n mod 128 + 128) :: char) :: nat) = n mod 128 + 128" by simp
    with 1 [OF False] False show ?thesis by (simp add: uvarint.simps [of n])
  qed
qed

lemma length_uvarint: "n < 16384 \<Longrightarrow> length (uvarint n) = (if n < 128 then 1 else 2)"
proof -
  assume "n < 16384"
  then have "n div 128 < 128" by (simp add: less_mult_imp_div_less)
  then show ?thesis by (simp add: uvarint.simps [of n] uvarint.simps [of "n div 128"])
qed

lemma chunks_concat: "\<forall>x \<in> set xs. length x = k \<Longrightarrow> chunks k (length xs) (concat xs @ r) = xs"
  by (induction xs) auto

lemma take_drop_concat:
  assumes "\<forall>x \<in> set xs. length x = k" "i < length xs" "a + b \<le> k"
  shows "take b (drop (i * k + a) (concat xs @ r)) = take b (drop a (xs ! i))"
  using assms
proof (induction xs arbitrary: i)
  case (Cons x xs)
  show ?case
  proof (cases i)
    case 0
    with Cons show ?thesis by simp
  next
    case (Suc j)
    have "drop (Suc j * k + a) (concat (x # xs) @ r) = drop (j * k + a) (concat xs @ r)"
      using Cons.prems(1) by (simp add: drop_append add.assoc)
    with Suc Cons show ?thesis by simp
  qed
qed simp

subsection \<open>The account table\<close>

definition seen_ok :: "pubkey list \<Rightarrow> (pubkey \<Rightarrow> nat option) \<Rightarrow> bool" where
  "seen_ok keys seen \<longleftrightarrow> (\<forall>k at. seen k = Some at \<longrightarrow> at < length keys \<and> keys ! at = k)"

lemma key_table_ok:
  "seen_ok keys seen \<Longrightarrow> key_table tas keys seen = (ks, ix) \<Longrightarrow>
     take (length keys) ks = keys \<and> length keys \<le> length ks \<and> length ks \<le> length keys + length tas
     \<and> length ix = length tas \<and> (\<forall>i \<in> set ix. i < length ks) \<and> map (nth ks) ix = tas
     \<and> set ks \<subseteq> set keys \<union> set tas"
proof (induction tas arbitrary: keys seen ks ix)
  case (Cons ta tas)
  show ?case
  proof (cases "seen ta")
    case None
    obtain ix' where r: "key_table tas (keys @ [ta]) (seen(ta \<mapsto> length keys)) = (ks, ix')" "ix = length keys # ix'"
      using Cons.prems(2) None by (auto split: prod.splits)
    have "seen_ok (keys @ [ta]) (seen(ta \<mapsto> length keys))"
      using Cons.prems(1) less_SucI by (fastforce simp: seen_ok_def nth_append)
    note IH = Cons.IH [OF this r(1)]
    then have t: "take (length keys) ks = keys" "ks ! length keys = ta"
      by (metis append_eq_conv_conj append_take_drop_id length_append nth_append_length take_add append_assoc,
          metis length_append_singleton lessI nth_append_length nth_take)
    with IH r(2) show ?thesis by auto
  next
    case (Some at)
    obtain ix' where r: "key_table tas keys seen = (ks, ix')" "ix = at # ix'"
      using Cons.prems(2) Some by (auto split: prod.splits)
    note IH = Cons.IH [OF Cons.prems(1) r(1)]
    have at: "at < length keys" "keys ! at = ta" using Cons.prems(1) Some by (auto simp: seen_ok_def)
    then have "ks ! at = ta" using IH by (metis nth_take)
    with IH at r(2) show ?thesis by auto
  qed
qed auto

subsection \<open>The run and its tree\<close>

lemma run_leaves_ok:
  "run_leaves p i items accts = Inr ls \<Longrightarrow> length accts = length items \<Longrightarrow>
     length ls = length items \<and> (\<forall>it \<in> set items. 0 < payout_amount it \<and> payout_amount it < 2 ^ 64)
     \<and> (\<forall>j < length items. ls ! j =
          leaf_hash p (leaf_data (i + j) (accts ! j) (payout_amount (items ! j)) (po_ref (items ! j))))"
proof (induction p i items accts arbitrary: ls rule: run_leaves.induct)
  case (2 p i it its accts)
  obtain a where a: "po_amount it = Some a" "0 < a" "a < 2 ^ 64" "\<not> ref_is_zero (po_ref it)" "hd accts \<noteq> zero_key"
    using 2(2) by (auto split: option.splits if_splits)
  then obtain ls' where ls: "run_leaves p (i + 1) its (tl accts) = Inr ls'"
      "ls = leaf_hash p (leaf_data i (hd accts) (nat a) (po_ref it)) # ls'"
    using 2(2) by (auto split: sum.splits)
  have IH: "length ls' = length its" "\<forall>it \<in> set its. 0 < payout_amount it \<and> payout_amount it < 2 ^ 64"
     "\<forall>j < length its. ls' ! j =
          leaf_hash p (leaf_data (i + 1 + j) (tl accts ! j) (payout_amount (its ! j)) (po_ref (its ! j)))"
    using 2(1) [OF a(1) _ _ _ _ ls(1)] a 2(3) by auto
  have am: "payout_amount it = nat a" "0 < nat a" "nat a < 2 ^ 64" using a by (simp_all add: payout_amount_def nat_less_iff)
  obtain ac acs where ac: "accts = ac # acs" using 2(3) by (cases accts) auto
  show ?case
    using IH am unfolding ls(2) ac by (auto simp: nth_Cons split: nat.splits)
qed simp

lemma new_run_ok:
  assumes "new_run p items accts = Inr r"
  shows "pr_items r = items" "pr_accounts r = accts" "items \<noteq> []" "length items \<le> 2 ^ 16" "length accts = length items"
    "\<exists>ls. run_leaves p 0 items accts = Inr ls \<and> build p (ls @ replicate (8 - length ls) pad_leaf) = Inr (pr_tree r)"
  using assms by (auto simp: new_run_def run_block_def split: if_splits sum.splits)

lemma double_from_8: "double_to (max n 8) 1 = double_to n 8"
proof (cases "n \<le> 8")
  case True
  have "double_to 8 1 = 8" by (simp add: double_to.simps)
  with True show ?thesis by (simp add: max_def double_to.simps [of n 8])
next
  case False
  then have "double_to n 1 = double_to n 8"
    by (simp add: double_to.simps [of n "Suc 0"] double_to.simps [of n 2] double_to.simps [of n 4])
  with False show ?thesis by (simp add: max_def)
qed

lemma run_width:
  assumes "new_run p items accts = Inr r"
  shows "2 ^ run_depth r = double_to (length items) 8" "3 \<le> run_depth r" "length items \<le> 2 ^ run_depth r" "run_depth r \<le> 16"
proof -
  note ok = new_run_ok [OF assms]
  obtain ls where ls: "run_leaves p 0 items accts = Inr ls" "build p (ls @ replicate (8 - length ls) pad_leaf) = Inr (pr_tree r)"
    using ok(6) by blast
  have "length ls = length items" using run_leaves_ok [OF ls(1) ok(5)] by blast
  then have len: "length (ls @ replicate (8 - length ls) pad_leaf) = max (length items) 8" by simp
  show w: "2 ^ run_depth r = double_to (length items) 8"
    using build_width [OF ls(2)] len double_from_8 by (simp add: run_depth_def)
  obtain k where k: "3 \<le> k" "double_to (length items) (2 ^ 3) = 2 ^ k" "length items \<le> 2 ^ k" "k = 3 \<or> 2 ^ (k - 1) < length items"
    using double_to_least [of 3 "length items"] by blast
  have d: "run_depth r = k" using w k(2) by simp
  show "3 \<le> run_depth r" "length items \<le> 2 ^ run_depth r" using d k by simp_all
  show "run_depth r \<le> 16"
  proof (rule ccontr)
    assume n: "\<not> run_depth r \<le> 16"
    then have "2 ^ (k - 1) < length items" using d k(4) by auto
    also have "length items \<le> (2::nat) ^ 16" by (rule ok(4))
    finally have "k - 1 < 16" by (rule power_less_imp_less_exp [rotated]) simp
    with n d show False by simp
  qed
qed

lemma depth_from_doubles: "0 < w \<Longrightarrow> n \<le> w * 2 ^ fuel \<Longrightarrow> 2 ^ depth_from fuel n w d * w = 2 ^ d * double_to n w"
proof (induction fuel arbitrary: w d)
  case 0
  then show ?case by (simp add: double_to.simps [of n w])
next
  case (Suc fuel)
  show ?case
  proof (cases "w < n")
    case True
    have "n \<le> w * 2 * 2 ^ fuel" using Suc.prems(2) by (simp add: mult.assoc)
    then have "2 ^ depth_from fuel n (w * 2) (d + 1) * (w * 2) = 2 ^ (d + 1) * double_to n (w * 2)"
      using Suc.prems(1) by (intro Suc.IH) simp_all
    with True Suc.prems(1) show ?thesis by (simp add: double_to.simps [of n w] mult.commute)
  next
    case False
    then show ?thesis by (simp add: double_to.simps [of n w])
  qed
qed

lemma depth_for_run:
  assumes "new_run p items accts = Inr r"
  shows "depth_for (length items) = run_depth r"
proof -
  have "length items \<le> 8 * 2 ^ 64" using new_run_ok(4) [OF assms] by simp
  then have "2 ^ depth_for (length items) * 8 = 2 ^ 3 * double_to (length items) 8"
    unfolding depth_for_def by (intro depth_from_doubles) simp_all
  then have "(2::nat) ^ depth_for (length items) = 2 ^ run_depth r" using run_width(1) [OF assms] by simp
  then show ?thesis by simp
qed

definition leaf_of :: "platform \<Rightarrow> payout_run \<Rightarrow> nat \<Rightarrow> bytes" where
  "leaf_of p r j = (if j < length (pr_items r)
     then leaf_hash p (leaf_data j (pr_accounts r ! j) (payout_amount (pr_items r ! j)) (po_ref (pr_items r ! j)))
     else pad_leaf)"

lemma run_block_leaves:
  assumes "new_run p items accts = Inr r" "b < 2 ^ (run_depth r - 3)"
  shows "block_of (pr_tree r) 3 b = map (\<lambda>i. leaf_of p r (b * 8 + i)) [0 ..< 8]"
proof -
  note ok = new_run_ok [OF assms(1)]
  obtain ls where ls: "run_leaves p 0 items accts = Inr ls" "build p (ls @ replicate (8 - length ls) pad_leaf) = Inr (pr_tree r)"
    using ok(6) by blast
  note lo = run_leaves_ok [OF ls(1) ok(5)]
  let ?L = "hd (levels (pr_tree r))"
  have L: "?L = pad_to (2 ^ run_depth r) (ls @ replicate (8 - length ls) pad_leaf)"
    using build_ok [OF ls(2)] by (simp add: run_depth_def)
  have ll: "length ls = length items" using lo by blast
  have len: "length ?L = 2 ^ run_depth r"
    using build_ok [OF ls(2)] unfolding L by (simp add: pad_to_def run_depth_def)
  have nth: "?L ! j = leaf_of p r j" if "j < 2 ^ run_depth r" for j
    using that lo ll unfolding L by (auto simp: pad_to_def leaf_of_def ok nth_append)
  have "Suc b * 8 \<le> 2 ^ (run_depth r - 3) * 2 ^ 3" using assms(2) by simp
  also have "\<dots> = (2::nat) ^ (run_depth r - 3 + 3)" by (simp only: power_add)
  also have "\<dots> = 2 ^ run_depth r" using run_width(2) [OF assms(1)] by simp
  finally have b8: "b * 8 + 8 \<le> 2 ^ run_depth r" by simp
  show ?thesis
    unfolding block_of_def using len b8 nth by (intro nth_equalityI) simp_all
qed

subsection \<open>The parts of a message\<close>

definition well_sized :: "platform \<Rightarrow> payout_run \<Rightarrow> solana_accounts \<Rightarrow> bytes \<Rightarrow> bool" where
  "well_sized p r acc blockhash \<longleftrightarrow> (\<forall>x. length (sha256 p x) = 32)
     \<and> (\<forall>k \<in> set [sa_fee_payer acc, sa_run acc, sa_vault acc, sa_token_program acc, sa_program acc]. length k = 32)
     \<and> (\<forall>k \<in> set (pr_accounts r). length k = 32) \<and> (\<forall>it \<in> set (pr_items r). length (po_ref it) = 32)
     \<and> length blockhash = 32"

definition block_items :: "payout_run \<Rightarrow> nat \<Rightarrow> payout list" where
  "block_items r b = take 8 (drop (b * 8) (pr_items r))"

definition block_accounts :: "payout_run \<Rightarrow> nat \<Rightarrow> pubkey list" where
  "block_accounts r b = take (length (block_items r b)) (drop (b * 8) (pr_accounts r))"

lemma proof_sized:
  "levels_ok p ls \<Longrightarrow> \<forall>l \<in> set ls. sized l \<Longrightarrow> idx < length (hd ls) \<Longrightarrow> sized (proof_from ls idx)"
proof (induction p ls arbitrary: idx rule: levels_ok.induct)
  case (3 p l m ls)
  note lv = levels_okD [OF 3(2)]
  have "sibling idx < length l" using 3(4) lv(1) by (auto simp: sibling_def elim!: evenE)
  then have "length (l ! sibling idx) = 32" using 3(3) by (simp add: sized_def)
  moreover have "sized (proof_from (m # ls) (idx div 2))" using 3 lv by simp
  ultimately show ?case by (simp add: sized_def)
next
  case (2 p l)
  then show ?case by (simp add: sized_def)
qed simp

lemma message_parts:
  assumes r: "new_run p items accts = Inr r" and m: "pay_batch_message p r acc blockhash block = Inr msg"
  obtains b ks ix pf where "block = int b" "b * 8 < length items" "b < 2 ^ (run_depth r - 3)"
    "key_table (block_accounts r b) [sa_fee_payer acc, sa_run acc, sa_vault acc] (\<lambda>_. None) = (ks, ix)"
    "block_proof (pr_tree r) block 3 = Inr pf"
    "msg = map char_of [1 :: nat, 0, 2] @ uvarint (length ks + 2) @ concat (ks @ [sa_token_program acc, sa_program acc])
       @ blockhash @ uvarint 1 @ [char_of (length ks + 1)] @ uvarint (3 + length (block_items r b))
       @ map char_of [1, 2, length ks] @ map char_of ix
       @ uvarint (length (pay_batch_data p b (block_items r b) pf)) @ pay_batch_data p b (block_items r b) pf"
proof -
  note ok = new_run_ok [OF r]
  obtain pf where pf: "block_proof (pr_tree r) block 3 = Inr pf"
    using m by (auto simp: pay_batch_message_def Let_def split: if_splits sum.splits prod.splits)
  then have bl: "0 \<le> block" "block < int (length (levels (pr_tree r) ! 3))"
    by (auto simp: block_proof_def split: if_splits)
  define b where "b = nat block"
  have block: "block = int b" using bl by (simp add: b_def)
  obtain ls where ls: "build p (ls @ replicate (8 - length ls) pad_leaf) = Inr (pr_tree r)" using ok(6) by blast
  have lv: "length (levels (pr_tree r) ! 3) = 2 ^ (run_depth r - 3)"
    using levels_ok_nth [of p "levels (pr_tree r)" 3] build_ok [OF ls] run_width(2) [OF r] by (simp add: run_depth_def)
  have lt: "b < 2 ^ (run_depth r - 3)" using bl(2) block lv by simp
  also have "\<dots> \<le> (2::nat) ^ 13" using run_width(4) [OF r] by (intro power_increasing) simp_all
  finally have "b < 8192" by simp
  then have w: "wrap_int64 (block * int run_block) = int (b * 8)"
    unfolding block run_block_def by (subst wrap_int64_id) simp_all
  have n: "b * 8 < length items"
    using m ok(1) w by (auto simp: pay_batch_message_def Let_def split: if_splits sum.splits prod.splits)
  obtain ks ix where ks: "key_table (block_accounts r b) [sa_fee_payer acc, sa_run acc, sa_vault acc] (\<lambda>_. None) = (ks, ix)"
    by fastforce
  have start: "nat (wrap_int64 (block * int 8)) = b * 8" using w unfolding run_block_def by simp
  have nb: "nat block = b" by (simp add: b_def)
  have "msg = map char_of [1 :: nat, 0, 2] @ uvarint (length ks + 2) @ concat (ks @ [sa_token_program acc, sa_program acc])
       @ blockhash @ uvarint 1 @ [char_of (length ks + 1)] @ uvarint (3 + length (block_items r b))
       @ map char_of [1, 2, length ks] @ map char_of ix
       @ uvarint (length (pay_batch_data p b (block_items r b) pf)) @ pay_batch_data p b (block_items r b) pf"
    using m ks unfolding pay_batch_message_def run_block_def Let_def start nb pf
      block_items_def [of r b, symmetric] block_accounts_def [of r b, symmetric]
    by (simp add: compact_uvarint split: if_splits)
  with block n lt ks pf that show thesis by blast
qed

lemma block_proof_sized:
  assumes "new_run p items accts = Inr r" "\<forall>x. length (sha256 p x) = 32" "b < 2 ^ (run_depth r - 3)"
  shows "\<exists>pf. block_proof (pr_tree r) (int b) 3 = Inr pf \<and> length pf = run_depth r - 3 \<and> (\<forall>x \<in> set pf. length x = 32)
    \<and> climb_proof p (int b) (hd (collapse p (block_of (pr_tree r) 3 b))) pf = run_root r"
proof -
  note ok = new_run_ok [OF assms(1)]
  obtain ls where ls: "run_leaves p 0 items accts = Inr ls" "build p (ls @ replicate (8 - length ls) pad_leaf) = Inr (pr_tree r)"
    using ok(6) by blast
  note bo = build_ok [OF ls(2)]
  obtain pf where pf: "block_proof (pr_tree r) (int b) 3 = Inr pf" "length pf = run_depth r - 3"
      "verify_block p (tree_root (pr_tree r)) (int b) (block_of (pr_tree r) 3 b) pf"
    using block_proof_ok [OF ls(2), of 3 "int b"] run_width(2) [OF assms(1)] assms(3) by (auto simp: run_depth_def)
  have "sized ls" using run_leaves_ok [OF ls(1) ok(5)] assms(2)
    by (auto simp: sized_def in_set_conv_nth leaf_hash_def)
  then have "sized (hd (levels (pr_tree r)))" using bo by (auto simp: sized_def pad_to_def pad_leaf_def)
  then have sz: "\<forall>l \<in> set (levels (pr_tree r)). sized l" using levels_sized [of p "levels (pr_tree r)"] bo assms(2) by blast
  have al: "3 < length (levels (pr_tree r))" using bo run_width(2) [OF assms(1)] by (simp add: run_depth_def)
  have "sized (proof_from (drop 3 (levels (pr_tree r))) b)"
  proof (rule proof_sized)
    show "levels_ok p (drop 3 (levels (pr_tree r)))" using bo al by (intro levels_ok_drop) simp_all
    show "\<forall>l \<in> set (drop 3 (levels (pr_tree r))). sized l" using sz by (auto dest: in_set_dropD)
    show "b < length (hd (drop 3 (levels (pr_tree r))))"
      using levels_ok_nth [of p "levels (pr_tree r)" 3] bo al assms(3) by (simp add: hd_drop_conv_nth run_depth_def)
  qed
  moreover have "pf = proof_from (drop 3 (levels (pr_tree r))) b"
    using pf(1) by (auto simp: block_proof_def split: if_splits)
  ultimately show ?thesis
    using pf by (auto simp: sized_def verify_block_def run_root_def split: if_splits)
qed

lemma block_items_sub: "set (block_items r b) \<subseteq> set (pr_items r)" "set (block_accounts r b) \<subseteq> set (pr_accounts r)"
  by (auto simp: block_items_def block_accounts_def dest!: in_set_takeD in_set_dropD)

lemma block_lengths:
  assumes "length (pr_accounts r) = length (pr_items r)" "b * 8 < length (pr_items r)"
  shows "length (block_items r b) = min (length (pr_items r) - b * 8) 8" "length (block_accounts r b) = length (block_items r b)"
    "0 < length (block_items r b)" "length (block_items r b) \<le> 8"
    "i < length (block_items r b) \<Longrightarrow> block_items r b ! i = pr_items r ! (b * 8 + i)"
    "i < length (block_items r b) \<Longrightarrow> block_accounts r b ! i = pr_accounts r ! (b * 8 + i)"
  using assms by (auto simp: block_items_def block_accounts_def)

lemma length_pay_batch_data:
  assumes "\<forall>x. length (sha256 p x) = 32" "\<forall>it \<in> set its. length (po_ref it) = 32" "\<forall>x \<in> set pf. length x = 32"
  shows "length (pay_batch_data p b its pf) = 11 + 40 * length its + 32 * length pf"
proof -
  have "length (concat (map (\<lambda>it. put_le 8 (payout_amount it) @ po_ref it) its)) = 40 * length its"
    using assms(2) by (subst length_concat_sized [of _ 40]) auto
  with length_concat_sized [OF assms(3)] assms(1) show ?thesis by (simp add: pay_batch_data_def pay_batch_discriminator_def)
qed

subsection \<open>The plan's batches are the run's blocks\<close>

lemma aligned_loop_nth:
  "0 < align \<Longrightarrow> b * align < length items \<Longrightarrow>
     b < length (aligned_loop rs h align k items)
     \<and> aligned_loop rs h align k items ! b = aligned_batch rs h (k + b) (take align (drop (b * align) items))"
proof (induction b arbitrary: k items)
  case 0
  then show ?case by (simp add: aligned_loop.simps [of rs h align k items])
next
  case (Suc b)
  have "aligned_loop rs h align k items = aligned_batch rs h k (take align items) # aligned_loop rs h align (k + 1) (drop align items)"
    using Suc.prems by (auto simp: aligned_loop.simps [of rs h align k items])
  moreover have "b * align < length (drop align items)" using Suc.prems(2) by simp
  ultimately show ?case using Suc.IH [OF Suc.prems(1), of "drop align items" "k + 1"] by (simp add: add.commute)
qed

lemma solana_plan:
  assumes "pack items solana_limits = Inr pl" "length items \<le> 2 ^ 63"
  shows "bp_batches pl = aligned_loop (li_rules solana_limits) (tree_hashes solana_limits (length items)) 8 1 items"
    "bp_levels pl = bits_len (double_to (length items) 8) - 1"
    "\<forall>r \<in> set (li_rules solana_limits). cost r (tree_hashes solana_limits (length items)) 8 \<le> uint (ru_cap r)"
proof -
  have al: "li_align solana_limits = 8" by (simp add: solana_limits_def)
  then obtain x where pa: "pack_aligned items solana_limits = Inr (bp_levels pl, x, bp_batches pl)"
    using assms(1) by (auto simp: pack_def split: if_splits sum.splits)
  then show "bp_batches pl = aligned_loop (li_rules solana_limits) (tree_hashes solana_limits (length items)) 8 1 items"
    "bp_levels pl = bits_len (double_to (length items) 8) - 1"
    using al by (auto simp: pack_aligned_def tree_hashes_def Let_def split: option.splits)
  show "\<forall>r \<in> set (li_rules solana_limits). cost r (tree_hashes solana_limits (length items)) 8 \<le> uint (ru_cap r)"
    using aligned_ok(1,3) [OF solana_sane [OF assms(2)] _ pa] al by simp
qed

text \<open>The bytes rule, with the batch's items and the run's proof: what \<open>Pack\<close> reserves for a message.\<close>

lemma solana_reserved:
  assumes "pack items solana_limits = Inr pl" "new_run p items accts = Inr r" "b * 8 < length items"
  shows "b < length (bp_batches pl)" "bt_items (bp_batches pl ! b) = block_items r b" "bp_levels pl = run_depth r"
    "unat (us_used (hd (bt_used (bp_batches pl ! b)))) = 280 + 73 * length (block_items r b) + 32 * (run_depth r - 3)"
    "280 + 73 * length (block_items r b) + 32 * (run_depth r - 3) \<le> 1232"
proof -
  note ok = new_run_ok [OF assms(2)]
  have n: "length items \<le> 2 ^ 63" using ok(4) by simp
  note sp = solana_plan [OF assms(1) n]
  let ?h = "tree_hashes solana_limits (length items)"
  have nth: "b < length (bp_batches pl)"
      "bp_batches pl ! b = aligned_batch (li_rules solana_limits) ?h (1 + b) (take 8 (drop (b * 8) items))"
    using aligned_loop_nth [of 8 b items "li_rules solana_limits" ?h 1] assms(3) unfolding sp(1) by simp_all
  have d: "bits_len (double_to (length items) 8) = Suc (run_depth r)" using run_width(1) [OF assms(2)] by (metis bits_len_power)
  have b8: "bits_len 8 = 4" using bits_len_power [of 3] by simp
  have h: "?h = run_depth r - 3" using d b8 by (simp add: tree_hashes_def solana_limits_def)
  show "b < length (bp_batches pl)" by (rule nth(1))
  show it: "bt_items (bp_batches pl ! b) = block_items r b" by (simp add: nth(2) aligned_batch_def block_items_def ok)
  show "bp_levels pl = run_depth r" by (simp add: sp(2) d)
  let ?n = "length (block_items r b)"
  have n8: "?n \<le> 8" by (simp add: block_items_def)
  have h13: "?h \<le> 13" using run_width(4) [OF assms(2)] by (simp add: h)
  have "cost (resource ''bytes'' 1232 280 73 32 ''https://solana.com/docs/core/transactions/transaction-structure'') ?h 8 \<le> 1232"
    using sp(3) by (simp add: solana_limits_def resource_def)
  then show le: "280 + 73 * ?n + 32 * (run_depth r - 3) \<le> 1232"
    using n8 unfolding h by (simp add: cost_def resource_def)
  have "us_used (hd (bt_used (bp_batches pl ! b))) = of_nat (280 + 73 * ?n + 32 * ?h)"
    using it unfolding nth(2)
    by (simp add: aligned_batch_def solana_limits_def resource_def aligned_overhead_def algebra_simps del: of_nat_diff)
  then have "us_used (hd (bt_used (bp_batches pl ! b))) = of_nat (280 + 73 * ?n + 32 * (run_depth r - 3))"
    by (simp only: h)
  then show "unat (us_used (hd (bt_used (bp_batches pl ! b)))) = 280 + 73 * ?n + 32 * (run_depth r - 3)"
    using le by (simp add: unat_of_nat del: of_nat_add of_nat_mult)
qed

lemma message_length:
  assumes "new_run p items accts = Inr r" "well_sized p r acc bh" "pay_batch_message p r acc bh block = Inr msg"
  shows "65 + length msg \<le> 280 + 73 * length (block_items r (nat block)) + 32 * (run_depth r - 3)"
    "0 \<le> block" "nat block * 8 < length items"
proof -
  note ok = new_run_ok [OF assms(1)]
  from message_parts [OF assms(1,3)] obtain b ks ix pf where b: "block = int b" "b * 8 < length items" "b < 2 ^ (run_depth r - 3)"
    and kt: "key_table (block_accounts r b) [sa_fee_payer acc, sa_run acc, sa_vault acc] (\<lambda>_. None) = (ks, ix)"
    and pf: "block_proof (pr_tree r) block 3 = Inr pf"
    and msg: "msg = map char_of [1 :: nat, 0, 2] @ uvarint (length ks + 2) @ concat (ks @ [sa_token_program acc, sa_program acc])
       @ bh @ uvarint 1 @ [char_of (length ks + 1)] @ uvarint (3 + length (block_items r b))
       @ map char_of [1, 2, length ks] @ map char_of ix
       @ uvarint (length (pay_batch_data p b (block_items r b) pf)) @ pay_batch_data p b (block_items r b) pf" .
  have sz: "\<forall>x. length (sha256 p x) = 32" "\<forall>it \<in> set (block_items r b). length (po_ref it) = 32" "length bh = 32"
    using assms(2) block_items_sub(1) [of r b] by (auto simp: well_sized_def)
  have pfs: "length pf = run_depth r - 3" "\<forall>x \<in> set pf. length x = 32"
    using block_proof_sized [OF assms(1) sz(1) b(3)] pf b(1) by auto
  have bl: "length (block_accounts r b) = length (block_items r b)" "length (block_items r b) \<le> 8"
    using block_lengths(2,4) [of r b] ok b(2) by auto
  have "seen_ok [sa_fee_payer acc, sa_run acc, sa_vault acc] (\<lambda>_. None)" by (simp add: seen_ok_def)
  note kto = key_table_ok [OF this kt]
  have ks: "length ks \<le> 3 + length (block_items r b)" "length ix = length (block_items r b)"
      "\<forall>k \<in> set (ks @ [sa_token_program acc, sa_program acc]). length k = 32"
    using kto bl assms(2) block_items_sub(2) [of r b] by (auto simp: well_sized_def)
  have dl: "length (pay_batch_data p b (block_items r b) pf) = 11 + 40 * length (block_items r b) + 32 * (run_depth r - 3)"
    using length_pay_batch_data [OF sz(1,2) pfs(2)] pfs(1) by simp
  have lt: "11 + 40 * length (block_items r b) + 32 * (run_depth r - 3) < 16384"
    using bl(2) run_width(4) [OF assms(1)] by simp
  have c: "length (concat (ks @ [sa_token_program acc, sa_program acc])) = 32 * (length ks + 2)"
    using length_concat_sized [OF ks(3)] by simp
  have "length msg \<le> 3 + 1 + 32 * (length ks + 2) + 32 + 1 + 1 + 1 + 3 + length ix + 2
      + (11 + 40 * length (block_items r b) + 32 * (run_depth r - 3))"
    unfolding msg using c sz(3) ks(1) bl(2) lt
    by (simp add: dl length_uvarint del: concat_append)
  with ks(1,2) show "65 + length msg \<le> 280 + 73 * length (block_items r (nat block)) + 32 * (run_depth r - 3)"
    by (simp add: b(1))
  show "0 \<le> block" "nat block * 8 < length items" using b by simp_all
qed

subsection \<open>The runtime and the program on a built message\<close>

lemma parse_instruction_built:
  assumes "\<forall>c \<in> set (prog # ix). (of_char c :: nat) < length keys"
  shows "parse_instruction keys (prog # uvarint (length ix) @ ix @ uvarint (length d) @ d)
    = Some \<lparr>in_program = keys ! of_char prog, in_accounts = map (\<lambda>c. keys ! of_char c) ix, in_data = d\<rparr>"
  using assms by (auto simp: parse_instruction_def read_compact_uvarint not_le)

lemma parse_message_built:
  assumes "\<forall>k \<in> set keys. length k = 32" "length bh = 32"
  shows "parse_message (map char_of [1 :: nat, 0, 2] @ uvarint (length keys) @ concat keys @ bh @ uvarint 1 @ c)
    = map_option (\<lambda>i. (bh, keys, i)) (parse_instruction keys c)"
proof -
  have ck: "chunks 32 (length keys) (concat keys @ x) = keys" "drop (32 * length keys) (concat keys @ x) = x" for x
    using chunks_concat [OF assms(1), of x] length_concat_sized [OF assms(1)] by simp_all
  show ?thesis
    using assms(2) length_concat_sized [OF assms(1)] by (simp add: parse_message_def read_compact_uvarint Let_def ck)
qed

lemma parse_built:
  assumes "well_sized p r acc bh" "key_table (block_accounts r b) [sa_fee_payer acc, sa_run acc, sa_vault acc] (\<lambda>_. None) = (ks, ix)"
    "length (block_accounts r b) \<le> 8" "length (block_accounts r b) = n"
  shows "parse_message (map char_of [1 :: nat, 0, 2] @ uvarint (length ks + 2) @ concat (ks @ [sa_token_program acc, sa_program acc])
       @ bh @ uvarint 1 @ [char_of (length ks + 1)] @ uvarint (3 + n) @ map char_of [1, 2, length ks] @ map char_of ix
       @ uvarint (length d) @ d)
    = Some (bh, ks @ [sa_token_program acc, sa_program acc],
        \<lparr>in_program = sa_program acc, in_accounts = [sa_run acc, sa_vault acc, sa_token_program acc] @ block_accounts r b,
         in_data = d\<rparr>)"
proof -
  let ?keys = "ks @ [sa_token_program acc, sa_program acc]"
  have "seen_ok [sa_fee_payer acc, sa_run acc, sa_vault acc] (\<lambda>_. None)" by (simp add: seen_ok_def)
  note kto = key_table_ok [OF this assms(2)]
  have three: "length [sa_fee_payer acc, sa_run acc, sa_vault acc] = 3" by simp
  note kto = kto [unfolded three]
  have first: "take 3 ks = [sa_fee_payer acc, sa_run acc, sa_vault acc]" "3 \<le> length ks" using kto by simp_all
  have k12: "?keys ! 1 = sa_run acc" "?keys ! 2 = sa_vault acc"
    using first nth_take [of 1 3 ks] nth_take [of 2 3 ks] by (simp_all add: nth_append)
  have sz: "\<forall>k \<in> set ?keys. length k = 32" "length bh = 32"
    using kto assms(1) block_items_sub(2) [of r b] by (auto simp: well_sized_def)
  have small: "length ks \<le> 11" using kto assms(3) by simp
  have byte: "(of_char (char_of (i :: nat) :: char) :: nat) = i" if "i < 256" for i using that by simp
  have ixs: "\<forall>i \<in> set ix. i < length ks" "length ix = n" "map (nth ks) ix = block_accounts r b" using kto assms(4) by simp_all
  have ixb: "\<forall>i \<in> set ix. (of_char (char_of i :: char) :: nat) = i" using ixs(1) small byte by force
  have idx: "map (\<lambda>c. ?keys ! of_char c) (map char_of [1, 2, length ks] @ map char_of ix)
      = [sa_run acc, sa_vault acc, sa_token_program acc] @ block_accounts r b"
  proof -
    have "map (\<lambda>c. ?keys ! of_char c) (map char_of ix) = map (nth ks) ix"
      using ixs(1) ixb by (simp add: nth_append)
    moreover have "(of_char (char_of (length ks) :: char) :: nat) = length ks" using small by (intro byte) simp
    ultimately show ?thesis using k12 ixs(3) by simp
  qed
  let ?ix = "map char_of [1, 2, length ks] @ map char_of ix"
  have rng: "\<forall>c \<in> set (char_of (length ks + 1) # ?ix). (of_char c :: nat) < length ?keys"
    using ixb ixs(1) small first(2) by (force simp: byte)
  have pr: "?keys ! of_char (char_of (length ks + 1) :: char) = sa_program acc"
    using small byte [of "length ks + 1"] by (simp add: nth_append)
  have inst: "parse_instruction ?keys (char_of (length ks + 1) # uvarint (3 + n) @ ?ix @ uvarint (length d) @ d)
    = Some \<lparr>in_program = sa_program acc, in_accounts = [sa_run acc, sa_vault acc, sa_token_program acc] @ block_accounts r b,
         in_data = d\<rparr>"
  proof -
    have "length ?ix = 3 + n" using ixs(2) by simp
    from parse_instruction_built [OF rng, of d, unfolded this pr idx] show ?thesis .
  qed
  show ?thesis
    using parse_message_built [OF sz, of "char_of (length ks + 1) # uvarint (3 + n) @ ?ix @ uvarint (length d) @ d", unfolded inst]
    by simp
qed

lemma flip_bits_ok:
  "from + n \<le> length bits \<Longrightarrow> \<forall>i < n. \<not> bits ! (from + i) \<Longrightarrow>
     flip_bits bits from n = Some (take from bits @ replicate n True @ drop (from + n) bits)"
proof (induction n arbitrary: bits "from")
  case (Suc n)
  have hd: "\<not> bits ! from" using Suc.prems(2) by force
  have "\<forall>i < n. \<not> bits[from := True] ! (from + 1 + i)" using Suc.prems by force
  with Suc.IH [of "from + 1" "bits[from := True]"] Suc.prems(1) hd
  have "flip_bits bits from (Suc n)
      = Some (take (from + 1) (bits[from := True]) @ replicate n True @ drop (from + 1 + n) (bits[from := True]))" by simp
  moreover have "take (from + 1) (bits[from := True]) = take from bits @ [True]"
    using Suc.prems(1) by (simp add: take_Suc_conv_app_nth)
  ultimately show ?case using Suc.prems(1) by (simp add: replicate_app_Cons_same)
qed simp

lemma flip_bits_twice: "0 < n \<Longrightarrow> bits ! from \<Longrightarrow> flip_bits bits from n = None"
  by (cases n) auto

definition batch_bytes :: "payout list \<Rightarrow> bytes list" where
  "batch_bytes its = map (\<lambda>it. put_le 8 (payout_amount it) @ po_ref it) its"

lemma data_reads:
  assumes "\<forall>it \<in> set its. payout_amount it < 2 ^ 64 \<and> length (po_ref it) = 32" "b < 2 ^ 16" "length its < 256"
    "\<forall>x \<in> set pf. length x = 32"
  defines "d \<equiv> put_le 2 b @ [char_of (length its)] @ concat (batch_bytes its) @ concat pf"
  shows "length d = 3 + 40 * length its + 32 * length pf" "read_le (take 2 d) = b" "of_char (d ! 2) = length its"
    "drop (3 + length its * 40) d = concat pf"
    "i < length its \<Longrightarrow> take 8 (drop (3 + i * 40) d) = put_le 8 (payout_amount (its ! i))"
    "i < length its \<Longrightarrow> take 32 (drop (3 + i * 40 + 8) d) = po_ref (its ! i)"
    "i < length its \<Longrightarrow> read_le (take 8 (drop (3 + i * 40) d)) = payout_amount (its ! i)"
proof -
  have sz: "\<forall>x \<in> set (batch_bytes its). length x = 40" using assms(1) by (auto simp: batch_bytes_def)
  have cl: "length (concat (batch_bytes its)) = 40 * length its"
    using length_concat_sized [OF sz] by (simp add: batch_bytes_def)
  have pre: "length (put_le 2 b @ [char_of (length its)]) = 3" by simp
  have d: "d = (put_le 2 b @ [char_of (length its)]) @ concat (batch_bytes its) @ concat pf" by (simp add: d_def)
  show "length d = 3 + 40 * length its + 32 * length pf"
    using cl length_concat_sized [OF assms(4)] by (simp add: d_def)
  have "take 2 d = put_le 2 b" by (simp add: d_def)
  then show "read_le (take 2 d) = b" using read_put_le [of b 2] assms(2) by simp
  show "of_char (d ! 2) = length its" using assms(3) by (simp add: d_def nth_append)
  have dr: "drop (3 + k) d = drop k (concat (batch_bytes its) @ concat pf)" for k
    unfolding d by (simp add: drop_append)
  show "drop (3 + length its * 40) d = concat pf" using cl by (simp only: dr) simp
  { assume i: "i < length its"
    then have ib: "i < length (batch_bytes its)" by (simp add: batch_bytes_def)
    have at: "batch_bytes its ! i = put_le 8 (payout_amount (its ! i)) @ po_ref (its ! i)" using i by (simp add: batch_bytes_def)
    have am: "payout_amount (its ! i) < 2 ^ 64" and rf: "length (po_ref (its ! i)) = 32" using assms(1) i by simp_all
    show t8: "take 8 (drop (3 + i * 40) d) = put_le 8 (payout_amount (its ! i))"
      using take_drop_concat [OF sz ib, of 0 8 "concat pf"] unfolding dr at by simp
    have "take 32 (drop (i * 40 + 8) (concat (batch_bytes its) @ concat pf)) = take 32 (drop 8 (batch_bytes its ! i))"
      by (rule take_drop_concat [OF sz ib]) simp
    then show "take 32 (drop (3 + i * 40 + 8) d) = po_ref (its ! i)" unfolding add.assoc dr at using rf by simp
    have "payout_amount (its ! i) < 256 ^ 8" using am by simp
    then show "read_le (take 8 (drop (3 + i * 40) d)) = payout_amount (its ! i)" unfolding t8 by (rule read_put_le) }
qed

lemma program_pays:
  assumes r: "new_run p items accts = Inr r" and sz: "well_sized p r acc bh" and n: "length items < 2 ^ 16"
    and b: "b * 8 < length items" "b < 2 ^ (run_depth r - 3)" and pf: "block_proof (pr_tree r) (int b) 3 = Inr pf"
    and st: "rs_root st = run_root r" "rs_leaf_count st = length items" "\<not> rs_clawed st" "now < rs_deadline st"
      "length items \<le> length (rs_bits st)" "\<forall>i < length (block_items r b). \<not> rs_bits st ! (b * 8 + i)"
      "rs_total_paid st + sum_list (map payout_amount (block_items r b)) < 2 ^ 64"
    and hd3: "length hd3 = 3"
  shows "\<exists>st'. program_pay_batch p now st (hd3 @ block_accounts r b) (drop 8 (pay_batch_data p b (block_items r b) pf))
      = Inr (st', zip (block_accounts r b) (map payout_amount (block_items r b)))
    \<and> rs_bits st' = take (b * 8) (rs_bits st) @ replicate (length (block_items r b)) True
        @ drop (b * 8 + length (block_items r b)) (rs_bits st)
    \<and> rs_total_paid st' = rs_total_paid st + sum_list (map payout_amount (block_items r b))"
proof -
  note ok = new_run_ok [OF r]
  let ?its = "block_items r b" and ?ac = "block_accounts r b"
  let ?n = "length (block_items r b)"
  have hash: "\<forall>x. length (sha256 p x) = 32" using sz by (simp add: well_sized_def)
  obtain ls where ls: "run_leaves p 0 items accts = Inr ls" using ok(6) by blast
  have itk: "\<forall>it \<in> set ?its. payout_amount it < 2 ^ 64 \<and> length (po_ref it) = 32"
    using run_leaves_ok [OF ls ok(5)] sz block_items_sub(1) [of r b] ok(1) by (auto simp: well_sized_def)
  note bl = block_lengths [of r b, unfolded ok(1,2), OF ok(5) b(1)]
  obtain pf' where pf': "block_proof (pr_tree r) (int b) 3 = Inr pf'" "length pf' = run_depth r - 3" "\<forall>x \<in> set pf'. length x = 32"
    "climb_proof p (int b) (hd (collapse p (block_of (pr_tree r) 3 b))) pf' = run_root r"
    using block_proof_sized [OF r hash b(2)] by blast
  with pf have pfs: "length pf = run_depth r - 3" "\<forall>x \<in> set pf. length x = 32"
    "climb_proof p (int b) (hd (collapse p (block_of (pr_tree r) 3 b))) pf = run_root r" by simp_all
  have b16: "b < 2 ^ 16" using b(1) n by simp
  define d where "d = put_le 2 b @ [char_of ?n] @ concat (batch_bytes ?its) @ concat pf"
  have dd: "drop 8 (pay_batch_data p b ?its pf) = d"
    using hash by (simp add: pay_batch_data_def pay_batch_discriminator_def d_def batch_bytes_def)
  have n256: "?n < 256" using bl(4) by simp
  note rd = data_reads [OF itk b16 n256 pfs(2), folded d_def]
  have lens: "\<not> length d < 3" "\<not> (?n = 0 \<or> ?n > 8 \<or> length d < 3 + ?n * 40)"
    using rd(1) bl(3,4) by simp_all
  have lp: "length (concat pf) = 32 * length pf" using length_concat_sized [OF pfs(2)] by simp
  have pl: "length (concat pf) mod 32 = 0" "length (concat pf) = (depth_for (rs_leaf_count st) - 3) * 32"
      "chunks 32 (length (concat pf) div 32) (concat pf) = pf"
    using chunks_concat [OF pfs(2), of "[]"] pfs(1) depth_for_run [OF r] st(2) by (simp_all add: lp)
  have lv: "map (program_leaf p b ?n ?ac d) [0 ..< 8] = block_of (pr_tree r) 3 b"
  proof -
    have "program_leaf p b ?n ?ac d i = leaf_of p r (b * 8 + i)" if i: "i < 8" for i
    proof (cases "i < ?n")
      case True
      have lt: "b * 8 + i < length items" using True bl(1) ok(1) b(1) by (simp add: less_diff_conv add.commute)
      then have m: "(b * 8 + i) mod 2 ^ 16 = b * 8 + i" using n by simp
      show ?thesis
        using True lt bl(5,6) [OF True] rd(5,6,7) [OF True] ok(1)
        unfolding program_leaf_def m by (simp add: leaf_of_def leaf_data_def ok(2))
    next
      case False
      then have "\<not> b * 8 + i < length items" using bl(1) i b(1) ok(1) by simp
      with False show ?thesis by (simp add: program_leaf_def leaf_of_def ok)
    qed
    then show ?thesis unfolding run_block_leaves [OF r b(2)] by simp
  qed
  have fb: "flip_bits (rs_bits st) (b * 8) ?n
      = Some (take (b * 8) (rs_bits st) @ replicate ?n True @ drop (b * 8 + ?n) (rs_bits st))"
    using st(5,6) bl(1) b(1) ok(1) by (intro flip_bits_ok) simp_all
  have am: "map (\<lambda>i. read_le (take 8 (drop (3 + i * 40) d))) [0 ..< ?n] = map payout_amount ?its"
    using rd(7) by (intro nth_equalityI) simp_all
  have merch: "drop 3 (hd3 @ ?ac) = ?ac" "\<not> length (hd3 @ ?ac) < 3" using hd3 by simp_all
  have rng: "\<not> length items \<le> b * 8" "?n = min (length items - b * 8) 8" using b(1) bl(1) ok(1) by simp_all
  have ck: "program_checks p now st (hd3 @ ?ac) d = None"
    unfolding program_checks_def Let_def rd(2,3) rd(4) merch(1) lv
    using lens pl pfs(3) merch(2) st rng bl(2) by (simp add: not_le not_less del: mult_Suc)
  show ?thesis
    unfolding program_pay_batch_def dd ck Let_def rd(2,3) merch(1) am
    using st(7) fb by (simp add: not_le not_less)
qed

lemma message_exists:
  assumes "new_run p items accts = Inr r"
    "zero_key \<notin> set [sa_fee_payer acc, sa_run acc, sa_vault acc, sa_token_program acc, sa_program acc]" "b * 8 < length items"
  shows "\<exists>msg. pay_batch_message p r acc bh (int b) = Inr msg"
proof -
  note ok = new_run_ok [OF assms(1)]
  obtain ls where ls: "build p (ls @ replicate (8 - length ls) pad_leaf) = Inr (pr_tree r)" using ok(6) by blast
  have "b * 8 < 2 ^ run_depth r" using assms(3) run_width(3) [OF assms(1)] by (rule less_le_trans)
  also have "(2::nat) ^ run_depth r = 2 ^ (run_depth r - 3 + 3)" using run_width(2) [OF assms(1)] by simp
  also have "\<dots> = 2 ^ (run_depth r - 3) * 8" by (simp only: power_add) simp
  finally have lt: "b < 2 ^ (run_depth r - 3)" by simp
  then obtain pf where pf: "block_proof (pr_tree r) (int b) 3 = Inr pf"
    using block_proof_ok [OF ls, of 3 "int b"] run_width(2) [OF assms(1)] by (auto simp: run_depth_def)
  have w: "wrap_int64 (int b * int run_block) = int (b * 8)"
    using assms(3) ok(4) unfolding run_block_def by (subst wrap_int64_id) simp_all
  have g: "\<not> (int b < 0 \<or> int (b * 8) \<ge> int (length (pr_items r)))" using assms(3) ok(1) by simp
  show ?thesis
    unfolding pay_batch_message_def w using assms(2) g pf by (simp add: Let_def split: prod.splits)
qed

text \<open>What a successful call leaves behind refuses the same call.\<close>

lemma flip_bits_from:
  "flip_bits bits from (Suc n) = Some bits' \<Longrightarrow> from < length bits \<Longrightarrow> bits' ! from"
proof -
  have keep: "flip_bits bs k n = Some bits' \<Longrightarrow> j < length bs \<Longrightarrow> bs ! j \<Longrightarrow> bits' ! j" for bs k n j
  proof (induction n arbitrary: bs k)
    case (Suc n)
    have "bs[k := True] ! j" using Suc.prems(2,3) by (cases "j = k") simp_all
    with Suc show ?case using Suc.IH [of "bs[k := True]" "k + 1"] by (simp split: if_splits)
  qed simp
  assume "flip_bits bits from (Suc n) = Some bits'" "from < length bits"
  then show ?thesis using keep [of "bits[from := True]" "from + 1" n "from"] by (simp split: if_splits)
qed

lemma program_checks_frame:
  "rs_clawed st' = rs_clawed st \<Longrightarrow> rs_root st' = rs_root st \<Longrightarrow> rs_deadline st' = rs_deadline st \<Longrightarrow>
     rs_leaf_count st' = rs_leaf_count st \<Longrightarrow> program_checks p now st' as d = program_checks p now st as d"
  by (simp only: program_checks_def)

lemma program_checks_block:
  "program_checks p now st as d = None \<Longrightarrow> (of_char (d ! 2) :: nat) \<noteq> 0 \<and> read_le (take 2 d) * 8 < rs_leaf_count st"
  by (auto simp: program_checks_def Let_def split: if_splits)

lemma paid_twice_refused:
  assumes "program_pay_batch p now st as d = Inr (st', ts)" "rs_leaf_count st \<le> length (rs_bits st)"
  shows "program_pay_batch p now st' as d = Inl AlreadyPaid"
proof -
  let ?b = "read_le (take 2 d) * 8" and ?n = "of_char (d ! 2) :: nat"
  from assms(1) have ck: "program_checks p now st as d = None" by (simp add: program_pay_batch_def split: option.splits)
  note blk = program_checks_block [OF ck]
  obtain bits where b: "flip_bits (rs_bits st) ?b ?n = Some bits" "rs_bits st' = bits"
      "rs_clawed st' = rs_clawed st" "rs_root st' = rs_root st" "rs_deadline st' = rs_deadline st"
      "rs_leaf_count st' = rs_leaf_count st"
    using assms(1) ck by (auto simp: program_pay_batch_def Let_def split: option.splits if_splits)
  have "bits ! ?b" using b(1) blk assms(2) flip_bits_from [of "rs_bits st" ?b "?n - 1" bits] by simp
  then have "flip_bits (rs_bits st') ?b ?n = None" using flip_bits_twice [of ?n bits ?b] blk b(2) by simp
  then show ?thesis using program_checks_frame [OF b(3-6)] ck by (simp add: program_pay_batch_def)
qed

subsection \<open>Properties\<close>

definition demo_key :: "nat \<Rightarrow> pubkey" where
  "demo_key i = replicate 32 (char_of (i + 1))"

lemma char_of_pos: "0 < n \<Longrightarrow> n < 256 \<Longrightarrow> char_of (n :: nat) \<noteq> CHR 0x00"
proof
  assume n: "0 < n" "n < 256" "char_of n = CHR 0x00"
  have "(of_char (char_of n :: char) :: nat) = n" using n(2) by simp
  with n(1,3) show False by simp
qed

definition demo_run_items :: "payout list" where
  "demo_run_items = [demo_payout 3 False, demo_payout 4 False]"

lemma demo_key_nonzero: "i < 255 \<Longrightarrow> demo_key i \<noteq> zero_key"
  using char_of_pos [of "i + 1"] by (simp add: demo_key_def zero_key_def)

definition demo_accounts :: solana_accounts where
  "demo_accounts = \<lparr>sa_fee_payer = demo_key 0, sa_run = demo_key 1, sa_vault = demo_key 2,
     sa_token_program = demo_key 3, sa_program = demo_key 4\<rparr>"

lemma demo_run_exists: "\<exists>r. new_run demo_hash demo_run_items [demo_key 5, demo_key 5] = Inr r"
proof -
  have "\<exists>ls. run_leaves demo_hash 0 demo_run_items [demo_key 5, demo_key 5] = Inr ls"
    by (simp add: demo_run_items_def demo_payout_def ref_is_zero_def zero_ref_def ref_size_def demo_key_nonzero char_of_pos)
  then show ?thesis by (auto simp: new_run_def build_def run_block_def demo_run_items_def)
qed

lemma demo_sized:
  assumes "new_run demo_hash demo_run_items [demo_key 5, demo_key 5] = Inr r"
  shows "well_sized demo_hash r demo_accounts (demo_key 9)"
  using new_run_ok(1,2) [OF assms]
  by (auto simp: well_sized_def demo_hash_def demo_accounts_def demo_key_def demo_run_items_def demo_payout_def min_def)

lemma demo_fixed: "zero_key \<notin> set [sa_fee_payer demo_accounts, sa_run demo_accounts, sa_vault demo_accounts,
    sa_token_program demo_accounts, sa_program demo_accounts]"
  using demo_key_nonzero [THEN not_sym] by (simp add: demo_accounts_def)

text \<open>
  C32. The transaction of every block of a run fits what \<open>Pack\<close> reserved for it. If the run was built, the plan packed
  and the message of a block returned, then the block is one of the plan's batches, with the same payouts in the
  same order and under a tree of the same depth, and 65 bytes of signature and the message together are at most
  the bytes written on that batch, which are at most 1232.
\<close>

theorem message_fits_the_plan:
  assumes "new_run p items accts = Inr r" and "pack items solana_limits = Inr pl" and "well_sized p r acc bh"
    and "pay_batch_message p r acc bh block = Inr msg"
  shows "0 \<le> block \<and> nat block < length (bp_batches pl) \<and> bp_levels pl = run_depth r
    \<and> bt_items (bp_batches pl ! nat block) = take run_block (drop (nat block * run_block) items)
    \<and> 65 + length msg \<le> unat (us_used (hd (bt_used (bp_batches pl ! nat block))))
    \<and> unat (us_used (hd (bt_used (bp_batches pl ! nat block)))) \<le> 1232"
  using message_length [OF assms(1,3,4)] solana_reserved [OF assms(2,1) message_length(3) [OF assms(1,3,4)]]
  by (simp add: block_items_def new_run_ok(1) [OF assms(1)] run_block_def)

theorem message_fits_the_plan_witness:
  "\<exists>r pl msg. new_run demo_hash demo_run_items [demo_key 5, demo_key 5] = Inr r \<and> pack demo_run_items solana_limits = Inr pl
     \<and> pay_batch_message demo_hash r demo_accounts (demo_key 9) 0 = Inr msg
     \<and> 65 + length msg \<le> unat (us_used (hd (bt_used (bp_batches pl ! 0))))"
proof -
  obtain r where r: "new_run demo_hash demo_run_items [demo_key 5, demo_key 5] = Inr r" using demo_run_exists by blast
  obtain pl where pl: "pack demo_run_items solana_limits = Inr pl"
    using solana_run_limit [of demo_run_items] by (auto simp: demo_run_items_def)
  obtain msg where msg: "pay_batch_message demo_hash r demo_accounts (demo_key 9) 0 = Inr msg"
    using message_exists [OF r demo_fixed, of 0] by (auto simp: demo_run_items_def)
  from message_fits_the_plan [OF r pl demo_sized [OF r] msg] r pl msg show ?thesis by auto
qed

text \<open>
  C15. What the builder builds, the program pays. For every block of a run there is a message; the runtime reads it as
  one call of the program on the run, the vault, the token program and the block's token accounts, whose data starts
  with the \<open>pay_batch\<close> discriminator; and on a run account with that root and length, not clawed back, before its
  deadline and with the block's bits clear, the program accepts the data, transfers to each token account exactly the
  amount of its payout in the order of the list, and then refuses the same instruction as already paid.
\<close>

theorem built_message_is_paid_once:
  assumes "new_run p items accts = Inr r" and "well_sized p r acc bh" and "length items < 2 ^ 16" and "b * 8 < length items"
    and "zero_key \<notin> set [sa_fee_payer acc, sa_run acc, sa_vault acc, sa_token_program acc, sa_program acc]"
    and "rs_root st = run_root r" "rs_leaf_count st = length items" "\<not> rs_clawed st" "now < rs_deadline st"
    and "length items \<le> length (rs_bits st)" "\<forall>i < min (length items - b * 8) 8. \<not> rs_bits st ! (b * 8 + i)"
    and "rs_total_paid st + sum_list (map payout_amount (take 8 (drop (b * 8) items))) < 2 ^ 64"
  shows "\<exists>msg keys ins st'. pay_batch_message p r acc bh (int b) = Inr msg \<and> parse_message msg = Some (bh, keys, ins)
    \<and> in_program ins = sa_program acc \<and> take 8 (in_data ins) = pay_batch_discriminator p
    \<and> in_accounts ins = [sa_run acc, sa_vault acc, sa_token_program acc] @ take 8 (drop (b * 8) accts)
    \<and> program_pay_batch p now st (in_accounts ins) (drop 8 (in_data ins))
        = Inr (st', zip (take 8 (drop (b * 8) accts)) (map payout_amount (take 8 (drop (b * 8) items))))
    \<and> program_pay_batch p now st' (in_accounts ins) (drop 8 (in_data ins)) = Inl AlreadyPaid"
proof -
  note ok = new_run_ok [OF assms(1)]
  obtain msg where msg: "pay_batch_message p r acc bh (int b) = Inr msg"
    using message_exists [OF assms(1,5,4)] by blast
  from message_parts [OF assms(1) msg] obtain ks ix pf where lt: "b < 2 ^ (run_depth r - 3)"
    and kt: "key_table (block_accounts r b) [sa_fee_payer acc, sa_run acc, sa_vault acc] (\<lambda>_. None) = (ks, ix)"
    and pf: "block_proof (pr_tree r) (int b) 3 = Inr pf"
    and m: "msg = map char_of [1 :: nat, 0, 2] @ uvarint (length ks + 2) @ concat (ks @ [sa_token_program acc, sa_program acc])
       @ bh @ uvarint 1 @ [char_of (length ks + 1)] @ uvarint (3 + length (block_items r b))
       @ map char_of [1, 2, length ks] @ map char_of ix
       @ uvarint (length (pay_batch_data p b (block_items r b) pf)) @ pay_batch_data p b (block_items r b) pf"
    by (metis of_nat_eq_iff)
  note bl = block_lengths [of r b, unfolded ok(1,2), OF ok(5) assms(4)]
  let ?d = "pay_batch_data p b (block_items r b) pf" and ?hd = "[sa_run acc, sa_vault acc, sa_token_program acc]"
  have parse: "parse_message msg = Some (bh, ks @ [sa_token_program acc, sa_program acc],
        \<lparr>in_program = sa_program acc, in_accounts = ?hd @ block_accounts r b, in_data = ?d\<rparr>)"
    unfolding m using bl(2,4) by (intro parse_built [OF assms(2) kt]) simp_all
  have its: "block_items r b = take 8 (drop (b * 8) items)" "block_accounts r b = take 8 (drop (b * 8) accts)"
    using ok(5) by (cases "length items - b * 8 \<le> 8"; simp add: block_items_def block_accounts_def ok)+
  obtain st' where st': "program_pay_batch p now st (?hd @ block_accounts r b) (drop 8 ?d)
      = Inr (st', zip (block_accounts r b) (map payout_amount (block_items r b)))"
    using program_pays [OF assms(1,2,3,4) lt pf assms(6-10), of ?hd] assms(11,12) bl(1) its(1) by auto
  have again: "program_pay_batch p now st' (?hd @ block_accounts r b) (drop 8 ?d) = Inl AlreadyPaid"
    using assms(7,10) by (intro paid_twice_refused [OF st']) simp
  have disc: "take 8 ?d = pay_batch_discriminator p"
    using assms(2) by (simp add: pay_batch_data_def pay_batch_discriminator_def well_sized_def)
  let ?ins = "\<lparr>in_program = sa_program acc, in_accounts = ?hd @ block_accounts r b, in_data = ?d\<rparr>"
  show ?thesis
  proof (intro exI conjI)
    show "pay_batch_message p r acc bh (int b) = Inr msg" by (rule msg)
    show "parse_message msg = Some (bh, ks @ [sa_token_program acc, sa_program acc], ?ins)" by (rule parse)
    show "program_pay_batch p now st (in_accounts ?ins) (drop 8 (in_data ?ins))
        = Inr (st', zip (take 8 (drop (b * 8) accts)) (map payout_amount (take 8 (drop (b * 8) items))))"
      using st' its by simp
  qed (use disc again its in simp_all)
qed

theorem built_message_is_paid_once_witness:
  "\<exists>r msg st st' ins. pay_batch_message demo_hash r demo_accounts (demo_key 9) 0 = Inr msg
     \<and> map_option (snd \<circ> snd) (parse_message msg) = Some ins
     \<and> program_pay_batch demo_hash 0 st (in_accounts ins) (drop 8 (in_data ins)) = Inr (st', [(demo_key 5, 3), (demo_key 5, 4)])
     \<and> program_pay_batch demo_hash 0 st' (in_accounts ins) (drop 8 (in_data ins)) = Inl AlreadyPaid"
proof -
  obtain r where r: "new_run demo_hash demo_run_items [demo_key 5, demo_key 5] = Inr r" using demo_run_exists by blast
  define st where "st = \<lparr>rs_clawed = False, rs_root = run_root r, rs_total_paid = 0, rs_deadline = 10, rs_leaf_count = 2,
     rs_bits = replicate 8 False\<rparr>"
  have l: "length demo_run_items = 2" by (simp add: demo_run_items_def)
  have s: "map payout_amount demo_run_items = [3, 4]"
    by (simp add: demo_run_items_def demo_payout_def payout_amount_def)
  have st: "rs_root st = run_root r" "rs_leaf_count st = length demo_run_items" "\<not> rs_clawed st" "0 < rs_deadline st"
      "length demo_run_items \<le> length (rs_bits st)" "rs_total_paid st = 0"
      "\<forall>i < min (length demo_run_items - 0 * 8) 8. \<not> rs_bits st ! (0 * 8 + i)"
    by (simp_all add: st_def l)
  have "\<exists>msg keys ins st'. pay_batch_message demo_hash r demo_accounts (demo_key 9) (int 0) = Inr msg
      \<and> parse_message msg = Some (demo_key 9, keys, ins) \<and> in_program ins = sa_program demo_accounts
      \<and> take 8 (in_data ins) = pay_batch_discriminator demo_hash
      \<and> in_accounts ins = [sa_run demo_accounts, sa_vault demo_accounts, sa_token_program demo_accounts]
          @ take 8 (drop (0 * 8) [demo_key 5, demo_key 5])
      \<and> program_pay_batch demo_hash 0 st (in_accounts ins) (drop 8 (in_data ins))
          = Inr (st', zip (take 8 (drop (0 * 8) [demo_key 5, demo_key 5])) (map payout_amount (take 8 (drop (0 * 8) demo_run_items))))
      \<and> program_pay_batch demo_hash 0 st' (in_accounts ins) (drop 8 (in_data ins)) = Inl AlreadyPaid"
    using st s l by (intro built_message_is_paid_once [OF r demo_sized [OF r] _ _ demo_fixed]) simp_all
  then obtain msg keys ins st' where "pay_batch_message demo_hash r demo_accounts (demo_key 9) 0 = Inr msg"
    "parse_message msg = Some (demo_key 9, keys, ins)"
    "program_pay_batch demo_hash 0 st (in_accounts ins) (drop 8 (in_data ins)) = Inr (st', [(demo_key 5, 3), (demo_key 5, 4)])"
    "program_pay_batch demo_hash 0 st' (in_accounts ins) (drop 8 (in_data ins)) = Inl AlreadyPaid"
    by (simp add: l s) metis
  then show ?thesis by (intro exI [of _ r] exI [of _ msg] exI [of _ st] exI [of _ st'] exI [of _ ins]) simp
qed

end
