(* ===== verification/Recon.thy ===== *)
theory Recon
  imports Listener Dead_Letters "HOL-Library.Multiset"
begin

section \<open>Reconciliation: chain against books\<close>

text \<open>
  Models \<open>internal/recon\<close>: transfers, findings, matches and sweeps with their text (\<open>recon.go\<close>), and the engine
  with \<open>Run\<close>, \<open>sweep\<close>, \<open>settleJob\<close>, \<open>reconcile\<close>, \<open>push\<close>, \<open>raced\<close>, \<open>check\<close> and \<open>merchantLeg\<close> (\<open>engine.go\<close>),
  over the intent store, the journal, the queue and the dead-letter store.

  The engine shares those with the workers and the listeners. What they do between two of its steps is
  \<open>re_others\<close>, an arbitrary function of the world applied before each call that writes, and \<open>re_loses\<close> says
  at which calls another writer gets in between the read and the compare-and-swap, so that the write is refused with a
  version conflict. \<open>rw_tick\<close> numbers the calls. The chain is \<open>re_finalized\<close> and \<open>re_transfers\<close>, the watcher
  \<open>re_lookup\<close>. \<open>sort.Slice\<close> leaves the order of transfers with one height and one hash open; the model keeps the
  source's order. A transfer's amount is always there (the sources build it), a posted leg's may be \<open>nil\<close>.
\<close>

subsection \<open>Transfers and reports\<close>

record transfer =
  tf_tx_hash :: string
  tf_height :: u64
  tf_ref :: ref
  tf_token :: string
  tf_from :: string
  tf_to :: string
  tf_amount :: int

datatype finding_kind = KindUnknownRef | KindUnreferenced | KindPaidTwice | KindUnexpected | KindMismatch

fun finding_kind_name :: "finding_kind \<Rightarrow> string" where
  "finding_kind_name KindUnknownRef = ''unknown_ref''"
| "finding_kind_name KindUnreferenced = ''unreferenced''"
| "finding_kind_name KindPaidTwice = ''paid_twice''"
| "finding_kind_name KindUnexpected = ''unexpected''"
| "finding_kind_name KindMismatch = ''mismatch''"

record finding =
  fi_kind :: finding_kind
  fi_transfer :: transfer
  fi_intent_id :: string
  fi_detail :: string

definition finding_text :: "finding \<Rightarrow> string" where
  "finding_text f = pad_right 12 (finding_kind_name (fi_kind f)) @ '' tx '' @ pad_right 6 (tf_tx_hash (fi_transfer f)) @ '' ''
     @ fi_detail f"

record match_row =
  ma_transfer :: transfer
  ma_intent_id :: string
  ma_action :: string

definition match_text :: "match_row \<Rightarrow> string" where
  "match_text m = pad_right 6 (tf_tx_hash (ma_transfer m)) @ '' '' @ pad_right 8 (ma_intent_id m) @ '' '' @ ma_action m"

record sweep_row =
  sw_intent_id :: string
  sw_state :: state
  sw_action :: string

definition sweep_text :: "sweep_row \<Rightarrow> string" where
  "sweep_text s = pad_right 8 (sw_intent_id s) @ '' '' @ pad_right 12 (state_name (sw_state s)) @ '' '' @ sw_action s"

record recon_report =
  rp_chain :: string
  rp_from :: u64
  rp_to :: u64
  rp_sweeps :: "sweep_row list"
  rp_matches :: "match_row list"
  rp_findings :: "finding list"

text \<open>The ellipsis is three bytes of UTF-8.\<close>

definition ellipsis :: string where
  "ellipsis = [CHR 0xE2, CHR 0x80, CHR 0xA6]"

definition short_hex :: "string \<Rightarrow> string" where
  "short_hex s = (if length s > 12 \<and> take 2 s = ''0x'' then take 10 s @ ellipsis else s)"

definition short_addr :: "string \<Rightarrow> string" where
  "short_addr a = (if length a \<noteq> 42 \<or> take 2 a \<noteq> ''0x'' then a else take 6 a @ ellipsis @ drop 38 a)"

subsection \<open>The engine and its world\<close>

datatype recon_error =
    ReconIntents intent_error
  | ReconJournal ledger_error
  | ReconQueue queue_error
  | ReconDead dlq_error
  | ReconListener listener_error
  | ReconSource string
  | ErrOutsideWindow string u64 u64 u64

record recon_world =
  rw_intents :: memory_store
  rw_journal :: memory_journal
  rw_jobs :: memory_queue
  rw_dead :: dead_store
  rw_tick :: nat

record recon_env =
  re_platform :: platform
  re_policies :: "string \<Rightarrow> finality_policy option"
  re_lookup :: "nat \<Rightarrow> intent \<Rightarrow> string + sighting"
  re_now :: "nat \<Rightarrow> time"
  re_others :: "nat \<Rightarrow> recon_world \<Rightarrow> recon_world"
  re_loses :: "nat \<Rightarrow> bool"
  re_finalized :: "string + u64"
  re_transfers :: "u64 \<Rightarrow> u64 \<Rightarrow> string + transfer list"

record engine =
  en_chain :: string
  en_cursor :: u64

definition new_engine :: "string \<Rightarrow> u64 \<Rightarrow> engine" where
  "new_engine chain cursor = \<lparr>en_chain = chain, en_cursor = cursor\<rparr>"

definition others_move :: "recon_env \<Rightarrow> recon_world \<Rightarrow> recon_world" where
  "others_move ev w = (re_others ev (rw_tick w) w)\<lparr>rw_tick := Suc (rw_tick w)\<rparr>"

text \<open>
  \<open>Listener.Check\<close> as the engine sees it: when the write loses, the store is what the other writer made of it and the
  post, if there was one, is in the journal.
\<close>

definition listener_check :: "recon_env \<Rightarrow> recon_world \<Rightarrow> string \<Rightarrow> (listener_report \<times> listener_error option) \<times> recon_world" where
  "listener_check ev w k =
     (let w = others_move ev w; n = rw_tick w in
      case check (re_platform ev) (re_policies ev) (re_lookup ev n) (re_now ev n) (re_now ev n) k (rw_intents w) (rw_journal w) of
        ((r, err), st', j') \<Rightarrow>
          if err = None \<and> lr_outcome r \<in> {Some OutcomeSettled, Some OutcomeHandedBack, Some OutcomeReview} \<and> re_loses ev n
          then ((r\<lparr>lr_outcome := None\<rparr>, Some (FromIntents ErrVersionConflict)), w\<lparr>rw_journal := j'\<rparr>)
          else ((r, err), w\<lparr>rw_intents := st', rw_journal := j'\<rparr>))"

definition settle_job :: "intent \<Rightarrow> job" where
  "settle_job it = \<lparr>job_id = i_id it @ ''/settle'', job_kind = KindSettle, job_intent_id = i_id it, job_ref = i_ref it\<rparr>"

subsection \<open>The sweep\<close>

definition add_sweep :: "recon_report \<Rightarrow> intent \<Rightarrow> string \<Rightarrow> recon_report" where
  "add_sweep rep it action =
     rep\<lparr>rp_sweeps := rp_sweeps rep @ [\<lparr>sw_intent_id = i_id it, sw_state = i_state it, sw_action = action\<rparr>]\<rparr>"

definition queue_settle :: "recon_env \<Rightarrow> intent \<Rightarrow> recon_report \<Rightarrow> recon_world \<Rightarrow> recon_error option \<times> recon_report \<times> recon_world" where
  "queue_settle ev it rep w =
     (let w = others_move ev w; job = settle_job it in
      case enqueue (rw_jobs w) job (re_now ev (rw_tick w)) of
        Inl e \<Rightarrow> (Some (ReconQueue e), rep, w)
      | Inr (applied, q') \<Rightarrow>
          (None, add_sweep rep it (if applied then ''enqueued '' @ job_id job else ''already queued''), w\<lparr>rw_jobs := q'\<rparr>))"

definition sweep_one :: "recon_env \<Rightarrow> intent \<Rightarrow> recon_report \<Rightarrow> recon_world \<Rightarrow> recon_error option \<times> recon_report \<times> recon_world" where
  "sweep_one ev it rep w =
     (if i_state it = StateConfirming
      then (case listener_check ev w (i_id it) of
              ((_, Some (FromIntents ErrVersionConflict)), w') \<Rightarrow>
                (None, add_sweep rep it ''lost the race to another listener; next run re-reads'', w')
            | ((_, Some e), w') \<Rightarrow> (Some (ReconListener e), rep, w')
            | ((r, None), w') \<Rightarrow>
                (None, add_sweep rep it ((case lr_outcome r of None \<Rightarrow> '''' | Some o1 \<Rightarrow> outcome_name o1) @ '' ('' @ lr_detail r @ '')''), w'))
      else
        let w = others_move ev w in
        case dead_get (rw_dead w) (job_id (settle_job it)) of
          Inr r \<Rightarrow>
            if dl_status r = StatusParked then (None, add_sweep rep it ''parked in the dlq, waiting for a person'', w)
            else queue_settle ev it rep w
        | Inl (ErrRecordNotFound _) \<Rightarrow> queue_settle ev it rep w
        | Inl e \<Rightarrow> (Some (ReconDead e), rep, w))"

fun sweep_loop :: "recon_env \<Rightarrow> string \<Rightarrow> intent list \<Rightarrow> recon_report \<Rightarrow> recon_world \<Rightarrow> recon_error option \<times> recon_report \<times> recon_world" where
  "sweep_loop ev chain [] rep w = (None, rep, w)"
| "sweep_loop ev chain (it # its) rep w =
     (if i_chain it \<noteq> chain then sweep_loop ev chain its rep w
      else case sweep_one ev it rep w of
          (Some e, rep', w') \<Rightarrow> (Some e, rep', w')
        | (None, rep', w') \<Rightarrow> sweep_loop ev chain its rep' w')"

definition sweep :: "recon_env \<Rightarrow> string \<Rightarrow> recon_report \<Rightarrow> recon_world \<Rightarrow> recon_error option \<times> recon_report \<times> recon_world" where
  "sweep ev chain rep w =
     sweep_loop ev chain (store_by_state (rw_intents w) [StateAuthorized, StateSettling, StateConfirming]) rep w"

subsection \<open>One transfer\<close>

definition recon_push :: "recon_env \<Rightarrow> recon_world \<Rightarrow> string \<Rightarrow> request \<Rightarrow> (recon_error + bool) \<times> recon_world" where
  "recon_push ev w k req =
     (let w = others_move ev w in
      case advance (re_platform ev) (rw_intents w) k req of
        Inl e \<Rightarrow>
          if e \<in> {ErrVersionConflict, ErrTerminal, ErrIllegalTransition} then (Inr False, w) else (Inl (ReconIntents e), w)
      | Inr (_, applied, st') \<Rightarrow>
          if applied \<and> re_loses ev (rw_tick w) then (Inr False, w) else (Inr True, w\<lparr>rw_intents := st'\<rparr>))"

definition add_match :: "recon_report \<Rightarrow> transfer \<Rightarrow> string \<Rightarrow> string \<Rightarrow> recon_report" where
  "add_match rep t k action =
     rep\<lparr>rp_matches := rp_matches rep @ [\<lparr>ma_transfer = t, ma_intent_id = k, ma_action = action\<rparr>]\<rparr>"

definition add_finding :: "recon_report \<Rightarrow> finding_kind \<Rightarrow> transfer \<Rightarrow> string \<Rightarrow> string \<Rightarrow> recon_report" where
  "add_finding rep kd t k detail =
     rep\<lparr>rp_findings := rp_findings rep @ [\<lparr>fi_kind = kd, fi_transfer = t, fi_intent_id = k, fi_detail = detail\<rparr>]\<rparr>"

definition lost_race :: string where
  "lost_race = ''lost the race to another actor; next run re-reads''"

definition raced :: "transfer \<Rightarrow> string \<Rightarrow> recon_report \<Rightarrow> recon_error option \<Rightarrow> recon_error option \<times> recon_report" where
  "raced t k rep err = (case err of Some e \<Rightarrow> (Some e, rep) | None \<Rightarrow> (None, add_match rep t k lost_race))"

definition recon_check :: "recon_env \<Rightarrow> transfer \<Rightarrow> string \<Rightarrow> string \<Rightarrow> recon_report \<Rightarrow> recon_world
    \<Rightarrow> recon_error option \<times> recon_report \<times> recon_world" where
  "recon_check ev t k prefix rep w =
     (case listener_check ev w k of
        ((_, Some (FromIntents ErrVersionConflict)), w') \<Rightarrow> (case raced t k rep None of (e, rep') \<Rightarrow> (e, rep', w'))
      | ((_, Some e), w') \<Rightarrow> (Some (ReconListener e), rep, w')
      | ((r, None), w') \<Rightarrow>
          (None, add_match rep t k (prefix @ (case lr_outcome r of None \<Rightarrow> '''' | Some o1 \<Rightarrow> outcome_name o1)
             @ '' ('' @ lr_detail r @ '')''), w'))"

definition merchant_leg :: "entry \<Rightarrow> string \<Rightarrow> int option" where
  "merchant_leg post merchant =
     (case find (\<lambda>l. leg_account l = merchant_account merchant) (e_legs post) of
        None \<Rightarrow> None | Some l \<Rightarrow> leg_amount l)"

definition listener_request :: "state \<Rightarrow> string \<Rightarrow> string \<Rightarrow> time \<Rightarrow> request" where
  "listener_request to tx why now = \<lparr>req_to = to, req_by = ActorListener, req_tx_hash = tx, req_reason = why, req_at = now\<rparr>"

definition same_payment :: "string \<Rightarrow> intent \<Rightarrow> transfer \<Rightarrow> bool" where
  "same_payment chain it t \<longleftrightarrow>
     \<not> (i_chain it \<noteq> chain \<or> tf_token t \<noteq> i_token it \<or> tf_from t \<noteq> i_payer it \<or> tf_to t \<noteq> i_merchant it)"

definition whose_ref :: "transfer \<Rightarrow> intent \<Rightarrow> string" where
  "whose_ref t it = ''ref '' @ short_hex (ref_string (tf_ref t)) @ '' ('' @ i_id it @ '')''"

definition reconcile_settled :: "transfer \<Rightarrow> intent \<Rightarrow> recon_report \<Rightarrow> recon_world \<Rightarrow> recon_error option \<times> recon_report \<times> recon_world" where
  "reconcile_settled t it rep w =
     (case journal_get (rw_journal w) (i_id it @ ''/post'') of
        Inl (ErrEntryNotFound _) \<Rightarrow>
          (None, add_finding rep KindMismatch t (i_id it) (whose_ref t it @ '' is settled but has no post on the books''), w)
      | Inl e \<Rightarrow> (Some (ReconJournal e), rep, w)
      | Inr post \<Rightarrow>
          if e_tx_hash post \<noteq> tf_tx_hash t
          then (None, add_finding rep KindPaidTwice t (i_id it) (whose_ref t it @ '' already settled on tx '' @ e_tx_hash post), w)
          else if merchant_leg post (i_merchant it) \<noteq> Some (tf_amount t)
          then (None, add_finding rep KindMismatch t (i_id it)
                  (whose_ref t it @ '' posted '' @ (case merchant_leg post (i_merchant it) of None \<Rightarrow> ''<nil>'' | Some a \<Rightarrow> show_int a)
                   @ '', chain says '' @ show_int (tf_amount t)), w)
          else (None, add_match rep t (i_id it) ''settled, post matches the chain'', w))"

text \<open>\<open>push\<close>, then \<open>raced\<close> unless it went through.\<close>

definition push_then :: "recon_env \<Rightarrow> transfer \<Rightarrow> string \<Rightarrow> recon_report \<Rightarrow> request
    \<Rightarrow> (recon_world \<Rightarrow> recon_error option \<times> recon_report \<times> recon_world)
    \<Rightarrow> recon_world \<Rightarrow> recon_error option \<times> recon_report \<times> recon_world" where
  "push_then ev t k rep req next w =
     (case recon_push ev w k req of
        (Inl e, w1) \<Rightarrow> (case raced t k rep (Some e) of (err, rep') \<Rightarrow> (err, rep', w1))
      | (Inr ok, w1) \<Rightarrow> (if ok then next w1 else case raced t k rep None of (err, rep') \<Rightarrow> (err, rep', w1)))"

definition reconcile_confirming :: "recon_env \<Rightarrow> transfer \<Rightarrow> intent \<Rightarrow> recon_report \<Rightarrow> recon_world
    \<Rightarrow> recon_error option \<times> recon_report \<times> recon_world" where
  "reconcile_confirming ev t it rep w =
     (if i_tx_hash it = tf_tx_hash t then recon_check ev t (i_id it) '''' rep w
      else
        let reason = ''tx '' @ i_tx_hash it @ '' on record, but the chain shows tx '' @ tf_tx_hash t @ '' carrying the ref'' in
        push_then ev t (i_id it) rep (listener_request StateSettling '''' reason (re_now ev (rw_tick w)))
          (\<lambda>w1. push_then ev t (i_id it) rep (listener_request StateConfirming (tf_tx_hash t) '''' (re_now ev (rw_tick w1)))
             (recon_check ev t (i_id it) (''on record '' @ i_tx_hash it @ '' -> settling -> confirming -> '') rep) w1) w)"

definition reconcile_settling :: "recon_env \<Rightarrow> transfer \<Rightarrow> intent \<Rightarrow> recon_report \<Rightarrow> recon_world
    \<Rightarrow> recon_error option \<times> recon_report \<times> recon_world" where
  "reconcile_settling ev t it rep w =
     push_then ev t (i_id it) rep (listener_request StateConfirming (tf_tx_hash t) '''' (re_now ev (rw_tick w)))
       (recon_check ev t (i_id it) ''settling -> confirming -> '' rep) w"

definition reconcile :: "recon_env \<Rightarrow> string \<Rightarrow> transfer \<Rightarrow> recon_report \<Rightarrow> recon_world
    \<Rightarrow> recon_error option \<times> recon_report \<times> recon_world" where
  "reconcile ev chain t rep w =
     (let w = others_move ev w in
      if ref_is_zero (tf_ref t)
      then (None, add_finding rep KindUnreferenced t '''' (show_int (tf_amount t) @ '' to '' @ short_addr (tf_to t) @ '' without a ref''), w)
      else case store_get_by_ref (rw_intents w) (tf_ref t) of
          Inl ErrIntentNotFound \<Rightarrow>
            (None, add_finding rep KindUnknownRef t '''' (''ref '' @ short_hex (ref_string (tf_ref t)) @ '' matches no intent''), w)
        | Inl e \<Rightarrow> (Some (ReconIntents e), rep, w)
        | Inr it \<Rightarrow>
            if \<not> same_payment chain it t
            then (None, add_finding rep KindUnexpected t (i_id it)
                    (whose_ref t it @ '' carries the ref, but token, payer or merchant differ from the intent''), w)
            else (case i_state it of
                StateSettled \<Rightarrow> reconcile_settled t it rep w
              | StateConfirming \<Rightarrow> reconcile_confirming ev t it rep w
              | StateSettling \<Rightarrow> reconcile_settling ev t it rep w
              | st \<Rightarrow> (None, add_finding rep KindUnexpected t (i_id it)
                         (whose_ref t it @ '' is '' @ state_name st @ '', yet the money moved''), w)))"

subsection \<open>Run\<close>

fun reconcile_all :: "recon_env \<Rightarrow> string \<Rightarrow> transfer list \<Rightarrow> recon_report \<Rightarrow> recon_world
    \<Rightarrow> recon_error option \<times> recon_report \<times> recon_world" where
  "reconcile_all ev chain [] rep w = (None, rep, w)"
| "reconcile_all ev chain (t # ts) rep w =
     (if tf_height t < rp_from rep \<or> tf_height t > rp_to rep
      then (Some (ErrOutsideWindow (tf_tx_hash t) (tf_height t) (rp_from rep) (rp_to rep)), rep, w)
      else case reconcile ev chain t rep w of
          (Some e, rep', w') \<Rightarrow> (Some e, rep', w')
        | (None, rep', w') \<Rightarrow> reconcile_all ev chain ts rep' w')"

definition in_chain_order :: "transfer list \<Rightarrow> transfer list" where
  "in_chain_order ts = sort_key tf_height (sort_key tf_tx_hash ts)"

definition run_recon :: "recon_env \<Rightarrow> engine \<Rightarrow> recon_world \<Rightarrow> (recon_report \<times> recon_error option) \<times> engine \<times> recon_world" where
  "run_recon ev en w =
     (let rep = \<lparr>rp_chain = en_chain en, rp_from = 0, rp_to = 0, rp_sweeps = [], rp_matches = [], rp_findings = []\<rparr> in
      case sweep ev (en_chain en) rep w of
        (Some e, rep1, w1) \<Rightarrow> ((rep1, Some e), en, w1)
      | (None, rep1, w1) \<Rightarrow>
          (case re_finalized ev of
             Inl e \<Rightarrow> ((rep1, Some (ReconSource e)), en, w1)
           | Inr final \<Rightarrow>
               let rep2 = rep1\<lparr>rp_from := en_cursor en + 1, rp_to := final\<rparr> in
               if final \<le> en_cursor en then ((rep2, None), en, w1)
               else case re_transfers ev (rp_from rep2) (rp_to rep2) of
                   Inl e \<Rightarrow> ((rep2, Some (ReconSource e)), en, w1)
                 | Inr ts \<Rightarrow>
                     (case reconcile_all ev (en_chain en) (in_chain_order ts) rep2 w1 of
                        (Some e, rep3, w3) \<Rightarrow> ((rep3, Some e), en, w3)
                      | (None, rep3, w3) \<Rightarrow> ((rep3, None), en\<lparr>en_cursor := final\<rparr>, w3))))"

subsection \<open>Every transfer is accounted for\<close>

definition accounted :: "recon_report \<Rightarrow> transfer list" where
  "accounted rep = map ma_transfer (rp_matches rep) @ map fi_transfer (rp_findings rep)"

definition reported_one :: "recon_report \<Rightarrow> transfer \<Rightarrow> recon_report \<Rightarrow> bool" where
  "reported_one rep t rep' \<longleftrightarrow> mset (accounted rep') = add_mset t (mset (accounted rep))
     \<and> rp_from rep' = rp_from rep \<and> rp_to rep' = rp_to rep \<and> rp_sweeps rep' = rp_sweeps rep \<and> rp_chain rep' = rp_chain rep"

lemma reported_add [simp]: "reported_one rep t (add_match rep t k a)" "reported_one rep t (add_finding rep kd t k d)"
  by (simp_all add: reported_one_def accounted_def add_match_def add_finding_def)

lemma raced_reports: "raced t k rep err = (None, rep') \<Longrightarrow> reported_one rep t rep'"
  by (auto simp: raced_def split: option.splits)

lemma push_thenE:
  assumes "push_then ev t k rep req next w = (err, rep', w')"
  obtains (moved) w1 where "recon_push ev w k req = (Inr True, w1)" "next w1 = (err, rep', w')"
    | (lost) "recon_push ev w k req = (Inr False, w')" "err = None" "rep' = add_match rep t k lost_race"
    | (failed) e where "recon_push ev w k req = (Inl e, w')" "err = Some e" "rep' = rep"
  using assms by (auto simp: push_then_def raced_def split: prod.splits sum.splits if_splits)

lemma recon_checkE:
  assumes "recon_check ev t k prefix rep w = (err, rep', w')"
  obtains (checked) r where "listener_check ev w k = ((r, None), w')" "err = None"
      "rep' = add_match rep t k (prefix @ (case lr_outcome r of None \<Rightarrow> '''' | Some o1 \<Rightarrow> outcome_name o1) @ '' ('' @ lr_detail r @ '')'')"
    | (lost) r where "listener_check ev w k = ((r, Some (FromIntents ErrVersionConflict)), w')" "err = None"
      "rep' = add_match rep t k lost_race"
    | (failed) r e where "listener_check ev w k = ((r, Some e), w')" "err = Some (ReconListener e)" "rep' = rep"
proof (cases "listener_check ev w k")
  case (Pair re w1)
  obtain r e where re: "re = (r, e)" by (cases re)
  show thesis
  proof (cases e)
    case None
    with assms Pair re checked show thesis by (simp add: recon_check_def)
  next
    case (Some e1)
    show thesis
    proof (cases "e1 = FromIntents ErrVersionConflict")
      case True
      with assms Pair re Some lost show thesis by (simp add: recon_check_def raced_def)
    next
      case False
      with assms Pair re Some have "err = Some (ReconListener e1) \<and> rep' = rep \<and> w1 = w'"
        by (cases e1) (auto simp: recon_check_def split: intent_error.splits)
      with Pair re Some failed show thesis by blast
    qed
  qed
qed

lemma reconcile_settledE:
  assumes "reconcile_settled t it rep w = (err, rep', w')"
  obtains (found) kd d where "err = None" "rep' = add_finding rep kd t (i_id it) d" "w' = w"
    | (matched) post where "err = None" "rep' = add_match rep t (i_id it) ''settled, post matches the chain''" "w' = w"
      "journal_get (rw_journal w) (i_id it @ ''/post'') = Inr post" "e_tx_hash post = tf_tx_hash t"
      "merchant_leg post (i_merchant it) = Some (tf_amount t)"
    | (failed) e where "err = Some e" "rep' = rep" "w' = w"
  using assms by (auto simp: reconcile_settled_def split: sum.splits ledger_error.splits if_splits)

text \<open>The five ways a transfer is handled, on the world others have left.\<close>

lemma reconcileE:
  assumes "reconcile ev chain t rep w = (err, rep', w')"
  obtains (found) kd k d where "err = None" "rep' = add_finding rep kd t k d" "w' = others_move ev w"
    | (failed) e where "err = Some e" "rep' = rep" "w' = others_move ev w"
    | (settled) it where "store_get_by_ref (rw_intents (others_move ev w)) (tf_ref t) = Inr it" "same_payment chain it t"
      "i_state it = StateSettled" "reconcile_settled t it rep (others_move ev w) = (err, rep', w')"
    | (confirming) it where "store_get_by_ref (rw_intents (others_move ev w)) (tf_ref t) = Inr it" "same_payment chain it t"
      "i_state it = StateConfirming" "reconcile_confirming ev t it rep (others_move ev w) = (err, rep', w')"
    | (settling) it where "store_get_by_ref (rw_intents (others_move ev w)) (tf_ref t) = Inr it" "same_payment chain it t"
      "i_state it = StateSettling" "reconcile_settling ev t it rep (others_move ev w) = (err, rep', w')"
proof -
  let ?w = "others_move ev w"
  let ?found = "\<exists>kd k d. err = None \<and> rep' = add_finding rep kd t k d \<and> w' = ?w"
  consider (zero) "ref_is_zero (tf_ref t)"
    | (none) e where "\<not> ref_is_zero (tf_ref t)" "store_get_by_ref (rw_intents ?w) (tf_ref t) = Inl e"
    | (other) it where "\<not> ref_is_zero (tf_ref t)" "store_get_by_ref (rw_intents ?w) (tf_ref t) = Inr it" "\<not> same_payment chain it t"
    | (same) it where "\<not> ref_is_zero (tf_ref t)" "store_get_by_ref (rw_intents ?w) (tf_ref t) = Inr it" "same_payment chain it t"
    by (cases "store_get_by_ref (rw_intents ?w) (tf_ref t)") auto
  then show thesis
  proof cases
    case zero
    then have ?found using assms by (auto simp: reconcile_def Let_def)
    with found show thesis by blast
  next
    case (none e)
    then have "?found \<or> err = Some (ReconIntents e) \<and> rep' = rep \<and> w' = ?w"
      using assms by (cases e) (auto simp: reconcile_def Let_def)
    with found failed show thesis by blast
  next
    case (other it)
    then have ?found using assms by (auto simp: reconcile_def Let_def)
    with found show thesis by blast
  next
    case (same it)
    then have r: "(case i_state it of
                StateSettled \<Rightarrow> reconcile_settled t it rep ?w
              | StateConfirming \<Rightarrow> reconcile_confirming ev t it rep ?w
              | StateSettling \<Rightarrow> reconcile_settling ev t it rep ?w
              | st \<Rightarrow> (None, add_finding rep KindUnexpected t (i_id it)
                         (whose_ref t it @ '' is '' @ state_name st @ '', yet the money moved''), ?w)) = (err, rep', w')"
      using assms by (simp only: reconcile_def Let_def if_False sum.case not_True_eq_False if_True split: if_splits)
    show thesis
    proof (cases "i_state it \<in> {StateSettled, StateConfirming, StateSettling}")
      case True
      with r same settled confirming settling show thesis by (elim insertE emptyE) simp_all
    next
      case False
      with r have ?found by (cases "i_state it") auto
      with found show thesis by blast
    qed
  qed
qed

lemma recon_check_reports: "recon_check ev t k prefix rep w = (None, rep', w') \<Longrightarrow> reported_one rep t rep'"
  by (erule recon_checkE) simp_all

lemma push_then_reports:
  "push_then ev t k rep req next w = (None, rep', w') \<Longrightarrow> (\<And>w1. next w1 = (None, rep', w') \<Longrightarrow> reported_one rep t rep')
     \<Longrightarrow> reported_one rep t rep'"
  by (erule push_thenE) simp_all

lemma reconcile_reports:
  assumes "reconcile ev chain t rep w = (None, rep', w')"
  shows "reported_one rep t rep'"
  using assms
proof (cases rule: reconcileE)
  case (settled it)
  from settled(4) show ?thesis by (cases rule: reconcile_settledE) simp_all
next
  case (confirming it)
  from confirming(4) show ?thesis
    unfolding reconcile_confirming_def Let_def
    by (auto split: if_splits elim!: push_then_reports recon_check_reports)
next
  case (settling it)
  from settling(4) show ?thesis
    unfolding reconcile_settling_def by (auto elim!: push_then_reports recon_check_reports)
qed simp_all

lemma reconcile_all_reports:
  "reconcile_all ev chain ts rep w = (None, rep', w') \<Longrightarrow>
     mset (accounted rep') = mset (accounted rep) + mset ts \<and> rp_from rep' = rp_from rep \<and> rp_to rep' = rp_to rep
     \<and> rp_sweeps rep' = rp_sweeps rep \<and> rp_chain rep' = rp_chain rep
     \<and> (\<forall>t \<in> set ts. rp_from rep \<le> tf_height t \<and> tf_height t \<le> rp_to rep)"
proof (induction ts arbitrary: rep w)
  case (Cons t ts)
  obtain rep1 w1 where one: "reconcile ev chain t rep w = (None, rep1, w1)"
      "reconcile_all ev chain ts rep1 w1 = (None, rep', w')" "\<not> (tf_height t < rp_from rep \<or> tf_height t > rp_to rep)"
    using Cons.prems by (auto split: if_splits prod.splits option.splits)
  from Cons.IH [OF one(2)] show ?case using reconcile_reports [OF one(1)] one(3) by (auto simp: reported_one_def not_less)
qed simp

lemma sweep_one_frame:
  "sweep_one ev it rep w = (err, rep', w') \<Longrightarrow> rp_matches rep' = rp_matches rep \<and> rp_findings rep' = rp_findings rep"
  by (auto simp: sweep_one_def queue_settle_def Let_def add_sweep_def
      split: if_splits prod.splits option.splits sum.splits dlq_error.splits listener_error.splits intent_error.splits)

lemma sweep_loop_frame:
  "sweep_loop ev chain its rep w = (err, rep', w') \<Longrightarrow> rp_matches rep' = rp_matches rep \<and> rp_findings rep' = rp_findings rep"
proof (induction its arbitrary: rep w)
  case (Cons it its)
  then show ?case using sweep_one_frame by (fastforce split: if_splits prod.splits option.splits)
qed simp

text \<open>What a run without error did: the sweep, then nothing, or one pass over the window.\<close>

lemma run_recon_parts:
  assumes "run_recon ev en w = ((rep, None), en', w')"
  obtains (idle) rep1 final where "sweep ev (en_chain en)
        \<lparr>rp_chain = en_chain en, rp_from = 0, rp_to = 0, rp_sweeps = [], rp_matches = [], rp_findings = []\<rparr> w = (None, rep1, w')"
      "re_finalized ev = Inr final" "final \<le> en_cursor en" "en' = en" "rep = rep1\<lparr>rp_from := en_cursor en + 1, rp_to := final\<rparr>"
    | (window) rep1 w1 final ts where "sweep ev (en_chain en)
        \<lparr>rp_chain = en_chain en, rp_from = 0, rp_to = 0, rp_sweeps = [], rp_matches = [], rp_findings = []\<rparr> w = (None, rep1, w1)"
      "re_finalized ev = Inr final" "\<not> final \<le> en_cursor en" "en' = en\<lparr>en_cursor := final\<rparr>"
      "re_transfers ev (en_cursor en + 1) final = Inr ts"
      "reconcile_all ev (en_chain en) (in_chain_order ts) (rep1\<lparr>rp_from := en_cursor en + 1, rp_to := final\<rparr>) w1 = (None, rep, w')"
proof -
  let ?rep0 = "\<lparr>rp_chain = en_chain en, rp_from = 0, rp_to = 0, rp_sweeps = [], rp_matches = [], rp_findings = []\<rparr>"
  obtain e1 rep1 w1 where sw: "sweep ev (en_chain en) ?rep0 w = (e1, rep1, w1)" by (cases "sweep ev (en_chain en) ?rep0 w") auto
  have e1: "e1 = None" using assms sw by (cases e1) (simp_all add: run_recon_def)
  obtain final where fin: "re_finalized ev = Inr final"
    using assms sw e1 by (cases "re_finalized ev") (simp_all add: run_recon_def)
  let ?rep2 = "rep1\<lparr>rp_from := en_cursor en + 1, rp_to := final\<rparr>"
  have r: "(if final \<le> en_cursor en then ((?rep2, None), en, w1)
      else case re_transfers ev (rp_from ?rep2) (rp_to ?rep2) of
          Inl e \<Rightarrow> ((?rep2, Some (ReconSource e)), en, w1)
        | Inr ts \<Rightarrow>
            (case reconcile_all ev (en_chain en) (in_chain_order ts) ?rep2 w1 of
               (Some e, rep3, w3) \<Rightarrow> ((rep3, Some e), en, w3)
             | (None, rep3, w3) \<Rightarrow> ((rep3, None), en\<lparr>en_cursor := final\<rparr>, w3))) = ((rep, None), en', w')"
    using assms by (simp add: run_recon_def Let_def sw e1 fin)
  show thesis
  proof (cases "final \<le> en_cursor en")
    case True
    with r have pr: "((?rep2, None :: recon_error option), en, w1) = ((rep, None), en', w')" by (simp only: if_True)
    have eq: "w1 = w'" "en = en'" "?rep2 = rep"
      using arg_cong [OF pr, of "\<lambda>x. snd (snd x)"] arg_cong [OF pr, of "\<lambda>x. fst (snd x)"] arg_cong [OF pr, of "\<lambda>x. fst (fst x)"]
      by (simp_all only: fst_conv snd_conv)
    have "sweep ev (en_chain en) ?rep0 w = (None, rep1, w')" by (simp only: sw e1 eq(1))
    then show thesis by (rule idle [OF _ fin True eq(2,3) [symmetric]])
  next
    case False
    obtain ts where ts: "re_transfers ev (en_cursor en + 1) final = Inr ts"
      using r False by (cases "re_transfers ev (en_cursor en + 1) final") simp_all
    obtain e3 rep3 w3 where ra: "reconcile_all ev (en_chain en) (in_chain_order ts) ?rep2 w1 = (e3, rep3, w3)"
      by (cases "reconcile_all ev (en_chain en) (in_chain_order ts) ?rep2 w1") auto
    have "e3 = None" using r False ts ra by (cases e3) simp_all
    with r False ts ra have eq: "rep3 = rep" "en\<lparr>en_cursor := final\<rparr> = en'" "w3 = w'" by simp_all
    have "sweep ev (en_chain en) ?rep0 w = (None, rep1, w1)" by (simp only: sw e1)
    moreover have "reconcile_all ev (en_chain en) (in_chain_order ts) ?rep2 w1 = (None, rep, w')"
      using ra by (simp only: \<open>e3 = None\<close> eq(1,3))
    ultimately show thesis by (rule window [OF _ fin False eq(2) [symmetric] ts])
  qed
qed

lemma run_recon_error: "run_recon ev en w = ((rep, Some e), en', w') \<Longrightarrow> en' = en"
  by (auto simp: run_recon_def Let_def split: prod.splits option.splits sum.splits if_splits)

lemma run_recon_accounts:
  assumes "run_recon ev en w = ((rep, None), en', w')"
  shows "\<exists>final. re_finalized ev = Inr final \<and> rp_from rep = en_cursor en + 1 \<and> rp_to rep = final
    \<and> (if final \<le> en_cursor en then en' = en \<and> accounted rep = []
       else en' = en\<lparr>en_cursor := final\<rparr> \<and> (\<exists>ts. re_transfers ev (en_cursor en + 1) final = Inr ts
         \<and> mset (accounted rep) = mset ts \<and> (\<forall>t \<in> set ts. en_cursor en + 1 \<le> tf_height t \<and> tf_height t \<le> final)))"
  using assms
proof (cases rule: run_recon_parts)
  case (idle rep1 final)
  with sweep_loop_frame [OF idle(1) [unfolded sweep_def]] show ?thesis by (simp add: accounted_def)
next
  case (window rep1 w1 final ts)
  from sweep_loop_frame [OF window(1) [unfolded sweep_def]] have "accounted (rep1\<lparr>rp_from := en_cursor en + 1, rp_to := final\<rparr>) = []"
    by (simp add: accounted_def)
  with reconcile_all_reports [OF window(6)] window show ?thesis by (auto simp: in_chain_order_def)
qed

subsection \<open>A quiet world\<close>

text \<open>Nobody else writes while the engine runs.\<close>

definition quiet :: "recon_env \<Rightarrow> bool" where
  "quiet ev \<longleftrightarrow> (\<forall>n w. re_others ev n w = w) \<and> (\<forall>n. \<not> re_loses ev n)"

lemma others_quiet: "quiet ev \<Longrightarrow> others_move ev w = w\<lparr>rw_tick := Suc (rw_tick w)\<rparr>"
  by (simp add: others_move_def quiet_def)

lemma listener_check_quiet:
  assumes "quiet ev"
  shows "listener_check ev w k =
     (case check (re_platform ev) (re_policies ev) (re_lookup ev (Suc (rw_tick w))) (re_now ev (Suc (rw_tick w)))
        (re_now ev (Suc (rw_tick w))) k (rw_intents w) (rw_journal w) of
        ((r, err), st', j') \<Rightarrow> ((r, err), w\<lparr>rw_intents := st', rw_journal := j', rw_tick := Suc (rw_tick w)\<rparr>))"
  using assms by (simp add: listener_check_def others_quiet quiet_def Let_def split: prod.splits)

lemma recon_push_quiet:
  assumes "quiet ev"
  shows "recon_push ev w k req =
     (let w = w\<lparr>rw_tick := Suc (rw_tick w)\<rparr> in
      case advance (re_platform ev) (rw_intents w) k req of
        Inl e \<Rightarrow> (if e \<in> {ErrVersionConflict, ErrTerminal, ErrIllegalTransition} then Inr False else Inl (ReconIntents e), w)
      | Inr (_, _, st') \<Rightarrow> (Inr True, w\<lparr>rw_intents := st'\<rparr>))"
  using assms by (simp add: recon_push_def others_quiet quiet_def Let_def split: sum.splits)

definition books_only :: "recon_world \<Rightarrow> recon_world \<Rightarrow> bool" where
  "books_only w w' \<longleftrightarrow> rw_jobs w' = rw_jobs w \<and> rw_dead w' = rw_dead w"

lemma books_only_trans: "books_only a b \<Longrightarrow> books_only b c \<Longrightarrow> books_only a c"
  by (simp add: books_only_def)

lemma listener_check_books: "quiet ev \<Longrightarrow> listener_check ev w k = (x, w') \<Longrightarrow> books_only w w'"
  by (auto simp: listener_check_quiet books_only_def split: prod.splits)

lemma recon_push_books: "quiet ev \<Longrightarrow> recon_push ev w k req = (x, w') \<Longrightarrow> books_only w w'"
  by (auto simp: recon_push_quiet Let_def books_only_def split: sum.splits)

lemma recon_check_books: "quiet ev \<Longrightarrow> recon_check ev t k pre rep w = (err, rep', w') \<Longrightarrow> books_only w w'"
  by (erule recon_checkE) (auto dest: listener_check_books)

lemma push_then_books:
  assumes "quiet ev" "push_then ev t k rep req next w = (err, rep', w')" "\<And>w1. next w1 = (err, rep', w') \<Longrightarrow> books_only w1 w'"
  shows "books_only w w'"
  using assms(2)
proof (cases rule: push_thenE)
  case (moved w1)
  then show ?thesis using recon_push_books [OF assms(1) moved(1)] assms(3) [OF moved(2)] books_only_trans by blast
qed (use recon_push_books [OF assms(1)] in blast)+

lemma reconcile_books:
  assumes q: "quiet ev" and r: "reconcile ev chain t rep w = (err, rep', w')"
  shows "books_only w w'"
proof -
  have tick: "books_only (others_move ev w) w' \<Longrightarrow> books_only w w'" by (simp add: books_only_def others_quiet [OF q])
  from r have "books_only (others_move ev w) w'"
  proof (cases rule: reconcileE)
    case (settled it)
    from settled(4) show ?thesis by (cases rule: reconcile_settledE) (simp_all add: books_only_def)
  next
    case (confirming it)
    from confirming(4) show ?thesis
      unfolding reconcile_confirming_def Let_def
      by (auto split: if_splits elim!: push_then_books [OF q] recon_check_books [OF q])
  next
    case (settling it)
    from settling(4) show ?thesis
      unfolding reconcile_settling_def by (auto elim!: push_then_books [OF q] recon_check_books [OF q])
  qed (simp_all add: books_only_def)
  then show ?thesis by (rule tick)
qed

subsection \<open>The sweep leaves nothing without a mover\<close>

definition parked_job :: "recon_world \<Rightarrow> string \<Rightarrow> bool" where
  "parked_job w k \<longleftrightarrow> (\<exists>r. dead_get (rw_dead w) k = Inr r \<and> dl_status r = StatusParked)"

definition jobs_kept :: "recon_world \<Rightarrow> recon_world \<Rightarrow> bool" where
  "jobs_kept w w' \<longleftrightarrow> rw_dead w' = rw_dead w \<and> (\<forall>k. queue_pending (rw_jobs w) k \<noteq> None \<longrightarrow> queue_pending (rw_jobs w') k \<noteq> None)"

lemma jobs_kept_trans: "jobs_kept a b \<Longrightarrow> jobs_kept b c \<Longrightarrow> jobs_kept a c"
  by (simp add: jobs_kept_def)

lemma books_only_jobs: "books_only w w' \<Longrightarrow> jobs_kept w w'"
  by (simp add: books_only_def jobs_kept_def)

lemma enqueue_pends: "enqueue q j now = Inr (b, q') \<Longrightarrow> queue_pending q' (job_id j) \<noteq> None
    \<and> (\<forall>k. queue_pending q k \<noteq> None \<longrightarrow> queue_pending q' k \<noteq> None)"
  by (auto simp: enqueue_def queue_pending_def split: option.splits if_splits)

lemma queue_settle_pends:
  assumes "quiet ev" "queue_settle ev it rep w = (None, rep', w')"
  shows "jobs_kept w w' \<and> queue_pending (rw_jobs w') (i_id it @ ''/settle'') \<noteq> None
    \<and> (\<exists>a. rp_sweeps rep' = rp_sweeps rep @ [\<lparr>sw_intent_id = i_id it, sw_state = i_state it, sw_action = a\<rparr>])"
  using assms enqueue_pends [of "rw_jobs w" "settle_job it"]
  by (auto simp: queue_settle_def others_quiet Let_def add_sweep_def jobs_kept_def settle_job_def split: sum.splits prod.splits)

lemma sweep_one_moves:
  assumes "quiet ev" "sweep_one ev it rep w = (None, rep', w')"
  shows "jobs_kept w w' \<and> (i_state it \<noteq> StateConfirming \<longrightarrow> queue_pending (rw_jobs w') (i_id it @ ''/settle'') \<noteq> None
        \<or> parked_job w (i_id it @ ''/settle''))
    \<and> (\<exists>a. rp_sweeps rep' = rp_sweeps rep @ [\<lparr>sw_intent_id = i_id it, sw_state = i_state it, sw_action = a\<rparr>])"
proof (cases "i_state it = StateConfirming")
  case True
  obtain r e w1 where lc: "listener_check ev w (i_id it) = ((r, e), w1)" by (metis prod.collapse)
  then have w1: "w1 = w'" and "\<exists>a. rep' = add_sweep rep it a"
    using assms(2) True by (auto simp: sweep_one_def split: option.splits listener_error.splits intent_error.splits)
  with True books_only_jobs [OF listener_check_books [OF assms(1) lc]] show ?thesis by (auto simp: add_sweep_def)
next
  case False
  let ?w = "w\<lparr>rw_tick := Suc (rw_tick w)\<rparr>"
  have tick: "jobs_kept ?w w' \<Longrightarrow> jobs_kept w w'" by (simp add: jobs_kept_def)
  have id: "job_id (settle_job it) = i_id it @ ''/settle''" by (simp add: settle_job_def)
  consider (parked) r where "dead_get (rw_dead w) (i_id it @ ''/settle'') = Inr r" "dl_status r = StatusParked"
      "rep' = add_sweep rep it ''parked in the dlq, waiting for a person''" "w' = ?w"
    | (queued) "queue_settle ev it rep ?w = (None, rep', w')"
  proof (cases "dead_get (rw_dead w) (i_id it @ ''/settle'')")
    case (Inl e)
    with assms False have "queue_settle ev it rep ?w = (None, rep', w')"
      by (cases e) (simp_all add: sweep_one_def others_quiet Let_def id)
    then show thesis by (rule queued)
  next
    case (Inr r)
    show thesis
    proof (cases "dl_status r = StatusParked")
      case True
      with assms False Inr have "add_sweep rep it ''parked in the dlq, waiting for a person'' = rep'" "?w = w'"
        by (simp_all add: sweep_one_def others_quiet Let_def id)
      with Inr True parked show thesis by metis
    next
      case False
      with assms \<open>i_state it \<noteq> StateConfirming\<close> Inr have "queue_settle ev it rep ?w = (None, rep', w')"
        by (simp add: sweep_one_def others_quiet Let_def id)
      then show thesis by (rule queued)
    qed
  qed
  then show ?thesis
  proof cases
    case parked
    then show ?thesis by (auto simp: jobs_kept_def parked_job_def add_sweep_def)
  next
    case queued
    from queue_settle_pends [OF assms(1) this] tick show ?thesis by blast
  qed
qed

lemma sweep_loop_moves:
  assumes "quiet ev"
  shows "sweep_loop ev chain its rep w = (None, rep', w') \<Longrightarrow> jobs_kept w w'
    \<and> set (rp_sweeps rep) \<subseteq> set (rp_sweeps rep')
    \<and> (\<forall>it \<in> set its. i_chain it = chain \<longrightarrow> (\<exists>s \<in> set (rp_sweeps rep'). sw_intent_id s = i_id it \<and> sw_state s = i_state it)
        \<and> (i_state it \<noteq> StateConfirming \<longrightarrow> queue_pending (rw_jobs w') (i_id it @ ''/settle'') \<noteq> None
            \<or> parked_job w (i_id it @ ''/settle'')))"
proof (induction its arbitrary: rep w)
  case Nil
  then show ?case by (simp add: jobs_kept_def)
next
  case (Cons it its)
  show ?case
  proof (cases "i_chain it = chain")
    case False
    with Cons show ?thesis by simp
  next
    case True
    obtain rep1 w1 where one: "sweep_one ev it rep w = (None, rep1, w1)" "sweep_loop ev chain its rep1 w1 = (None, rep', w')"
      using Cons.prems True by (auto split: prod.splits option.splits)
    note m = sweep_one_moves [OF assms one(1)] and IH = Cons.IH [OF one(2)]
    have dead: "parked_job w1 k \<Longrightarrow> parked_job w k" for k using m by (simp add: jobs_kept_def parked_job_def)
    have pend: "queue_pending (rw_jobs w1) k \<noteq> None \<Longrightarrow> queue_pending (rw_jobs w') k \<noteq> None" for k
      using IH by (simp add: jobs_kept_def)
    obtain a where a: "rp_sweeps rep1 = rp_sweeps rep @ [\<lparr>sw_intent_id = i_id it, sw_state = i_state it, sw_action = a\<rparr>]"
      using m by blast
    have kept: "jobs_kept w w'" using m IH jobs_kept_trans by blast
    have row: "\<exists>s \<in> set (rp_sweeps rep'). sw_intent_id s = i_id it \<and> sw_state s = i_state it"
      using IH a by (intro bexI [of _ "\<lparr>sw_intent_id = i_id it, sw_state = i_state it, sw_action = a\<rparr>"]) auto
    have mover: "i_state it \<noteq> StateConfirming \<longrightarrow> queue_pending (rw_jobs w') (i_id it @ ''/settle'') \<noteq> None
            \<or> parked_job w (i_id it @ ''/settle'')" using m pend by blast
    have rest: "(\<exists>s \<in> set (rp_sweeps rep'). sw_intent_id s = i_id x \<and> sw_state s = i_state x)
        \<and> (i_state x \<noteq> StateConfirming \<longrightarrow> queue_pending (rw_jobs w') (i_id x @ ''/settle'') \<noteq> None
            \<or> parked_job w (i_id x @ ''/settle''))" if "x \<in> set its" "i_chain x = chain" for x
      using IH that dead by blast
    have sub: "set (rp_sweeps rep) \<subseteq> set (rp_sweeps rep')" using IH a by auto
    show ?thesis using kept sub row mover rest by (simp only: list.set(2)) blast
  qed
qed

lemma reconcile_all_books:
  assumes "quiet ev"
  shows "reconcile_all ev chain ts rep w = (err, rep', w') \<Longrightarrow> books_only w w'"
proof (induction ts arbitrary: rep w)
  case Nil
  then show ?case by (simp add: books_only_def)
next
  case (Cons t ts)
  obtain e1 rep1 w1 where one: "reconcile ev chain t rep w = (e1, rep1, w1)" by (metis prod.collapse)
  note b = reconcile_books [OF assms one]
  show ?case
  proof (cases "tf_height t < rp_from rep \<or> tf_height t > rp_to rep")
    case True
    with Cons.prems show ?thesis by (simp add: books_only_def)
  next
    case out: False
    show ?thesis
    proof (cases e1)
      case None
      with Cons.prems one out have "reconcile_all ev chain ts rep1 w1 = (err, rep', w')" by simp
      from books_only_trans [OF b Cons.IH [OF this]] show ?thesis .
    next
      case (Some e)
      with Cons.prems one out b show ?thesis by simp
    qed
  qed
qed

subsection \<open>A post answers for one transaction\<close>

definition journal_grows :: "platform \<Rightarrow> memory_journal \<Rightarrow> memory_journal \<Rightarrow> bool" where
  "journal_grows p j j' \<longleftrightarrow> journal_inv p j' \<and> (\<exists>new. j_entries j' = j_entries j @ new)"

lemma append_grows:
  assumes "journal_inv p j" "append_entry p j e = Inr (st, b, j')"
  shows "journal_grows p j j'"
proof -
  have inv: "journal_inv p j'" by (rule append_inv [OF assms])
  show ?thesis
  proof (cases b)
    case True
    with assms(2) inv append_applied_entries [of p j e st j'] show ?thesis by (simp add: journal_grows_def)
  next
    case False
    with assms append_replay_iff [OF assms(1), of e st j'] inv show ?thesis by (simp add: journal_grows_def)
  qed
qed

lemma check_grows:
  assumes "journal_inv p j" "check p policies lookup t_age t_at k st j = (x, st', j')"
  shows "journal_grows p j j'"
proof (cases "store_get st k")
  case (Inl e)
  with assms show ?thesis by (simp add: check_def journal_grows_def)
next
  case (Inr it)
  show ?thesis
  proof (cases "i_state it = StateConfirming")
    case False
    with assms Inr show ?thesis by (simp add: check_def journal_grows_def Let_def)
  next
    case True
    show ?thesis
    proof (cases "check_plan policies lookup t_age t_at it")
      case (PlanPost e d req)
      show ?thesis
      proof (cases "append_entry p j e")
        case (Inl err)
        with assms Inr True PlanPost show ?thesis by (simp add: check_def journal_grows_def Let_def)
      next
        case (Inr r)
        obtain x1 b j1 where r: "r = (x1, b, j1)" by (cases r)
        with assms(2) \<open>store_get st k = Inr it\<close> True PlanPost Inr have "j1 = j'"
          by (auto simp: check_def Let_def split: prod.splits)
        with append_grows [OF assms(1)] Inr r show ?thesis by blast
      qed
    qed (use assms Inr True in \<open>auto simp: check_def journal_grows_def Let_def split: prod.splits\<close>)
  qed
qed

lemma listener_check_grows:
  assumes "quiet ev" "journal_inv (re_platform ev) (rw_journal w)" "listener_check ev w k = (x, w')"
  shows "journal_grows (re_platform ev) (rw_journal w) (rw_journal w')"
proof -
  obtain r e where x: "x = (r, e)" by (cases x)
  with assms(3) obtain st' j' where c: "check (re_platform ev) (re_policies ev) (re_lookup ev (Suc (rw_tick w)))
      (re_now ev (Suc (rw_tick w))) (re_now ev (Suc (rw_tick w))) k (rw_intents w) (rw_journal w) = ((r, e), st', j')"
      "rw_journal w' = j'"
    by (auto simp: listener_check_quiet [OF assms(1)] split: prod.splits)
  from check_grows [OF assms(2) c(1)] c(2) show ?thesis by simp
qed

lemma recon_push_journal: "quiet ev \<Longrightarrow> recon_push ev w k req = (x, w') \<Longrightarrow> rw_journal w' = rw_journal w"
  by (auto simp: recon_push_quiet Let_def split: sum.splits)

definition post_matched :: string where
  "post_matched = ''settled, post matches the chain''"

definition matched_by :: "memory_journal \<Rightarrow> match_row \<Rightarrow> entry \<Rightarrow> bool" where
  "matched_by j m e \<longleftrightarrow> e \<in> set (j_entries j) \<and> e_id e = ma_intent_id m @ ''/post'' \<and> e_tx_hash e = tf_tx_hash (ma_transfer m)"

definition posts_answer :: "recon_report \<Rightarrow> memory_journal \<Rightarrow> bool" where
  "posts_answer rep j \<longleftrightarrow> (\<forall>m \<in> set (rp_matches rep). ma_action m = post_matched \<longrightarrow> (\<exists>e. matched_by j m e))"

lemma posts_answer_grows: "posts_answer rep j \<Longrightarrow> journal_grows p j j' \<Longrightarrow> posts_answer rep j'"
  by (fastforce simp: posts_answer_def matched_by_def journal_grows_def)

lemma posts_answer_other [simp]:
  "posts_answer (add_finding rep kd t k d) j \<longleftrightarrow> posts_answer rep j"
  "a \<noteq> post_matched \<Longrightarrow> posts_answer (add_match rep t k a) j \<longleftrightarrow> posts_answer rep j"
  by (auto simp: posts_answer_def add_finding_def add_match_def)

lemma action_not_post [simp]:
  "lost_race \<noteq> post_matched"
  "(case o1 of None \<Rightarrow> '''' | Some x \<Rightarrow> outcome_name x) @ '' ('' @ d \<noteq> post_matched"
  "''settling -> '' @ d \<noteq> post_matched" "''on record '' @ d \<noteq> post_matched"
  by (auto simp: lost_race_def post_matched_def split: option.splits) (case_tac x2, simp_all)
definition grown :: "recon_env \<Rightarrow> recon_report \<times> recon_world \<Rightarrow> recon_report \<times> recon_world \<Rightarrow> bool" where
  "grown ev x y \<longleftrightarrow> (posts_answer (fst x) (rw_journal (snd x)) \<and> journal_inv (re_platform ev) (rw_journal (snd x))
     \<longrightarrow> posts_answer (fst y) (rw_journal (snd y)) \<and> journal_inv (re_platform ev) (rw_journal (snd y)))"

lemma recon_check_grown:
  assumes q: "quiet ev" and p: "\<And>d. prefix @ d \<noteq> post_matched \<or> prefix = ''''"
    and r: "recon_check ev t k prefix rep w = (err, rep', w')"
  shows "grown ev (rep, w) (rep', w')"
proof -
  have "posts_answer rep' (rw_journal w') \<and> journal_inv (re_platform ev) (rw_journal w')"
    if pa: "posts_answer rep (rw_journal w)" and inv: "journal_inv (re_platform ev) (rw_journal w)"
  proof -
    have g: "listener_check ev w k = (x, w') \<Longrightarrow> posts_answer rep (rw_journal w') \<and> journal_inv (re_platform ev) (rw_journal w')" for x
      using posts_answer_grows [OF pa] listener_check_grows [OF q inv, of k x w'] by (auto simp: journal_grows_def)
    from r show ?thesis
    proof (cases rule: recon_checkE)
      case (checked lr)
      have "prefix @ (case lr_outcome lr of None \<Rightarrow> '''' | Some o1 \<Rightarrow> outcome_name o1) @ '' ('' @ lr_detail lr @ '')'' \<noteq> post_matched"
        using p [of "(case lr_outcome lr of None \<Rightarrow> '''' | Some o1 \<Rightarrow> outcome_name o1) @ '' ('' @ lr_detail lr @ '')''"]
          action_not_post(2) [of "lr_outcome lr" "lr_detail lr @ '')''"] by auto
      with checked g show ?thesis by simp
    qed (use g in auto)
  qed
  then show ?thesis by (simp add: grown_def)
qed

lemma push_then_grown:
  assumes q: "quiet ev" and r: "push_then ev t k rep req next w = (err, rep', w')"
    and n: "\<And>w1. rw_journal w1 = rw_journal w \<Longrightarrow> next w1 = (err, rep', w') \<Longrightarrow> grown ev (rep, w1) (rep', w')"
  shows "grown ev (rep, w) (rep', w')"
  using r
proof (cases rule: push_thenE)
  case (moved w1)
  from n [OF recon_push_journal [OF q moved(1)] moved(2)] recon_push_journal [OF q moved(1)] show ?thesis
    by (simp add: grown_def)
next
  case lost
  then show ?thesis using recon_push_journal [OF q lost(1)] by (simp add: grown_def)
next
  case (failed e)
  then show ?thesis using recon_push_journal [OF q failed(1)] by (simp add: grown_def)
qed

lemma reconcile_grown:
  assumes q: "quiet ev" and r: "reconcile ev chain t rep w = (err, rep', w')"
  shows "grown ev (rep, w) (rep', w')"
proof -
  let ?w = "others_move ev w"
  have j: "rw_journal ?w = rw_journal w" by (simp add: others_quiet [OF q])
  from r have "grown ev (rep, ?w) (rep', w')"
  proof (cases rule: reconcileE)
    case (settled it)
    from settled(4) show ?thesis
    proof (cases rule: reconcile_settledE)
      case (matched post)
      have pm: "posts_answer rep' (rw_journal ?w)"
        if "posts_answer rep (rw_journal ?w)" "journal_inv (re_platform ev) (rw_journal ?w)"
      proof -
        obtain i where i: "j_by_id (rw_journal ?w) (i_id it @ ''/post'') = Some i" "j_entries (rw_journal ?w) ! i = post"
          using matched(4) by (auto simp: journal_get_def split: option.splits)
        have "matched_by (rw_journal ?w) \<lparr>ma_transfer = t, ma_intent_id = i_id it, ma_action = post_matched\<rparr> post"
          using by_id_Some [OF that(2) i(1)] i(2) matched(5) by (simp add: matched_by_def)
        with that(1) show ?thesis
          by (auto simp: posts_answer_def matched(2) add_match_def post_matched_def)
      qed
      then show ?thesis by (simp add: grown_def matched(3))
    qed (auto simp: grown_def)
  next
    case (confirming it)
    show ?thesis
    proof (cases "i_tx_hash it = tf_tx_hash t")
      case True
      with confirming(4) show ?thesis by (auto simp: reconcile_confirming_def intro: recon_check_grown [OF q])
    next
      case False
      let ?pre = "''on record '' @ i_tx_hash it @ '' -> settling -> confirming -> ''"
      show ?thesis
        using confirming(4) False unfolding reconcile_confirming_def Let_def
        by simp (erule push_then_grown [OF q], erule push_then_grown [OF q], rule recon_check_grown [OF q, rotated], assumption,
            simp add: post_matched_def)
    qed
  next
    case (settling it)
    show ?thesis
      using settling(4) unfolding reconcile_settling_def
      by - (erule push_then_grown [OF q], rule recon_check_grown [OF q, rotated], assumption, simp add: post_matched_def)
  qed (simp_all add: grown_def)
  then show ?thesis by (simp add: grown_def j)
qed

lemma grown_trans: "grown ev x y \<Longrightarrow> grown ev y z \<Longrightarrow> grown ev x z"
  by (simp add: grown_def)

lemma reconcile_all_grown:
  assumes "quiet ev"
  shows "reconcile_all ev chain ts rep w = (None, rep', w') \<Longrightarrow> grown ev (rep, w) (rep', w')"
proof (induction ts arbitrary: rep w)
  case Nil
  then show ?case by (simp add: grown_def)
next
  case (Cons t ts)
  obtain rep1 w1 where one: "reconcile ev chain t rep w = (None, rep1, w1)" "reconcile_all ev chain ts rep1 w1 = (None, rep', w')"
    using Cons.prems by (auto split: if_splits prod.splits option.splits)
  from grown_trans [OF reconcile_grown [OF assms one(1)] Cons.IH [OF one(2)]] show ?case .
qed

lemma sweep_one_journal:
  assumes q: "quiet ev" and inv: "journal_inv (re_platform ev) (rw_journal w)" and s: "sweep_one ev it rep w = (None, rep', w')"
  shows "journal_grows (re_platform ev) (rw_journal w) (rw_journal w')"
proof (cases "i_state it = StateConfirming")
  case True
  obtain r e w1 where lc: "listener_check ev w (i_id it) = ((r, e), w1)" by (metis prod.collapse)
  have "w1 = w'" using s True lc by (auto simp: sweep_one_def split: option.splits listener_error.splits intent_error.splits)
  with listener_check_grows [OF q inv lc] show ?thesis by simp
next
  case False
  have "rw_journal w' = rw_journal w"
    using s False by (auto simp: sweep_one_def queue_settle_def others_quiet [OF q] Let_def
        split: sum.splits dlq_error.splits prod.splits if_splits)
  with inv show ?thesis by (simp add: journal_grows_def)
qed

lemma sweep_loop_journal:
  assumes q: "quiet ev"
  shows "journal_inv (re_platform ev) (rw_journal w) \<Longrightarrow> sweep_loop ev chain its rep w = (None, rep', w') \<Longrightarrow>
    journal_inv (re_platform ev) (rw_journal w')"
proof (induction its arbitrary: rep w)
  case (Cons it its)
  show ?case
  proof (cases "i_chain it = chain")
    case True
    obtain rep1 w1 where one: "sweep_one ev it rep w = (None, rep1, w1)" "sweep_loop ev chain its rep1 w1 = (None, rep', w')"
      using Cons.prems(2) True by (auto split: prod.splits option.splits)
    have "journal_inv (re_platform ev) (rw_journal w1)"
      using sweep_one_journal [OF q Cons.prems(1) one(1)] by (simp add: journal_grows_def)
    with one(2) Cons.IH show ?thesis by blast
  qed (use Cons in simp)
qed simp

subsection \<open>Evidence\<close>

text \<open>\<open>it'\<close> is \<open>it\<close> taken further by the listener alone.\<close>

definition by_listener :: "intent \<Rightarrow> intent \<Rightarrow> bool" where
  "by_listener it it' \<longleftrightarrow> (\<exists>hs. i_history it' = i_history it @ hs \<and> (\<forall>h \<in> set hs. tr_by h = ActorListener))"

lemma by_listener_refl: "by_listener it it" and
  by_listener_commit: "by_listener it x \<Longrightarrow> req_by req = ActorListener \<Longrightarrow> by_listener it (commit x req)"
  by (auto simp: by_listener_def)

definition evidenced :: "transfer \<Rightarrow> intent \<Rightarrow> bool" where
  "evidenced t it \<longleftrightarrow> i_tx_hash it = tf_tx_hash t \<or> i_state it = StateSettling"

lemma check_moves:
  assumes inv: "store_inv p st" and c: "check p policies lookup t_age t_at k st j = (x, st', j')"
  shows "store_inv p st' \<and> (\<forall>k'. k' \<noteq> k \<longrightarrow> store_get st' k' = store_get st k')
    \<and> (store_get st' k = store_get st k \<or> (\<exists>it req. store_get st k = Inr it \<and> i_state it = StateConfirming
        \<and> store_get st' k = Inr (commit it req) \<and> req_by req = ActorListener
        \<and> (req_to req = StateSettling \<or> req_to req = StateNeedsReview \<or> req_to req = StateSettled \<and> req_tx_hash req = i_tx_hash it)))"
proof (cases "store_get st k")
  case (Inl e)
  with inv c show ?thesis by (simp add: check_def)
next
  case (Inr it)
  have moved: ?thesis
    if conf: "i_state it = StateConfirming" and pu: "push p st it rep out req = (x, st')" and li: "req_by req = ActorListener"
      and to: "req_to req = StateSettling \<or> req_to req = StateNeedsReview \<or> req_to req = StateSettled \<and> req_tx_hash req = i_tx_hash it"
    for rep out req
  proof (cases "snd x")
    case None
    then have pu': "push p st it rep out req = ((fst x, None), st')" using pu by (metis prod.collapse)
    have "req_to req \<noteq> StateConfirming" using to by auto
    from push_moves [OF inv Inr conf pu' this] Inr conf li to show ?thesis by blast
  next
    case (Some e)
    then have "push p st it rep out req = ((fst x, Some e), st')" using pu by (metis prod.collapse)
    from push_failed [OF this] inv show ?thesis by simp
  qed
  show ?thesis
  proof (cases "i_state it = StateConfirming")
    case False
    with c inv Inr show ?thesis by (simp add: check_def Let_def)
  next
    case True
    show ?thesis
    proof (cases "check_plan policies lookup t_age t_at it")
      case (PlanPush out d req)
      from check_plan_push [OF PlanPush] have "req_by req = ActorListener" "req_to req = StateSettling \<or> req_to req = StateNeedsReview"
        by auto
      moreover have "push p st it \<lparr>lr_intent_id = i_id it, lr_tx_hash = i_tx_hash it, lr_outcome = None, lr_detail = d\<rparr> out req = (x, st')"
        using c Inr True PlanPush by (simp add: check_def Let_def split: prod.splits)
      ultimately show ?thesis using moved [OF True] by blast
    next
      case (PlanPost e d req)
      from check_plan_post [OF PlanPost] have r: "req_by req = ActorListener" "req_to req = StateSettled" "req_tx_hash req = i_tx_hash it"
        by auto
      show ?thesis
      proof (cases "append_entry p j e")
        case (Inl err)
        with c \<open>store_get st k = Inr it\<close> True PlanPost inv show ?thesis by (simp add: check_def Let_def)
      next
        case ap: (Inr y)
        have "push p st it \<lparr>lr_intent_id = i_id it, lr_tx_hash = i_tx_hash it, lr_outcome = None, lr_detail = d\<rparr> OutcomeSettled req = (x, st')"
          using c Inr True PlanPost ap by (simp add: check_def Let_def split: prod.splits)
        from moved [OF True this r(1)] r(2,3) show ?thesis by blast
      qed
    qed (use c inv Inr True in \<open>simp_all add: check_def Let_def\<close>)
  qed
qed

text \<open>The store only moves at \<open>k\<close>, by the listener; \<open>P\<close> holds of what is there before and after.\<close>

definition moves_at :: "platform \<Rightarrow> string \<Rightarrow> intent \<Rightarrow> (intent \<Rightarrow> bool) \<Rightarrow> memory_store \<Rightarrow> memory_store \<Rightarrow> bool" where
  "moves_at p k it P st st' \<longleftrightarrow> store_inv p st' \<and> (\<forall>k'. k' \<noteq> k \<longrightarrow> store_get st' k' = store_get st k')
     \<and> (\<exists>it'. store_get st' k = Inr it' \<and> by_listener it it' \<and> P it')"

lemma recon_check_moves:
  assumes q: "quiet ev" and inv: "store_inv (re_platform ev) (rw_intents w)"
    and g: "store_get (rw_intents w) k = Inr x" "by_listener it x" "evidenced t x" "i_state x = StateConfirming"
    and r: "recon_check ev t k prefix rep w = (err, rep', w')"
  shows "moves_at (re_platform ev) k it (evidenced t) (rw_intents w) (rw_intents w')"
proof -
  have main: "moves_at (re_platform ev) k it (evidenced t) (rw_intents w) (rw_intents w')" if lc: "listener_check ev w k = (y, w')" for y
  proof -
    obtain st' j' where c: "check (re_platform ev) (re_policies ev) (re_lookup ev (Suc (rw_tick w)))
      (re_now ev (Suc (rw_tick w))) (re_now ev (Suc (rw_tick w))) k (rw_intents w) (rw_journal w) = (y, st', j')"
      and w': "rw_intents w' = st'"
      using lc by (cases y) (auto simp: listener_check_quiet [OF q] split: prod.splits)
    note m = check_moves [OF inv c]
    have "\<exists>it'. store_get st' k = Inr it' \<and> by_listener it it' \<and> evidenced t it'"
    proof (cases "store_get st' k = store_get (rw_intents w) k")
      case True
      with g show ?thesis by auto
    next
      case False
      with m g(1) obtain req where req: "store_get st' k = Inr (commit x req)" "req_by req = ActorListener"
        "req_to req = StateSettling \<or> req_to req = StateNeedsReview \<or> req_to req = StateSettled \<and> req_tx_hash req = i_tx_hash x"
        by auto
      have "by_listener it (commit x req)" using by_listener_commit [OF g(2) req(2)] .
      moreover have "evidenced t (commit x req)"
        using g(3,4) req(3) by (auto simp: evidenced_def commit_def)
      ultimately show ?thesis using req(1) by blast
    qed
    with m show ?thesis by (simp add: moves_at_def w')
  qed
  from r show ?thesis by (cases rule: recon_checkE) (auto intro: main)
qed

lemma recon_push_moves:
  assumes q: "quiet ev" and inv: "store_inv (re_platform ev) (rw_intents w)" and g: "store_get (rw_intents w) k = Inr x"
    and ne: "i_state x \<noteq> req_to req" and r: "recon_push ev w k req = (res, w1)"
  shows "(if res = Inr True
      then store_inv (re_platform ev) (rw_intents w1) \<and> store_get (rw_intents w1) k = Inr (commit x req)
        \<and> (\<forall>k'. k' \<noteq> k \<longrightarrow> store_get (rw_intents w1) k' = store_get (rw_intents w) k')
      else rw_intents w1 = rw_intents w)"
proof (cases "advance (re_platform ev) (rw_intents w) k req")
  case (Inl e)
  with r show ?thesis by (auto simp: recon_push_quiet [OF q] Let_def split: if_splits)
next
  case (Inr y)
  obtain it' b st' where y: "y = (it', b, st')" by (cases y)
  with r Inr have res: "res = Inr True" "rw_intents w1 = st'" by (auto simp: recon_push_quiet [OF q] Let_def)
  have ap: "apply_request x req = Inr (it', b)" and sv: "if b then store_save (re_platform ev) (rw_intents w) it' (i_version x) = Inr st' else st' = rw_intents w"
    using Inr y g by (auto simp: advance_def split: sum.splits if_splits)
  have b: "b" using ap ne by (cases b) (auto simp: apply_replay_iff)
  have it': "it' = commit x req" using ap b apply_edge(3) [of x req it'] by simp
  have "i_id it' = k" using it' store_inv_get [OF inv g] by simp
  with sv b store_get_save [of "re_platform ev" "rw_intents w" it' "i_version x" st'] advance_inv [OF inv, of k req it' b st'] Inr y res it'
  show ?thesis by simp
qed

lemma push_then_moves:
  assumes q: "quiet ev" and inv: "store_inv (re_platform ev) (rw_intents w)" and g: "store_get (rw_intents w) k = Inr x"
    and ne: "i_state x \<noteq> req_to req" and li: "by_listener it x" "req_by req = ActorListener" and P: "P x"
    and r: "push_then ev t k rep req next w = (err, rep', w')"
    and n: "\<And>w1. store_inv (re_platform ev) (rw_intents w1) \<Longrightarrow> store_get (rw_intents w1) k = Inr (commit x req) \<Longrightarrow>
        by_listener it (commit x req) \<Longrightarrow> next w1 = (err, rep', w') \<Longrightarrow>
        moves_at (re_platform ev) k it P (rw_intents w1) (rw_intents w')"
  shows "moves_at (re_platform ev) k it P (rw_intents w) (rw_intents w')"
proof -
  have stay: "moves_at (re_platform ev) k it P (rw_intents w) (rw_intents w')" if "rw_intents w' = rw_intents w"
    using that inv g li(1) P by (simp add: moves_at_def)
  from r show ?thesis
  proof (cases rule: push_thenE)
    case (moved w1)
    from recon_push_moves [OF q inv g ne moved(1)] n [OF _ _ by_listener_commit [OF li] moved(2)]
    show ?thesis by (auto simp: moves_at_def)
  next
    case lost
    from recon_push_moves [OF q inv g ne lost(1)] stay show ?thesis by simp
  next
    case (failed e)
    from recon_push_moves [OF q inv g ne failed(1)] stay show ?thesis by simp
  qed
qed

lemma reconcile_moves:
  assumes q: "quiet ev" and inv: "store_inv (re_platform ev) (rw_intents w)"
    and r: "reconcile ev chain t rep w = (err, rep', w')" and ch: "rw_intents w' \<noteq> rw_intents w"
  obtains it where "store_get_by_ref (rw_intents w) (tf_ref t) = Inr it" "same_payment chain it t"
    "i_state it = StateConfirming \<or> i_state it = StateSettling" "store_get (rw_intents w) (i_id it) = Inr it"
    "moves_at (re_platform ev) (i_id it) it (\<lambda>x. x = it \<or> evidenced t x) (rw_intents w) (rw_intents w')"
proof -
  let ?w = "others_move ev w"
  have wi: "rw_intents ?w = rw_intents w" by (simp add: others_quiet [OF q])
  have own: "store_get (rw_intents w) (i_id it) = Inr it" if found: "store_get_by_ref (rw_intents w) (tf_ref t) = Inr it" for it
  proof -
    obtain k where k: "map_of (st_rows (rw_intents w)) k = Some it"
      using found by (auto simp: store_get_by_ref_def split: option.splits)
    then have "store_get (rw_intents w) k = Inr it" by (simp add: store_get_def)
    with store_inv_get [OF inv this] show ?thesis by simp
  qed
  have weaken: "moves_at p k it (evidenced t) st st' \<Longrightarrow> moves_at p k it (\<lambda>x. x = it \<or> evidenced t x) st st'" for p k it st st'
    by (auto simp: moves_at_def)
  from r show thesis
  proof (cases rule: reconcileE)
    case (settled it)
    from settled(4) have "w' = ?w" by (cases rule: reconcile_settledE) simp_all
    with ch wi show thesis by simp
  next
    case (confirming it)
    note it = confirming(1) [unfolded wi]
    note g = own [OF it]
    have "moves_at (re_platform ev) (i_id it) it (\<lambda>x. x = it \<or> evidenced t x) (rw_intents ?w) (rw_intents w')"
    proof (cases "i_tx_hash it = tf_tx_hash t")
      case True
      with confirming(4) have "recon_check ev t (i_id it) '''' rep ?w = (err, rep', w')" by (simp add: reconcile_confirming_def)
      from weaken [OF recon_check_moves [OF q _ _ by_listener_refl _ confirming(3) this]] inv g True wi
      show ?thesis by (simp add: evidenced_def)
    next
      case False
      let ?r1 = "listener_request StateSettling '''' (''tx '' @ i_tx_hash it @ '' on record, but the chain shows tx '' @ tf_tx_hash t @ '' carrying the ref'') (re_now ev (rw_tick ?w))"
      let ?pre = "''on record '' @ i_tx_hash it @ '' -> settling -> confirming -> ''"
      have p1: "push_then ev t (i_id it) rep ?r1 (\<lambda>w1. push_then ev t (i_id it) rep
          (listener_request StateConfirming (tf_tx_hash t) '''' (re_now ev (rw_tick w1))) (recon_check ev t (i_id it) ?pre rep) w1) ?w = (err, rep', w')"
        using confirming(4) False by (simp add: reconcile_confirming_def Let_def)
      let ?x1 = "commit it ?r1"
      have x1: "i_state ?x1 = StateSettling" by (simp add: listener_request_def)
      show ?thesis
      proof (rule push_then_moves [OF q _ _ _ by_listener_refl _ _ p1])
        fix w1 assume w1: "store_inv (re_platform ev) (rw_intents w1)" "store_get (rw_intents w1) (i_id it) = Inr ?x1" "by_listener it ?x1"
          "push_then ev t (i_id it) rep (listener_request StateConfirming (tf_tx_hash t) '''' (re_now ev (rw_tick w1)))
             (recon_check ev t (i_id it) ?pre rep) w1 = (err, rep', w')"
        let ?r2 = "listener_request StateConfirming (tf_tx_hash t) '''' (re_now ev (rw_tick w1))"
        show "moves_at (re_platform ev) (i_id it) it (\<lambda>x. x = it \<or> evidenced t x) (rw_intents w1) (rw_intents w')"
        proof (rule push_then_moves [OF q w1(1,2) _ w1(3) _ _ w1(4)])
          fix w2 assume w2: "store_inv (re_platform ev) (rw_intents w2)" "store_get (rw_intents w2) (i_id it) = Inr (commit ?x1 ?r2)"
            "by_listener it (commit ?x1 ?r2)" "recon_check ev t (i_id it) ?pre rep w2 = (err, rep', w')"
          show "moves_at (re_platform ev) (i_id it) it (\<lambda>x. x = it \<or> evidenced t x) (rw_intents w2) (rw_intents w')"
            by (rule weaken [OF recon_check_moves [OF q w2(1,2,3) _ _ w2(4)]])
              (simp_all add: evidenced_def commit_tx_hash listener_request_def)
        qed (use x1 in \<open>simp_all add: listener_request_def evidenced_def\<close>)
      qed (use inv g wi confirming(3) in \<open>simp_all add: listener_request_def\<close>)
    qed
    with that [OF it confirming(2)] confirming(3) g wi show thesis by simp
  next
    case (settling it)
    note it = settling(1) [unfolded wi]
    note g = own [OF it]
    let ?r = "listener_request StateConfirming (tf_tx_hash t) '''' (re_now ev (rw_tick ?w))"
    have p1: "push_then ev t (i_id it) rep ?r (recon_check ev t (i_id it) ''settling -> confirming -> '' rep) ?w = (err, rep', w')"
      using settling(4) by (simp add: reconcile_settling_def)
    have "moves_at (re_platform ev) (i_id it) it (\<lambda>x. x = it \<or> evidenced t x) (rw_intents ?w) (rw_intents w')"
    proof (rule push_then_moves [OF q _ _ _ by_listener_refl _ _ p1])
      fix w1 assume w1: "store_inv (re_platform ev) (rw_intents w1)" "store_get (rw_intents w1) (i_id it) = Inr (commit it ?r)"
        "by_listener it (commit it ?r)" "recon_check ev t (i_id it) ''settling -> confirming -> '' rep w1 = (err, rep', w')"
      show "moves_at (re_platform ev) (i_id it) it (\<lambda>x. x = it \<or> evidenced t x) (rw_intents w1) (rw_intents w')"
        by (rule weaken [OF recon_check_moves [OF q w1(1,2,3) _ _ w1(4)]])
          (simp_all add: evidenced_def commit_tx_hash listener_request_def)
    qed (use inv g wi settling(3) in \<open>simp_all add: listener_request_def\<close>)
    with that [OF it settling(2)] settling(3) g wi show thesis by simp
  qed (use ch wi in simp_all)
qed

subsection \<open>Worked example\<close>

definition demo_settling_store :: memory_store where
  "demo_settling_store = \<lparr>st_rows = [(''pi_1'', demo_settling)],
     st_by_ref = (\<lambda>_. None)(replicate 32 (CHR 0x01) \<mapsto> ''pi_1'')\<rparr>"

definition demo_transfer :: "string \<Rightarrow> u64 \<Rightarrow> transfer" where
  "demo_transfer tx h = \<lparr>tf_tx_hash = tx, tf_height = h, tf_ref = replicate 32 (CHR 0x01), tf_token = ''usd'',
     tf_from = ''alice'', tf_to = ''bob'', tf_amount = 100\<rparr>"

definition demo_recon_env :: "(nat \<Rightarrow> bool) \<Rightarrow> u64 \<Rightarrow> transfer list \<Rightarrow> recon_env" where
  "demo_recon_env loses final ts = \<lparr>re_platform = demo_platform, re_policies = finality_defaults,
     re_lookup = (\<lambda>_ _. Inr demo_sighting), re_now = (\<lambda>_. 30), re_others = (\<lambda>_ w. w), re_loses = loses,
     re_finalized = Inr final, re_transfers = (\<lambda>_ _. Inr ts)\<rparr>"

definition demo_recon_world :: recon_world where
  "demo_recon_world = \<lparr>rw_intents = demo_settling_store, rw_journal = journal_run demo_platform [demo_hold],
     rw_jobs = new_queue, rw_dead = new_dead_store, rw_tick = 0\<rparr>"

definition demo_engine :: engine where
  "demo_engine = new_engine ''evm:1'' 5"

lemma demo_quiet: "quiet (demo_recon_env (\<lambda>_. False) final ts)"
  by (simp add: quiet_def demo_recon_env_def)

lemma demo_settling_inv: "store_inv demo_platform demo_settling_store"
proof -
  have id: "i_id demo_settling = ''pi_1''" "i_ref demo_settling = replicate 32 (CHR 0x01)"
    by (simp_all add: demo_settling_def demo_authorized_def demo_intent_def commit_def demo_request_def)
  have get: "store_get demo_settling_store k = (if k = ''pi_1'' then Inr demo_settling else Inl ErrIntentNotFound)" for k
    by (simp add: store_get_def demo_settling_store_def)
  show ?thesis
    unfolding store_inv_def get using demo_reachable(3) id by (auto simp: demo_settling_store_def)
qed

lemma demo_run_result:
  "let ((rep, err), en, w) = run_recon (demo_recon_env (\<lambda>_. False) 8 [demo_transfer ''0xbb'' 7, demo_transfer ''0xaa'' 7])
        demo_engine demo_recon_world
   in err = None \<and> en_cursor en = 8
      \<and> map (take 35 \<circ> ma_action) (rp_matches rep) = [''settling -> confirming -> settled ('']
      \<and> map fi_kind (rp_findings rep) = [KindPaidTwice]"
  by code_simp

lemma demo_lost_result:
  "let ((rep, err), en, w) = run_recon (demo_recon_env (\<lambda>n. True) 8 [demo_transfer ''0xaa'' 7]) demo_engine demo_recon_world;
       ((rep2, err2), en2, w2) = run_recon (demo_recon_env (\<lambda>_. False) 8 [demo_transfer ''0xaa'' 7]) en w
   in err = None \<and> map ma_action (rp_matches rep) = [lost_race] \<and> map ma_transfer (rp_matches rep) = [demo_transfer ''0xaa'' 7]
      \<and> en_cursor en = 8 \<and> err2 = None \<and> rp_matches rep2 = [] \<and> rp_findings rep2 = []
      \<and> map i_state (map snd (st_rows (rw_intents w2))) = [StateSettling]"
  by code_simp

subsection \<open>Properties\<close>

text \<open>
  C16. Nothing on the chain is overlooked. Whatever other actors do in between, a run that ends without error asked for
  the heights after the cursor up to the finalized one, every transfer of that answer lies in that window and is
  listed exactly once, as a match or as a finding, and the cursor is now at the finalized height; with nothing new
  the cursor stays and nothing is listed. A run that fails leaves the cursor where it was.
\<close>

theorem run_accounts_for_every_transfer:
  assumes "run_recon ev en w = ((rep, err), en', w')"
  shows "(err \<noteq> None \<longrightarrow> en' = en)
    \<and> (err = None \<longrightarrow> (\<exists>final. re_finalized ev = Inr final \<and> rp_from rep = en_cursor en + 1 \<and> rp_to rep = final
        \<and> (if final \<le> en_cursor en then en' = en \<and> accounted rep = []
           else en' = en\<lparr>en_cursor := final\<rparr> \<and> (\<exists>ts. re_transfers ev (en_cursor en + 1) final = Inr ts
             \<and> mset (accounted rep) = mset ts
             \<and> (\<forall>t \<in> set ts. en_cursor en + 1 \<le> tf_height t \<and> tf_height t \<le> final)))))"
proof (cases err)
  case None
  with run_recon_accounts [of ev en w rep en' w'] assms show ?thesis by simp
next
  case (Some e)
  with run_recon_error [of ev en w rep e en' w'] assms show ?thesis by simp
qed

theorem run_accounts_for_every_transfer_witness:
  "\<exists>rep en' w'. run_recon (demo_recon_env (\<lambda>_. False) 8 [demo_transfer ''0xbb'' 7, demo_transfer ''0xaa'' 7]) demo_engine
      demo_recon_world = ((rep, None), en', w') \<and> en_cursor en' = 8
    \<and> mset (accounted rep) = {#demo_transfer ''0xbb'' 7, demo_transfer ''0xaa'' 7#}"
proof -
  let ?ev = "demo_recon_env (\<lambda>_. False) 8 [demo_transfer ''0xbb'' 7, demo_transfer ''0xaa'' 7]"
  obtain rep en' w' where r: "run_recon ?ev demo_engine demo_recon_world = ((rep, None), en', w')" "en_cursor en' = 8"
    using demo_run_result by (auto simp: Let_def split: prod.splits)
  have ev: "re_finalized ?ev = Inr 8" "re_transfers ?ev a b = Inr [demo_transfer ''0xbb'' 7, demo_transfer ''0xaa'' 7]" for a b
    by (simp_all add: demo_recon_env_def)
  have "\<not> 8 \<le> en_cursor demo_engine" by (simp add: demo_engine_def new_engine_def)
  with run_accounts_for_every_transfer [OF r(1)] ev r show ?thesis by (auto simp: ev)
qed



text \<open>
  A post answers for one transaction. In a run in which nobody else wrote and whose journal satisfies its
  invariant, two transfers that were both reported as matching the post of one intent have the same transaction
  hash: a second transaction that pays the same intent is never taken for the first.
\<close>

theorem one_post_answers_one_transaction:
  assumes "quiet ev" and "journal_inv (re_platform ev) (rw_journal w)" and "run_recon ev en w = ((rep, None), en', w')"
    and "m1 \<in> set (rp_matches rep)" "m2 \<in> set (rp_matches rep)" and "ma_action m1 = post_matched" "ma_action m2 = post_matched"
    and "ma_intent_id m1 = ma_intent_id m2"
  shows "tf_tx_hash (ma_transfer m1) = tf_tx_hash (ma_transfer m2)"
proof -
  have "posts_answer rep (rw_journal w') \<and> journal_inv (re_platform ev) (rw_journal w')"
    using assms(3)
  proof (cases rule: run_recon_parts)
    case (idle rep1 final)
    from sweep_loop_frame [OF idle(1) [unfolded sweep_def]] assms(4) idle(5) show ?thesis by simp
  next
    case (window rep1 w1 final ts)
    have "posts_answer (rep1\<lparr>rp_from := en_cursor en + 1, rp_to := final\<rparr>) (rw_journal w1)"
      using sweep_loop_frame [OF window(1) [unfolded sweep_def]] by (simp add: posts_answer_def)
    with reconcile_all_grown [OF assms(1) window(6)] sweep_loop_journal [OF assms(1,2) window(1) [unfolded sweep_def]]
    show ?thesis by (simp add: grown_def)
  qed
  then have pa: "posts_answer rep (rw_journal w')" and ok: "ledger_ok (j_entries (rw_journal w'))"
    by (simp_all add: journal_inv_def)
  obtain e1 where "matched_by (rw_journal w') m1 e1" using pa assms(4,6) unfolding posts_answer_def by blast
  moreover obtain e2 where "matched_by (rw_journal w') m2 e2" using pa assms(5,7) unfolding posts_answer_def by blast
  moreover note ok
  ultimately show ?thesis using same_id_same_entry assms(8) by (fastforce simp: matched_by_def)
qed

definition demo_twice :: "transfer list" where
  "demo_twice = [demo_transfer ''0xaa'' 7, demo_transfer ''0xaa'' 8, demo_transfer ''0xaa'' 8]"

lemma demo_twice_result:
  "let ((rep, err), en, w) = run_recon (demo_recon_env (\<lambda>_. False) 8 demo_twice) demo_engine demo_recon_world
   in err = None \<and> map ma_action (tl (rp_matches rep)) = [post_matched, post_matched]
      \<and> map ma_intent_id (rp_matches rep) = [''pi_1'', ''pi_1'', ''pi_1'']"
  by code_simp

theorem one_post_answers_one_transaction_witness:
  "\<exists>rep en' w' m1 m2 x. run_recon (demo_recon_env (\<lambda>_. False) 8 demo_twice) demo_engine demo_recon_world = ((rep, None), en', w')
     \<and> rp_matches rep = [x, m1, m2] \<and> tf_tx_hash (ma_transfer m1) = tf_tx_hash (ma_transfer m2)"
proof -
  obtain rep en' w' where r: "run_recon (demo_recon_env (\<lambda>_. False) 8 demo_twice) demo_engine demo_recon_world = ((rep, None), en', w')"
    and a: "map ma_action (tl (rp_matches rep)) = [post_matched, post_matched]"
      "map ma_intent_id (rp_matches rep) = [''pi_1'', ''pi_1'', ''pi_1'']"
    using demo_twice_result by (auto simp: Let_def split: prod.splits)
  obtain x m1 m2 where m: "rp_matches rep = [x, m1, m2]" using a(2) by auto
  have "journal_inv (re_platform (demo_recon_env (\<lambda>_. False) 8 demo_twice)) (rw_journal demo_recon_world)"
    by (simp add: demo_recon_env_def demo_recon_world_def journal_run_inv)
  from one_post_answers_one_transaction [OF demo_quiet this r, of m1 m2] m a r show ?thesis by auto
qed

text \<open>
  C19. The engine moves an intent only on evidence of its own payment. If handling one transfer, with nobody else
  writing, changed the stored intent at some id, then that intent is the one the transfer's ref leads to, on the
  engine's chain and with the transfer's token, payer and merchant, it was settling or confirming, every step
  added to its history was taken as the listener, and it now carries the transfer's hash or is back in settling.
\<close>

theorem evidence_only_from_the_payment:
  assumes "quiet ev" and "store_inv (re_platform ev) (rw_intents w)" and "reconcile ev chain t rep w = (err, rep', w')"
    and "store_get (rw_intents w') k \<noteq> store_get (rw_intents w) k"
  shows "\<exists>it it'. store_get_by_ref (rw_intents w) (tf_ref t) = Inr it \<and> store_get (rw_intents w) k = Inr it
    \<and> i_chain it = chain \<and> i_token it = tf_token t \<and> i_payer it = tf_from t \<and> i_merchant it = tf_to t
    \<and> i_state it \<in> {StateSettling, StateConfirming} \<and> store_get (rw_intents w') k = Inr it'
    \<and> (\<exists>hs. i_history it' = i_history it @ hs \<and> (\<forall>h \<in> set hs. tr_by h = ActorListener))
    \<and> (i_tx_hash it' = tf_tx_hash t \<or> i_state it' = StateSettling)"
proof -
  have "rw_intents w' \<noteq> rw_intents w" using assms(4) by auto
  from reconcile_moves [OF assms(1-3) this] obtain it where it: "store_get_by_ref (rw_intents w) (tf_ref t) = Inr it"
    "same_payment chain it t" "i_state it = StateConfirming \<or> i_state it = StateSettling" "store_get (rw_intents w) (i_id it) = Inr it"
    "moves_at (re_platform ev) (i_id it) it (\<lambda>x. x = it \<or> evidenced t x) (rw_intents w) (rw_intents w')" .
  have k: "k = i_id it" using it(5) assms(4) by (auto simp: moves_at_def)
  obtain it' where it': "store_get (rw_intents w') k = Inr it'" "by_listener it it'" "it' = it \<or> evidenced t it'"
    using it(5) k by (auto simp: moves_at_def)
  have "it' \<noteq> it" using it(4) it'(1) assms(4) k by auto
  with it' have "evidenced t it'" by simp
  with it it' k show ?thesis
    by (intro exI [of _ it] exI [of _ it']) (auto simp: same_payment_def by_listener_def evidenced_def)
qed

theorem evidence_only_from_the_payment_witness:
  "\<exists>rep w' it'. reconcile (demo_recon_env (\<lambda>_. False) 8 []) ''evm:1'' (demo_transfer ''0xaa'' 7)
       \<lparr>rp_chain = ''evm:1'', rp_from = 6, rp_to = 8, rp_sweeps = [], rp_matches = [], rp_findings = []\<rparr> demo_recon_world = (None, rep, w')
     \<and> store_get (rw_intents w') ''pi_1'' = Inr it' \<and> (i_tx_hash it' = ''0xaa'' \<or> i_state it' = StateSettling)"
proof -
  let ?ev = "demo_recon_env (\<lambda>_. False) 8 []"
  let ?rep = "\<lparr>rp_chain = ''evm:1'', rp_from = 6, rp_to = 8, rp_sweeps = [], rp_matches = [], rp_findings = []\<rparr>"
  have "let (err, rep, w') = reconcile ?ev ''evm:1'' (demo_transfer ''0xaa'' 7) ?rep demo_recon_world
      in err = None \<and> store_get (rw_intents w') ''pi_1'' \<noteq> store_get (rw_intents demo_recon_world) ''pi_1''"
    by code_simp
  then obtain rep w' where r: "reconcile ?ev ''evm:1'' (demo_transfer ''0xaa'' 7) ?rep demo_recon_world = (None, rep, w')"
    and ne: "store_get (rw_intents w') ''pi_1'' \<noteq> store_get (rw_intents demo_recon_world) ''pi_1''"
    by (auto simp: Let_def split: prod.splits)
  have "store_inv (re_platform ?ev) (rw_intents demo_recon_world)"
    by (simp add: demo_recon_env_def demo_recon_world_def demo_settling_inv)
  moreover have "tf_tx_hash (demo_transfer ''0xaa'' 7) = ''0xaa''" by (simp add: demo_transfer_def)
  ultimately show ?thesis using evidence_only_from_the_payment [OF demo_quiet _ r ne] r by auto
qed

text \<open>
  A lost race is not read again. The note the engine leaves when another actor was faster says that the next run
  re-reads, but the run counts as successful and its cursor moves past the transfer: every transfer a later run of
  the same engine lists is strictly above it.
\<close>

theorem lost_race_is_not_reread:
  assumes "run_recon ev en w = ((rep, None), en', w')" and "m \<in> set (rp_matches rep)" and "ma_action m = lost_race"
    and "run_recon ev2 en' w2 = ((rep2, None), en2, w3)" and "en_cursor en' + 1 \<noteq> 0" and "t \<in> set (accounted rep2)"
  shows "tf_height (ma_transfer m) \<le> en_cursor en' \<and> en_cursor en' < tf_height t"
proof -
  have m: "ma_transfer m \<in> set (accounted rep)" using assms(2) by (auto simp: accounted_def)
  have "tf_height (ma_transfer m) \<le> en_cursor en'"
    using run_recon_accounts [OF assms(1)] m by (fastforce simp flip: set_mset_mset split: if_splits)
  moreover have "en_cursor en' + 1 \<le> tf_height t"
    using run_recon_accounts [OF assms(4)] assms(6) by (fastforce simp flip: set_mset_mset split: if_splits)
  moreover have "en_cursor en' < en_cursor en' + 1"     using assms(5) unatSuc [of "en_cursor en'"] by (simp add: word_less_nat_alt add.commute)
  ultimately show ?thesis by (meson less_le_trans)
qed

theorem lost_race_is_not_reread_witness:
  "\<exists>rep en' w' rep2 en2 w3 m. run_recon (demo_recon_env (\<lambda>_. True) 8 [demo_transfer ''0xaa'' 7]) demo_engine demo_recon_world
       = ((rep, None), en', w')
     \<and> rp_matches rep = [m] \<and> ma_action m = lost_race
     \<and> run_recon (demo_recon_env (\<lambda>_. False) 10 [demo_transfer ''0xcc'' 9]) en' w' = ((rep2, None), en2, w3)
     \<and> accounted rep2 = [demo_transfer ''0xcc'' 9] \<and> tf_height (ma_transfer m) \<le> 8"
proof -
  let ?ev = "demo_recon_env (\<lambda>_. True) 8 [demo_transfer ''0xaa'' 7]" and ?ev2 = "demo_recon_env (\<lambda>_. False) 10 [demo_transfer ''0xcc'' 9]"
  have "let ((rep, err), en, w) = run_recon ?ev demo_engine demo_recon_world; ((rep2, err2), en2, w2) = run_recon ?ev2 en w
      in err = None \<and> map ma_action (rp_matches rep) = [lost_race] \<and> en_cursor en = 8
         \<and> err2 = None \<and> accounted rep2 = [demo_transfer ''0xcc'' 9]"
    by code_simp
  then obtain rep en' w' rep2 en2 w3 where r: "run_recon ?ev demo_engine demo_recon_world = ((rep, None), en', w')"
      "run_recon ?ev2 en' w' = ((rep2, None), en2, w3)" "en_cursor en' = 8" "map ma_action (rp_matches rep) = [lost_race]"
      "accounted rep2 = [demo_transfer ''0xcc'' 9]"
    by (auto simp: Let_def split: prod.splits)
  obtain m where m: "rp_matches rep = [m]" "ma_action m = lost_race" using r(4) by auto
  have "tf_height (demo_transfer ''0xcc'' 9) = 9" by (simp add: demo_transfer_def)
  with lost_race_is_not_reread [OF r(1) _ m(2) r(2), of "demo_transfer ''0xcc'' 9"] m r(1,2,3,5)
  have "tf_height (ma_transfer m) \<le> 8" by auto
  with r(1,2,5) m show ?thesis by blast
qed

end
