(* ===== verification/Http.thy ===== *)
theory Http
  imports Prelude
begin

section \<open>The standard library at the HTTP edge\<close>

text \<open>
  What \<open>internal/idempotency\<close>, \<open>internal/api\<close> and \<open>internal/intake\<close> use of Go's standard library: requests and
  responses of \<open>net/http\<close>, the calls a handler makes on its \<open>ResponseWriter\<close>, \<open>strings.TrimSpace\<close>, \<open>strings.EqualFold\<close>
  against an ASCII word, \<open>strconv.Quote\<close> on visible ASCII, and the strings of \<open>encoding/json\<close>.

  A header is a map from the canonical name to the values, as \<open>http.Header\<close> is. Bytes are decoded as UTF-8 exactly where
  Go does it: in \<open>TrimSpace\<close> and in the JSON encoder.
\<close>

subsection \<open>Requests and responses\<close>

type_synonym headers = "string \<rightharpoonup> string list"

record http_request =
  rq_method :: string
  rq_path :: string
  rq_header :: headers
  rq_body :: bytes
  rq_body_err :: "string option"

text \<open>\<open>rq_body_err\<close> is the error that reading the body ends with once \<open>rq_body\<close> has been read, if there is one.\<close>

definition header_get :: "headers \<Rightarrow> string \<Rightarrow> string" where
  "header_get h k = (case h k of Some (v # _) \<Rightarrow> v | _ \<Rightarrow> '''')"

record http_response =
  rs_status :: int
  rs_header :: headers
  rs_body :: bytes

text \<open>\<open>io.ReadAll(io.LimitReader(body, n))\<close>: past \<open>n\<close> bytes the reader's error is never reached.\<close>

definition read_limited :: "http_request \<Rightarrow> nat \<Rightarrow> string + bytes" where
  "read_limited rq n =
     (if n \<le> length (rq_body rq) then Inr (take n (rq_body rq))
      else case rq_body_err rq of Some e \<Rightarrow> Inl e | None \<Rightarrow> Inr (rq_body rq))"

text \<open>
  The calls a handler makes on the writer it is given, in order. \<open>net/http\<close>'s own writer freezes the header at the first
  \<open>WriteHeader\<close> or \<open>Write\<close>; a second \<open>WriteHeader\<close> is ignored.
\<close>

datatype write_op = SetHeader string "string list" | WriteHeader int | Write bytes

record net_writer =
  nw_header :: headers
  nw_sent :: "(int \<times> headers) option"
  nw_body :: bytes

definition net_write_header :: "net_writer \<Rightarrow> int \<Rightarrow> net_writer" where
  "net_write_header w n = (if nw_sent w = None then w\<lparr>nw_sent := Some (n, nw_header w)\<rparr> else w)"

fun net_op :: "net_writer \<Rightarrow> write_op \<Rightarrow> net_writer" where
  "net_op w (SetHeader k vs) = w\<lparr>nw_header := (nw_header w)(k \<mapsto> vs)\<rparr>"
| "net_op w (WriteHeader n) = net_write_header w n"
| "net_op w (Write b) = (let w = net_write_header w 200 in w\<lparr>nw_body := nw_body w @ b\<rparr>)"

definition net_response :: "write_op list \<Rightarrow> http_response" where
  "net_response ops =
     (let w = foldl net_op \<lparr>nw_header = Map.empty, nw_sent = None, nw_body = ''''\<rparr> ops in
      case nw_sent w of
        None \<Rightarrow> \<lparr>rs_status = 200, rs_header = nw_header w, rs_body = ''''\<rparr>
      | Some (n, h) \<Rightarrow> \<lparr>rs_status = n, rs_header = h, rs_body = nw_body w\<rparr>)"

subsection \<open>Trimming\<close>

text \<open>
  \<open>unicode.IsSpace\<close> on the encoded runes: the six ASCII spaces, U+0085, U+00A0, U+1680, U+2000 to U+200A, U+2028, U+2029,
  U+202F, U+205F and U+3000.
\<close>

definition ascii_space :: "char \<Rightarrow> bool" where
  "ascii_space c \<longleftrightarrow> (let n = of_char c :: nat in n = 32 \<or> 9 \<le> n \<and> n \<le> 13)"

definition wide_spaces :: "string list" where
  "wide_spaces = [[CHR 0xC2, CHR 0x85], [CHR 0xC2, CHR 0xA0], [CHR 0xE1, CHR 0x9A, CHR 0x80]]
     @ map (\<lambda>b. [CHR 0xE2, CHR 0x80, char_of b]) ([0x80..<0x8B] @ [0xA8, 0xA9, 0xAF :: nat])
     @ [[CHR 0xE2, CHR 0x81, CHR 0x9F], [CHR 0xE3, CHR 0x80, CHR 0x80]]"

definition space_size :: "(string \<Rightarrow> string) \<Rightarrow> string \<Rightarrow> nat" where
  "space_size enc s =
     (if s \<noteq> [] \<and> ascii_space (hd s) then 1
      else case find (\<lambda>w. take (length w) s = enc w) wide_spaces of None \<Rightarrow> 0 | Some w \<Rightarrow> length w)"

function drop_spaces :: "(string \<Rightarrow> string) \<Rightarrow> string \<Rightarrow> string" where
  "drop_spaces enc s = (if s = [] \<or> space_size enc s = 0 then s else drop_spaces enc (drop (space_size enc s) s))"
  by auto
termination
  by (relation "measure (\<lambda>(enc, s). length s)") auto

declare drop_spaces.simps [simp del]

definition trim_space :: "string \<Rightarrow> string" where
  "trim_space s = rev (drop_spaces rev (rev (drop_spaces (\<lambda>w. w) s)))"

text \<open>What begins and ends with a visible ASCII character is not trimmed.\<close>

lemma wide_spaces_wide: "\<forall>w \<in> set wide_spaces. w \<noteq> [] \<and> 128 \<le> (of_char (hd w) :: nat) \<and> 128 \<le> (of_char (last w) :: nat)"
  unfolding wide_spaces_def by code_simp

lemma drop_spaces_ascii:
  assumes "s \<noteq> []" and "(of_char (hd s) :: nat) < 128" and "\<not> ascii_space (hd s)" and "enc = rev \<or> enc = (\<lambda>w. w)"
  shows "drop_spaces enc s = s"
proof -
  have "take (length w) s \<noteq> enc w" if "w \<in> set wide_spaces" for w
  proof
    assume t: "take (length w) s = enc w"
    have "w \<noteq> []" "128 \<le> (of_char (hd w) :: nat)" "128 \<le> (of_char (last w) :: nat)" using wide_spaces_wide that by auto
    then have "enc w \<noteq> []" "128 \<le> (of_char (hd (enc w)) :: nat)" using assms(4) by (auto simp: hd_rev)
    moreover have "hd s = hd (enc w)" using t \<open>w \<noteq> []\<close> by (metis hd_take length_greater_0_conv)
    ultimately show False using assms(2) by simp
  qed
  then have "find (\<lambda>w. take (length w) s = enc w) wide_spaces = None" by (simp add: find_None_iff)
  then show ?thesis using assms(3) by (simp add: drop_spaces.simps [of enc s] space_size_def)
qed

lemma trim_space_ascii:
  assumes "s \<noteq> []" and "(of_char (hd s) :: nat) < 128" "\<not> ascii_space (hd s)" and "(of_char (last s) :: nat) < 128" "\<not> ascii_space (last s)"
  shows "trim_space s = s"
  using drop_spaces_ascii [of s "\<lambda>w. w"] drop_spaces_ascii [of "rev s" rev] assms by (simp add: trim_space_def hd_rev)

text \<open>\<open>strings.EqualFold\<close> against a word of ASCII letters without \<open>k\<close> and \<open>s\<close>, whose only other case is the ASCII one.\<close>

definition lower_char :: "char \<Rightarrow> char" where
  "lower_char c = (let n = of_char c :: nat in if 65 \<le> n \<and> n \<le> 90 then char_of (n + 32) else c)"

definition equal_fold :: "string \<Rightarrow> string \<Rightarrow> bool" where
  "equal_fold s t \<longleftrightarrow> map lower_char s = map lower_char t"

subsection \<open>JSON\<close>

definition hex_byte :: "nat \<Rightarrow> string" where
  "hex_byte n = [hex_digit (n div 16), hex_digit (n mod 16)]"

text \<open>The size of the valid UTF-8 sequence a string starts with, \<open>0\<close> when it starts with an invalid byte.\<close>

definition tail_byte :: "nat \<Rightarrow> nat \<Rightarrow> nat \<Rightarrow> string \<Rightarrow> bool" where
  "tail_byte i lo hi s \<longleftrightarrow> i < length s \<and> lo \<le> (of_char (s ! i) :: nat) \<and> (of_char (s ! i) :: nat) \<le> hi"

definition rune_size :: "string \<Rightarrow> nat" where
  "rune_size s =
     (if s = [] then 0
      else let b = of_char (hd s) :: nat in
        if b < 0x80 then 1
        else if 0xC2 \<le> b \<and> b \<le> 0xDF \<and> tail_byte 1 0x80 0xBF s then 2
        else if 0xE0 \<le> b \<and> b \<le> 0xEF
          \<and> tail_byte 1 (if b = 0xE0 then 0xA0 else 0x80) (if b = 0xED then 0x9F else 0xBF) s \<and> tail_byte 2 0x80 0xBF s then 3
        else if 0xF0 \<le> b \<and> b \<le> 0xF4
          \<and> tail_byte 1 (if b = 0xF0 then 0x90 else 0x80) (if b = 0xF4 then 0x8F else 0xBF) s
          \<and> tail_byte 2 0x80 0xBF s \<and> tail_byte 3 0x80 0xBF s then 4
        else 0)"

definition json_ascii :: "char \<Rightarrow> string" where
  "json_ascii c =
     (let n = of_char c :: nat in
      if c = CHR 0x22 \<or> c = CHR 0x5C then [CHR 0x5C, c]
      else if n = 8 then [CHR 0x5C, CHR ''b''] else if n = 12 then [CHR 0x5C, CHR ''f'']
      else if n = 10 then [CHR 0x5C, CHR ''n''] else if n = 13 then [CHR 0x5C, CHR ''r'']
      else if n = 9 then [CHR 0x5C, CHR ''t'']
      else if n < 32 \<or> c = CHR ''<'' \<or> c = CHR ''>'' \<or> c = CHR ''&'' then [CHR 0x5C] @ ''u00'' @ hex_byte n
      else [c])"

text \<open>\<open>appendString\<close> of \<open>encoding/json\<close> with HTML escaping on, as \<open>NewEncoder\<close> has it.\<close>

function json_chars :: "string \<Rightarrow> string" where
  "json_chars s =
     (if s = [] then []
      else let n = rune_size s in
        if n = 0 then [CHR 0x5C] @ ''ufffd'' @ json_chars (tl s)
        else (if n = 1 then json_ascii (hd s)
              else if take n s = [CHR 0xE2, CHR 0x80, CHR 0xA8] then [CHR 0x5C] @ ''u2028''
              else if take n s = [CHR 0xE2, CHR 0x80, CHR 0xA9] then [CHR 0x5C] @ ''u2029''
              else take n s) @ json_chars (drop n s))"
  by auto
termination
  by (relation "measure length") auto

declare json_chars.simps [simp del]

definition json_string :: "string \<Rightarrow> string" where
  "json_string s = CHR 0x22 # json_chars s @ [CHR 0x22]"

text \<open>An object from its fields, each with the JSON text of its value.\<close>

fun json_fields :: "(string \<times> string) list \<Rightarrow> string" where
  "json_fields [] = []"
| "json_fields [(k, v)] = json_string k @ '':'' @ v"
| "json_fields ((k, v) # f # fs) = json_string k @ '':'' @ v @ '','' @ json_fields (f # fs)"

definition json_object :: "(string \<times> string) list \<Rightarrow> string" where
  "json_object fs = ''{'' @ json_fields fs @ ''}''"

text \<open>\<open>json.NewEncoder(w).Encode\<close> ends the value with a newline.\<close>

definition newline :: string where
  "newline = [CHR 0x0A]"

text \<open>\<open>%q\<close> of a string of visible ASCII.\<close>

definition quote_visible :: "string \<Rightarrow> string" where
  "quote_visible s = CHR 0x22 # concat (map (\<lambda>c. if c = CHR 0x22 \<or> c = CHR 0x5C then [CHR 0x5C, c] else [c]) s) @ [CHR 0x22]"

end
