(* ===== verification/Idempotency.thy ===== *)
theory Idempotency
  imports Http "HOL-Library.AList"
begin

section \<open>Idempotency keys\<close>

text \<open>
  Models \<open>internal/idempotency\<close>: keys, scopes and fingerprints (\<open>key.go\<close>), the memory store with \<open>Claim\<close>, \<open>Complete\<close>,
  \<open>Sweep\<close> and \<open>Len\<close> (\<open>store.go\<close>), and the \<open>Handler\<close> around another handler (\<open>handler.go\<close>).

  The store's operations run under one mutex and are one step each. The handler is three steps, because other requests
  get in between: \<open>handler_begin\<close> up to and including \<open>Claim\<close>, the wrapped handler, \<open>handler_end\<close> from \<open>Complete\<close> on. It is
  written over the store's interface, two functions that may fail; \<open>memory_claim\<close> and \<open>memory_complete\<close> are the memory
  store's. \<open>served\<close> is the server as a transition system: requests arrive and finish in any order, a worker may
  die between its steps, the clock moves forward and a sweep may run at any time.
\<close>

subsection \<open>Keys and fingerprints\<close>

definition max_key_len :: nat where
  "max_key_len = 255"

datatype key_error = KeyEmpty | KeyTooLong nat | KeyByte nat

definition key_error_text :: "key_error \<Rightarrow> string" where
  "key_error_text e = ''idempotency: invalid key: '' @
     (case e of KeyEmpty \<Rightarrow> ''empty''
      | KeyTooLong n \<Rightarrow> show_nat n @ '' bytes, max '' @ show_nat max_key_len
      | KeyByte i \<Rightarrow> ''byte '' @ show_nat i @ '' is not visible ASCII'')"

definition visible_char :: "char \<Rightarrow> bool" where
  "visible_char c \<longleftrightarrow> 0x21 \<le> (of_char c :: nat) \<and> (of_char c :: nat) \<le> 0x7E"

definition validate_key :: "string \<Rightarrow> key_error option" where
  "validate_key k =
     (if length k = 0 then Some KeyEmpty
      else if length k > max_key_len then Some (KeyTooLong (length k))
      else case find (\<lambda>i. \<not> visible_char (k ! i)) [0..<length k] of
             Some i \<Rightarrow> Some (KeyByte i)
           | None \<Rightarrow> None)"

definition fingerprint_of :: "platform \<Rightarrow> string \<Rightarrow> string \<Rightarrow> bytes \<Rightarrow> bytes" where
  "fingerprint_of p meth path body = sha256 p (meth @ [CHR 0x00] @ path @ [CHR 0x00] @ body)"

definition fingerprint_text :: "bytes \<Rightarrow> string" where
  "fingerprint_text f = hex_encode (take 8 f)"

subsection \<open>The store\<close>

datatype idem_status = IdemInFlight | IdemCompleted

fun idem_status_name :: "idem_status \<Rightarrow> string" where
  "idem_status_name IdemInFlight = ''in_flight''"
| "idem_status_name IdemCompleted = ''completed''"

type_synonym idem_response = http_response

record idem_record =
  ir_scope :: string
  ir_key :: string
  ir_fp :: bytes
  ir_status :: idem_status
  ir_attempt :: u64
  ir_claimed_at :: time
  ir_lease_until :: time
  ir_expires_at :: time
  ir_response :: "idem_response option"

datatype idem_outcome = IdemFresh | IdemReplay | IdemBusy | IdemMismatch

fun idem_outcome_name :: "idem_outcome \<Rightarrow> string" where
  "idem_outcome_name IdemFresh = ''fresh''"
| "idem_outcome_name IdemReplay = ''replay''"
| "idem_outcome_name IdemBusy = ''in_flight''"
| "idem_outcome_name IdemMismatch = ''mismatch''"

record idem_policy =
  ip_ttl :: duration
  ip_lease :: duration

definition default_idem_policy :: idem_policy where
  "default_idem_policy = \<lparr>ip_ttl = 24 * (60 * minute), ip_lease = 30 * second\<rparr>"

datatype idem_error =
    IdemNotFound string string
  | IdemStaleClaim string string u64 u64
  | IdemOther string

type_synonym idem_store = "((string \<times> string) \<times> idem_record) list"

definition new_idem_store :: idem_store where
  "new_idem_store = []"

definition new_record :: "string \<Rightarrow> string \<Rightarrow> bytes \<Rightarrow> time \<Rightarrow> idem_policy \<Rightarrow> idem_record" where
  "new_record sc k fp now pol =
     \<lparr>ir_scope = sc, ir_key = k, ir_fp = fp, ir_status = IdemInFlight, ir_attempt = 1, ir_claimed_at = now,
      ir_lease_until = time_add now (ip_lease pol), ir_expires_at = time_add now (ip_ttl pol), ir_response = None\<rparr>"

definition take_over :: "idem_record \<Rightarrow> time \<Rightarrow> idem_policy \<Rightarrow> idem_record" where
  "take_over r now pol =
     r\<lparr>ir_attempt := ir_attempt r + 1, ir_claimed_at := now, ir_lease_until := time_add now (ip_lease pol)\<rparr>"

text \<open>\<open>Claim\<close>'s order: expired is as good as absent, then the fingerprint, the answer, the lease.\<close>

definition idem_claim :: "idem_store \<Rightarrow> string \<Rightarrow> string \<Rightarrow> bytes \<Rightarrow> time \<Rightarrow> idem_policy \<Rightarrow> (idem_record \<times> idem_outcome) \<times> idem_store" where
  "idem_claim st sc k fp now pol =
     (case map_of st (sc, k) of
        Some cur \<Rightarrow>
          if \<not> ir_expires_at cur > now then
            (let r = new_record sc k fp now pol in ((r, IdemFresh), AList.update (sc, k) r (AList.delete (sc, k) st)))
          else if ir_fp cur \<noteq> fp then ((cur, IdemMismatch), st)
          else if ir_status cur = IdemCompleted then ((cur, IdemReplay), st)
          else if ir_lease_until cur > now then ((cur, IdemBusy), st)
          else let r = take_over cur now pol in ((r, IdemFresh), AList.update (sc, k) r st)
      | None \<Rightarrow> let r = new_record sc k fp now pol in ((r, IdemFresh), AList.update (sc, k) r st))"

definition idem_complete :: "idem_store \<Rightarrow> string \<Rightarrow> string \<Rightarrow> u64 \<Rightarrow> idem_response \<Rightarrow> idem_error option \<times> idem_store" where
  "idem_complete st sc k attempt resp =
     (case map_of st (sc, k) of
        None \<Rightarrow> (Some (IdemNotFound sc k), st)
      | Some cur \<Rightarrow>
          if ir_attempt cur \<noteq> attempt then (Some (IdemStaleClaim sc k (ir_attempt cur) attempt), st)
          else if ir_status cur = IdemCompleted then (None, st)
          else (None, AList.update (sc, k) (cur\<lparr>ir_status := IdemCompleted, ir_response := Some resp\<rparr>) st))"

definition idem_sweep :: "idem_store \<Rightarrow> time \<Rightarrow> nat \<times> idem_store" where
  "idem_sweep st now =
     (let kept = filter (\<lambda>(_, r). ir_expires_at r > now) st in (length st - length kept, kept))"

definition idem_len :: "idem_store \<Rightarrow> nat" where
  "idem_len st = length st"

subsection \<open>The handler\<close>

type_synonym 's claim_op =
  "'s \<Rightarrow> string \<Rightarrow> string \<Rightarrow> bytes \<Rightarrow> time \<Rightarrow> idem_policy \<Rightarrow> (string + idem_record \<times> idem_outcome) \<times> 's"

type_synonym 's complete_op = "'s \<Rightarrow> string \<Rightarrow> string \<Rightarrow> u64 \<Rightarrow> idem_response \<Rightarrow> idem_error option \<times> 's"

definition memory_claim :: "idem_store claim_op" where
  "memory_claim st sc k fp now pol = (case idem_claim st sc k fp now pol of (r, st') \<Rightarrow> (Inr r, st'))"

definition memory_complete :: "idem_store complete_op" where
  "memory_complete = idem_complete"

record idem_options =
  io_policy :: idem_policy
  io_scope :: "http_request \<Rightarrow> string option"

definition scope_from_bearer :: "http_request \<Rightarrow> string option" where
  "scope_from_bearer rq =
     (let auth = header_get (rq_header rq) ''Authorization''; prefix = ''Bearer '' in
      if length auth \<le> length prefix \<or> \<not> equal_fold (take (length prefix) auth) prefix then None
      else let tok = trim_space (drop (length prefix) auth) in if tok = '''' then None else Some tok)"

text \<open>A zero \<open>Policy\<close> stands for the default one.\<close>

definition effective_policy :: "idem_options \<Rightarrow> idem_policy" where
  "effective_policy opts = (if io_policy opts = \<lparr>ip_ttl = 0, ip_lease = 0\<rparr> then default_idem_policy else io_policy opts)"

definition header_key :: string where
  "header_key = ''Idempotency-Key''"

definition header_replayed :: string where
  "header_replayed = ''Idempotent-Replayed''"

definition max_body_bytes :: nat where
  "max_body_bytes = 1048576"

definition error_body :: "string \<Rightarrow> string \<Rightarrow> string" where
  "error_body code detail =
     json_object ((''error'', json_string code) # (if detail = '''' then [] else [(''detail'', json_string detail)])) @ newline"

definition write_error :: "int \<Rightarrow> string \<Rightarrow> string \<Rightarrow> write_op list" where
  "write_error status code detail =
     [SetHeader ''Content-Type'' [''application/json''], WriteHeader status, Write (error_body code detail)]"

text \<open>\<open>Duration.Seconds\<close> is a float, cut to an integer: exact for leases below \<open>2 ^ 23\<close> seconds.\<close>

definition retry_after_seconds :: "idem_record \<Rightarrow> time \<Rightarrow> int" where
  "retry_after_seconds r now =
     (let d = time_sub (ir_lease_until r) now; secs = (if 0 \<le> d then d div second else - (- d div second)) in
      if secs < 1 then 1 else secs)"

definition copy_header :: "headers \<Rightarrow> headers \<Rightarrow> headers" where
  "copy_header dst src = dst ++ src"

definition replay_answer :: "idem_response \<Rightarrow> http_response" where
  "replay_answer resp = resp\<lparr>rs_header := (copy_header Map.empty (rs_header resp))(header_replayed \<mapsto> [''true''])\<rparr>"

record recorder =
  rc_header :: headers
  rc_status :: int
  rc_wrote :: bool
  rc_body :: bytes

definition new_recorder :: recorder where
  "new_recorder = \<lparr>rc_header = Map.empty, rc_status = 200, rc_wrote = False, rc_body = ''''\<rparr>"

definition recorder_write_header :: "recorder \<Rightarrow> int \<Rightarrow> recorder" where
  "recorder_write_header r n = (if rc_wrote r then r else r\<lparr>rc_wrote := True, rc_status := n\<rparr>)"

definition recorder_write :: "recorder \<Rightarrow> bytes \<Rightarrow> recorder" where
  "recorder_write r b = (let r = (if rc_wrote r then r else recorder_write_header r 200) in r\<lparr>rc_body := rc_body r @ b\<rparr>)"

fun recorder_op :: "recorder \<Rightarrow> write_op \<Rightarrow> recorder" where
  "recorder_op r (SetHeader k vs) = r\<lparr>rc_header := (rc_header r)(k \<mapsto> vs)\<rparr>"
| "recorder_op r (WriteHeader n) = recorder_write_header r n"
| "recorder_op r (Write b) = recorder_write r b"

definition recorded :: "write_op list \<Rightarrow> idem_response" where
  "recorded ops =
     (let r = foldl recorder_op new_recorder ops in
      \<lparr>rs_status = rc_status r, rs_header = rc_header r, rs_body = rc_body r\<rparr>)"

text \<open>
  Up to \<open>Claim\<close>: passed through, refused, replayed, or now running with the record that was claimed and the body that
  was read. A replay of a record without an answer would be a nil dereference.
\<close>

datatype begun = Passed | Refused http_response | Replayed idem_record http_response | Running idem_record bytes | Crashed

definition refuse :: "int \<Rightarrow> string \<Rightarrow> string \<Rightarrow> begun" where
  "refuse status code detail = Refused (net_response (write_error status code detail))"

definition answer_claim :: "bytes \<Rightarrow> string \<Rightarrow> bytes \<Rightarrow> time \<Rightarrow> idem_record \<Rightarrow> idem_outcome \<Rightarrow> begun" where
  "answer_claim fp k body now r out =
     (case out of
        IdemMismatch \<Rightarrow> refuse 422 ''idempotency_key_reused''
          (header_key @ '' '' @ quote_visible k @ '' was already used for a different request (fingerprint ''
             @ fingerprint_text (ir_fp r) @ '', got '' @ fingerprint_text fp @ '')'')
      | IdemBusy \<Rightarrow> Refused (net_response (SetHeader ''Retry-After'' [show_int (retry_after_seconds r now)]
          # write_error 409 ''idempotency_key_in_flight''
              (''a request with '' @ header_key @ '' '' @ quote_visible k @ '' is still being processed'')))
      | IdemReplay \<Rightarrow> (case ir_response r of None \<Rightarrow> Crashed | Some resp \<Rightarrow> Replayed r (replay_answer resp))
      | IdemFresh \<Rightarrow> Running r body)"

definition handler_begin :: "platform \<Rightarrow> idem_options \<Rightarrow> 's claim_op \<Rightarrow> http_request \<Rightarrow> time \<Rightarrow> 's \<Rightarrow> begun \<times> 's" where
  "handler_begin p opts claim rq now st =
     (if rq_method rq \<in> {''GET'', ''HEAD'', ''OPTIONS''} then (Passed, st)
      else case io_scope opts rq of
        None \<Rightarrow> (refuse 401 ''unauthorized'' ''Authorization: Bearer <token> is required'', st)
      | Some scope \<Rightarrow>
          (let k = header_get (rq_header rq) header_key in
           if k = '''' then
             (refuse 400 ''idempotency_key_required'' (header_key @ '' header is required for '' @ rq_method rq), st)
           else case validate_key k of
             Some e \<Rightarrow> (refuse 400 ''idempotency_key_invalid'' (key_error_text e), st)
           | None \<Rightarrow>
               (case read_limited rq (max_body_bytes + 1) of
                  Inl e \<Rightarrow> (refuse 400 ''body_unreadable'' e, st)
                | Inr body \<Rightarrow>
                    if length body > max_body_bytes then
                      (refuse 413 ''body_too_large'' (''max '' @ show_nat max_body_bytes @ '' bytes''), st)
                    else let fp = fingerprint_of p (rq_method rq) (rq_path rq) body in
                      (case claim st scope k fp now (effective_policy opts) of
                         (Inl e, st') \<Rightarrow> (refuse 503 ''idempotency_store_unavailable'' e, st')
                       | (Inr (r, out), st') \<Rightarrow> (answer_claim fp k body now r out, st')))))"

text \<open>From \<open>Complete\<close> on. The flag of \<open>Answered\<close> says that the answer was not recorded and a line was logged.\<close>

datatype ended = Answered http_response bool | Superseded http_response

definition handler_end :: "'s complete_op \<Rightarrow> idem_record \<Rightarrow> idem_response \<Rightarrow> 's \<Rightarrow> ended \<times> 's" where
  "handler_end complete r resp st =
     (let sent = resp\<lparr>rs_header := copy_header Map.empty (rs_header resp)\<rparr> in
      case complete st (ir_scope r) (ir_key r) (ir_attempt r) resp of
        (None, st') \<Rightarrow> (Answered sent False, st')
      | (Some (IdemStaleClaim _ _ _ _), st') \<Rightarrow>
          (Superseded (net_response (write_error 409 ''idempotency_attempt_superseded''
             (''this attempt for '' @ header_key @ '' '' @ quote_visible (ir_key r)
                @ '' exceeded its lease and was taken over; retry to get the recorded answer''))), st')
      | (Some _, st') \<Rightarrow> (Answered sent True, st'))"

text \<open>The wrapped handler: from its world and a request to the calls it makes and its world after them.\<close>

type_synonym 'w app = "'w \<Rightarrow> http_request \<Rightarrow> write_op list \<times> 'w"

text \<open>One request with nothing in between. \<open>None\<close> is the nil dereference.\<close>

definition handle :: "platform \<Rightarrow> idem_options \<Rightarrow> 's claim_op \<Rightarrow> 's complete_op \<Rightarrow> 'w app \<Rightarrow> http_request \<Rightarrow> time
    \<Rightarrow> 's \<times> 'w \<Rightarrow> http_response option \<times> 's \<times> 'w" where
  "handle p opts claim complete app rq now sw =
     (case sw of (st, w) \<Rightarrow>
        case handler_begin p opts claim rq now st of
          (Passed, st') \<Rightarrow> (case app w rq of (ops, w') \<Rightarrow> (Some (net_response ops), st', w'))
        | (Refused a, st') \<Rightarrow> (Some a, st', w)
        | (Replayed _ a, st') \<Rightarrow> (Some a, st', w)
        | (Crashed, st') \<Rightarrow> (None, st', w)
        | (Running r body, st') \<Rightarrow>
            (case app w (rq\<lparr>rq_body := body, rq_body_err := None\<rparr>) of
               (ops, w') \<Rightarrow>
                 (case handler_end complete r (recorded ops) st' of
                    (Answered a _, st'') \<Rightarrow> (Some a, st'', w')
                  | (Superseded a, st'') \<Rightarrow> (Some a, st'', w'))))"

subsection \<open>The contract of the store\<close>

text \<open>What \<open>Claim\<close> and \<open>Complete\<close> make of the one record they are about.\<close>

definition decide_claim :: "idem_record option \<Rightarrow> string \<Rightarrow> string \<Rightarrow> bytes \<Rightarrow> time \<Rightarrow> idem_policy \<Rightarrow> idem_record \<times> idem_outcome" where
  "decide_claim v sc k fp now pol =
     (case v of
        Some r \<Rightarrow>
          if ir_expires_at r \<le> now then (new_record sc k fp now pol, IdemFresh)
          else if ir_fp r \<noteq> fp then (r, IdemMismatch)
          else if ir_status r = IdemCompleted then (r, IdemReplay)
          else if now < ir_lease_until r then (r, IdemBusy)
          else (take_over r now pol, IdemFresh)
      | None \<Rightarrow> (new_record sc k fp now pol, IdemFresh))"

definition decide_complete :: "idem_record option \<Rightarrow> u64 \<Rightarrow> idem_response \<Rightarrow> idem_record option" where
  "decide_complete v a resp =
     (case v of
        Some r \<Rightarrow> if ir_attempt r = a \<and> ir_status r = IdemInFlight
                  then Some (r\<lparr>ir_status := IdemCompleted, ir_response := Some resp\<rparr>) else v
      | None \<Rightarrow> None)"

definition record_ok :: "string \<Rightarrow> string \<Rightarrow> idem_record \<Rightarrow> bool" where
  "record_ok sc k r \<longleftrightarrow> ir_scope r = sc \<and> ir_key r = k \<and> (ir_status r = IdemCompleted \<longleftrightarrow> ir_response r \<noteq> None)"

lemma decide_claim_ok:
  assumes "decide_claim v sc k fp now pol = (r, out)" and "\<And>r. v = Some r \<Longrightarrow> record_ok sc k r"
  shows "record_ok sc k r"
  using assms by (auto simp: decide_claim_def new_record_def take_over_def record_ok_def split: option.splits if_splits)

lemma decide_complete_ok:
  assumes "decide_complete v a resp = Some r" and "\<And>r. v = Some r \<Longrightarrow> record_ok sc k r"
  shows "record_ok sc k r"
  using assms by (auto simp: decide_complete_def record_ok_def split: option.splits if_splits)

locale answer_store =
  fixes look :: "'s \<Rightarrow> string \<times> string \<Rightarrow> idem_record option"
    and claim :: "'s claim_op"
    and complete :: "'s complete_op"
    and ok :: "'s \<Rightarrow> bool"
  assumes look_ok: "ok st \<Longrightarrow> look st (sc, k) = Some r \<Longrightarrow> record_ok sc k r"
    and claim_look: "ok st \<Longrightarrow> claim st sc k fp now pol = (Inr (r, out), st') \<Longrightarrow>
      (r, out) = decide_claim (look st (sc, k)) sc k fp now pol \<and> ok st' \<and> look st' = (look st)((sc, k) \<mapsto> r)"
    and claim_failed: "ok st \<Longrightarrow> claim st sc k fp now pol = (Inl e, st') \<Longrightarrow> ok st' \<and> look st' = look st"
    and complete_look: "ok st \<Longrightarrow> complete st sc k a resp = (None, st') \<Longrightarrow>
      (\<exists>r. look st (sc, k) = Some r \<and> ir_attempt r = a) \<and> ok st'
      \<and> look st' = (look st)((sc, k) := decide_complete (look st (sc, k)) a resp)"
    and complete_failed: "ok st \<Longrightarrow> complete st sc k a resp = (Some ie, st') \<Longrightarrow> ok st' \<and> look st' = look st"
    and complete_stale: "ok st \<Longrightarrow> complete st sc k a resp = (Some ie, st') \<Longrightarrow> look st (sc, k) = Some r \<Longrightarrow> ir_attempt r = a
      \<Longrightarrow> \<not> (\<exists>c g. ie = IdemStaleClaim sc k c g)"
begin

text \<open>What a handler's first step leaves behind, by its result.\<close>

lemma begin_cases:
  assumes "ok st" and "handler_begin p opts claim rq now st = (res, st')"
  obtains (nothing) "res = Passed \<or> (\<exists>a. res = Refused a)" "ok st'" "look st' = look st"
    | (replay) r a resp where "res = Replayed r a" "look st (ir_scope r, ir_key r) = Some r" "now < ir_expires_at r"
        "ir_response r = Some resp" "ir_status r = IdemCompleted" "a = replay_answer resp"
        "ok st'" "look st' = look st"
    | (run) r body where "res = Running r body" "ok st'" "look st' = (look st)((ir_scope r, ir_key r) \<mapsto> r)"
        "(r, IdemFresh) = decide_claim (look st (ir_scope r, ir_key r)) (ir_scope r) (ir_key r)
           (fingerprint_of p (rq_method rq) (rq_path rq) body) now (effective_policy opts)"
        "io_scope opts rq = Some (ir_scope r)" "header_get (rq_header rq) header_key = ir_key r"
        "read_limited rq (max_body_bytes + 1) = Inr body"
proof (cases "\<exists>scope body. rq_method rq \<notin> {''GET'', ''HEAD'', ''OPTIONS''} \<and> io_scope opts rq = Some scope
    \<and> header_get (rq_header rq) header_key \<noteq> '''' \<and> validate_key (header_get (rq_header rq) header_key) = None
    \<and> read_limited rq (max_body_bytes + 1) = Inr body \<and> length body \<le> max_body_bytes")
  case False
  have f: "st' = st \<and> (res = Passed \<or> (\<exists>a. res = Refused a))"
    using assms(2) False unfolding handler_begin_def refuse_def Let_def
    by (auto split: if_splits option.splits sum.splits)
  show ?thesis by (rule nothing) (use f assms(1) in auto)
next
  case True
  then obtain scope body where g: "rq_method rq \<notin> {''GET'', ''HEAD'', ''OPTIONS''}" "io_scope opts rq = Some scope"
    "header_get (rq_header rq) header_key \<noteq> ''''" "validate_key (header_get (rq_header rq) header_key) = None"
    "read_limited rq (max_body_bytes + 1) = Inr body" "length body \<le> max_body_bytes" by blast
  let ?k = "header_get (rq_header rq) header_key" and ?fp = "fingerprint_of p (rq_method rq) (rq_path rq) body"
  let ?c = "claim st scope ?k ?fp now (effective_policy opts)"
  from assms(2) g have b: "(case ?c of (Inl e, st') \<Rightarrow> (refuse 503 ''idempotency_store_unavailable'' e, st')
     | (Inr (r, out), st') \<Rightarrow> (answer_claim ?fp ?k body now r out, st')) = (res, st')"
    by (simp add: handler_begin_def Let_def)
  obtain cr s1 where c: "?c = (cr, s1)" by (cases ?c)
  show ?thesis
  proof (cases cr)
    case (Inl e)
    then have "\<exists>a. res = Refused a" and s: "claim st scope ?k ?fp now (effective_policy opts) = (Inl e, st')"
      using b c by (auto simp: refuse_def)
    then show ?thesis by - (rule nothing; use claim_failed [OF assms(1) s] in blast)
  next
    case (Inr ro)
    then obtain r out where ro: "cr = Inr (r, out)" by (cases ro) auto
    with b c have res: "res = answer_claim ?fp ?k body now r out" "s1 = st'" by auto
    note l = claim_look [OF assms(1) c [unfolded ro]]
    have rk: "record_ok scope ?k r" using decide_claim_ok l look_ok assms(1) by metis
    then have k: "ir_scope r = scope" "ir_key r = ?k" by (simp_all add: record_ok_def)
    show ?thesis
    proof (cases out)
      case IdemFresh
      with res l k g show ?thesis by - (rule run [of r body]; simp add: answer_claim_def)
    next
      case IdemReplay
      have "look st (scope, ?k) = Some r \<and> now < ir_expires_at r \<and> ir_status r = IdemCompleted"
        using l IdemReplay by (auto simp: decide_claim_def split: option.splits if_splits)
      moreover from this rk obtain resp where "ir_response r = Some resp" by (auto simp: record_ok_def)
      ultimately show ?thesis using res IdemReplay l k
        by - (rule replay [of r "replay_answer resp" resp]; auto simp: answer_claim_def)
    next
      case IdemBusy
      have "look st (scope, ?k) = Some r" using l IdemBusy by (auto simp: decide_claim_def split: option.splits if_splits)
      with res IdemBusy l show ?thesis by - (rule nothing; auto simp: answer_claim_def)
    next
      case IdemMismatch
      have "look st (scope, ?k) = Some r" using l IdemMismatch by (auto simp: decide_claim_def split: option.splits if_splits)
      with res IdemMismatch l show ?thesis by - (rule nothing; auto simp: answer_claim_def refuse_def)
    qed
  qed
qed

lemma never_crashes:
  assumes "ok st"
  shows "fst (handler_begin p opts claim rq now st) \<noteq> Crashed"
proof -
  obtain res st' where b: "handler_begin p opts claim rq now st = (res, st')" by (cases "handler_begin p opts claim rq now st")
  show ?thesis by (rule begin_cases [OF assms b]) (auto simp: b)
qed

text \<open>A run whose attempt is still the current one, without an answer yet, records the answer it sends.\<close>

lemma end_records:
  assumes "ok st" and "handler_end complete r resp st = (Answered a False, st')"
    and "look st (ir_scope r, ir_key r) = Some cur" and "ir_status cur = IdemInFlight"
  shows "look st' = (look st)((ir_scope r, ir_key r) \<mapsto> cur\<lparr>ir_status := IdemCompleted, ir_response := Some resp\<rparr>)
    \<and> ok st' \<and> ir_attempt cur = ir_attempt r \<and> rs_status a = rs_status resp \<and> rs_header a = rs_header resp \<and> rs_body a = rs_body resp"
proof -
  from assms(2) have "complete st (ir_scope r) (ir_key r) (ir_attempt r) resp = (None, st')"
    and a: "a = resp\<lparr>rs_header := copy_header Map.empty (rs_header resp)\<rparr>"
    by (auto simp: handler_end_def Let_def split: prod.splits option.splits idem_error.splits)
  from complete_look [OF assms(1) this(1)] assms(3,4) a show ?thesis
    by (auto simp: decide_complete_def copy_header_def)
qed

end

subsection \<open>The memory store keeps the contract\<close>

definition idem_ok :: "idem_store \<Rightarrow> bool" where
  "idem_ok st \<longleftrightarrow> distinct (map fst st) \<and> (\<forall>((sc, k), r) \<in> set st. record_ok sc k r)"

lemma idem_ok_look: "idem_ok st \<Longrightarrow> map_of st (sc, k) = Some r \<Longrightarrow> record_ok sc k r"
  by (auto simp: idem_ok_def dest: map_of_SomeD)

lemma idem_ok_update:
  assumes "idem_ok st" and "record_ok sc k r"
  shows "idem_ok (AList.update (sc, k) r st)"
proof -
  have "distinct (map fst (AList.update (sc, k) r st))" using assms(1) by (simp add: idem_ok_def distinct_update)
  moreover have "set (AList.update (sc, k) r st) \<subseteq> insert ((sc, k), r) (set st)" by (induction st) auto
  ultimately show ?thesis using assms by (fastforce simp: idem_ok_def)
qed

lemma delete_subset_set: "set (AList.delete x st) \<subseteq> set st"
  by (auto simp: AList.delete_eq)

lemma idem_ok_delete: "idem_ok st \<Longrightarrow> idem_ok (AList.delete x st)"
  using distinct_delete [of st x] by (auto simp: idem_ok_def dest: set_mp [OF delete_subset_set])

lemma map_of_filter_distinct:
  "distinct (map fst st) \<Longrightarrow> map_of (filter (\<lambda>(_, r). P r) st) x = (case map_of st x of Some r \<Rightarrow> if P r then Some r else None | None \<Rightarrow> None)"
proof (induction st)
  case (Cons y st)
  then show ?case by (cases y) (auto simp: map_of_eq_None_iff split: option.splits)
qed simp

lemma idem_claim_decides:
  assumes "idem_ok st" and "idem_claim st sc k fp now pol = ((r, out), st')"
  shows "(r, out) = decide_claim (map_of st (sc, k)) sc k fp now pol \<and> idem_ok st' \<and> map_of st' = (map_of st)((sc, k) \<mapsto> r)"
proof -
  note ok = idem_ok_update [OF _ decide_claim_ok]
  have n: "record_ok sc k (new_record sc k fp now pol)" by (simp add: record_ok_def new_record_def)
  have t: "record_ok sc k (take_over c now pol)" if "map_of st (sc, k) = Some c" for c
    using idem_ok_look [OF assms(1) that] by (simp add: record_ok_def take_over_def)
  show ?thesis
  proof (cases "map_of st (sc, k)")
    case None
    with assms n show ?thesis by (auto simp: idem_claim_def decide_claim_def update_conv' idem_ok_update Let_def)
  next
    case (Some c)
    with assms n t [OF Some] show ?thesis
      by (auto simp: idem_claim_def decide_claim_def update_conv' delete_conv' idem_ok_update idem_ok_delete Let_def fun_upd_idem
          split: if_splits)
  qed
qed

lemma idem_complete_decides:
  assumes "idem_ok st" and "idem_complete st sc k a resp = (e, st')"
  shows "map_of st' = (map_of st)((sc, k) := decide_complete (map_of st (sc, k)) a resp) \<and> idem_ok st'
    \<and> (e = None \<longleftrightarrow> (\<exists>r. map_of st (sc, k) = Some r \<and> ir_attempt r = a))"
proof (cases "map_of st (sc, k)")
  case None
  with assms show ?thesis by (auto simp: idem_complete_def decide_complete_def fun_upd_idem)
next
  case (Some r)
  have c: "record_ok sc k (r\<lparr>ir_status := IdemCompleted, ir_response := Some resp\<rparr>)"
    using idem_ok_look [OF assms(1) Some] by (simp add: record_ok_def)
  from assms Some idem_ok_update [OF assms(1) c] show ?thesis
    by (cases "ir_status r") (auto simp: idem_complete_def decide_complete_def update_conv' fun_upd_idem split: if_splits)
qed

interpretation idem: answer_store map_of memory_claim memory_complete idem_ok
proof
  fix st sc k r assume "idem_ok st" "map_of st (sc, k) = Some r" then show "record_ok sc k r" by (rule idem_ok_look)
next
  fix st sc k fp now pol r out st'
  assume "idem_ok st" "memory_claim st sc k fp now pol = (Inr (r, out), st')"
  then show "(r, out) = decide_claim (map_of st (sc, k)) sc k fp now pol \<and> idem_ok st' \<and> map_of st' = (map_of st)((sc, k) \<mapsto> r)"
    using idem_claim_decides by (simp add: memory_claim_def split: prod.splits)
next
  fix st sc k fp now pol e st'
  assume "memory_claim st sc k fp now pol = (Inl e, st')"
  then show "idem_ok st' \<and> map_of st' = map_of st" by (simp add: memory_claim_def split: prod.splits)
next
  fix st sc k a resp st'
  assume "idem_ok st" "memory_complete st sc k a resp = (None, st')"
  then show "(\<exists>r. map_of st (sc, k) = Some r \<and> ir_attempt r = a) \<and> idem_ok st'
      \<and> map_of st' = (map_of st)((sc, k) := decide_complete (map_of st (sc, k)) a resp)"
    using idem_complete_decides by (metis memory_complete_def)
next
  fix st sc k a resp ie st'
  assume a: "idem_ok st" "memory_complete st sc k a resp = (Some ie, st')"
  then have "st' = st" by (auto simp: memory_complete_def idem_complete_def split: option.splits if_splits)
  with a show "idem_ok st' \<and> map_of st' = map_of st" by simp
next
  fix st sc k a resp ie st' r
  assume "memory_complete st sc k a resp = (Some ie, st')" "map_of st (sc, k) = Some r" "ir_attempt r = a"
  then show "\<not> (\<exists>c g. ie = IdemStaleClaim sc k c g)" by (auto simp: memory_complete_def idem_complete_def split: if_splits)
qed

subsection \<open>Histories of the store\<close>

datatype idem_op =
    OpClaim string string bytes time idem_policy
  | OpComplete string string u64 idem_response
  | OpSweep time

fun idem_step :: "idem_store \<Rightarrow> idem_op \<Rightarrow> idem_store" where
  "idem_step st (OpClaim sc k fp now pol) = snd (idem_claim st sc k fp now pol)"
| "idem_step st (OpComplete sc k a resp) = snd (idem_complete st sc k a resp)"
| "idem_step st (OpSweep now) = snd (idem_sweep st now)"

fun op_before :: "time \<Rightarrow> idem_op \<Rightarrow> bool" where
  "op_before t (OpClaim sc k fp now pol) \<longleftrightarrow> now < t"
| "op_before t (OpComplete sc k a resp) \<longleftrightarrow> True"
| "op_before t (OpSweep now) \<longleftrightarrow> now < t"

definition idem_run :: "idem_store \<Rightarrow> idem_op list \<Rightarrow> idem_store" where
  "idem_run st ops = foldl idem_step st ops"

lemma idem_sweep_look:
  "idem_ok st \<Longrightarrow> map_of (snd (idem_sweep st now)) x
     = (case map_of st x of Some r \<Rightarrow> if now < ir_expires_at r then Some r else None | None \<Rightarrow> None)"
  by (simp add: idem_sweep_def Let_def map_of_filter_distinct idem_ok_def)

lemma idem_sweep_ok: "idem_ok st \<Longrightarrow> idem_ok (snd (idem_sweep st now))"
  by (auto simp: idem_sweep_def Let_def idem_ok_def distinct_map_filter)

lemma idem_step_ok: "idem_ok st \<Longrightarrow> idem_ok (idem_step st op)"
proof (cases op)
  case (OpClaim sc k fp now pol)
  assume "idem_ok st"
  with OpClaim idem_claim_decides show ?thesis by (metis idem_step.simps(1) prod.collapse)
next
  case (OpComplete sc k a resp)
  assume "idem_ok st"
  with OpComplete idem_complete_decides show ?thesis by (metis idem_step.simps(2) prod.collapse)
qed (simp add: idem_sweep_ok)

text \<open>A property of one live record that its own claims and completions keep, is kept by every history before it expires.\<close>

lemma idem_run_keeps:
  assumes "idem_ok st" and "map_of st (sc, k) = Some r" and "P r"
    and claim: "\<And>r fp now pol. P r \<Longrightarrow> now < t \<Longrightarrow> P (fst (decide_claim (Some r) sc k fp now pol))"
    and complete: "\<And>r a resp. P r \<Longrightarrow> P (the (decide_complete (Some r) a resp))"
    and live: "\<And>r. P r \<Longrightarrow> t \<le> ir_expires_at r"
    and "list_all (op_before t) ops"
  shows "idem_ok (idem_run st ops) \<and> (\<exists>r'. map_of (idem_run st ops) (sc, k) = Some r' \<and> P r')"
  using assms(1-3,7)
proof (induction ops arbitrary: st r)
  case Nil
  then show ?case by (simp add: idem_run_def)
next
  case (Cons op ops)
  have "\<exists>r'. map_of (idem_step st op) (sc, k) = Some r' \<and> P r'"
  proof (cases op)
    case (OpClaim sc' k' fp now pol)
    obtain x out st' where c: "idem_claim st sc' k' fp now pol = ((x, out), st')" by (metis prod.collapse)
    note d = idem_claim_decides [OF Cons.prems(1) c]
    show ?thesis
    proof (cases "(sc', k') = (sc, k)")
      case True
      have "x = fst (decide_claim (Some r) sc k fp now pol)" using d True Cons.prems(2) by (metis fst_conv prod.inject)
      with d c True OpClaim claim [OF Cons.prems(3)] Cons.prems(4) show ?thesis by auto
    next
      case False
      with d c OpClaim Cons.prems show ?thesis by auto
    qed
  next
    case (OpComplete sc' k' a resp)
    obtain e st' where c: "idem_complete st sc' k' a resp = (e, st')" by fastforce
    note d = idem_complete_decides [OF Cons.prems(1) c]
    show ?thesis
    proof (cases "(sc', k') = (sc, k)")
      case True
      have "\<exists>r'. decide_complete (Some r) a resp = Some r'" by (simp add: decide_complete_def)
      with d c True OpComplete complete [OF Cons.prems(3), of a resp] Cons.prems(2) show ?thesis by auto
    next
      case False
      with d c OpComplete Cons.prems show ?thesis by auto
    qed
  next
    case (OpSweep now)
    have "now < ir_expires_at r" using live [OF Cons.prems(3)] Cons.prems(4) OpSweep by auto
    with OpSweep idem_sweep_look [OF Cons.prems(1)] Cons.prems show ?thesis by auto
  qed
  with Cons.IH [of "idem_step st op"] idem_step_ok [OF Cons.prems(1)] Cons.prems(4) show ?case by (auto simp: idem_run_def)
qed

subsection \<open>The server\<close>

record idem_server =
  sv_store :: idem_store
  sv_clock :: time
  sv_running :: "idem_record list"
  sv_sent :: "((string \<times> string \<times> time) \<times> http_response) list"
  sv_late :: bool

text \<open>
  A record is one period of a key, from the first claim to the expiry, and takeovers keep the expiry; so scope, key and
  expiry name the period. \<open>sv_sent\<close> lists the answers that left the server as the answer to a period's request, and
  \<open>sv_late\<close> remembers whether some run finished after its period was over.
\<close>

definition period :: "idem_record \<Rightarrow> string \<times> string \<times> time" where
  "period r = (ir_scope r, ir_key r, ir_expires_at r)"

definition arrived :: "idem_server \<Rightarrow> begun \<times> idem_store \<Rightarrow> idem_server" where
  "arrived sv b = (case b of (res, st') \<Rightarrow>
     sv\<lparr>sv_store := st',
        sv_running := (case res of Running r _ \<Rightarrow> r # sv_running sv | _ \<Rightarrow> sv_running sv),
        sv_sent := (case res of Replayed r a \<Rightarrow> (period r, a) # sv_sent sv | _ \<Rightarrow> sv_sent sv)\<rparr>)"

definition finished :: "idem_server \<Rightarrow> idem_record \<Rightarrow> ended \<times> idem_store \<Rightarrow> idem_server" where
  "finished sv r e = (case e of (res, st') \<Rightarrow>
     sv\<lparr>sv_store := st', sv_running := remove1 r (sv_running sv),
        sv_sent := (case res of Answered a _ \<Rightarrow> (period r, a) # sv_sent sv | Superseded _ \<Rightarrow> sv_sent sv),
        sv_late := sv_late sv \<or> ir_expires_at r \<le> sv_clock sv\<rparr>)"

inductive served :: "platform \<Rightarrow> idem_options \<Rightarrow> idem_server \<Rightarrow> bool" for p opts where
  start: "served p opts \<lparr>sv_store = new_idem_store, sv_clock = t0, sv_running = [], sv_sent = [], sv_late = False\<rparr>"
| tick: "served p opts sv \<Longrightarrow> sv_clock sv \<le> t \<Longrightarrow> served p opts (sv\<lparr>sv_clock := t\<rparr>)"
| arrive: "served p opts sv \<Longrightarrow> served p opts (arrived sv (handler_begin p opts memory_claim rq (sv_clock sv) (sv_store sv)))"
| finish: "served p opts sv \<Longrightarrow> r \<in> set (sv_running sv)
    \<Longrightarrow> served p opts (finished sv r (handler_end memory_complete r (recorded ops) (sv_store sv)))"
| die: "served p opts sv \<Longrightarrow> served p opts (sv\<lparr>sv_running := remove1 r (sv_running sv)\<rparr>)"
| sweep: "served p opts sv \<Longrightarrow> served p opts (sv\<lparr>sv_store := snd (idem_sweep (sv_store sv) (sv_clock sv))\<rparr>)"

text \<open>Equal but for the header that marks a replay.\<close>

definition same_answer :: "http_response \<Rightarrow> http_response \<Rightarrow> bool" where
  "same_answer a b \<longleftrightarrow> rs_status a = rs_status b \<and> rs_body a = rs_body b
     \<and> (rs_header a)(header_replayed := None) = (rs_header b)(header_replayed := None)"

lemma same_answer_trans: "same_answer a b \<Longrightarrow> same_answer c b \<Longrightarrow> same_answer a c"
  by (simp add: same_answer_def)

lemma same_answer_refl: "same_answer a a"
  by (simp add: same_answer_def)

lemma same_answer_replay: "same_answer (replay_answer resp) resp"
  by (simp add: same_answer_def replay_answer_def copy_header_def)

text \<open>A lease never ends before it began, so the attempts of one period are too few for the counter to wrap.\<close>

definition clocked :: "idem_policy \<Rightarrow> time \<Rightarrow> idem_record \<Rightarrow> bool" where
  "clocked pol now r \<longleftrightarrow> ir_claimed_at r \<le> now \<and> ir_lease_until r = ir_claimed_at r + ip_lease pol \<and> ir_claimed_at r < ir_expires_at r
     \<and> 1 \<le> unat (ir_attempt r) \<and> int (unat (ir_attempt r)) - 1 \<le> ir_claimed_at r - (ir_expires_at r - ip_ttl pol)"

definition ticket_ok :: "idem_store \<Rightarrow> time \<Rightarrow> idem_record \<Rightarrow> bool" where
  "ticket_ok st now t \<longleftrightarrow> (now < ir_expires_at t \<longrightarrow>
     (\<exists>r. map_of st (ir_scope t, ir_key t) = Some r \<and> ir_expires_at r = ir_expires_at t \<and> ir_attempt t \<le> ir_attempt r
        \<and> (ir_attempt t = ir_attempt r \<longrightarrow> ir_status r = IdemInFlight)))"

definition sent_ok :: "idem_store \<Rightarrow> time \<Rightarrow> (string \<times> string \<times> time) \<times> http_response \<Rightarrow> bool" where
  "sent_ok st now s = (case s of ((sc, k, ex), a) \<Rightarrow> now < ex \<longrightarrow>
     (\<exists>r resp. map_of st (sc, k) = Some r \<and> ir_expires_at r = ex \<and> ir_response r = Some resp \<and> same_answer a resp))"

definition server_inv :: "idem_policy \<Rightarrow> idem_server \<Rightarrow> bool" where
  "server_inv pol sv \<longleftrightarrow> idem_ok (sv_store sv)
     \<and> (\<forall>x r. map_of (sv_store sv) x = Some r \<longrightarrow> clocked pol (sv_clock sv) r)
     \<and> distinct (map (\<lambda>t. (period t, ir_attempt t)) (sv_running sv))
     \<and> (\<forall>t \<in> set (sv_running sv). ticket_ok (sv_store sv) (sv_clock sv) t)
     \<and> (\<forall>s \<in> set (sv_sent sv). sent_ok (sv_store sv) (sv_clock sv) s)
     \<and> (\<forall>s \<in> set (sv_sent sv). \<forall>s' \<in> set (sv_sent sv). fst s = fst s' \<longrightarrow> same_answer (snd s) (snd s'))"

lemma clocked_mono: "clocked pol now r \<Longrightarrow> now \<le> t \<Longrightarrow> clocked pol t r"
  by (simp add: clocked_def)

lemma server_invI:
  assumes "idem_ok (sv_store sv)" and "\<And>x r. map_of (sv_store sv) x = Some r \<Longrightarrow> clocked pol (sv_clock sv) r"
    and "distinct (map (\<lambda>t. (period t, ir_attempt t)) (sv_running sv))"
    and "\<And>t. t \<in> set (sv_running sv) \<Longrightarrow> ticket_ok (sv_store sv) (sv_clock sv) t"
    and "\<And>s. s \<in> set (sv_sent sv) \<Longrightarrow> sent_ok (sv_store sv) (sv_clock sv) s"
    and "\<And>g a b. (g, a) \<in> set (sv_sent sv) \<Longrightarrow> (g, b) \<in> set (sv_sent sv) \<Longrightarrow> same_answer a b"
  shows "server_inv pol sv"
proof -
  have "same_answer (snd s) (snd s')" if "s \<in> set (sv_sent sv)" "s' \<in> set (sv_sent sv)" "fst s = fst s'" for s s'
    using assms(6) [of "fst s" "snd s" "snd s'"] that by (cases s; cases s') simp
  with assms(1-5) show ?thesis unfolding server_inv_def by blast
qed

lemma server_invD:
  assumes "server_inv pol sv"
  shows "idem_ok (sv_store sv)" and "map_of (sv_store sv) x = Some r \<Longrightarrow> clocked pol (sv_clock sv) r"
    and "distinct (map (\<lambda>t. (period t, ir_attempt t)) (sv_running sv))"
    and "t \<in> set (sv_running sv) \<Longrightarrow> ticket_ok (sv_store sv) (sv_clock sv) t"
    and "s \<in> set (sv_sent sv) \<Longrightarrow> sent_ok (sv_store sv) (sv_clock sv) s"
    and "(g, a) \<in> set (sv_sent sv) \<Longrightarrow> (g, b) \<in> set (sv_sent sv) \<Longrightarrow> same_answer a b"
proof -
  note u = assms [unfolded server_inv_def]
  show "idem_ok (sv_store sv)" "distinct (map (\<lambda>t. (period t, ir_attempt t)) (sv_running sv))" using u by blast+
  show "map_of (sv_store sv) x = Some r \<Longrightarrow> clocked pol (sv_clock sv) r" using u by blast
  show "t \<in> set (sv_running sv) \<Longrightarrow> ticket_ok (sv_store sv) (sv_clock sv) t" using u by blast
  show "s \<in> set (sv_sent sv) \<Longrightarrow> sent_ok (sv_store sv) (sv_clock sv) s" using u by blast
  show "(g, a) \<in> set (sv_sent sv) \<Longrightarrow> (g, b) \<in> set (sv_sent sv) \<Longrightarrow> same_answer a b" using u by fastforce
qed

lemma server_inv_start: "server_inv pol \<lparr>sv_store = new_idem_store, sv_clock = t0, sv_running = [], sv_sent = [], sv_late = False\<rparr>"
  by (simp add: server_inv_def new_idem_store_def idem_ok_def)

lemma server_inv_tick: "server_inv pol sv \<Longrightarrow> sv_clock sv \<le> t \<Longrightarrow> server_inv pol (sv\<lparr>sv_clock := t\<rparr>)"
  unfolding server_inv_def ticket_ok_def sent_ok_def
  by (auto intro: clocked_mono split: prod.splits) (smt (verit) )+

lemma server_inv_die: "server_inv pol sv \<Longrightarrow> server_inv pol (sv\<lparr>sv_running := remove1 r (sv_running sv)\<rparr>)"
  using distinct_remove1 set_remove1_subset [of r "sv_running sv"]
  by (auto simp: server_inv_def distinct_map inj_on_def subset_iff)

lemma server_inv_sweep: "server_inv pol sv \<Longrightarrow> server_inv pol (sv\<lparr>sv_store := snd (idem_sweep (sv_store sv) (sv_clock sv))\<rparr>)"
  by (auto simp: server_inv_def ticket_ok_def sent_ok_def idem_sweep_look idem_sweep_ok split: prod.splits option.splits if_splits)

lemma fresh_claim:
  assumes inv: "server_inv pol sv" and pol: "0 < ip_lease pol" "0 < ip_ttl pol" "ip_ttl pol < 2 ^ 63"
    and d: "(r, IdemFresh) = decide_claim (map_of (sv_store sv) (sc, k)) sc k fp (sv_clock sv) pol"
  shows "clocked pol (sv_clock sv) r \<and> record_ok sc k r \<and> ir_status r = IdemInFlight \<and> sv_clock sv < ir_expires_at r
    \<and> (\<forall>t \<in> set (sv_running sv). (ir_scope t, ir_key t) = (sc, k) \<longrightarrow> sv_clock sv < ir_expires_at t \<longrightarrow>
         ir_expires_at t = ir_expires_at r \<and> ir_attempt t < ir_attempt r)
    \<and> (\<forall>ex a. ((sc, k, ex), a) \<in> set (sv_sent sv) \<longrightarrow> ex \<le> sv_clock sv)"
proof -
  let ?now = "sv_clock sv" and ?c = "map_of (sv_store sv) (sc, k)"
  have ok: "idem_ok (sv_store sv)" using inv by (simp add: server_inv_def)
  have tk: "\<exists>c. ?c = Some c \<and> ir_expires_at c = ir_expires_at t \<and> ir_attempt t \<le> ir_attempt c"
    if "t \<in> set (sv_running sv)" "(ir_scope t, ir_key t) = (sc, k)" "?now < ir_expires_at t" for t
    using inv that by (fastforce simp: server_inv_def ticket_ok_def)
  have se: "\<exists>c. ?c = Some c \<and> ir_expires_at c = ex \<and> ir_response c \<noteq> None"
    if "((sc, k, ex), a) \<in> set (sv_sent sv)" "\<not> ex \<le> ?now" for ex a
    using inv that by (fastforce simp: server_inv_def sent_ok_def)
  show ?thesis
  proof (cases "\<exists>c. ?c = Some c \<and> ?now < ir_expires_at c")
    case False
    then have r: "r = new_record sc k fp ?now pol" using d by (auto simp: decide_claim_def split: option.splits if_splits)
    have "clocked pol ?now r \<and> record_ok sc k r \<and> ir_status r = IdemInFlight \<and> ?now < ir_expires_at r"
      using pol by (simp add: r new_record_def clocked_def record_ok_def time_add_def)
    moreover have "\<not> ?now < ir_expires_at t" if "t \<in> set (sv_running sv)" "(ir_scope t, ir_key t) = (sc, k)" for t
      using tk [OF that] False by metis
    moreover have "ex \<le> ?now" if "((sc, k, ex), a) \<in> set (sv_sent sv)" for ex a
      using se [OF that] False by force
    ultimately show ?thesis by blast
  next
    case True
    then obtain c where c: "?c = Some c" "?now < ir_expires_at c" by blast
    then have r: "r = take_over c ?now pol" and f: "ir_status c = IdemInFlight" "ir_lease_until c \<le> ?now"
      using d idem_status.exhaust by (auto simp: decide_claim_def split: if_splits)
    have ck: "clocked pol ?now c" and ro: "record_ok sc k c"
      using inv c idem_ok_look [OF ok c(1)] by (auto simp: server_inv_def)
    have "int (unat (ir_attempt c)) < 2 ^ 63" using ck pol(3) by (simp add: clocked_def)
    then have "unat (ir_attempt c) + 1 < 2 ^ 64" by (simp only: of_nat_less_iff [symmetric, where 'a = int]) simp
    then have s: "unat (ir_attempt c + 1) = unat (ir_attempt c) + 1" by (simp add: unat_word_ariths)
    have "clocked pol ?now r"
      using ck f c pol by (simp add: r take_over_def clocked_def s time_add_def)
    moreover have "ir_attempt c < ir_attempt r" by (simp add: word_less_nat_alt s r take_over_def)
    then have "ir_expires_at t = ir_expires_at r \<and> ir_attempt t < ir_attempt r"
      if "t \<in> set (sv_running sv)" "(ir_scope t, ir_key t) = (sc, k)" "?now < ir_expires_at t" for t
      using tk [OF that] c by (auto simp: r take_over_def)
    moreover have "ex \<le> ?now" if "((sc, k, ex), a) \<in> set (sv_sent sv)" for ex a
      using se [OF that] c f ro by (auto simp: record_ok_def)
    moreover have "record_ok sc k r \<and> ir_status r = IdemInFlight \<and> ?now < ir_expires_at r"
      using ro c(2) f by (simp add: r take_over_def record_ok_def)
    ultimately show ?thesis by blast
  qed
qed

lemma server_inv_run:
  assumes inv: "server_inv pol sv" and pol: "0 < ip_lease pol" "0 < ip_ttl pol" "ip_ttl pol < 2 ^ 63"
    and d: "(r, IdemFresh) = decide_claim (map_of (sv_store sv) (ir_scope r, ir_key r)) (ir_scope r) (ir_key r) fp (sv_clock sv) pol"
    and st: "idem_ok st'" "map_of st' = (map_of (sv_store sv))((ir_scope r, ir_key r) \<mapsto> r)"
  shows "server_inv pol (sv\<lparr>sv_store := st', sv_running := r # sv_running sv\<rparr>)"
proof -
  note f = fresh_claim [OF inv pol d]
  have ne: "(period t, ir_attempt t) \<noteq> (period r, ir_attempt r)" if "t \<in> set (sv_running sv)" for t
    using f that by (auto simp: period_def)
  have ti: "ticket_ok st' (sv_clock sv) t" if "t \<in> set (sv_running sv)" for t
  proof (cases "(ir_scope t, ir_key t) = (ir_scope r, ir_key r)")
    case True
    with f that st(2) show ?thesis by (auto simp: ticket_ok_def)
  next
    case False
    with inv that st(2) show ?thesis by (auto simp: server_inv_def ticket_ok_def)
  qed
  have tr: "ticket_ok st' (sv_clock sv) r" using f st(2) by (simp add: ticket_ok_def)
  have se: "sent_ok st' (sv_clock sv) s" if "s \<in> set (sv_sent sv)" for s
  proof -
    obtain sc k ex a where s: "s = ((sc, k, ex), a)" by (metis prod.collapse)
    show ?thesis
    proof (cases "(sc, k) = (ir_scope r, ir_key r)")
      case True
      then have "ex \<le> sv_clock sv" using f that s by blast
      with s show ?thesis by (simp add: sent_ok_def)
    next
      case False
      moreover have "sent_ok (sv_store sv) (sv_clock sv) s" using inv that by (simp add: server_inv_def)
      ultimately show ?thesis using s st(2) by (auto simp: sent_ok_def)
    qed
  qed
  have cl: "clocked pol (sv_clock sv) x" if "map_of st' y = Some x" for x y
    using that st(2) f server_invD(2) [OF inv] by (auto split: if_splits)
  show ?thesis
  proof (rule server_invI)
    show "distinct (map (\<lambda>t. (period t, ir_attempt t)) (sv_running (sv\<lparr>sv_store := st', sv_running := r # sv_running sv\<rparr>)))"
      using ne server_invD(3) [OF inv] by fastforce
  qed (use ti tr se cl st(1) server_invD(6) [OF inv] in auto)
qed

lemma server_inv_replay:
  assumes inv: "server_inv pol sv" and r: "map_of (sv_store sv) (ir_scope r, ir_key r) = Some r" "sv_clock sv < ir_expires_at r"
    "ir_response r = Some resp"
    and st: "idem_ok st'" "map_of st' = map_of (sv_store sv)"
  shows "server_inv pol (sv\<lparr>sv_store := st', sv_sent := (period r, replay_answer resp) # sv_sent sv\<rparr>)"
proof -
  have n: "same_answer b (replay_answer resp) \<and> same_answer (replay_answer resp) b" if "(period r, b) \<in> set (sv_sent sv)" for b
  proof -
    from inv that have "sent_ok (sv_store sv) (sv_clock sv) (period r, b)" by (auto simp: server_inv_def)
    then have "same_answer b resp" using r by (auto simp: sent_ok_def period_def)
    with same_answer_replay [of resp] show ?thesis by (simp add: same_answer_def)
  qed
  have m1: "sent_ok st' (sv_clock sv) (period r, replay_answer resp)"
    using r st same_answer_replay by (auto simp: sent_ok_def period_def)
  have m2: "sent_ok st' (sv_clock sv) s \<longleftrightarrow> sent_ok (sv_store sv) (sv_clock sv) s" for s by (simp add: sent_ok_def st(2))
  have m3: "ticket_ok st' (sv_clock sv) t \<longleftrightarrow> ticket_ok (sv_store sv) (sv_clock sv) t" for t by (simp add: ticket_ok_def st(2))
  show ?thesis
  proof (rule server_invI)
    fix g a b assume "(g, a) \<in> set (sv_sent (sv\<lparr>sv_store := st', sv_sent := (period r, replay_answer resp) # sv_sent sv\<rparr>))"
      "(g, b) \<in> set (sv_sent (sv\<lparr>sv_store := st', sv_sent := (period r, replay_answer resp) # sv_sent sv\<rparr>))"
    then consider "g = period r" "a = replay_answer resp" "b = replay_answer resp" | "g = period r" "a = replay_answer resp" "(g, b) \<in> set (sv_sent sv)"
      | "g = period r" "b = replay_answer resp" "(g, a) \<in> set (sv_sent sv)" | "(g, a) \<in> set (sv_sent sv)" "(g, b) \<in> set (sv_sent sv)"
      by fastforce
    then show "same_answer a b" by cases (use n server_invD(6) [OF inv] in \<open>auto simp: same_answer_refl\<close>)
  qed (use st m1 m2 m3 server_invD(2-5) [OF inv] in auto)
qed

lemma server_inv_same:
  assumes "server_inv pol sv" and "idem_ok st'" "map_of st' = map_of (sv_store sv)"
  shows "server_inv pol (sv\<lparr>sv_store := st'\<rparr>)"
  using assms by (auto simp: server_inv_def ticket_ok_def sent_ok_def)

lemma server_inv_arrive:
  assumes inv: "server_inv (effective_policy opts) sv"
    and pol: "0 < ip_lease (effective_policy opts)" "0 < ip_ttl (effective_policy opts)" "ip_ttl (effective_policy opts) < 2 ^ 63"
  shows "server_inv (effective_policy opts) (arrived sv (handler_begin p opts memory_claim rq (sv_clock sv) (sv_store sv)))"
proof -
  obtain res st' where b: "handler_begin p opts memory_claim rq (sv_clock sv) (sv_store sv) = (res, st')" by fastforce
  have ok: "idem_ok (sv_store sv)" using inv by (simp add: server_inv_def)
  show ?thesis
  proof (rule idem.begin_cases [OF ok b])
    assume s: "idem_ok st'" "map_of st' = map_of (sv_store sv)" and "res = Passed \<or> (\<exists>a. res = Refused a)"
    with server_inv_same [OF inv s] b show ?thesis by (auto simp: arrived_def)
  next
    fix r a resp
    assume m: "map_of (sv_store sv) (ir_scope r, ir_key r) = Some r" "sv_clock sv < ir_expires_at r" "ir_response r = Some resp"
      and s: "idem_ok st'" "map_of st' = map_of (sv_store sv)" and "res = Replayed r a" "a = replay_answer resp"
    with server_inv_replay [OF inv m s] b show ?thesis by (simp add: arrived_def)
  next
    fix r body
    assume s: "idem_ok st'" "map_of st' = (map_of (sv_store sv))((ir_scope r, ir_key r) \<mapsto> r)" and "res = Running r body"
      and d: "(r, IdemFresh) = decide_claim (map_of (sv_store sv) (ir_scope r, ir_key r)) (ir_scope r) (ir_key r)
        (fingerprint_of p (rq_method rq) (rq_path rq) body) (sv_clock sv) (effective_policy opts)"
    with server_inv_run [OF inv pol d s] b show ?thesis by (simp add: arrived_def)
  qed
qed

lemma server_inv_finish:
  assumes inv: "server_inv pol sv" and r: "r \<in> set (sv_running sv)" and live: "sv_clock sv < ir_expires_at r"
  shows "server_inv pol (finished sv r (handler_end memory_complete r resp (sv_store sv)))"
proof -
  let ?st = "sv_store sv" and ?x = "(ir_scope r, ir_key r)"
  have ok: "idem_ok ?st" using inv by (simp add: server_inv_def)
  obtain c where c: "map_of ?st ?x = Some c" "ir_expires_at c = ir_expires_at r"
    "ir_attempt r = ir_attempt c \<Longrightarrow> ir_status c = IdemInFlight"
    using inv r live by (fastforce simp: server_inv_def ticket_ok_def)
  have ro: "record_ok (ir_scope r) (ir_key r) c" by (rule idem_ok_look [OF ok c(1)])
  obtain res st' where e: "handler_end memory_complete r resp ?st = (res, st')" by fastforce
  have rest: "server_inv pol (sv\<lparr>sv_running := remove1 r (sv_running sv)\<rparr>)" by (rule server_inv_die [OF inv])
  show ?thesis
  proof (cases "ir_attempt c = ir_attempt r")
    case False
    then have "st' = ?st \<and> (\<exists>a. res = Superseded a)"
      using e c(1) by (auto simp: handler_end_def memory_complete_def idem_complete_def Let_def)
    with server_invD [OF rest] e show ?thesis by (intro server_invI) (auto simp: finished_def)
  next
    case True
    let ?c = "c\<lparr>ir_status := IdemCompleted, ir_response := Some resp\<rparr>"
    from True have "\<exists>a. res = Answered a False"
      using e c(1,3) by (auto simp: handler_end_def memory_complete_def idem_complete_def Let_def)
    then obtain a where a: "res = Answered a False" by blast
    from idem.end_records [OF ok e [unfolded a] c(1)] c(3) True
    have st': "map_of st' = (map_of ?st)(?x \<mapsto> ?c)" "idem_ok st'" and sa: "same_answer a resp"
      by (auto simp: same_answer_def)
    have old: "ex \<le> sv_clock sv" if "((ir_scope r, ir_key r, ex), b) \<in> set (sv_sent sv)" for ex b
    proof (rule ccontr)
      assume "\<not> ex \<le> sv_clock sv"
      moreover have "sent_ok ?st (sv_clock sv) ((ir_scope r, ir_key r, ex), b)" using inv that by (auto simp: server_inv_def)
      ultimately have "ir_response c \<noteq> None" using c(1) by (auto simp: sent_ok_def)
      with ro c(3) True show False by (auto simp: record_ok_def)
    qed
    then have no: "(period r, b) \<notin> set (sv_sent sv)" for b using live by (fastforce simp: period_def)
    have m1: "ticket_ok st' (sv_clock sv) t" if t: "t \<in> set (remove1 r (sv_running sv))" for t
    proof (cases "(ir_scope t, ir_key t) = ?x")
      case same: True
      have tr: "t \<in> set (sv_running sv)" using t by (meson notin_set_remove1)
      have d: "distinct (map (\<lambda>t. (period t, ir_attempt t)) (sv_running sv))" using inv by (simp add: server_inv_def)
      then have "t \<noteq> r" using t by (auto simp: distinct_map)
      with d tr r have "(period t, ir_attempt t) \<noteq> (period r, ir_attempt r)" by (auto simp: distinct_map inj_on_def)
      moreover have "ticket_ok ?st (sv_clock sv) t" using inv tr by (simp add: server_inv_def)
      ultimately show ?thesis using same c(1,2) st'(1) True by (auto simp: ticket_ok_def period_def)
    next
      case False
      moreover have "ticket_ok ?st (sv_clock sv) t" using inv t by (auto simp: server_inv_def dest: notin_set_remove1)
      ultimately show ?thesis using st'(1) by (auto simp: ticket_ok_def)
    qed
    have m2: "sent_ok st' (sv_clock sv) s" if s: "s \<in> set (sv_sent sv)" for s
    proof -
      obtain sc k ex b where x: "s = ((sc, k, ex), b)" by (metis prod.collapse)
      show ?thesis
      proof (cases "(sc, k) = ?x")
        case True
        with old [of ex b] s x show ?thesis by (auto simp: sent_ok_def)
      next
        case False
        moreover have "sent_ok ?st (sv_clock sv) s" using inv s by (simp add: server_inv_def)
        ultimately show ?thesis using x st'(1) by (auto simp: sent_ok_def)
      qed
    qed
    have m3: "sent_ok st' (sv_clock sv) (period r, a)" using st'(1) c(2) sa by (auto simp: sent_ok_def period_def)
    have "clocked pol (sv_clock sv) ?c" using inv c(1) by (auto simp: server_inv_def clocked_def)
    then have m4: "clocked pol (sv_clock sv) x" if "map_of st' y = Some x" for x y
      using that st'(1) server_invD(2) [OF inv] by (auto split: if_splits)
    show ?thesis
    proof (rule server_invI)
      fix g x y assume "(g, x) \<in> set (sv_sent (finished sv r (handler_end memory_complete r resp ?st)))"
        "(g, y) \<in> set (sv_sent (finished sv r (handler_end memory_complete r resp ?st)))"
      with no server_invD(6) [OF inv, of g x y] show "same_answer x y" by (auto simp: finished_def e a same_answer_refl)
    qed (use st' m1 m2 m3 m4 server_invD(3) [OF rest] in \<open>auto simp: finished_def e a\<close>)
  qed
qed

lemma served_inv:
  assumes "served p opts sv" and pol: "0 < ip_lease (effective_policy opts)" "0 < ip_ttl (effective_policy opts)"
    "ip_ttl (effective_policy opts) < 2 ^ 63"
  shows "\<not> sv_late sv \<longrightarrow> server_inv (effective_policy opts) sv"
  using assms(1)
proof induction
  case (start t0)
  then show ?case by (simp add: server_inv_start)
next
  case (arrive sv rq)
  have "sv_late (arrived sv x) = sv_late sv" for x by (cases x) (simp add: arrived_def)
  with arrive server_inv_arrive [OF _ pol] show ?case by simp
next
  case (finish sv r ops)
  have "sv_late (finished sv r x) \<longleftrightarrow> sv_late sv \<or> ir_expires_at r \<le> sv_clock sv" for x by (cases x) (simp add: finished_def)
  with finish server_inv_finish [of _ sv r "recorded ops"] show ?case by simp
qed (simp_all add: server_inv_tick server_inv_die server_inv_sweep)

subsection \<open>Properties\<close>

text \<open>
  A recorded answer stays. Whatever claims, completions and sweeps follow on this key and on others, as long as they
  happen before the record expires the record is what it was: every further claim with the same fingerprint is
  answered with it, every claim with another fingerprint is refused as a mismatch, and neither changes the store.
\<close>

theorem answer_is_permanent:
  assumes "idem_ok st" and "map_of st (sc, k) = Some r" and "ir_status r = IdemCompleted"
    and "list_all (op_before (ir_expires_at r)) ops" and "now < ir_expires_at r"
  shows "map_of (idem_run st ops) (sc, k) = Some r
    \<and> idem_claim (idem_run st ops) sc k fp now pol = ((r, if fp = ir_fp r then IdemReplay else IdemMismatch), idem_run st ops)"
proof -
  have "\<exists>r'. map_of (idem_run st ops) (sc, k) = Some r' \<and> r' = r"
    using idem_run_keeps [OF assms(1,2), of "\<lambda>x. x = r" "ir_expires_at r" ops] assms(3,4)
    by (simp add: decide_claim_def decide_complete_def)
  with assms(3,5) show ?thesis by (auto simp: idem_claim_def)
qed

definition demo_answer :: idem_response where
  "demo_answer = \<lparr>rs_status = 201, rs_header = Map.empty, rs_body = ''pi_1''\<rparr>"

definition demo_idem_store :: idem_store where
  "demo_idem_store = snd (idem_complete (snd (idem_claim [] ''m1'' ''k1'' ''fp'' 10 default_idem_policy)) ''m1'' ''k1'' 1 demo_answer)"

lemma demo_idem_store_look:
  "idem_ok demo_idem_store \<and> (\<exists>r. map_of demo_idem_store (''m1'', ''k1'') = Some r \<and> ir_status r = IdemCompleted
     \<and> ir_response r = Some demo_answer \<and> ir_fp r = ''fp'' \<and> ir_expires_at r = 10 + 86400000000000)"
  by (simp add: demo_idem_store_def idem_claim_def idem_complete_def new_record_def idem_ok_def record_ok_def Let_def
      default_idem_policy_def minute_def second_def time_add_def)

theorem answer_is_permanent_witness:
  "\<exists>r. idem_claim (idem_run demo_idem_store [OpComplete ''m1'' ''k1'' 1 (demo_answer\<lparr>rs_status := 500\<rparr>), OpSweep 70, OpClaim ''m1'' ''k1'' ''other'' 80 default_idem_policy])
       ''m1'' ''k1'' ''fp'' 100 default_idem_policy = ((r, IdemReplay), idem_run demo_idem_store [OpComplete ''m1'' ''k1'' 1 (demo_answer\<lparr>rs_status := 500\<rparr>), OpSweep 70, OpClaim ''m1'' ''k1'' ''other'' 80 default_idem_policy])
     \<and> ir_response r = Some demo_answer"
proof -
  obtain r where r: "map_of demo_idem_store (''m1'', ''k1'') = Some r" "ir_status r = IdemCompleted" "ir_response r = Some demo_answer"
    "ir_fp r = ''fp''" "ir_expires_at r = 10 + 86400000000000" and ok: "idem_ok demo_idem_store"
    using demo_idem_store_look by blast
  have "list_all (op_before (ir_expires_at r)) [OpComplete ''m1'' ''k1'' 1 (demo_answer\<lparr>rs_status := 500\<rparr>), OpSweep 70, OpClaim ''m1'' ''k1'' ''other'' 80 default_idem_policy]"
    using r(5) by simp
  from answer_is_permanent [OF ok r(1,2) this, of 100 "''fp''"] r show ?thesis by simp
qed

text \<open>
  One run per lease. Once a claim has been granted at some attempt, no claim of that key is granted again before
  the lease has run out, whatever claims, completions and sweeps happen in between on any key.
\<close>

theorem one_run_per_lease:
  assumes "idem_ok st" and "idem_claim st sc k fp now pol = ((r, IdemFresh), st1)"
    and "t \<le> ir_lease_until r" and "t \<le> ir_expires_at r" and "list_all (op_before t) ops" and "now' < t"
  shows "snd (fst (idem_claim (idem_run st1 ops) sc k fp' now' pol')) \<noteq> IdemFresh"
proof -
  note d = idem_claim_decides [OF assms(1,2)]
  let ?P = "\<lambda>x. t \<le> ir_expires_at x \<and> t \<le> ir_lease_until x"
  have r: "map_of st1 (sc, k) = Some r" "idem_ok st1" using d by auto
  have "\<exists>r'. map_of (idem_run st1 ops) (sc, k) = Some r' \<and> ?P r'" and ok: "idem_ok (idem_run st1 ops)"
    using idem_run_keeps [OF r(2,1), of ?P t ops] assms(3,4,5)
    by (auto simp: decide_claim_def decide_complete_def split: if_splits)
  then obtain r' where r': "map_of (idem_run st1 ops) (sc, k) = Some r'" "?P r'" by blast
  obtain x out st' where c: "idem_claim (idem_run st1 ops) sc k fp' now' pol' = ((x, out), st')" by (metis prod.collapse)
  from idem_claim_decides [OF ok c] r' assms(6) c show ?thesis by (auto simp: decide_claim_def split: if_splits)
qed

theorem one_run_per_lease_witness:
  "snd (fst (idem_claim (idem_run (snd (idem_claim [] ''m1'' ''k1'' ''fp'' 10 default_idem_policy))
      [OpClaim ''m1'' ''k1'' ''fp'' 20 default_idem_policy, OpSweep 30]) ''m1'' ''k1'' ''fp'' 40 default_idem_policy)) \<noteq> IdemFresh"
proof -
  let ?r = "new_record ''m1'' ''k1'' ''fp'' 10 default_idem_policy"
  have "idem_claim [] ''m1'' ''k1'' ''fp'' 10 default_idem_policy
      = ((?r, IdemFresh), snd (idem_claim [] ''m1'' ''k1'' ''fp'' 10 default_idem_policy))"
    by (simp add: idem_claim_def Let_def)
  moreover have "idem_ok []" by (simp add: idem_ok_def)
  moreover have "50 \<le> ir_lease_until ?r" "50 \<le> ir_expires_at ?r"
    by (simp_all add: new_record_def default_idem_policy_def time_add_def minute_def second_def)
  ultimately show ?thesis using one_run_per_lease [of "[]" "''m1''" "''k1''" "''fp''" 10 default_idem_policy ?r _ 50] by simp
qed

text \<open>
  C20. One key, one answer. However requests arrive, overtake each other, take over expired leases, die and are swept
  away: if no run finished after its record had expired, any two answers that left the server for one scope and key in
  one period of the record are the same, but for the header that marks a replay.
\<close>

theorem one_answer_per_period:
  assumes "served p opts sv" and "\<not> sv_late sv" and "(g, a) \<in> set (sv_sent sv)" and "(g, b) \<in> set (sv_sent sv)"
    and "0 < ip_lease (effective_policy opts)" and "0 < ip_ttl (effective_policy opts)"
    and "ip_ttl (effective_policy opts) < 2 ^ 63"
  shows "rs_status a = rs_status b \<and> rs_body a = rs_body b
    \<and> (\<forall>h. h \<noteq> header_replayed \<longrightarrow> rs_header a h = rs_header b h)"
proof -
  have "same_answer a b" using served_inv [OF assms(1,5-7)] assms(2-4) server_invD(6) by blast
  then have "rs_status a = rs_status b" "rs_body a = rs_body b"
    and h: "((rs_header a)(header_replayed := None)) h = ((rs_header b)(header_replayed := None)) h" for h
    unfolding same_answer_def by metis+
  then show ?thesis using h by (metis fun_upd_other)
qed

definition demo_options :: idem_options where
  "demo_options = \<lparr>io_policy = \<lparr>ip_ttl = 0, ip_lease = 0\<rparr>, io_scope = scope_from_bearer\<rparr>"

definition demo_http_request :: http_request where
  "demo_http_request = \<lparr>rq_method = ''POST'', rq_path = ''/v1/payment_intents'',
     rq_header = [''Authorization'' \<mapsto> [''Bearer m1''], header_key \<mapsto> [''k1'']], rq_body = ''{}'', rq_body_err = None\<rparr>"

text \<open>The first request runs and is answered, the second one is replayed.\<close>

definition demo_first :: idem_record where
  "demo_first = new_record ''m1'' ''k1'' (fingerprint_of demo_platform ''POST'' ''/v1/payment_intents'' ''{}'') 10 default_idem_policy"

lemma demo_policy: "effective_policy demo_options = default_idem_policy"
  by (simp add: effective_policy_def demo_options_def)

lemma demo_begin_gen:
  "handler_begin demo_platform demo_options memory_claim demo_http_request now st
     = (case idem_claim st ''m1'' ''k1'' (fingerprint_of demo_platform ''POST'' ''/v1/payment_intents'' ''{}'') now default_idem_policy of
          ((r, out), st') \<Rightarrow> (answer_claim (fingerprint_of demo_platform ''POST'' ''/v1/payment_intents'' ''{}'') ''k1'' ''{}'' now r out, st'))"
proof -
  have "scope_from_bearer demo_http_request = Some ''m1''" "validate_key ''k1'' = None" by code_simp+
  then show ?thesis
    by (simp add: handler_begin_def demo_policy [unfolded demo_options_def] demo_options_def read_limited_def max_body_bytes_def
        header_get_def demo_http_request_def header_key_def memory_claim_def Let_def demo_policy split: prod.splits)
qed

definition demo_sv :: "idem_server list" where
  "demo_sv =
     (let begin = (\<lambda>sv. arrived sv (handler_begin demo_platform demo_options memory_claim demo_http_request (sv_clock sv) (sv_store sv)));
          s0 = \<lparr>sv_store = new_idem_store, sv_clock = 10, sv_running = [], sv_sent = [], sv_late = False\<rparr>;
          s1 = begin s0;
          s2 = finished s1 demo_first (handler_end memory_complete demo_first (recorded [WriteHeader 201, Write ''pi_1'']) (sv_store s1))
      in [s1, s2, begin s2])"

lemma demo_sv_served:
  "served demo_platform demo_options (demo_sv ! 2) \<and> \<not> sv_late (demo_sv ! 2)
   \<and> (period demo_first, demo_answer) \<in> set (sv_sent (demo_sv ! 2))
   \<and> (period demo_first, replay_answer demo_answer) \<in> set (sv_sent (demo_sv ! 2))"
proof -
  let ?done = "demo_first\<lparr>ir_status := IdemCompleted, ir_response := Some demo_answer\<rparr>"
  have a: "recorded [WriteHeader 201, Write ''pi_1''] = demo_answer"
    by (simp add: recorded_def new_recorder_def recorder_write_header_def recorder_write_def demo_answer_def Let_def)
  have f: "ir_scope demo_first = ''m1''" "ir_key demo_first = ''k1''" "ir_attempt demo_first = 1" "ir_status demo_first = IdemInFlight"
    "ir_fp demo_first = fingerprint_of demo_platform ''POST'' ''/v1/payment_intents'' ''{}''" "10 < ir_expires_at demo_first"
    by (simp_all add: demo_first_def new_record_def default_idem_policy_def time_add_def minute_def second_def)
  have s1: "demo_sv ! 0 = \<lparr>sv_store = [((''m1'', ''k1''), demo_first)], sv_clock = 10, sv_running = [demo_first], sv_sent = [], sv_late = False\<rparr>"
    by (simp add: demo_sv_def Let_def arrived_def demo_begin_gen idem_claim_def new_idem_store_def demo_first_def answer_claim_def)
  then have s2: "demo_sv ! 1 = \<lparr>sv_store = [((''m1'', ''k1''), ?done)], sv_clock = 10, sv_running = [],
      sv_sent = [(period demo_first, demo_answer)], sv_late = False\<rparr>"
    using f by (simp add: demo_sv_def Let_def finished_def handler_end_def memory_complete_def idem_complete_def a copy_header_def)
  then have s3: "demo_sv ! 2 = \<lparr>sv_store = [((''m1'', ''k1''), ?done)], sv_clock = 10, sv_running = [],
      sv_sent = [(period demo_first, replay_answer demo_answer), (period demo_first, demo_answer)], sv_late = False\<rparr>"
    using f by (simp add: demo_sv_def Let_def arrived_def demo_begin_gen idem_claim_def answer_claim_def period_def)
  let ?b = "\<lambda>sv. arrived sv (handler_begin demo_platform demo_options memory_claim demo_http_request (sv_clock sv) (sv_store sv))"
  have "served demo_platform demo_options (demo_sv ! 0)"
    using served.arrive [OF served.start [of demo_platform demo_options 10], of demo_http_request] by (simp add: demo_sv_def Let_def)
  from served.finish [OF this, of demo_first "[WriteHeader 201, Write ''pi_1'']"] s1
  have "served demo_platform demo_options (demo_sv ! 1)" by (simp add: demo_sv_def Let_def)
  from served.arrive [OF this, of demo_http_request] have "served demo_platform demo_options (demo_sv ! 2)" by (simp add: demo_sv_def Let_def)
  with s3 show ?thesis by simp
qed

theorem one_answer_per_period_witness:
  "rs_status demo_answer = rs_status (replay_answer demo_answer) \<and> rs_body demo_answer = rs_body (replay_answer demo_answer)"
  using one_answer_per_period [of demo_platform demo_options "demo_sv ! 2" "period demo_first" demo_answer "replay_answer demo_answer"]
    demo_sv_served demo_policy by (simp add: default_idem_policy_def minute_def second_def)

text \<open>
  C40. A run that outlives its record answers the next request. Attempts start again at one when a record has expired, so
  the completion of an old first attempt is accepted for the key's next period: the answer to the old request is
  recorded and replayed for a different one, where a superseded attempt was to be refused.
\<close>

theorem late_run_answers_the_next_request:
  assumes "idem_ok st" and "map_of st (sc, k) = None" and "idem_claim st sc k fp now pol = ((r, IdemFresh), st1)"
    and "ir_expires_at r \<le> now2" and "idem_claim st1 sc k fp2 now2 pol = ((r2, out), st2)"
    and "idem_complete st2 sc k (ir_attempt r) resp = (e, st3)" and "now3 < ir_expires_at r2"
  shows "out = IdemFresh \<and> e = None
    \<and> (\<exists>r3. idem_claim st3 sc k fp2 now3 pol = ((r3, IdemReplay), st3) \<and> ir_fp r3 = fp2 \<and> ir_response r3 = Some resp)"
proof -
  have r: "r = new_record sc k fp now pol" and s1: "map_of st1 (sc, k) = Some r" "idem_ok st1"
    using idem_claim_decides [OF assms(1,3)] assms(2) by (auto simp: decide_claim_def)
  from idem_claim_decides [OF s1(2) assms(5)] s1(1) assms(4)
  have r2: "r2 = new_record sc k fp2 now2 pol" "out = IdemFresh" "map_of st2 (sc, k) = Some r2" "idem_ok st2"
    by (auto simp: decide_claim_def)
  have "ir_attempt r = ir_attempt r2" "ir_status r2 = IdemInFlight" by (simp_all add: r r2 new_record_def)
  with idem_complete_decides [OF r2(4) assms(6)] r2(3)
  have "e = None" "map_of st3 (sc, k) = Some (r2\<lparr>ir_status := IdemCompleted, ir_response := Some resp\<rparr>)"
    by (auto simp: decide_complete_def)
  with assms(7) r2 show ?thesis by (simp add: idem_claim_def new_record_def)
qed

theorem late_run_answers_the_next_request_witness:
  "\<exists>r2 st2 st3 r3. idem_claim (snd (idem_claim [] ''m1'' ''k1'' ''fp'' 10 default_idem_policy)) ''m1'' ''k1'' ''other'' 90000000000000 default_idem_policy
        = ((r2, IdemFresh), st2) \<and> idem_complete st2 ''m1'' ''k1'' 1 demo_answer = (None, st3)
     \<and> idem_claim st3 ''m1'' ''k1'' ''other'' 90000000000001 default_idem_policy = ((r3, IdemReplay), st3) \<and> ir_response r3 = Some demo_answer"
proof -
  let ?r = "new_record ''m1'' ''k1'' ''fp'' 10 default_idem_policy" and ?st1 = "snd (idem_claim [] ''m1'' ''k1'' ''fp'' 10 default_idem_policy)"
  have a: "idem_claim [] ''m1'' ''k1'' ''fp'' 10 default_idem_policy = ((?r, IdemFresh), ?st1)" by (simp add: idem_claim_def Let_def)
  have b: "ir_expires_at ?r \<le> 90000000000000" "ir_attempt ?r = 1" "idem_ok []"
    by (simp_all add: new_record_def default_idem_policy_def time_add_def minute_def second_def idem_ok_def)
  obtain r2 out st2 where c: "idem_claim ?st1 ''m1'' ''k1'' ''other'' 90000000000000 default_idem_policy = ((r2, out), st2)"
    by (metis prod.collapse)
  obtain e st3 where d: "idem_complete st2 ''m1'' ''k1'' (ir_attempt ?r) demo_answer = (e, st3)" by fastforce
  have "r2 = new_record ''m1'' ''k1'' ''other'' 90000000000000 default_idem_policy"
    using c by (auto simp: idem_claim_def Let_def new_record_def default_idem_policy_def time_add_def minute_def second_def)
  then have "90000000000001 < ir_expires_at r2"
    by (simp add: new_record_def default_idem_policy_def time_add_def minute_def second_def)
  from late_run_answers_the_next_request [OF b(3) _ a b(1) c d this] b(2) c d show ?thesis by auto
qed

subsection \<open>One request after another\<close>

lemma not_completed: "s \<noteq> IdemCompleted \<longleftrightarrow> s = IdemInFlight"
  by (cases s) simp_all

lemma running_is_in_flight: "(r, IdemFresh) = decide_claim v sc k fp now pol \<Longrightarrow> ir_status r = IdemInFlight"
  by (auto simp: decide_claim_def new_record_def take_over_def not_completed split: option.splits if_splits)

lemma running_has_fp: "(r, IdemFresh) = decide_claim v sc k fp now pol \<Longrightarrow> ir_fp r = fp"
  by (auto simp: decide_claim_def new_record_def take_over_def split: option.splits if_splits)

lemma answer_claim_running: "answer_claim fp k body now x out = Running r b \<Longrightarrow> b = body"
  by (cases out) (auto simp: answer_claim_def refuse_def split: option.splits)

text \<open>A request that ran to its end is recorded with the answer it got, and asked again it is answered from the record.\<close>

lemma handle_records:
  assumes ok: "idem_ok st" and b: "handler_begin p opts memory_claim rq now st = (Running r body, st0)"
    and a: "app w (rq\<lparr>rq_body := body, rq_body_err := None\<rparr>) = (ops, w')"
  shows "\<exists>st'. handle p opts memory_claim memory_complete app rq now (st, w) = (Some (recorded ops), st', w')
    \<and> idem_ok st' \<and> map_of st' (ir_scope r, ir_key r) = Some (r\<lparr>ir_status := IdemCompleted, ir_response := Some (recorded ops)\<rparr>)"
proof -
  have m: "map_of st0 (ir_scope r, ir_key r) = Some r \<and> idem_ok st0 \<and> ir_status r = IdemInFlight"
  proof (rule idem.begin_cases [OF ok b])
    fix r' body'
    assume "Running r body = Running r' body'" "idem_ok st0" "map_of st0 = (map_of st)((ir_scope r', ir_key r') \<mapsto> r')"
      "(r', IdemFresh) = decide_claim (map_of st (ir_scope r', ir_key r')) (ir_scope r') (ir_key r')
         (fingerprint_of p (rq_method rq) (rq_path rq) body') now (effective_policy opts)"
    then show ?thesis using running_is_in_flight [of r] by (metis begun.inject(3) fun_upd_same)
  qed auto
  obtain e st' where c: "idem_complete st0 (ir_scope r) (ir_key r) (ir_attempt r) (recorded ops) = (e, st')" by fastforce
  from idem_complete_decides [OF conjunct1 [OF conjunct2 [OF m]] c] m
  have "e = None" "idem_ok st'"
    "map_of st' (ir_scope r, ir_key r) = Some (r\<lparr>ir_status := IdemCompleted, ir_response := Some (recorded ops)\<rparr>)"
    by (auto simp: decide_complete_def)
  with c b a show ?thesis by (simp add: handle_def handler_end_def memory_complete_def copy_header_def Let_def)
qed

lemma handle_again:
  assumes ok: "idem_ok st" and b: "handler_begin p opts memory_claim rq now st = (Running r body, st0)"
    and m: "map_of st1 (ir_scope r, ir_key r) = Some (r\<lparr>ir_status := IdemCompleted, ir_response := Some resp\<rparr>)"
    and t: "t < ir_expires_at r"
  shows "handle p opts memory_claim memory_complete app rq t (st1, w) = (Some (replay_answer resp), st1, w)"
proof -
  have g: "rq_method rq \<notin> {''GET'', ''HEAD'', ''OPTIONS''}" "validate_key (header_get (rq_header rq) header_key) = None"
    "header_get (rq_header rq) header_key \<noteq> ''''" "\<not> length body > max_body_bytes"
    using b by (auto simp: handler_begin_def refuse_def Let_def dest: answer_claim_running split: if_splits option.splits sum.splits prod.splits)
  have "io_scope opts rq = Some (ir_scope r) \<and> header_get (rq_header rq) header_key = ir_key r
     \<and> read_limited rq (max_body_bytes + 1) = Inr body \<and> ir_fp r = fingerprint_of p (rq_method rq) (rq_path rq) body"
  proof (rule idem.begin_cases [OF ok b])
    fix r' body'
    assume "Running r body = Running r' body'" "io_scope opts rq = Some (ir_scope r')"
      "header_get (rq_header rq) header_key = ir_key r'" "read_limited rq (max_body_bytes + 1) = Inr body'"
      "(r', IdemFresh) = decide_claim (map_of st (ir_scope r', ir_key r')) (ir_scope r') (ir_key r')
         (fingerprint_of p (rq_method rq) (rq_path rq) body') now (effective_policy opts)"
    then show ?thesis using running_has_fp by (metis begun.inject(3))
  qed auto
  with g m t show ?thesis
    by (simp add: handle_def handler_begin_def Let_def memory_claim_def idem_claim_def answer_claim_def)
qed

end
