(* ===== verification/Api.thy ===== *)
theory Api
  imports Idempotency Intent_Store
begin

section \<open>The HTTP API\<close>

text \<open>
  Models \<open>internal/api/api.go\<close>: the server with its three routes, the creation of an intent behind the idempotency
  handler, the two reads, and the JSON shapes.

  The pattern that \<open>http.ServeMux\<close> matched, with its path value, is an argument; so are what \<open>encoding/json\<close> makes of a
  request body (\<open>ae_decode\<close>), the clock and the random bytes behind an intent id. The intent store is the memory store.
  Creation counts its calls, so that the clock and the generator can answer differently each time.
\<close>

subsection \<open>Requests and answers\<close>

record create_intent_request =
  cr_chain :: string
  cr_token :: string
  cr_payer :: string
  cr_merchant :: string
  cr_amount :: string
  cr_expires_in_seconds :: int

record api_env =
  ae_platform :: platform
  ae_decode :: "bytes \<Rightarrow> string + create_intent_request"
  ae_now :: "nat \<Rightarrow> time"
  ae_new_id :: "nat \<Rightarrow> string"

record api_world =
  aw_intents :: memory_store
  aw_calls :: nat

definition new_intent_id :: "bytes \<Rightarrow> string" where
  "new_intent_id b = ''pi_'' @ hex_encode b"

definition json_time :: "platform \<Rightarrow> time \<Rightarrow> string" where
  "json_time p t = CHR 0x22 # rfc3339nano p t @ [CHR 0x22]"

definition amount_string :: "int option \<Rightarrow> string" where
  "amount_string a = (case a of None \<Rightarrow> ''<nil>'' | Some n \<Rightarrow> show_int n)"

definition intent_response :: "platform \<Rightarrow> intent \<Rightarrow> string" where
  "intent_response p it = json_object (
     [(''id'', json_string (i_id it)), (''ref'', json_string (ref_string (i_ref it))), (''chain'', json_string (i_chain it)),
      (''token'', json_string (i_token it)), (''payer'', json_string (i_payer it)), (''merchant'', json_string (i_merchant it)),
      (''amount'', json_string (amount_string (i_amount it))), (''state'', json_string (state_name (i_state it))),
      (''version'', show_nat (unat (i_version it))), (''created_at'', json_time p (i_created_at it))]
     @ (if i_expires_at it = 0 then [] else [(''expires_at'', json_time p (i_expires_at it))]))"

definition transition_response :: "platform \<Rightarrow> transition \<Rightarrow> string" where
  "transition_response p h = json_object (
     [(''from'', json_string (state_name (tr_from h))), (''to'', json_string (state_name (tr_to h))),
      (''by'', json_string (actor_name (tr_by h))), (''at'', json_time p (tr_at h))]
     @ (if tr_tx_hash h = '''' then [] else [(''tx_hash'', json_string (tr_tx_hash h))])
     @ (if tr_reason h = '''' then [] else [(''reason'', json_string (tr_reason h))]))"

fun json_elements :: "string list \<Rightarrow> string" where
  "json_elements [] = []"
| "json_elements [x] = x"
| "json_elements (x # y # ys) = x @ '','' @ json_elements (y # ys)"

definition trace_response :: "platform \<Rightarrow> intent \<Rightarrow> string" where
  "trace_response p it = json_object
     [(''ref'', json_string (ref_string (i_ref it))), (''intent'', intent_response p it),
      (''history'', ''['' @ json_elements (map (transition_response p) (i_history it)) @ '']'')]"

definition intent_response_text :: "intent \<Rightarrow> string" where
  "intent_response_text it = i_id it @ '' '' @ state_name (i_state it) @ '' v'' @ show_nat (unat (i_version it)) @ '' ''
     @ amount_string (i_amount it) @ '' '' @ i_merchant it"

definition transition_response_text :: "transition \<Rightarrow> string" where
  "transition_response_text h = trim_right
     (pad_right 12 (state_name (tr_from h)) @ '' -> '' @ pad_right 12 (state_name (tr_to h)) @ '' by '' @ pad_right 8 (actor_name (tr_by h))
      @ (if tr_tx_hash h = '''' then '''' else ''  tx '' @ tr_tx_hash h)
      @ (if tr_reason h = '''' then '''' else ''  ('' @ tr_reason h @ '')''))"

definition write_json :: "int \<Rightarrow> string \<Rightarrow> write_op list" where
  "write_json status v = [SetHeader ''Content-Type'' [''application/json''], WriteHeader status, Write (v @ newline)]"

text \<open>The messages of the errors the API passes on.\<close>

definition hex_upper :: "nat \<Rightarrow> char" where
  "hex_upper d = (if d < 10 then char_of (48 + d) else char_of (55 + d))"

definition invalid_byte_text :: "char \<Rightarrow> string" where
  "invalid_byte_text c =
     (let n = of_char c :: nat in
      ''encoding/hex: invalid byte: U+00'' @ [hex_upper (n div 16), hex_upper (n mod 16)]
        @ (if 0x20 \<le> n \<and> n < 0x7F then '' '' @ [CHR 0x27, c, CHR 0x27]
           else if 0xA1 \<le> n \<and> n \<noteq> 0xAD then '' '' @ [CHR 0x27, char_of (0xC0 + n div 64), char_of (0x80 + n mod 64), CHR 0x27]
           else ''''))"

definition ref_error_text :: "string \<Rightarrow> string" where
  "ref_error_text s = ''paymentref: invalid ref: '' @
     (if length s \<noteq> 2 + 2 * ref_size \<or> take 2 s \<noteq> ''0x''
      then ''want 0x followed by '' @ show_nat (2 * ref_size) @ '' hex chars, got '' @ show_nat (length s) @ '' chars''
      else case find (\<lambda>c. hex_value c = None) (drop 2 s) of Some c \<Rightarrow> invalid_byte_text c | None \<Rightarrow> '''')"

definition invalid_spec_text :: "string \<Rightarrow> string" where
  "invalid_spec_text m = ''intent: invalid spec: '' @ m"

definition save_error_text :: "platform \<Rightarrow> memory_store \<Rightarrow> intent \<Rightarrow> intent_error \<Rightarrow> string" where
  "save_error_text p s it e =
     (if e = ErrVersionConflict then ''intent: version conflict: '' @ i_id it @
        (case store_get s (i_id it) of Inl _ \<Rightarrow> '' does not exist, expected version 0''
         | Inr cur \<Rightarrow> '' is at version '' @ show_nat (unat (i_version cur)) @ '', expected 0'')
      else ''intent: payment ref does not match the intent terms: '' @ i_id it @ '' has ref '' @ ref_string (i_ref it)
        @ '', terms derive '' @ ref_string (derive p (intent_terms it)))"

subsection \<open>The handlers\<close>

text \<open>\<open>time.Duration(n) * time.Second\<close> wraps at 64 bits.\<close>

definition expiry_of :: "time \<Rightarrow> int \<Rightarrow> time" where
  "expiry_of now secs = (if 0 < secs then time_add now (wrap_int64 (secs * second)) else 0)"

definition create_intent :: "api_env \<Rightarrow> api_world app" where
  "create_intent ev w rq =
     (case ae_decode ev (rq_body rq) of
        Inl e \<Rightarrow> (write_error 400 ''invalid_json'' e, w)
      | Inr cr \<Rightarrow>
          (case parse_int (cr_amount cr) of
             None \<Rightarrow> (write_error 400 ''invalid_request'' ''amount must be a base-10 integer string'', w)
           | Some amount \<Rightarrow>
               (let n = aw_calls w; now = ae_now ev n; w = w\<lparr>aw_calls := Suc n\<rparr>;
                    sp = \<lparr>spec_id = ae_new_id ev n, spec_chain = cr_chain cr, spec_token = cr_token cr, spec_payer = cr_payer cr,
                          spec_merchant = cr_merchant cr, spec_amount = Some amount,
                          spec_expires_at = expiry_of now (cr_expires_in_seconds cr)\<rparr>
                in case new_intent (ae_platform ev) sp now of
                     Inl (ErrInvalidSpec m) \<Rightarrow> (write_error 400 ''invalid_request'' (invalid_spec_text m), w)
                   | Inl _ \<Rightarrow> (write_error 500 ''internal'' '''', w)
                   | Inr it \<Rightarrow>
                       (case store_save (ae_platform ev) (aw_intents w) it 0 of
                          Inl e \<Rightarrow> (write_error 500 ''internal'' (save_error_text (ae_platform ev) (aw_intents w) it e), w)
                        | Inr s \<Rightarrow>
                            (SetHeader ''Location'' [''/v1/payment_intents/'' @ i_id it]
                               # write_json 201 (intent_response (ae_platform ev) it),
                             w\<lparr>aw_intents := s\<rparr>)))))"

definition get_intent :: "platform \<Rightarrow> memory_store \<Rightarrow> string \<Rightarrow> write_op list" where
  "get_intent p s k =
     (case store_get s k of
        Inl e \<Rightarrow> write_error 404 ''not_found'' (''intent: not found: '' @ k)
      | Inr it \<Rightarrow> write_json 200 (intent_response p it))"

definition trace_ref :: "platform \<Rightarrow> memory_store \<Rightarrow> string \<Rightarrow> write_op list" where
  "trace_ref p s t =
     (case parse_ref t of
        Inl e \<Rightarrow> write_error 400 ''invalid_ref'' (ref_error_text t)
      | Inr r \<Rightarrow>
          (case store_get_by_ref s r of
             Inl e \<Rightarrow> write_error 404 ''not_found'' (''intent: not found: ref '' @ ref_string r)
           | Inr it \<Rightarrow> write_json 200 (trace_response p it)))"

datatype route = RouteCreate | RouteGet string | RouteTrace string

text \<open>The server: the idempotency store and the world of the API. The clock of a request is read before its claim.\<close>

definition api_options :: "idem_policy \<Rightarrow> idem_options" where
  "api_options pol = \<lparr>io_policy = pol, io_scope = scope_from_bearer\<rparr>"

definition serve :: "api_env \<Rightarrow> idem_policy \<Rightarrow> route \<Rightarrow> http_request \<Rightarrow> time \<Rightarrow> idem_store \<times> api_world
    \<Rightarrow> http_response option \<times> idem_store \<times> api_world" where
  "serve ev pol rt rq now sw =
     (case rt of
        RouteCreate \<Rightarrow> handle (ae_platform ev) (api_options pol) memory_claim memory_complete (create_intent ev) rq now sw
      | RouteGet k \<Rightarrow> (Some (net_response (get_intent (ae_platform ev) (aw_intents (snd sw)) k)), sw)
      | RouteTrace t \<Rightarrow> (Some (net_response (trace_ref (ae_platform ev) (aw_intents (snd sw)) t)), sw))"

subsection \<open>Properties\<close>

fun retries :: "api_env \<Rightarrow> idem_policy \<Rightarrow> http_request \<Rightarrow> time list \<Rightarrow> idem_store \<times> api_world
    \<Rightarrow> http_response option list \<times> idem_store \<times> api_world" where
  "retries ev pol rq [] sw = ([], sw)"
| "retries ev pol rq (t # ts) sw =
     (case serve ev pol RouteCreate rq t sw of (a, sw') \<Rightarrow>
        (case retries ev pol rq ts sw' of (as, sw'') \<Rightarrow> (a # as, sw'')))"

lemma created_response:
  "net_response (SetHeader l v # write_json n j) = \<lparr>rs_status = n, rs_header = [l \<mapsto> v, ''Content-Type'' \<mapsto> [''application/json'']], rs_body = j @ newline\<rparr>"
  by (simp add: net_response_def write_json_def net_write_header_def Let_def)

lemma json_response:
  "net_response (write_json n j) = \<lparr>rs_status = n, rs_header = [''Content-Type'' \<mapsto> [''application/json'']], rs_body = j @ newline\<rparr>"
  by (simp add: net_response_def write_json_def net_write_header_def Let_def)

lemma error_status: "rs_status (net_response (write_error n c d)) = n"
  by (simp add: net_response_def write_error_def net_write_header_def Let_def)

lemma recorded_is_net:
  "recorded (SetHeader l v # write_json n j) = net_response (SetHeader l v # write_json n j)"
  "recorded (write_error n c d) = net_response (write_error n c d)"
  by (simp_all add: created_response recorded_def write_json_def write_error_def new_recorder_def recorder_write_header_def
      recorder_write_def net_response_def net_write_header_def Let_def)

text \<open>Creation either writes an error and leaves the intents alone, or stores a new intent and answers with it.\<close>

lemma create_intent_cases:
  assumes "create_intent ev w rq = (ops, w')"
  obtains (refused) n :: int and c d where "ops = write_error n c d" "n \<in> {400, 500}" "aw_intents w' = aw_intents w"
    | (created) cr a it where "ae_decode ev (rq_body rq) = Inr cr" "parse_int (cr_amount cr) = Some a"
        "new_intent (ae_platform ev) \<lparr>spec_id = ae_new_id ev (aw_calls w), spec_chain = cr_chain cr, spec_token = cr_token cr,
           spec_payer = cr_payer cr, spec_merchant = cr_merchant cr, spec_amount = Some a,
           spec_expires_at = expiry_of (ae_now ev (aw_calls w)) (cr_expires_in_seconds cr)\<rparr> (ae_now ev (aw_calls w)) = Inr it"
        "store_save (ae_platform ev) (aw_intents w) it 0 = Inr (aw_intents w')"
        "ops = SetHeader ''Location'' [''/v1/payment_intents/'' @ i_id it] # write_json 201 (intent_response (ae_platform ev) it)"
proof (cases "ae_decode ev (rq_body rq)")
  case (Inl e)
  with assms have "ops = write_error 400 ''invalid_json'' e" "w' = w" by (auto simp: create_intent_def)
  then show ?thesis using refused by blast
next
  case d: (Inr cr)
  show ?thesis
  proof (cases "parse_int (cr_amount cr)")
    case None
    with assms d have "\<exists>c d. ops = write_error 400 c d" "w' = w" by (auto simp: create_intent_def)
    then show ?thesis using refused by blast
  next
    case (Some a)
    let ?n = "new_intent (ae_platform ev) \<lparr>spec_id = ae_new_id ev (aw_calls w), spec_chain = cr_chain cr, spec_token = cr_token cr,
           spec_payer = cr_payer cr, spec_merchant = cr_merchant cr, spec_amount = Some a,
           spec_expires_at = expiry_of (ae_now ev (aw_calls w)) (cr_expires_in_seconds cr)\<rparr> (ae_now ev (aw_calls w))"
    show ?thesis
    proof (cases ?n)
      case (Inl e)
      have "(\<exists>c d. ops = write_error 400 c d \<or> ops = write_error 500 c d) \<and> aw_intents w' = aw_intents w"
        using assms d Some Inl by (auto simp: create_intent_def Let_def split: intent_error.splits)
      then show ?thesis using refused by blast
    next
      case (Inr it)
      show ?thesis
      proof (cases "store_save (ae_platform ev) (aw_intents w) it 0")
        case (Inl e)
        have "(\<exists>c d. ops = write_error 500 c d) \<and> aw_intents w' = aw_intents w"
          using assms d Some Inl Inr by (auto simp: create_intent_def Let_def)
        then show ?thesis using refused by blast
      next
        case s: (Inr st)
        with assms d Some Inr created [OF d Some Inr] show ?thesis by (auto simp: create_intent_def Let_def)
      qed
    qed
  qed
qed

lemma create_recorded: "create_intent ev w rq = (ops, w') \<Longrightarrow> recorded ops = net_response ops"
  by (erule create_intent_cases) (simp_all add: recorded_is_net)

lemma create_saved_new:
  assumes "create_intent ev w rq = (ops, w')" and "aw_intents w' \<noteq> aw_intents w \<or> rs_status (net_response ops) = 201"
  obtains it where "new_intent (ae_platform ev) sp now = Inr it \<Longrightarrow> True" "store_save (ae_platform ev) (aw_intents w) it 0 = Inr (aw_intents w')"
    "net_response ops = \<lparr>rs_status = 201, rs_header = [''Location'' \<mapsto> [''/v1/payment_intents/'' @ i_id it], ''Content-Type'' \<mapsto> [''application/json'']],
       rs_body = intent_response (ae_platform ev) it @ newline\<rparr>" "i_id it = ae_new_id ev (aw_calls w)" "i_version it = 1"
  using assms(1)
proof (cases rule: create_intent_cases)
  case (refused n c d)
  with assms(2) show ?thesis by (auto simp: error_status)
next
  case (created cr a it)
  from created(3) have "i_id it = ae_new_id ev (aw_calls w)" "i_version it = 1"
    by (auto simp: new_intent_def Let_def split: if_splits)
  with created show ?thesis using that by (simp add: created_response)
qed

text \<open>
  C24. One POST, however often it is sent. Once a creation request has claimed its key and run, every retry of the same
  request before the record expires gets the first answer back, byte for byte and marked as a replay, and neither store
  changes; the first answer is the one intent that was created, or an error without any.
\<close>

theorem retries_create_one_intent:
  assumes ok: "idem_ok st" and b: "handler_begin (ae_platform ev) (api_options pol) memory_claim rq now st = (Running r body, st0)"
    and s: "serve ev pol RouteCreate rq now (st, w) = (a, st1, w1)" and t: "\<forall>t \<in> set ts. t < ir_expires_at r"
  shows "\<exists>ans. a = Some ans \<and> retries ev pol rq ts (st1, w1) = (replicate (length ts) (Some (replay_answer ans)), st1, w1)
    \<and> (if rs_status ans = 201
       then \<exists>it. store_save (ae_platform ev) (aw_intents w) it 0 = Inr (aw_intents w1)
         \<and> rs_body ans = intent_response (ae_platform ev) it @ newline
       else aw_intents w1 = aw_intents w)"
proof -
  obtain ops w' where c: "create_intent ev w (rq\<lparr>rq_body := body, rq_body_err := None\<rparr>) = (ops, w')" by fastforce
  from handle_records [where app = "create_intent ev", OF ok b c] s
  have a: "a = Some (recorded ops)" and w: "w1 = w'" and m: "map_of st1 (ir_scope r, ir_key r)
      = Some (r\<lparr>ir_status := IdemCompleted, ir_response := Some (recorded ops)\<rparr>)"
    by (auto simp: serve_def)
  have "retries ev pol rq ts (st1, w1) = (replicate (length ts) (Some (replay_answer (recorded ops))), st1, w1)"
    using t
  proof (induction ts)
    case (Cons x xs)
    with handle_again [where app = "create_intent ev", OF ok b m] show ?case by (simp add: serve_def)
  qed simp
  moreover have "if rs_status (recorded ops) = 201
       then \<exists>it. store_save (ae_platform ev) (aw_intents w) it 0 = Inr (aw_intents w1)
         \<and> rs_body (recorded ops) = intent_response (ae_platform ev) it @ newline
       else aw_intents w1 = aw_intents w"
    using create_saved_new [OF c] create_recorded [OF c] w by (metis http_response.select_convs(1,3))
  ultimately show ?thesis using a by blast
qed

definition demo_api_env :: "int \<Rightarrow> api_env" where
  "demo_api_env secs = \<lparr>ae_platform = demo_platform,
     ae_decode = (\<lambda>_. Inr \<lparr>cr_chain = ''evm:1'', cr_token = ''usdc'', cr_payer = ''p'', cr_merchant = ''m'', cr_amount = ''100'',
       cr_expires_in_seconds = secs\<rparr>),
     ae_now = (\<lambda>_. 63000000000000000000), ae_new_id = (\<lambda>n. ''pi_'' @ show_nat n)\<rparr>"

definition demo_api_world :: api_world where
  "demo_api_world = \<lparr>aw_intents = empty_store, aw_calls = 0\<rparr>"

lemma demo_api_env_simps:
  "ae_new_id (demo_api_env secs) (aw_calls demo_api_world) = ''pi_0''" "ae_platform (demo_api_env secs) = demo_platform"
proof -
  have "show_nat 0 = ''0''" by code_simp
  then show "ae_new_id (demo_api_env secs) (aw_calls demo_api_world) = ''pi_0''" "ae_platform (demo_api_env secs) = demo_platform"
    by (simp_all add: demo_api_env_def demo_api_world_def)
qed

lemma demo_create:
  assumes "secs \<in> {0, 60, 18446744074}"
  shows "\<exists>ops w'. create_intent (demo_api_env secs) demo_api_world demo_http_request = (ops, w')
    \<and> rs_status (net_response ops) = 201"
  using assms
  by (auto simp: create_intent_def demo_api_env_def demo_api_world_def parse_int_def Let_def new_intent_def store_save_def
      empty_store_def created_response expiry_of_def wrap_int64_def second_def time_add_def is_digit_def read_digits_def
      char_digit_def)

theorem retries_create_one_intent_witness:
  "\<exists>ans st1 w1. serve (demo_api_env 60) default_idem_policy RouteCreate demo_http_request 10 ([], demo_api_world) = (Some ans, st1, w1)
     \<and> retries (demo_api_env 60) default_idem_policy demo_http_request [20, 70000000000, 5] (st1, w1)
         = (replicate 3 (Some (replay_answer ans)), st1, w1)"
proof -
  let ?fp = "fingerprint_of demo_platform ''POST'' ''/v1/payment_intents'' ''{}''"
  obtain a st1 w1 where s: "serve (demo_api_env 60) default_idem_policy RouteCreate demo_http_request 10 ([], demo_api_world) = (a, st1, w1)"
    by (metis prod.collapse)
  have b: "handler_begin (ae_platform (demo_api_env 60)) (api_options default_idem_policy) memory_claim demo_http_request 10 []
     = (Running demo_first ''{}'', [((''m1'', ''k1''), demo_first)])"
  proof -
    have "scope_from_bearer demo_http_request = Some ''m1''" "validate_key ''k1'' = None" by code_simp+
    then show ?thesis
      by (simp add: handler_begin_def api_options_def effective_policy_def default_idem_policy_def minute_def second_def
          read_limited_def max_body_bytes_def header_get_def demo_http_request_def header_key_def memory_claim_def idem_claim_def
          answer_claim_def demo_first_def demo_api_env_def Let_def)
  qed
  have "\<forall>t \<in> set [20, 70000000000, 5]. t < ir_expires_at demo_first"
    by (simp add: demo_first_def new_record_def default_idem_policy_def time_add_def minute_def second_def)
  from retries_create_one_intent [OF _ b s this] s show ?thesis by (auto simp: idem_ok_def numeral_3_eq_3)
qed

text \<open>
  What the API creates it can find again. A creation that answers 201 stored one new intent under the generated id
  and touched no other; under that id there was none, or one whose version counter had wrapped to zero. Asked for by id
  the server answers 200 with the very same body, and asked for by the ref in it with the trace of that intent.
\<close>

theorem created_intent_is_served:
  assumes "create_intent ev w rq = (ops, w')" and "rs_status (net_response ops) = 201"
    and len: "\<And>x. length (sha256 (ae_platform ev) x) = ref_size"
  shows "\<exists>it. i_id it = ae_new_id ev (aw_calls w)
    \<and> (\<forall>cur. store_get (aw_intents w) (i_id it) = Inr cur \<longrightarrow> i_version cur = 0)
    \<and> (\<forall>k. k \<noteq> i_id it \<longrightarrow> store_get (aw_intents w') k = store_get (aw_intents w) k)
    \<and> rs_body (net_response (get_intent (ae_platform ev) (aw_intents w') (i_id it))) = rs_body (net_response ops)
    \<and> rs_status (net_response (get_intent (ae_platform ev) (aw_intents w') (i_id it))) = 200
    \<and> trace_ref (ae_platform ev) (aw_intents w') (ref_string (i_ref it)) = write_json 200 (trace_response (ae_platform ev) it)"
proof -
  obtain it where it: "store_save (ae_platform ev) (aw_intents w) it 0 = Inr (aw_intents w')"
    "rs_body (net_response ops) = intent_response (ae_platform ev) it @ newline" "i_id it = ae_new_id ev (aw_calls w)"
    using create_saved_new [OF assms(1)] assms(2) by (metis http_response.select_convs(3))
  have new: "i_version cur = 0" if "store_get (aw_intents w) (i_id it) = Inr cur" for cur
    using it(1) that by (auto simp: store_save_def store_get_def Let_def split: if_splits option.splits)
  have "i_ref it = derive (ae_platform ev) (intent_terms it)" using it(1) by (auto simp: store_save_def Let_def split: if_splits)
  then have "parse_ref (ref_string (i_ref it)) = Inr (i_ref it)" using len by (simp add: derive_def parse_ref_def ref_string_def ref_size_def)
  moreover have "store_get_by_ref (aw_intents w') (i_ref it) = Inr it"
  proof -
    have "aw_intents w' = (aw_intents w)\<lparr>st_rows := AList.update (i_id it) it (st_rows (aw_intents w)),
        st_by_ref := (st_by_ref (aw_intents w))(i_ref it \<mapsto> i_id it)\<rparr>"
      using it(1) by (auto simp: store_save_def Let_def split: if_splits)
    then show ?thesis by (simp add: store_get_by_ref_def update_conv')
  qed
  ultimately have "trace_ref (ae_platform ev) (aw_intents w') (ref_string (i_ref it)) = write_json 200 (trace_response (ae_platform ev) it)"
    by (simp add: trace_ref_def)
  moreover have "store_get (aw_intents w') k = (if k = i_id it then Inr it else store_get (aw_intents w) k)" for k
    by (rule store_get_save [OF it(1)])
  ultimately show ?thesis using it new by (intro exI [of _ it]) (simp add: get_intent_def json_response)
qed

theorem created_intent_is_served_witness:
  "\<exists>ops w' (it :: intent). create_intent (demo_api_env 60) demo_api_world demo_http_request = (ops, w') \<and> i_id it = ''pi_0''
     \<and> rs_body (net_response (get_intent demo_platform (aw_intents w') ''pi_0'')) = rs_body (net_response ops)"
proof -
  obtain ops w' where c: "create_intent (demo_api_env 60) demo_api_world demo_http_request = (ops, w')"
    "rs_status (net_response ops) = 201" using demo_create [of 60] by auto
  have "length (sha256 (ae_platform (demo_api_env 60)) x) = ref_size" for x
    by (simp add: demo_api_env_def demo_platform_def ref_size_def)
  from created_intent_is_served [OF c this] obtain it :: intent where it: "i_id it = ''pi_0''"
    "rs_body (net_response (get_intent demo_platform (aw_intents w') (i_id it))) = rs_body (net_response ops)"
    unfolding demo_api_env_simps by (elim exE conjE)
  show ?thesis by (intro exI [of _ ops] exI [of _ w'] exI [of _ it]) (use c(1) it in simp)
qed

text \<open>
  A very long expiry is a very short one. The seconds of a creation request become nanoseconds in 64 bits: a request
  for 18446744074 seconds, 584 years, creates an intent that expires within a third of a second, and one for
  9223372037 seconds is refused as expired.
\<close>

theorem long_expiry_wraps:
  assumes "create_intent ev w rq = (ops, w')" and "ae_decode ev (rq_body rq) = Inr cr" and "2 ^ 63 \<le> ae_now ev (aw_calls w)"
  shows "(cr_expires_in_seconds cr = 18446744074 \<longrightarrow> rs_status (net_response ops) = 201 \<longrightarrow>
       (\<exists>it. store_get (aw_intents w') (ae_new_id ev (aw_calls w)) = Inr it \<and> i_expires_at it - i_created_at it = 290448384))
    \<and> (cr_expires_in_seconds cr = 9223372037 \<longrightarrow> rs_status (net_response ops) \<noteq> 201)"
  using assms(1)
proof (cases rule: create_intent_cases)
  case (refused n c d)
  then show ?thesis by (auto simp: error_status)
next
  case (created cr' a it)
  then have cr: "cr' = cr" using assms(2) by simp
  have g: "store_get (aw_intents w') (i_id it) = Inr it" using store_get_save [OF created(4)] by simp
  have it: "i_id it = ae_new_id ev (aw_calls w)" "i_created_at it = ae_now ev (aw_calls w)"
    "i_expires_at it = expiry_of (ae_now ev (aw_calls w)) (cr_expires_in_seconds cr)"
    "i_expires_at it \<noteq> 0 \<longrightarrow> ae_now ev (aw_calls w) < i_expires_at it"
    using created(3) by (auto simp: cr new_intent_def Let_def split: if_splits)
  have "i_expires_at it - i_created_at it = 290448384" if "cr_expires_in_seconds cr = 18446744074"
    using it that by (simp add: expiry_of_def wrap_int64_def second_def time_add_def)
  moreover have False if "cr_expires_in_seconds cr = 9223372037"
    using it that assms(3) by (auto simp: expiry_of_def wrap_int64_def second_def time_add_def)
  ultimately show ?thesis using g it(1) by auto
qed

theorem long_expiry_wraps_witness:
  "\<exists>ops w' it. create_intent (demo_api_env 18446744074) demo_api_world demo_http_request = (ops, w')
     \<and> rs_status (net_response ops) = 201 \<and> i_expires_at it - i_created_at it = 290448384
     \<and> store_get (aw_intents w') ''pi_0'' = Inr it"
proof -
  obtain ops w' where c: "create_intent (demo_api_env 18446744074) demo_api_world demo_http_request = (ops, w')"
    "rs_status (net_response ops) = 201" using demo_create [of 18446744074] by auto
  have d: "ae_decode (demo_api_env 18446744074) (rq_body demo_http_request) = Inr \<lparr>cr_chain = ''evm:1'', cr_token = ''usdc'',
      cr_payer = ''p'', cr_merchant = ''m'', cr_amount = ''100'', cr_expires_in_seconds = 18446744074\<rparr>"
    and n: "2 ^ 63 \<le> ae_now (demo_api_env 18446744074) (aw_calls demo_api_world)"
    by (simp_all add: demo_api_env_def)
  from long_expiry_wraps [OF c(1) d n] c demo_api_env_simps show ?thesis by auto
qed

end
