(* ===== verification/Ton_Address.thy ===== *)
theory Ton_Address
  imports Prelude
begin

unbundle bit_operations_syntax

section \<open>TON addresses\<close>

text \<open>
  Models \<open>internal/boc/address.go\<close>: the account address with its raw and its user-friendly form, \<open>ParseAddress\<close> and the
  CRC-16 at the end of the friendly form.

  An address is eight bits of workchain, read as a signed number, and the 32 bytes of the account hash. Base64 is the
  standard library's: the reader gives bytes only for 48 characters of one alphabet. The real one also skips line breaks
  and stops at padding, but then 48 characters do not make 36 bytes and the next check refuses them.
\<close>

subsection \<open>Addresses and their raw form\<close>

record address =
  ad_workchain :: "8 word"
  ad_hash :: bytes

definition zero_address :: address where
  "zero_address = \<lparr>ad_workchain = 0, ad_hash = replicate 32 (CHR 0x00)\<rparr>"

definition address_is_zero :: "address \<Rightarrow> bool" where
  "address_is_zero a \<longleftrightarrow> a = zero_address"

definition address_string :: "address \<Rightarrow> string" where
  "address_string a = show_int (sint (ad_workchain a)) @ '':'' @ hex_encode (ad_hash a)"

subsection \<open>The checksum\<close>

definition crc16_bit :: "16 word \<Rightarrow> 16 word" where
  "crc16_bit crc = (if crc AND 0x8000 \<noteq> 0 then push_bit 1 crc XOR 0x1021 else push_bit 1 crc)"

definition crc16_byte :: "16 word \<Rightarrow> char \<Rightarrow> 16 word" where
  "crc16_byte crc c = (crc16_bit ^^ 8) (crc XOR push_bit 8 (word_of_nat (of_char c)))"

definition crc16 :: "bytes \<Rightarrow> 16 word" where
  "crc16 p = foldl crc16_byte 0 p"

definition crc16_bytes :: "bytes \<Rightarrow> bytes" where
  "crc16_bytes p = (let crc = unat (crc16 p) in [char_of (crc div 256), char_of (crc mod 256)])"

subsection \<open>Base64\<close>

definition std_alphabet :: string where
  "std_alphabet = ''ABCDEFGHIJKLMNOPQRSTUVWXYZabcdefghijklmnopqrstuvwxyz0123456789+/''"

definition url_alphabet :: string where
  "url_alphabet = ''ABCDEFGHIJKLMNOPQRSTUVWXYZabcdefghijklmnopqrstuvwxyz0123456789-_''"

fun base64_encode :: "string \<Rightarrow> bytes \<Rightarrow> string" where
  "base64_encode al (a # b # c # s) =
     (let n = of_char a * 65536 + of_char b * 256 + of_char c :: nat in
      [al ! (n div 262144), al ! (n div 4096 mod 64), al ! (n div 64 mod 64), al ! (n mod 64)] @ base64_encode al s)"
| "base64_encode al _ = []"

definition alphabet_index :: "string \<Rightarrow> char \<Rightarrow> nat option" where
  "alphabet_index al c = find (\<lambda>i. al ! i = c) [0 ..< length al]"

fun base64_decode :: "string \<Rightarrow> string \<Rightarrow> bytes option" where
  "base64_decode al [] = Some []"
| "base64_decode al (a # b # c # d # s) =
     (case (alphabet_index al a, alphabet_index al b, alphabet_index al c, alphabet_index al d, base64_decode al s) of
        (Some i, Some j, Some k, Some l, Some r) \<Rightarrow>
          (let n = i * 262144 + j * 4096 + k * 64 + l in
           Some ([char_of (n div 65536), char_of (n div 256 mod 256), char_of (n mod 256)] @ r))
      | _ \<Rightarrow> None)"
| "base64_decode al _ = None"

text \<open>36 bytes are a multiple of three, so the friendly form has no padding.\<close>

definition address_friendly :: "address \<Rightarrow> bool \<Rightarrow> string" where
  "address_friendly a bounceable =
     (let p = [if bounceable then CHR 0x11 else CHR 0x51, char_of (unat (ad_workchain a))] @ ad_hash a in
      base64_encode url_alphabet (p @ crc16_bytes p))"

subsection \<open>Reading an address\<close>

datatype address_error = ErrBadAddress string | ErrBadChecksum string

definition parse_raw :: "string \<Rightarrow> string \<Rightarrow> string \<Rightarrow> address_error + address" where
  "parse_raw s wc h =
     (case parse_int wc of
        None \<Rightarrow> Inl (ErrBadAddress s)
      | Some n \<Rightarrow>
          if n < -128 \<or> 127 < n \<or> length h \<noteq> 64 then Inl (ErrBadAddress s)
          else case hex_decode h of
                 None \<Rightarrow> Inl (ErrBadAddress s)
               | Some b \<Rightarrow> Inr \<lparr>ad_workchain = word_of_int n, ad_hash = b\<rparr>)"

definition decode_friendly :: "string \<Rightarrow> bytes option" where
  "decode_friendly s =
     (case base64_decode url_alphabet s of Some p \<Rightarrow> Some p | None \<Rightarrow> base64_decode std_alphabet s)"

definition friendly_flag :: "char \<Rightarrow> bool" where
  "friendly_flag c \<longleftrightarrow> (let n = of_char c mod 128 :: nat in n = 0x11 \<or> n = 0x51)"

definition parse_friendly :: "string \<Rightarrow> address_error + address" where
  "parse_friendly s =
     (case decode_friendly s of
        None \<Rightarrow> Inl (ErrBadAddress s)
      | Some p \<Rightarrow>
          if length p \<noteq> 36 \<or> \<not> friendly_flag (p ! 0) then Inl (ErrBadAddress s)
          else if drop 34 p \<noteq> crc16_bytes (take 34 p) then Inl (ErrBadChecksum s)
          else Inr \<lparr>ad_workchain = word_of_nat (of_char (p ! 1)), ad_hash = take 32 (drop 2 p)\<rparr>)"

definition parse_address :: "string \<Rightarrow> address_error + address" where
  "parse_address s =
     (if CHR '':'' \<in> set s then parse_raw s (cut_before (CHR '':'') s) (tl (dropWhile (\<lambda>c. c \<noteq> CHR '':'') s))
      else if length s \<noteq> 48 then Inl (ErrBadAddress s)
      else parse_friendly s)"

subsection \<open>Both forms are read back\<close>

lemma alphabet_index_nth:
  assumes "distinct al" and "i < length al"
  shows "alphabet_index al (al ! i) = Some i"
  using assms by (auto simp: alphabet_index_def find_Some_iff nth_eq_iff_index_eq intro!: exI [of _ i])

lemma url_alphabet: "distinct url_alphabet" "length url_alphabet = 64" "CHR '':'' \<notin> set url_alphabet"
  by (simp_all add: url_alphabet_def)

lemma three_bytes:
  assumes "a < 256" "b < 256" "c < (256 :: nat)"
  defines "n \<equiv> a * 65536 + b * 256 + c"
  shows "n div 262144 * 262144 + n div 4096 mod 64 * 4096 + n div 64 mod 64 * 64 + n mod 64 = n"
    and "n div 65536 = a" and "n div 256 mod 256 = b" and "n mod 256 = c" and "n div 262144 < 64"
proof -
  have "n div (64 * 64) = n div 64 div 64" "n div (64 * 64 * 64) = n div (64 * 64) div 64" by (rule div_mult2_eq)+
  then have "n div 4096 = n div 64 div 64" "n div 262144 = n div 64 div 64 div 64" by simp_all
  moreover have "z * 262144 + v * 4096 + u * 64 + w = m" if "m = x * 64 + w" "x = y * 64 + u" "y = z * 64 + v" for m x y z u v w :: nat
    using that by simp
  note this [OF div_mult_mod_eq [symmetric] div_mult_mod_eq [symmetric] div_mult_mod_eq [symmetric], of n]
  ultimately show "n div 262144 * 262144 + n div 4096 mod 64 * 4096 + n div 64 mod 64 * 64 + n mod 64 = n" by simp
  show "n div 65536 = a" by (rule div_nat_eqI) (use assms(1-3) in \<open>simp_all add: n_def\<close>)
  have "n div 256 = a * 256 + b" by (rule div_nat_eqI) (use assms(1-3) in \<open>simp_all add: n_def\<close>)
  then show "n div 256 mod 256 = b" using assms(2) by simp
  have "n = (a * 256 + b) * 256 + c" by (simp add: n_def)
  then have "n mod 256 = ((a * 256 + b) * 256 + c) mod 256" by (simp only:)
  also have "\<dots> = c mod 256" by (rule mod_mult_self3)
  finally show "n mod 256 = c" using assms(3) by simp
  show "n div 262144 < 64" by (rule less_mult_imp_div_less) (use assms(1-3) in \<open>simp add: n_def\<close>)
qed

lemma three_dvd [simp]: "3 dvd Suc (Suc (Suc n)) \<longleftrightarrow> 3 dvd n" "\<not> 3 dvd Suc (Suc 0)" "\<not> 3 dvd Suc 0"
  by presburger+

lemma base64_roundtrip:
  "distinct al \<Longrightarrow> length al = 64 \<Longrightarrow> 3 dvd length p \<Longrightarrow> base64_decode al (base64_encode al p) = Some p"
proof (induction al p rule: base64_encode.induct)
  case (1 al a b c s)
  have al: "alphabet_index al (al ! i) = Some i" if "i < 64" for i
    using alphabet_index_nth [of al i] 1 that by simp
  let ?n = "of_char a * 65536 + of_char b * 256 + of_char c :: nat"
  note t = three_bytes [of "of_char a" "of_char b" "of_char c", OF of_char_lt_256 of_char_lt_256 of_char_lt_256]
  have "base64_decode al (base64_encode al s) = Some s" using 1 by simp
  moreover have "char_of (?n div 65536) = a" "char_of (?n div 256 mod 256) = b" "char_of (?n mod 256) = c"
    unfolding t(2-4) by simp_all
  then have "char_of (?n div 65536) = a" "char_of (?n div 256) = b" "char_of ?n = c" by simp_all
  ultimately show ?case
    using t(5) by (simp add: Let_def al t(1))
qed auto

lemma length_base64: "3 dvd length p \<Longrightarrow> 3 * length (base64_encode al p) = 4 * length p"
  by (induction al p rule: base64_encode.induct) (auto simp: Let_def)

lemma base64_chars: "length al = 64 \<Longrightarrow> set (base64_encode al p) \<subseteq> set al"
proof (induction al p rule: base64_encode.induct)
  case (1 al a b c s)
  have "of_char a * 65536 + of_char b * 256 + of_char c < (64 * 262144 :: nat)"
    using of_char_lt_256 [of a] of_char_lt_256 [of b] of_char_lt_256 [of c] by linarith
  with 1 show ?case by (auto simp: Let_def less_mult_imp_div_less)
qed auto

lemma parse_raw_form:
  assumes "length (ad_hash a) = 32"
  shows "parse_address (address_string a) = Inr a"
proof -
  let ?n = "show_int (sint (ad_workchain a))"
  have c: "CHR '':'' \<notin> set ?n"
  proof -
    have "CHR '':'' \<notin> set (show_nat n)" for n
      using show_nat_digits [of n] by (auto simp: list_all_iff is_digit_def dest!: bspec [of _ _ "CHR '':''"])
    then show ?thesis by (simp add: show_int_def)
  qed
  then have c': "\<forall>x \<in> set ?n. x \<noteq> CHR '':''" by blast
  have r: "-128 \<le> sint (ad_workchain a) \<and> sint (ad_workchain a) \<le> 127"
    using sint_range_size [of "ad_workchain a"] by (simp add: word_size)
  have "cut_before (CHR '':'') (address_string a) = ?n"
    using c' by (simp add: cut_before_def address_string_def takeWhile_append)
  moreover have "dropWhile (\<lambda>x. x \<noteq> CHR '':'') (address_string a) = '':'' @ hex_encode (ad_hash a)"
    using c' by (simp add: address_string_def dropWhile_append3)
  moreover have "CHR '':'' \<in> set (address_string a)" by (simp add: address_string_def)
  ultimately show ?thesis using r assms by (simp add: parse_address_def parse_raw_def)
qed

lemma parse_friendly_form:
  assumes "length (ad_hash a) = 32"
  shows "parse_address (address_friendly a b) = Inr a"
proof -
  let ?p = "[if b then CHR 0x11 else CHR 0x51, char_of (unat (ad_workchain a))] @ ad_hash a"
  let ?q = "?p @ crc16_bytes ?p"
  have l: "length ?q = 36" using assms by (simp add: crc16_bytes_def Let_def)
  have f: "address_friendly a b = base64_encode url_alphabet ?q" by (simp add: address_friendly_def Let_def)
  have "length (address_friendly a b) = 48" using length_base64 [of ?q url_alphabet] l f by simp
  moreover have "CHR '':'' \<notin> set (address_friendly a b)" using base64_chars [of url_alphabet ?q] url_alphabet f by auto
  moreover have "decode_friendly (address_friendly a b) = Some ?q"
    using base64_roundtrip [of url_alphabet ?q] url_alphabet l f by (simp add: decode_friendly_def)
  moreover have "take 34 ?q = ?p" "drop 34 ?q = crc16_bytes ?p" using assms by simp_all
  moreover have "friendly_flag (?q ! 0)" by (simp add: friendly_flag_def)
  moreover have "unat (ad_workchain a) < 256" using unsigned_less [of "ad_workchain a", where 'a = nat] by simp
  then have "word_of_nat (of_char (?q ! 1)) = ad_workchain a" by simp
  ultimately show ?thesis using l assms by (simp add: parse_address_def parse_friendly_def)
qed

lemma parse_address_length: "parse_address s = Inr a \<Longrightarrow> length (ad_hash a) = 32"
  by (auto simp: parse_address_def parse_raw_def parse_friendly_def dest!: hex_decode_length split: if_splits option.splits)

text \<open>
  Both text forms of an address are read back as that address, bounceable or not, and whatever is read has a 32-byte
  account hash, so that every accepted text has one canonical form.
\<close>

theorem address_text_roundtrip:
  assumes "length (ad_hash a) = 32"
  shows "parse_address (address_string a) = Inr a \<and> parse_address (address_friendly a b) = Inr a \<and>
         (\<forall>s a'. parse_address s = Inr a' \<longrightarrow> length (ad_hash a') = 32 \<and> parse_address (address_string a') = Inr a')"
  using parse_raw_form parse_friendly_form assms parse_address_length by blast

theorem address_text_roundtrip_witness:
  "parse_address (address_friendly \<lparr>ad_workchain = 255, ad_hash = replicate 32 (CHR 0x33)\<rparr> True) =
     Inr \<lparr>ad_workchain = 255, ad_hash = replicate 32 (CHR 0x33)\<rparr>"
  using address_text_roundtrip [of "\<lparr>ad_workchain = 255, ad_hash = replicate 32 (CHR 0x33)\<rparr>" True] by simp

end
