(* ===== verification/Boc.thy ===== *)
theory Boc
  imports Ton_Address "HOL-Library.State_Monad"
begin

unbundle bit_operations_syntax

section \<open>Cells and the bag of cells\<close>

text \<open>
  Models \<open>internal/boc/boc.go\<close>: the cell with its hash, \<open>Builder\<close>, \<open>Slice\<close> and the serialization of a tree of cells.

  \<^item> A cell is its bits and its refs. The code keeps the bits in a byte array with a count, and stores hash and depth
    when the cell is built; here the bits are a list and hash and depth are functions of the cell.
  \<^item> A builder operation takes the builder last; a chain of calls is \<open>assemble\<close> of the list of operations.
  \<^item> A slice operation is a state transformer (\<open>HOL-Library.State_Monad\<close>), so a reader is written as the code has it.
\<close>

subsection \<open>Bits and bytes\<close>

fun byte_bits :: "char \<Rightarrow> bool list" where
  "byte_bits (Char b0 b1 b2 b3 b4 b5 b6 b7) = [b7, b6, b5, b4, b3, b2, b1, b0]"

definition bytes_bits :: "bytes \<Rightarrow> bool list" where
  "bytes_bits p = concat (map byte_bits p)"

definition bits_byte :: "bool list \<Rightarrow> char" where
  "bits_byte bs = Char (bs ! 7) (bs ! 6) (bs ! 5) (bs ! 4) (bs ! 3) (bs ! 2) (bs ! 1) (bs ! 0)"

text \<open>The data bytes of a cell: the last byte is filled up with zeros.\<close>

fun pack_bits :: "bool list \<Rightarrow> bytes" where
  "pack_bits bs = (if bs = [] then [] else bits_byte (bs @ replicate 7 False) # pack_bits (drop 8 bs))"

declare pack_bits.simps [simp del]

definition padded :: "bool list \<Rightarrow> bytes" where
  "padded bs = (if length bs mod 8 \<noteq> 0 then pack_bits (bs @ [True]) else pack_bits bs)"

definition uint16_be :: "nat \<Rightarrow> bytes" where
  "uint16_be n = [char_of (n div 256), char_of n]"

text \<open>\<open>big.Int.Bytes\<close>: the shortest big-endian form, empty for zero.\<close>

fun big_bytes :: "nat \<Rightarrow> bytes" where
  "big_bytes n = (if n = 0 then [] else big_bytes (n div 256) @ [char_of n])"

declare big_bytes.simps [simp del]

definition big_value :: "bytes \<Rightarrow> nat" where
  "big_value p = foldl (\<lambda>a c. 256 * a + of_char c) 0 p"

subsection \<open>Cells\<close>

definition max_bits :: nat where
  "max_bits = 1023"

definition max_refs :: nat where
  "max_refs = 4"

datatype boc_error = ErrTooManyBits | ErrTooManyRefs | ErrShortRead | ErrCoinsTooLarge | ErrDepth

datatype cell = Cell (cell_bits: "bool list") (cell_refs: "cell list")

definition deeper :: "nat list \<Rightarrow> nat" where
  "deeper ds = fold (\<lambda>r d. if d < r + 1 then r + 1 else d) ds 0"

fun cell_depth :: "cell \<Rightarrow> nat" where
  "cell_depth (Cell bs rs) = deeper (map cell_depth rs)"

definition descriptors :: "nat \<Rightarrow> nat \<Rightarrow> bytes" where
  "descriptors refs bits = [char_of refs, char_of (bits div 8 + (bits + 7) div 8)]"

text \<open>A ref is given by what the code reads of it: its depth and its hash.\<close>

definition representation :: "bool list \<Rightarrow> (nat \<times> bytes) list \<Rightarrow> bytes" where
  "representation bs refs =
     descriptors (length refs) (length bs) @ padded bs @ concat (map (\<lambda>r. uint16_be (fst r)) refs) @ concat (map snd refs)"

fun cell_hash :: "platform \<Rightarrow> cell \<Rightarrow> bytes" where
  "cell_hash p (Cell bs rs) = sha256 p (representation bs (map (\<lambda>r. (cell_depth r, cell_hash p r)) rs))"

subsection \<open>The builder\<close>

record builder =
  bd_bits :: "bool list"
  bd_refs :: "cell list"
  bd_err :: "boc_error option"

definition new_builder :: builder where
  "new_builder = \<lparr>bd_bits = [], bd_refs = [], bd_err = None\<rparr>"

definition put_bit :: "bool \<Rightarrow> builder \<Rightarrow> builder" where
  "put_bit v b =
     (if bd_err b \<noteq> None then b
      else if max_bits < length (bd_bits b) + 1 then b\<lparr>bd_err := Some ErrTooManyBits\<rparr>
      else b\<lparr>bd_bits := bd_bits b @ [v]\<rparr>)"

definition put_uint :: "u64 \<Rightarrow> nat \<Rightarrow> builder \<Rightarrow> builder" where
  "put_uint v n = fold (\<lambda>i. put_bit (drop_bit i v AND 1 = 1)) (rev [0 ..< n])"

text \<open>An \<open>int64\<close> is its two's complement: the conversion to \<open>uint64\<close> keeps the bits.\<close>

definition put_int :: "u64 \<Rightarrow> nat \<Rightarrow> builder \<Rightarrow> builder" where
  "put_int v n = put_uint (v AND (push_bit n 1 - 1)) n"

definition put_bytes :: "bytes \<Rightarrow> builder \<Rightarrow> builder" where
  "put_bytes p = fold (\<lambda>c. put_uint (of_nat (of_char c)) 8) p"

definition put_coins :: "int option \<Rightarrow> builder \<Rightarrow> builder" where
  "put_coins v b =
     (if bd_err b \<noteq> None then b
      else case v of
             None \<Rightarrow> b\<lparr>bd_err := Some ErrCoinsTooLarge\<rparr>
           | Some v \<Rightarrow>
               if v < 0 \<or> 2 ^ 120 \<le> v then b\<lparr>bd_err := Some ErrCoinsTooLarge\<rparr>
               else (let p = big_bytes (nat v) in put_bytes p (put_uint (of_nat (length p)) 4 b)))"

definition put_address :: "address \<Rightarrow> builder \<Rightarrow> builder" where
  "put_address a b =
     (if address_is_zero a then put_uint 0 2 b
      else put_bytes (ad_hash a) (put_int (scast (ad_workchain a)) 8 (put_bit False (put_uint 2 2 b))))"

definition put_ref :: "cell \<Rightarrow> builder \<Rightarrow> builder" where
  "put_ref c b =
     (if bd_err b \<noteq> None then b
      else if max_refs \<le> length (bd_refs b) then b\<lparr>bd_err := Some ErrTooManyRefs\<rparr>
      else b\<lparr>bd_refs := bd_refs b @ [c]\<rparr>)"

definition put_maybe_ref :: "cell option \<Rightarrow> builder \<Rightarrow> builder" where
  "put_maybe_ref c b = (case c of None \<Rightarrow> put_bit False b | Some c \<Rightarrow> put_ref c (put_bit True b))"

definition build_cell :: "builder \<Rightarrow> boc_error + cell" where
  "build_cell b =
     (case bd_err b of
        Some e \<Rightarrow> Inl e
      | None \<Rightarrow>
          (let c = Cell (bd_bits b) (bd_refs b) in if 0xffff < cell_depth c then Inl ErrDepth else Inr c))"

definition assemble :: "(builder \<Rightarrow> builder) list \<Rightarrow> boc_error + cell" where
  "assemble ops = build_cell (fold (\<lambda>f. f) ops new_builder)"

subsection \<open>The slice\<close>

record slice =
  sl_cell :: cell
  sl_pos :: nat
  sl_ref :: nat
  sl_err :: "boc_error option"

type_synonym 'a reader = "(slice, 'a) state"

definition begin_cell :: "cell \<Rightarrow> slice" where
  "begin_cell c = \<lparr>sl_cell = c, sl_pos = 0, sl_ref = 0, sl_err = None\<rparr>"

definition remaining :: "slice \<Rightarrow> int" where
  "remaining s = int (length (cell_bits (sl_cell s))) - int (sl_pos s)"

definition remaining_refs :: "slice \<Rightarrow> int" where
  "remaining_refs s = int (length (cell_refs (sl_cell s))) - int (sl_ref s)"

definition get_bit :: "bool reader" where
  "get_bit = State (\<lambda>s.
     if sl_err s \<noteq> None then (False, s)
     else if length (cell_bits (sl_cell s)) \<le> sl_pos s then (False, s\<lparr>sl_err := Some ErrShortRead\<rparr>)
     else (cell_bits (sl_cell s) ! sl_pos s, s\<lparr>sl_pos := sl_pos s + 1\<rparr>))"

fun get_uint_loop :: "nat \<Rightarrow> u64 \<Rightarrow> u64 reader" where
  "get_uint_loop 0 v = State_Monad.return v"
| "get_uint_loop (Suc n) v = do {
     b \<leftarrow> get_bit;
     get_uint_loop n (if b then push_bit 1 v OR 1 else push_bit 1 v) }"

definition get_uint :: "nat \<Rightarrow> u64 reader" where
  "get_uint n = get_uint_loop n 0"

definition get_int :: "nat \<Rightarrow> u64 reader" where
  "get_int n = do {
     v \<leftarrow> get_uint n;
     State_Monad.return (if n < 64 \<and> drop_bit (n - 1) v = 1 then v OR push_bit n (NOT 0) else v) }"

fun get_bytes :: "nat \<Rightarrow> bytes reader" where
  "get_bytes 0 = State_Monad.return []"
| "get_bytes (Suc n) = do {
     v \<leftarrow> get_uint 8;
     p \<leftarrow> get_bytes n;
     State_Monad.return (char_of (unat v) # p) }"

definition get_coins :: "int reader" where
  "get_coins = do {
     n \<leftarrow> get_uint 4;
     p \<leftarrow> get_bytes (unat n);
     State_Monad.return (int (big_value p)) }"

definition short_read :: "unit reader" where
  "short_read = State (\<lambda>s. ((), s\<lparr>sl_err := Some ErrShortRead\<rparr>))"

definition get_address :: "address reader" where
  "get_address = do {
     t \<leftarrow> get_uint 2;
     if t = 0 then State_Monad.return zero_address
     else if t = 2 then do {
       anycast \<leftarrow> get_bit;
       if anycast then do { _ \<leftarrow> short_read; State_Monad.return zero_address }
       else do {
         w \<leftarrow> get_int 8;
         h \<leftarrow> get_bytes 32;
         State_Monad.return \<lparr>ad_workchain = ucast w, ad_hash = h\<rparr> } }
     else do { _ \<leftarrow> short_read; State_Monad.return zero_address } }"

definition get_ref :: "cell option reader" where
  "get_ref = State (\<lambda>s.
     if sl_err s \<noteq> None then (None, s)
     else if length (cell_refs (sl_cell s)) \<le> sl_ref s then (None, s\<lparr>sl_err := Some ErrShortRead\<rparr>)
     else (Some (cell_refs (sl_cell s) ! sl_ref s), s\<lparr>sl_ref := sl_ref s + 1\<rparr>))"

definition get_maybe_ref :: "cell option reader" where
  "get_maybe_ref = do { b \<leftarrow> get_bit; if b then get_ref else State_Monad.return None }"

subsection \<open>What an operation writes and what it reads\<close>

text \<open>
  \<open>writes f bs rs\<close>: after an error \<open>f\<close> does nothing; otherwise it appends the bits and the refs when they fit into the
  cell and leaves an error when they do not. \<open>reads m bs rs v\<close>: where the slice is in front of these bits and refs, \<open>m\<close>
  gives \<open>v\<close> and stands behind them.
\<close>

definition writes :: "(builder \<Rightarrow> builder) \<Rightarrow> bool list \<Rightarrow> cell list \<Rightarrow> bool" where
  "writes f bs rs \<longleftrightarrow> (\<forall>b.
     (bd_err b \<noteq> None \<longrightarrow> f b = b) \<and>
     (bd_err b = None \<longrightarrow> length (bd_bits b) \<le> max_bits \<longrightarrow> length (bd_refs b) \<le> max_refs \<longrightarrow>
        (if length (bd_bits b @ bs) \<le> max_bits \<and> length (bd_refs b @ rs) \<le> max_refs
         then f b = b\<lparr>bd_bits := bd_bits b @ bs, bd_refs := bd_refs b @ rs\<rparr>
         else bd_err (f b) \<noteq> None)))"

definition sl_at :: "slice \<Rightarrow> bool list \<Rightarrow> cell list \<Rightarrow> bool" where
  "sl_at s bs rs \<longleftrightarrow>
     sl_err s = None \<and> sl_pos s \<le> length (cell_bits (sl_cell s)) \<and> sl_ref s \<le> length (cell_refs (sl_cell s)) \<and>
     drop (sl_pos s) (cell_bits (sl_cell s)) = bs \<and> drop (sl_ref s) (cell_refs (sl_cell s)) = rs"

definition reads :: "'a reader \<Rightarrow> bool list \<Rightarrow> cell list \<Rightarrow> 'a \<Rightarrow> bool" where
  "reads m bs rs v \<longleftrightarrow>
     (\<forall>s bs' rs'. sl_at s (bs @ bs') (rs @ rs') \<longrightarrow> (\<exists>s'. run_state m s = (v, s') \<and> sl_at s' bs' rs' \<and> sl_cell s' = sl_cell s))"

lemma writes_id: "writes (\<lambda>b. b) [] []"
  by (simp add: writes_def)

lemma writes_comp:
  assumes f: "writes f bs rs" and g: "writes g bs' rs'"
  shows "writes (\<lambda>b. g (f b)) (bs @ bs') (rs @ rs')"
  unfolding writes_def
proof (intro allI conjI impI)
  fix b :: builder assume "bd_err b \<noteq> None"
  then show "g (f b) = b" using f g by (simp add: writes_def)
next
  fix b :: builder assume b: "bd_err b = None" "length (bd_bits b) \<le> max_bits" "length (bd_refs b) \<le> max_refs"
  let ?b = "b\<lparr>bd_bits := bd_bits b @ bs, bd_refs := bd_refs b @ rs\<rparr>"
  show "if length (bd_bits b @ bs @ bs') \<le> max_bits \<and> length (bd_refs b @ rs @ rs') \<le> max_refs
        then g (f b) = b\<lparr>bd_bits := bd_bits b @ bs @ bs', bd_refs := bd_refs b @ rs @ rs'\<rparr>
        else bd_err (g (f b)) \<noteq> None"
  proof (cases "length (bd_bits b @ bs) \<le> max_bits \<and> length (bd_refs b @ rs) \<le> max_refs")
    case True
    then have "f b = ?b" using f b by (simp add: writes_def)
    moreover have "if length (bd_bits ?b @ bs') \<le> max_bits \<and> length (bd_refs ?b @ rs') \<le> max_refs
        then g ?b = ?b\<lparr>bd_bits := bd_bits ?b @ bs', bd_refs := bd_refs ?b @ rs'\<rparr> else bd_err (g ?b) \<noteq> None"
      using g b True unfolding writes_def by (elim allE [of _ ?b]) auto
    ultimately show ?thesis by simp
  next
    case False
    then have "bd_err (f b) \<noteq> None" using f b unfolding writes_def by (elim allE [of _ b]) auto
    then have "bd_err (g (f b)) \<noteq> None" using g by (auto simp: writes_def)
    with False show ?thesis by auto
  qed
qed

lemma writes_bit: "writes (put_bit v) [v] []"
  by (auto simp: writes_def put_bit_def)

lemma writes_ref: "writes (put_ref c) [] [c]"
  by (auto simp: writes_def put_ref_def)

lemma writes_fold:
  "(\<And>x. x \<in> set xs \<Longrightarrow> writes (f x) (g x) (h x)) \<Longrightarrow> writes (fold f xs) (concat (map g xs)) (concat (map h xs))"
proof (induction xs)
  case (Cons x xs)
  then show ?case using writes_comp [of "f x" "g x" "h x" "fold f xs"] by (simp add: comp_def)
qed (simp add: id_def writes_id)

lemma reads_return [intro]: "reads (State_Monad.return v) [] [] v"
  by (simp add: reads_def State_Monad.return_def)

lemma reads_bind:
  "reads m bs rs a \<Longrightarrow> reads (f a) bs' rs' v \<Longrightarrow> reads (State_Monad.bind m f) (bs @ bs') (rs @ rs') v"
  unfolding reads_def State_Monad.bind_def
  by (metis (no_types, lifting) append.assoc case_prod_conv state.sel)

lemma readsE:
  assumes "reads m bs rs v" and "sl_at s (bs @ bs') (rs @ rs')"
  obtains s' where "run_state m s = (v, s')" "sl_at s' bs' rs'" "sl_cell s' = sl_cell s"
  using assms unfolding reads_def by blast

lemma reads_bit: "reads get_bit [v] [] v"
proof -
  have "drop (Suc n) xs = ys" "n < length xs" "xs ! n = v" if "drop n xs = v # ys" for n v and xs ys :: "bool list"
    using that by (metis drop_Suc list.sel(3) tl_drop, metis drop_all leI list.discI, metis nth_via_drop)
  then show ?thesis by (auto simp: reads_def get_bit_def sl_at_def)
qed

subsection \<open>Every field is read back\<close>

definition uint_bits :: "u64 \<Rightarrow> nat \<Rightarrow> bool list" where
  "uint_bits v n = map (bit v) (rev [0 ..< n])"

definition coins_bits :: "nat \<Rightarrow> bool list" where
  "coins_bits v = uint_bits (of_nat (length (big_bytes v))) 4 @ bytes_bits (big_bytes v)"

definition address_bits :: "address \<Rightarrow> bool list" where
  "address_bits a =
     (if address_is_zero a then [False, False]
      else [True, False] @ [False] @ uint_bits (scast (ad_workchain a)) 8 @ bytes_bits (ad_hash a))"

lemma length_uint_bits [simp]: "length (uint_bits v n) = n"
  by (simp add: uint_bits_def)

lemma uint_bits_Suc: "uint_bits v (Suc n) = bit v n # uint_bits v n"
  by (simp add: uint_bits_def)

lemma uint_bits_take: "uint_bits (take_bit n v) n = uint_bits v n"
  by (auto simp: uint_bits_def bit_take_bit_iff)

lemma concat_map_Nil [simp]: "concat (map (\<lambda>x. []) xs) = []"
  by (induction xs) simp_all

lemma writes_uint: "writes (put_uint v n) (uint_bits v n) []"
proof -
  have "writes (put_uint v n) (concat (map (\<lambda>i. [bit v i]) (rev [0 ..< n]))) (concat (map (\<lambda>i. []) (rev [0 ..< n])))"
    unfolding put_uint_def by (rule writes_fold) (simp add: bit_iff_and_drop_bit_eq_1 [symmetric] writes_bit)
  moreover have "concat (map (\<lambda>i. [bit v i]) xs) = map (bit v) xs" for xs by (induction xs) simp_all
  ultimately show ?thesis by (simp add: uint_bits_def)
qed

lemma reads_uint_loop: "reads (get_uint_loop n a) (uint_bits v n) [] (push_bit n a OR take_bit n v)"
proof (induction n arbitrary: a)
  case 0
  then show ?case using reads_return [of a] by (simp add: uint_bits_def)
next
  case (Suc n)
  let ?a = "if bit v n then push_bit 1 a OR 1 else push_bit 1 a"
  have "push_bit n ?a OR take_bit n v = push_bit (Suc n) a OR take_bit (Suc n) v"
    by (rule bit_eqI) (auto simp: bit_simps less_Suc_eq)
  with reads_bind [where f = "\<lambda>b. get_uint_loop n (if b then push_bit 1 a OR 1 else push_bit 1 a)", OF reads_bit, OF Suc.IH [of ?a]]
  show ?case by (simp add: uint_bits_Suc)
qed

lemma reads_uint: "reads (get_uint n) (uint_bits v n) [] (take_bit n v)"
  using reads_uint_loop [of n 0 v] by (simp add: get_uint_def)

lemma writes_int: "writes (put_int v n) (uint_bits v n) []"
proof -
  have "v AND (push_bit n 1 - 1) = take_bit n v"
    by (simp add: push_bit_of_1 mask_eq_exp_minus_1 [symmetric] take_bit_eq_mask)
  with writes_uint [of "take_bit n v" n] show ?thesis by (simp add: put_int_def uint_bits_take)
qed

lemma byte_bits_uint: "uint_bits (of_nat (of_char c)) 8 = byte_bits c"
proof -
  have u: "rev [0 ..< 8] = [7, 6, 5, 4, 3, 2, 1, 0 :: nat]" by (simp add: upt_rec)
  have "bit (of_char (Char b0 b1 b2 b3 b4 b5 b6 b7) :: u64) i \<longleftrightarrow> i < 8 \<and> [b0, b1, b2, b3, b4, b5, b6, b7] ! i"
    for b0 b1 b2 b3 b4 b5 b6 b7 i
    unfolding of_char_def by (auto simp only: bit_horner_sum_bit_iff possible_bit_word char.sel) auto
  then show ?thesis by (cases c) (simp only: uint_bits_def u of_nat_of_char byte_bits.simps, simp)
qed

lemma writes_bytes: "writes (put_bytes p) (bytes_bits p) []"
proof -
  have "writes (put_bytes p) (concat (map byte_bits p)) (concat (map (\<lambda>c. []) p))"
    unfolding put_bytes_def by (rule writes_fold) (metis byte_bits_uint writes_uint)
  then show ?thesis by (simp add: bytes_bits_def)
qed

lemma byte_of_uint: "char_of (unat (take_bit 8 (of_nat (of_char c) :: u64))) = c"
proof -
  have "char_of (unat (take_bit 8 (of_nat n :: u64))) = char_of n" for n
    by (simp only: unsigned_take_bit_eq unsigned_of_nat char_of_take_bit_eq take_bit_take_bit) (simp add: char_of_take_bit_eq)
  then show ?thesis by (simp only: char_of_char)
qed

lemma reads_bytes: "reads (get_bytes (length p)) (bytes_bits p) [] p"
proof (induction p)
  case Nil
  then show ?case by (simp add: bytes_bits_def reads_return)
next
  case (Cons c p)
  have "reads (get_bytes (Suc (length p))) (byte_bits c @ bytes_bits p @ []) ([] @ [] @ []) (c # p)"
    unfolding get_bytes.simps
    by (rule reads_bind, rule reads_uint [of 8 "of_nat (of_char c)", unfolded byte_bits_uint],
      rule reads_bind, rule Cons.IH) (simp only: byte_of_uint reads_return)
  then show ?case by (simp add: bytes_bits_def)
qed

text \<open>\<open>big.Int.SetBytes\<close> inverts \<open>Bytes\<close>, and 15 bytes hold what is below \<open>2 ^ 120\<close>.\<close>

lemma big_value_snoc: "big_value (p @ [c]) = 256 * big_value p + of_char c"
  by (simp add: big_value_def)

lemma big_value_bytes [simp]: "big_value (big_bytes n) = n"
proof (induction n rule: big_bytes.induct)
  case (1 n)
  show ?case
  proof (cases "n = 0")
    case True
    then show ?thesis by (simp add: big_bytes.simps [of 0] big_value_def)
  next
    case False
    then have "big_value (big_bytes n) = 256 * (n div 256) + of_char (char_of n)"
      using 1 by (simp add: big_bytes.simps [of n] big_value_snoc)
    also have "(of_char (char_of n :: char) :: nat) = n mod 256" by simp
    finally show ?thesis by simp
  qed
qed

lemma length_big_bytes: "n < 256 ^ k \<Longrightarrow> length (big_bytes n) \<le> k"
proof (induction k arbitrary: n)
  case 0
  then show ?case by (simp add: big_bytes.simps)
next
  case (Suc k)
  have "n div 256 < 256 ^ k" using Suc.prems by (simp add: less_mult_imp_div_less mult.commute)
  with Suc.IH show ?case by (simp add: big_bytes.simps [of n])
qed

lemma coins_length: "n < 2 ^ 120 \<Longrightarrow> length (big_bytes n) \<le> 15"
  using length_big_bytes [of n 15] by simp

lemma length_byte_bits [simp]: "length (byte_bits c) = 8"
  by (cases c) simp

lemma length_bytes_bits [simp]: "length (bytes_bits p) = 8 * length p"
  by (induction p) (simp_all add: bytes_bits_def)

lemma writes_coins:
  assumes "0 \<le> v" and "v < 2 ^ 120"
  shows "writes (put_coins (Some v)) (coins_bits (nat v)) []"
proof -
  have "writes (\<lambda>b. put_bytes (big_bytes (nat v)) (put_uint (of_nat (length (big_bytes (nat v)))) 4 b)) (coins_bits (nat v)) []"
    using writes_comp [OF writes_uint writes_bytes] by (simp add: coins_bits_def)
  then show ?thesis using assms by (simp add: writes_def put_coins_def Let_def)
qed

lemma reads_coins:
  assumes "n < 2 ^ 120"
  shows "reads get_coins (coins_bits n) [] (int n)"
proof -
  let ?p = "big_bytes n"
  have "length ?p < 16" using coins_length [OF assms] by simp
  then have u: "unat (take_bit 4 (of_nat (length ?p) :: u64)) = length ?p"
    by (simp only: unsigned_take_bit_eq unsigned_of_nat take_bit_take_bit) (simp add: take_bit_nat_eq_self)
  have "reads get_coins (uint_bits (of_nat (length ?p)) 4 @ bytes_bits ?p @ []) ([] @ [] @ []) (int n)"
    unfolding get_coins_def
    by (rule reads_bind, rule reads_uint, rule reads_bind, unfold u, rule reads_bytes) (simp add: reads_return)
  then show ?thesis by (simp add: coins_bits_def)
qed

lemma reads_int:
  assumes "0 < n" and "n < 64"
  shows "reads (get_int n) (uint_bits v n) [] (signed_take_bit (n - 1) v)"
proof -
  let ?t = "take_bit n v"
  have "drop_bit (n - 1) ?t = of_bool (bit v (n - 1))"
  proof (rule bit_eqI)
    fix i show "bit (drop_bit (n - 1) ?t) i \<longleftrightarrow> bit (of_bool (bit v (n - 1)) :: u64) i"
      using assms by (cases i) (auto simp: bit_simps)
  qed
  then have "(if n < 64 \<and> drop_bit (n - 1) ?t = 1 then ?t OR push_bit n (NOT 0) else ?t) = signed_take_bit (n - 1) v"
  proof -
    from assms obtain m where "n = Suc m" by (cases n) simp_all
    then show ?thesis if "drop_bit (n - 1) ?t = of_bool (bit v (n - 1))"
      using assms that by (intro bit_eqI) (auto simp: bit_simps min_def not_le less_Suc_eq)
  qed
  then have "reads (get_int n) (uint_bits v n @ []) ([] @ []) (signed_take_bit (n - 1) v)"
    unfolding get_int_def by (intro reads_bind [OF reads_uint]) (simp add: reads_return del: One_nat_def)
  then show ?thesis by simp
qed

lemma writes_address: "writes (put_address a) (address_bits a) []"
proof (cases "address_is_zero a")
  case True
  have "writes (put_address a) (uint_bits 0 2) []"
    using writes_uint [of 0 2] True by (simp add: writes_def put_address_def)
  then show ?thesis using True by (simp add: address_bits_def uint_bits_def upt_rec)
next
  case False
  have "writes (\<lambda>b. put_bytes (ad_hash a) (put_int (scast (ad_workchain a)) 8 (put_bit False (put_uint 2 2 b))))
     (((uint_bits 2 2 @ [False]) @ uint_bits (scast (ad_workchain a)) 8) @ bytes_bits (ad_hash a)) ((([] @ []) @ []) @ [])"
    by (rule writes_comp [OF writes_comp [OF writes_comp [OF writes_uint writes_bit] writes_int] writes_bytes])
  moreover have "uint_bits 2 2 = [True, False]" by (simp add: uint_bits_def upt_rec)
  ultimately show ?thesis
    using False by (simp add: writes_def put_address_def address_bits_def)
qed

lemma reads_address:
  assumes "length (ad_hash a) = 32"
  shows "reads get_address (address_bits a) [] a"
proof (cases "address_is_zero a")
  case True
  have "reads get_address (uint_bits 0 2 @ []) ([] @ []) zero_address"
    unfolding get_address_def by (rule reads_bind, rule reads_uint) (simp add: reads_return)
  then show ?thesis using True by (simp add: address_bits_def uint_bits_def upt_rec address_is_zero_def)
next
  case False
  let ?w = "scast (ad_workchain a) :: u64"
  have u: "uint_bits 2 2 = [True, False]" and t: "take_bit 2 2 = (2 :: u64)" by (simp_all add: uint_bits_def upt_rec)
  have w: "\<lparr>ad_workchain = ucast (signed_take_bit 7 ?w), ad_hash = ad_hash a\<rparr> = a"
  proof -
    have "(ucast (signed_take_bit 7 ?w) :: 8 word) = ad_workchain a"
      by (intro bit_word_eqI) (auto simp: bit_simps)
    then show ?thesis by simp
  qed
  have i: "reads (get_int 8) (uint_bits ?w 8) [] (signed_take_bit 7 ?w)" using reads_int [of 8 ?w] by simp
  have b: "reads (get_bytes 32) (bytes_bits (ad_hash a)) [] (ad_hash a)" using reads_bytes [of "ad_hash a"] assms by simp
  let ?r = "do { w \<leftarrow> get_int 8; h \<leftarrow> get_bytes 32; State_Monad.return \<lparr>ad_workchain = ucast w, ad_hash = h\<rparr> }"
  have "reads ?r (uint_bits ?w 8 @ bytes_bits (ad_hash a) @ []) ([] @ [] @ []) a"
    by (rule reads_bind [OF i], rule reads_bind [OF b]) (simp only: w reads_return)
  then have "reads (do { anycast \<leftarrow> get_bit; if anycast then do { _ \<leftarrow> short_read; State_Monad.return zero_address } else ?r })
      ([False] @ uint_bits ?w 8 @ bytes_bits (ad_hash a)) ([] @ []) a"
    by (intro reads_bind [OF reads_bit]) simp
  then have "reads get_address (uint_bits 2 2 @ [False] @ uint_bits ?w 8 @ bytes_bits (ad_hash a)) ([] @ []) a"
    unfolding get_address_def by (intro reads_bind [OF reads_uint]) (simp add: t)
  then show ?thesis using False by (simp add: address_bits_def u)
qed

lemma reads_ref: "reads get_ref [] [c] (Some c)"
proof -
  have "drop (Suc n) xs = ys" "n < length xs" "xs ! n = v" if "drop n xs = v # ys" for n v and xs ys :: "cell list"
    using that by (metis drop_Suc list.sel(3) tl_drop, metis drop_all leI list.discI, metis nth_via_drop)
  then show ?thesis by (auto simp: reads_def get_ref_def sl_at_def)
qed

lemma writes_maybe_ref: "writes (put_maybe_ref c) [c \<noteq> None] (case c of None \<Rightarrow> [] | Some c \<Rightarrow> [c])"
  using writes_bit [of False] writes_comp [OF writes_bit [of True] writes_ref]
  by (cases c) (simp_all add: writes_def put_maybe_ref_def)

lemma reads_maybe_ref: "reads get_maybe_ref [c \<noteq> None] (case c of None \<Rightarrow> [] | Some c \<Rightarrow> [c]) c"
proof (cases c)
  case None
  have "reads get_maybe_ref ([False] @ []) ([] @ []) None"
    unfolding get_maybe_ref_def by (rule reads_bind, rule reads_bit) (simp add: reads_return)
  with None show ?thesis by simp
next
  case (Some r)
  have "reads get_maybe_ref ([True] @ []) ([] @ [r]) (Some r)"
    unfolding get_maybe_ref_def by (rule reads_bind, rule reads_bit) (simp add: reads_ref)
  with Some show ?thesis by simp
qed

subsection \<open>Cells the builder can make\<close>

fun subcells :: "cell \<Rightarrow> cell set" where
  "subcells (Cell bs rs) = insert (Cell bs rs) (\<Union>r \<in> set rs. subcells r)"

definition cell_fits :: "cell \<Rightarrow> bool" where
  "cell_fits c \<longleftrightarrow> length (cell_bits c) \<le> max_bits \<and> length (cell_refs c) \<le> max_refs \<and> cell_depth c \<le> 0xffff"

definition cell_ok :: "cell \<Rightarrow> bool" where
  "cell_ok c \<longleftrightarrow> (\<forall>x \<in> subcells c. cell_fits x)"

definition builder_ok :: "builder \<Rightarrow> bool" where
  "builder_ok b \<longleftrightarrow> length (bd_bits b) \<le> max_bits \<and> length (bd_refs b) \<le> max_refs \<and> (\<forall>r \<in> set (bd_refs b). cell_ok r)"

lemma self_subcell [simp, intro]: "c \<in> subcells c"
  by (cases c) simp

lemma ref_subcell: "r \<in> set (cell_refs c) \<Longrightarrow> subcells r \<subseteq> subcells c"
  by (cases c) auto

lemma subcell_trans: "x \<in> subcells y \<Longrightarrow> y \<in> subcells z \<Longrightarrow> x \<in> subcells z"
  by (induction z) auto

lemma finite_subcells [simp]: "finite (subcells c)"
  by (induction c) simp

lemma cell_ok_cell: "cell_ok (Cell bs rs) \<longleftrightarrow> cell_fits (Cell bs rs) \<and> (\<forall>r \<in> set rs. cell_ok r)"
  by (auto simp: cell_ok_def)

lemma new_builder_ok [simp]: "builder_ok new_builder"
  by (simp add: builder_ok_def new_builder_def)

lemma builder_ok_fold: "(\<And>x b. x \<in> set xs \<Longrightarrow> builder_ok b \<Longrightarrow> builder_ok (f x b)) \<Longrightarrow> builder_ok b \<Longrightarrow> builder_ok (fold f xs b)"
  by (induction xs arbitrary: b) simp_all

lemma put_bit_ok [inv_intros]: "builder_ok b \<Longrightarrow> builder_ok (put_bit v b)"
  by (auto simp: builder_ok_def put_bit_def)

lemma put_ref_ok [inv_intros]: "builder_ok b \<Longrightarrow> cell_ok c \<Longrightarrow> builder_ok (put_ref c b)"
  by (auto simp: builder_ok_def put_ref_def)

lemma put_uint_ok [inv_intros]: "builder_ok b \<Longrightarrow> builder_ok (put_uint v n b)"
  unfolding put_uint_def by (rule builder_ok_fold) (auto intro: put_bit_ok)

lemma put_int_ok [inv_intros]: "builder_ok b \<Longrightarrow> builder_ok (put_int v n b)"
  by (simp add: put_int_def put_uint_ok)

lemma put_bytes_ok [inv_intros]: "builder_ok b \<Longrightarrow> builder_ok (put_bytes p b)"
  unfolding put_bytes_def by (rule builder_ok_fold) (auto intro: put_uint_ok)

lemma put_coins_ok [inv_intros]:
  assumes "builder_ok b"
  shows "builder_ok (put_coins v b)"
proof -
  have "builder_ok (b\<lparr>bd_err := e\<rparr>)" for e using assms by (simp add: builder_ok_def)
  then show ?thesis
    using assms by (simp add: put_coins_def Let_def put_bytes_ok put_uint_ok split: option.split)
qed

lemma put_address_ok [inv_intros]: "builder_ok b \<Longrightarrow> builder_ok (put_address a b)"
  by (simp add: put_address_def put_bytes_ok put_int_ok put_bit_ok put_uint_ok)

lemma put_maybe_ref_ok [inv_intros]: "builder_ok b \<Longrightarrow> (\<And>c. r = Some c \<Longrightarrow> cell_ok c) \<Longrightarrow> builder_ok (put_maybe_ref r b)"
  by (auto simp: put_maybe_ref_def put_bit_ok put_ref_ok split: option.splits)

lemma build_cell_ok: "builder_ok b \<Longrightarrow> build_cell b = Inr c \<Longrightarrow> cell_ok c"
  by (auto simp: build_cell_def builder_ok_def cell_ok_cell cell_fits_def Let_def split: option.splits if_splits)

lemma assemble_ok:
  assumes "\<And>f b. f \<in> set ops \<Longrightarrow> builder_ok b \<Longrightarrow> builder_ok (f b)" and "assemble ops = Inr c"
  shows "cell_ok c"
proof -
  have "builder_ok (fold (\<lambda>f. f) ops new_builder)" using assms(1) by (intro builder_ok_fold) auto
  with assms(2) show ?thesis by (simp add: assemble_def build_cell_ok)
qed

text \<open>\<open>Depth\<close> is the length of the longest chain of refs.\<close>

lemma deeper_max: "deeper ds = (if ds = [] then 0 else Suc (Max (set ds)))"
proof -
  have "fold (\<lambda>r d. if d < r + 1 then r + 1 else d) ds n = (if ds = [] then n else max n (Suc (Max (set ds))))" for n
  proof (induction ds arbitrary: n)
    case (Cons d ds)
    then show ?case by (cases ds) (auto simp: max_def)
  qed simp
  then show ?thesis by (simp add: deeper_def)
qed

lemma depth_ref: "r \<in> set (cell_refs c) \<Longrightarrow> cell_depth r < cell_depth c"
  by (cases c) (auto simp: deeper_max less_Suc_eq_le)

lemma depth_subcell: "x \<in> subcells c \<Longrightarrow> cell_depth x \<le> cell_depth c"
proof (induction c)
  case (Cell bs rs)
  then show ?case using depth_ref [of _ "Cell bs rs"] by (auto simp del: cell_depth.simps) (meson less_imp_le order_trans)
qed

subsection \<open>A cell's contents, field by field\<close>

text \<open>A field with what it writes: the specification of a builder and of the reader of the same shape.\<close>

datatype field =
    Uint_Field u64 nat
  | Int_Field u64 nat
  | Bytes_Field bytes
  | Coins_Field int
  | Address_Field address
  | Ref_Field cell
  | Maybe_Field "cell option"
  | Bit_Field bool

fun put_one :: "field \<Rightarrow> builder \<Rightarrow> builder" where
  "put_one (Uint_Field v n) = put_uint v n"
| "put_one (Int_Field v n) = put_int v n"
| "put_one (Bytes_Field p) = put_bytes p"
| "put_one (Coins_Field v) = put_coins (Some v)"
| "put_one (Address_Field a) = put_address a"
| "put_one (Ref_Field c) = put_ref c"
| "put_one (Maybe_Field c) = put_maybe_ref c"
| "put_one (Bit_Field v) = put_bit v"

text \<open>The reader of a field's shape; of the field itself it uses the widths and lengths only.\<close>

fun get_one :: "field \<Rightarrow> field reader" where
  "get_one (Uint_Field _ n) = do { v \<leftarrow> get_uint n; State_Monad.return (Uint_Field v n) }"
| "get_one (Int_Field _ n) = do { v \<leftarrow> get_int n; State_Monad.return (Int_Field v n) }"
| "get_one (Bytes_Field p) = do { q \<leftarrow> get_bytes (length p); State_Monad.return (Bytes_Field q) }"
| "get_one (Coins_Field _) = do { v \<leftarrow> get_coins; State_Monad.return (Coins_Field v) }"
| "get_one (Address_Field _) = do { a \<leftarrow> get_address; State_Monad.return (Address_Field a) }"
| "get_one (Ref_Field _) = do { c \<leftarrow> get_ref; State_Monad.return (case c of Some c \<Rightarrow> Ref_Field c | None \<Rightarrow> Maybe_Field None) }"
| "get_one (Maybe_Field _) = do { c \<leftarrow> get_maybe_ref; State_Monad.return (Maybe_Field c) }"
| "get_one (Bit_Field _) = do { v \<leftarrow> get_bit; State_Monad.return (Bit_Field v) }"

fun get_all :: "field list \<Rightarrow> field list reader" where
  "get_all [] = State_Monad.return []"
| "get_all (f # fs) = do { x \<leftarrow> get_one f; xs \<leftarrow> get_all fs; State_Monad.return (x # xs) }"

text \<open>A field whose value its width can hold.\<close>

fun field_ok :: "field \<Rightarrow> bool" where
  "field_ok (Uint_Field v n) \<longleftrightarrow> take_bit n v = v"
| "field_ok (Int_Field v n) \<longleftrightarrow> 0 < n \<and> n < 64 \<and> signed_take_bit (n - 1) v = v"
| "field_ok (Coins_Field v) \<longleftrightarrow> 0 \<le> v \<and> v < 2 ^ 120"
| "field_ok (Address_Field a) \<longleftrightarrow> length (ad_hash a) = 32"
| "field_ok _ \<longleftrightarrow> True"

fun field_bits :: "field \<Rightarrow> bool list" where
  "field_bits (Uint_Field v n) = uint_bits v n"
| "field_bits (Int_Field v n) = uint_bits v n"
| "field_bits (Bytes_Field p) = bytes_bits p"
| "field_bits (Coins_Field v) = coins_bits (nat v)"
| "field_bits (Address_Field a) = address_bits a"
| "field_bits (Ref_Field c) = []"
| "field_bits (Maybe_Field c) = [c \<noteq> None]"
| "field_bits (Bit_Field v) = [v]"

fun field_refs :: "field \<Rightarrow> cell list" where
  "field_refs (Ref_Field c) = [c]"
| "field_refs (Maybe_Field (Some c)) = [c]"
| "field_refs _ = []"

lemma maybe_field_refs [simp]: "field_refs (Maybe_Field c) = (case c of None \<Rightarrow> [] | Some c \<Rightarrow> [c])"
  by (cases c) simp_all

lemma writes_field: "field_ok f \<Longrightarrow> writes (put_one f) (field_bits f) (field_refs f)"
  by (cases f)
    (simp_all add: writes_bit writes_uint writes_int writes_bytes writes_coins writes_address writes_ref writes_maybe_ref [simplified not_None_eq] del: field_refs.simps(2))

lemma reads_map: "reads m bs rs v \<Longrightarrow> reads (do { x \<leftarrow> m; State_Monad.return (g x) }) bs rs (g v)"
  using reads_bind [where f = "\<lambda>x. State_Monad.return (g x)", OF _ reads_return] by fastforce

lemma reads_field: "field_ok f \<Longrightarrow> reads (get_one f) (field_bits f) (field_refs f) f"
proof (induction f)
  case (Uint_Field v n)
  then show ?case using reads_map [OF reads_uint, where g = "\<lambda>v. Uint_Field v n", of n v] by simp
next
  case (Int_Field v n)
  then show ?case using reads_map [OF reads_int, where g = "\<lambda>v. Int_Field v n", of n v] by simp
next
  case (Bytes_Field p)
  then show ?case using reads_map [OF reads_bytes, where g = Bytes_Field] by simp
next
  case (Coins_Field v)
  then show ?case using reads_map [OF reads_coins, where g = Coins_Field, of "nat v"] by (simp add: nat_less_iff)
next
  case (Address_Field a)
  then show ?case using reads_map [OF reads_address, where g = Address_Field] by simp
next
  case (Ref_Field c)
  then show ?case using reads_map [OF reads_ref, where g = "\<lambda>x. case x of Some c \<Rightarrow> Ref_Field c | None \<Rightarrow> Maybe_Field None", of c] by simp
next
  case (Maybe_Field c)
  then show ?case using reads_map [OF reads_maybe_ref, where g = Maybe_Field, of c] by (simp only: get_one.simps field_bits.simps maybe_field_refs)
next
  case (Bit_Field v)
  then show ?case using reads_map [OF reads_bit, where g = Bit_Field] by simp
qed

lemma reads_fields: "list_all field_ok fs \<Longrightarrow> reads (get_all fs) (concat (map field_bits fs)) (concat (map field_refs fs)) fs"
proof (induction fs)
  case (Cons f fs)
  then have "reads (get_all fs) (concat (map field_bits fs)) (concat (map field_refs fs)) fs" by simp
  then have "reads (do { xs \<leftarrow> get_all fs; State_Monad.return (f # xs) }) (concat (map field_bits fs)) (concat (map field_refs fs)) (f # fs)"
    by (rule reads_map)
  moreover have "reads (get_one f) (field_bits f) (field_refs f) f" using Cons.prems by (simp add: reads_field)
  ultimately show ?case by (simp add: reads_bind)
qed (simp add: reads_return)

lemma assemble_fields:
  assumes "list_all field_ok fs" and "assemble (map put_one fs) = Inr c"
  shows "c = Cell (concat (map field_bits fs)) (concat (map field_refs fs))"
proof -
  let ?b = "fold (\<lambda>f. f) (map put_one fs) new_builder"
  have "writes (fold put_one fs) (concat (map field_bits fs)) (concat (map field_refs fs))"
    using assms(1) by (intro writes_fold) (simp add: list_all_iff writes_field)
  moreover have "bd_err ?b = None" and c: "c = Cell (bd_bits ?b) (bd_refs ?b)"
    using assms(2) by (auto simp: assemble_def build_cell_def Let_def split: option.splits if_splits)
  ultimately have "?b = new_builder\<lparr>bd_bits := concat (map field_bits fs), bd_refs := concat (map field_refs fs)\<rparr>"
    unfolding writes_def by (elim allE [of _ new_builder]) (auto simp: new_builder_def fold_map comp_def split: if_splits)
  then show ?thesis by (simp add: c)
qed

lemma assemble_fits:
  assumes "list_all field_ok fs" and "cell_fits (Cell (concat (map field_bits fs)) (concat (map field_refs fs)))"
  shows "assemble (map put_one fs) = Inr (Cell (concat (map field_bits fs)) (concat (map field_refs fs)))"
proof -
  have "writes (fold put_one fs) (concat (map field_bits fs)) (concat (map field_refs fs))"
    using assms(1) by (intro writes_fold) (simp add: list_all_iff writes_field)
  then have "fold (\<lambda>f. f) (map put_one fs) new_builder =
      new_builder\<lparr>bd_bits := concat (map field_bits fs), bd_refs := concat (map field_refs fs)\<rparr>"
    using assms(2) unfolding writes_def
    by (elim allE [of _ new_builder]) (simp add: new_builder_def fold_map comp_def cell_fits_def)
  then show ?thesis using assms(2) by (simp add: assemble_def build_cell_def Let_def new_builder_def cell_fits_def)
qed

lemma put_one_ok: "builder_ok b \<Longrightarrow> \<forall>r \<in> set (field_refs f). cell_ok r \<Longrightarrow> builder_ok (put_one f b)"
  by (cases f) (auto intro: inv_intros split: option.splits)

lemma assembled_ok:
  assumes "assemble (map put_one fs) = Inr c" and "\<forall>r \<in> set (concat (map field_refs fs)). cell_ok r"
  shows "cell_ok c"
  using assms(1) by (rule assemble_ok [rotated]) (use assms(2) in \<open>auto intro!: put_one_ok\<close>)

text \<open>A cell that came out of a chain of builder calls, with the cells it refers to built the same way.\<close>

inductive built_cell :: "cell \<Rightarrow> bool" where
  built: "(\<And>r. r \<in> set (concat (map field_refs fs)) \<Longrightarrow> built_cell r) \<Longrightarrow> assemble (map put_one fs) = Inr c \<Longrightarrow> built_cell c"

lemma built_cell_ok: "built_cell c \<Longrightarrow> cell_ok c"
proof (induction rule: built_cell.induct)
  case (built fs c)
  have "\<forall>r \<in> set (concat (map field_refs fs)). cell_ok r" using built.IH by (intro ballI)
  with built.hyps(2) show ?case by (rule assembled_ok)
qed

text \<open>
  C31. Every cell of a tree made with the builder is a cell of the format, whatever was put into it in whatever order: at most
  1023 bits and four references, and a depth that fits its two bytes.
\<close>

theorem built_cells_are_wellformed:
  assumes "built_cell c" and "x \<in> subcells c"
  shows "length (cell_bits x) \<le> 1023 \<and> length (cell_refs x) \<le> 4 \<and> cell_depth x \<le> 65535"
  using built_cell_ok [OF assms(1)] assms(2) by (auto simp: cell_ok_def cell_fits_def max_bits_def max_refs_def)

theorem built_cells_are_wellformed_witness:
  "built_cell (Cell [True, False] []) \<and> length (cell_bits (Cell [True, False] [])) \<le> 1023"
proof -
  have "assemble (map put_one [Bit_Field True, Bit_Field False]) = Inr (Cell [True, False] [])"
    by (subst assemble_fits) (simp_all add: cell_fits_def max_bits_def max_refs_def deeper_def)
  then have b: "built_cell (Cell [True, False] [])" by (rule built [rotated]) simp
  from built_cells_are_wellformed [OF b self_subcell] b show ?thesis by blast
qed

text \<open>Two fields of one shape: what the reader needs to know.\<close>

fun same_shape :: "field \<Rightarrow> field \<Rightarrow> bool" where
  "same_shape (Uint_Field _ m) (Uint_Field _ n) \<longleftrightarrow> m = n"
| "same_shape (Int_Field _ m) (Int_Field _ n) \<longleftrightarrow> m = n"
| "same_shape (Bytes_Field p) (Bytes_Field q) \<longleftrightarrow> length p = length q"
| "same_shape (Coins_Field _) (Coins_Field _) \<longleftrightarrow> True"
| "same_shape (Address_Field _) (Address_Field _) \<longleftrightarrow> True"
| "same_shape (Ref_Field _) (Ref_Field _) \<longleftrightarrow> True"
| "same_shape (Maybe_Field _) (Maybe_Field _) \<longleftrightarrow> True"
| "same_shape (Bit_Field _) (Bit_Field _) \<longleftrightarrow> True"
| "same_shape _ _ \<longleftrightarrow> False"

lemma get_all_shape: "list_all2 same_shape gs fs \<Longrightarrow> get_all gs = get_all fs"
proof (induction rule: list_all2_induct)
  case (Cons g gs f fs)
  then have "get_one g = get_one f" by (cases g; cases f) simp_all
  with Cons show ?case by simp
qed simp

text \<open>An operation after an error does nothing, so a cell that was built had room for every field.\<close>

lemma put_one_sticky: "bd_err b \<noteq> None \<Longrightarrow> put_one f b = b"
  using writes_uint writes_int writes_bytes writes_address writes_ref writes_maybe_ref writes_bit
  by (cases f) (simp_all add: writes_def put_coins_def)

lemma fold_sticky: "bd_err b \<noteq> None \<Longrightarrow> fold put_one fs b = b"
  by (induction fs) (simp_all add: put_one_sticky)

lemma assembled_coins:
  assumes "assemble (map put_one fs) = Inr c" and "Coins_Field v \<in> set fs"
  shows "0 \<le> v \<and> v < 2 ^ 120"
proof (rule ccontr)
  assume v: "\<not> (0 \<le> v \<and> v < 2 ^ 120)"
  obtain xs ys where fs: "fs = xs @ Coins_Field v # ys" using assms(2) by (meson split_list)
  have "bd_err (put_one (Coins_Field v) b) \<noteq> None" for b using v by (auto simp: put_coins_def not_le not_less)
  then have "bd_err (fold put_one fs new_builder) \<noteq> None" by (simp add: fs fold_sticky)
  with assms(1) show False by (auto simp: assemble_def fold_map comp_def build_cell_def split: option.splits)
qed

text \<open>
  C34. Whatever fields the builder put into a cell, reading a slice by their shapes gives exactly their values, with no
  error, and leaves no bit and no ref.
\<close>

theorem cell_fields_read_back:
  assumes "list_all field_ok fs" and "assemble (map put_one fs) = Inr c" and "list_all2 same_shape shapes fs"
  shows "\<exists>s. run_state (get_all shapes) (begin_cell c) = (fs, s) \<and>
             sl_err s = None \<and> sl_cell s = c \<and> remaining s = 0 \<and> remaining_refs s = 0"
proof -
  have "sl_at (begin_cell c) (concat (map field_bits fs) @ []) (concat (map field_refs fs) @ [])"
    using assemble_fields [OF assms(1,2)] by (simp add: sl_at_def begin_cell_def)
  then obtain s where s: "run_state (get_all fs) (begin_cell c) = (fs, s)" "sl_at s [] []" "sl_cell s = sl_cell (begin_cell c)"
    using reads_fields [OF assms(1)] unfolding reads_def by blast
  then show ?thesis
    using get_all_shape [OF assms(3)] by (intro exI [of _ s]) (auto simp: sl_at_def remaining_def remaining_refs_def begin_cell_def)
qed

theorem cell_fields_read_back_witness:
  "\<exists>c s. assemble (map put_one [Uint_Field 5 4, Address_Field zero_address, Coins_Field 300, Maybe_Field (Some (Cell [] []))]) = Inr c \<and>
         run_state (get_all [Uint_Field 0 4, Address_Field zero_address, Coins_Field 0, Maybe_Field None]) (begin_cell c) =
           ([Uint_Field 5 4, Address_Field zero_address, Coins_Field 300, Maybe_Field (Some (Cell [] []))], s)"
proof -
  let ?fs = "[Uint_Field 5 4, Address_Field zero_address, Coins_Field 300, Maybe_Field (Some (Cell [] []))]"
  have ok: "list_all field_ok ?fs" by (simp add: zero_address_def)
  have b: "big_bytes 300 = [CHR 0x01, CHR 0x2C]" by (simp add: big_bytes.simps [of 300] big_bytes.simps [of "Suc 0"] big_bytes.simps [of 0] char_of_def bit_simps)
  obtain c where c: "assemble (map put_one ?fs) = Inr c"
    using assemble_fits [OF ok] by (simp add: cell_fits_def max_bits_def max_refs_def deeper_def address_bits_def address_is_zero_def coins_bits_def b)
  show ?thesis
    using cell_fields_read_back [OF ok c, of "[Uint_Field 0 4, Address_Field zero_address, Coins_Field 0, Maybe_Field None]"] c
    by auto
qed

text \<open>Reading a whole cell: nothing may be missing and nothing left over.\<close>

definition read_whole :: "'a reader \<Rightarrow> cell \<Rightarrow> 'a option" where
  "read_whole m c =
     (case run_state m (begin_cell c) of
        (v, s) \<Rightarrow> if sl_err s = None \<and> remaining s = 0 \<and> remaining_refs s = 0 then Some v else None)"

lemma read_whole_cell:
  assumes "reads m bs rs v"
  shows "read_whole m (Cell bs rs) = Some v"
proof -
  have "sl_at (begin_cell (Cell bs rs)) (bs @ []) (rs @ [])" by (simp add: sl_at_def begin_cell_def)
  then obtain s where "run_state m (begin_cell (Cell bs rs)) = (v, s)" "sl_at s [] []" "sl_cell s = Cell bs rs"
    using assms unfolding reads_def by (metis begin_cell_def slice.select_convs(1))
  then show ?thesis by (auto simp: read_whole_def sl_at_def remaining_def remaining_refs_def)
qed

subsection \<open>The hash is the identity of a cell\<close>

definition cell_preimage :: "platform \<Rightarrow> cell \<Rightarrow> bytes" where
  "cell_preimage p c = representation (cell_bits c) (map (\<lambda>r. (cell_depth r, cell_hash p r)) (cell_refs c))"

lemma cell_hash_preimage: "cell_hash p c = sha256 p (cell_preimage p c)"
  by (cases c) (simp add: cell_preimage_def)

lemma length_cell_hash: "\<forall>x. length (sha256 p x) = 32 \<Longrightarrow> length (cell_hash p c) = 32"
  by (simp add: cell_hash_preimage)

lemma byte_bits_of_bits:
  assumes "8 \<le> length bs"
  shows "byte_bits (bits_byte bs) = take 8 bs"
proof -
  from assms obtain b0 b1 b2 b3 b4 b5 b6 b7 r where "bs = b0 # b1 # b2 # b3 # b4 # b5 # b6 # b7 # r"
    by (auto simp: Suc_le_length_iff [of "Suc _", simplified] eval_nat_numeral Suc_le_length_iff)
  then show ?thesis by (simp add: bits_byte_def)
qed

lemma unpack_bits: "\<exists>k. bytes_bits (pack_bits bs) = bs @ replicate k False \<and> (length bs mod 8 = 0 \<longrightarrow> k = 0)"
proof (induction bs rule: pack_bits.induct)
  case (1 bs)
  show ?case
  proof (cases "bs = []")
    case True
    then show ?thesis by (simp add: pack_bits.simps [of "[]"] bytes_bits_def)
  next
    case ne: False
    obtain k where k: "bytes_bits (pack_bits (drop 8 bs)) = drop 8 bs @ replicate k False"
      "length (drop 8 bs) mod 8 = 0 \<longrightarrow> k = 0" using "1.IH" [OF ne] by (elim exE conjE)
    have "byte_bits (bits_byte (bs @ replicate 7 False)) = take 8 (bs @ replicate 7 False)"
      using ne by (intro byte_bits_of_bits) (cases bs, simp_all)
    then have b: "bytes_bits (pack_bits bs) = take 8 (bs @ replicate 7 False) @ drop 8 bs @ replicate k False"
      using ne k(1) by (simp add: pack_bits.simps [of bs] bytes_bits_def)
    show ?thesis
    proof (cases "8 \<le> length bs")
      case True
      moreover have "length bs mod 8 = 0 \<Longrightarrow> length (drop 8 bs) mod 8 = 0"
        using True by (simp only: length_drop le_mod_geq [OF True, symmetric])
      ultimately show ?thesis using b k(2) by (intro exI [of _ k]) (simp add: append_assoc [symmetric] del: append_assoc)
    next
      case False
      moreover from this ne have "length bs mod 8 \<noteq> 0" by simp
      ultimately show ?thesis
        using b by (intro exI [of _ "min (8 - length bs) 7 + k"]) (simp add: replicate_add)
    qed
  qed
qed

lemma ceil8: "(n + 7) div 8 = n div 8 + (if n mod 8 = 0 then 0 else 1 :: nat)"
proof -
  have "(8 * q + r + 7) div 8 = q + (if r = 0 then 0 else 1 :: nat)" if "r < 8" for q r
    using that by (auto intro: div_nat_eqI)
  from this [of "n mod 8" "n div 8"] show ?thesis by simp
qed

lemma length_pack_bits [simp]: "length (pack_bits bs) = (length bs + 7) div 8"
proof (induction bs rule: pack_bits.induct)
  case (1 bs)
  show ?case
  proof (cases "bs = []")
    case True
    then show ?thesis by (simp add: pack_bits.simps [of "[]"])
  next
    case False
    have "(length bs + 7) div 8 = Suc ((length bs - 8 + 7) div 8)"
    proof (cases "length bs < 8")
      case True
      with False show ?thesis by (auto intro: div_nat_eqI simp: Suc_le_eq)
    next
      case False
      then have "length bs + 7 = (length bs - 8 + 7) + 8" by simp
      then show ?thesis by (metis add.commute add_Suc_right div_add_self2 numeral_neq_zero plus_1_eq_Suc)
    qed
    with 1 False show ?thesis by (simp add: pack_bits.simps [of bs])
  qed
qed

lemma length_padded [simp]: "length (padded bs) = (length bs + 7) div 8"
  by (auto simp: padded_def ceil8 [of "length bs"] intro!: div_nat_eqI)

text \<open>The completion tag marks the end of the bits.\<close>

lemma bits_of_padded:
  "bytes_bits (padded bs) = bs \<and> length bs mod 8 = 0 \<or> (\<exists>k. bytes_bits (padded bs) = bs @ True # replicate k False \<and> length bs mod 8 \<noteq> 0)"
  using unpack_bits [of bs] unpack_bits [of "bs @ [True]"] by (auto simp: padded_def)

lemma tag_inj:
  assumes "bs @ True # replicate k False = bs' @ True # replicate k' False"
  shows "bs = bs'"
proof -
  have "dropWhile Not (rev (xs @ True # replicate n False)) = True # rev xs" for xs n
    by (induction n) (simp_all add: dropWhile_append)
  from this [of bs k] this [of bs' k'] show ?thesis using assms by simp
qed

lemma double_neq: "Suc (a + a) \<noteq> b + b" "b + b \<noteq> Suc (a + a)" for a b :: nat
  by presburger+

lemma floor_ceil: "m div 8 + (m + 7) div 8 = n div 8 + (n + 7) div 8 \<Longrightarrow> (m mod 8 = 0 \<longleftrightarrow> n mod 8 = 0) \<and> (m + 7) div 8 = (n + 7) div (8 :: nat)"
  unfolding ceil8 by (auto simp: double_neq split: if_splits)

lemma padded_inj:
  assumes "padded bs = padded bs'" and "length bs mod 8 = 0 \<longleftrightarrow> length bs' mod 8 = 0"
  shows "bs = bs'"
  using bits_of_padded [of bs] bits_of_padded [of bs'] assms by (auto dest: tag_inj)

lemma byte_inj: "m < 256 \<Longrightarrow> n < 256 \<Longrightarrow> char_of m = (char_of n :: char) \<longleftrightarrow> m = (n :: nat)"
  using of_char_char_of_nat [of m] of_char_char_of_nat [of n] by (auto simp del: of_char_of)

lemma concat_sized_inj:
  "\<forall>x \<in> set xs. length x = k \<Longrightarrow> \<forall>y \<in> set ys. length y = k \<Longrightarrow> length xs = length ys \<Longrightarrow> concat xs = concat ys \<Longrightarrow> xs = ys"
proof (induction xs arbitrary: ys)
  case (Cons x xs)
  from Cons.prems(3) obtain y ys' where "ys = y # ys'" by (cases ys) simp_all
  with Cons.prems Cons.IH [of ys'] show ?case by simp
qed simp

lemma length_uint16_be [simp]: "length (uint16_be n) = 2"
  by (simp add: uint16_be_def)

lemma descriptor_small: "n \<le> max_bits \<Longrightarrow> n div 8 + (n + 7) div 8 < 256"
  using div_le_mono [of n 1023 8] by (auto simp: max_bits_def ceil8)

lemma descriptors_inj:
  assumes "descriptors k n = descriptors k' n'" and "k \<le> max_refs" "k' \<le> max_refs" "n \<le> max_bits" "n' \<le> max_bits"
  shows "k = k' \<and> (n mod 8 = 0 \<longleftrightarrow> n' mod 8 = 0) \<and> (n + 7) div 8 = (n' + 7) div 8"
proof -
  have "k < 256" "k' < 256" using assms(2,3) by (simp_all add: max_refs_def)
  then have "k = k'" using assms(1) by (simp add: descriptors_def byte_inj del: char_of_nat)
  moreover have "n div 8 + (n + 7) div 8 = n' div 8 + (n' + 7) div 8"
    using assms(1) unfolding descriptors_def list.inject
    by (elim conjE) (simp only: byte_inj [OF descriptor_small [OF assms(4)] descriptor_small [OF assms(5)]])
  ultimately show ?thesis by (rule conjI [OF _ floor_ceil])
qed

lemma representation_inj:
  assumes eq: "representation bs R = representation bs' R'"
    and "length R \<le> max_refs" "length R' \<le> max_refs" "length bs \<le> max_bits" "length bs' \<le> max_bits"
    and h: "\<forall>r \<in> set R. length (snd r) = 32" "\<forall>r \<in> set R'. length (snd r) = 32"
  shows "bs = bs' \<and> map snd R = map snd R'"
proof -
  have d: "descriptors (length R) (length bs) = descriptors (length R') (length bs')"
    and r: "padded bs @ concat (map (\<lambda>r. uint16_be (fst r)) R) @ concat (map snd R)
       = padded bs' @ concat (map (\<lambda>r. uint16_be (fst r)) R') @ concat (map snd R')"
    using eq by (simp_all add: representation_def descriptors_def)
  note n = descriptors_inj [OF d assms(2-5)]
  have p: "padded bs = padded bs'" and t: "concat (map (\<lambda>r. uint16_be (fst r)) R) @ concat (map snd R)
       = concat (map (\<lambda>r. uint16_be (fst r)) R') @ concat (map snd R')"
    using r n by simp_all
  have "length (concat (map (\<lambda>r. uint16_be (fst r)) xs)) = 2 * length xs" for xs :: "(nat \<times> bytes) list"
    by (induction xs) simp_all
  then have "concat (map snd R) = concat (map snd R')" using t n by simp
  then have "map snd R = map snd R'" by (rule concat_sized_inj [where k = 32, rotated 3]) (use h n in auto)
  with padded_inj [OF p] n show ?thesis by simp
qed

text \<open>The preimages hashed for a cell and for everything under it.\<close>

definition preimages :: "platform \<Rightarrow> cell \<Rightarrow> bytes set" where
  "preimages p c = cell_preimage p ` subcells c"

definition cells_collide :: "platform \<Rightarrow> cell \<Rightarrow> cell \<Rightarrow> bool" where
  "cells_collide p c d \<longleftrightarrow> (\<exists>u \<in> preimages p c. \<exists>v \<in> preimages p d. u \<noteq> v \<and> sha256 p u = sha256 p v)"

lemma preimages_ref: "r \<in> set (cell_refs c) \<Longrightarrow> preimages p r \<subseteq> preimages p c"
  unfolding preimages_def by (intro image_mono ref_subcell)

lemma cell_hash_inj:
  assumes len: "\<forall>x. length (sha256 p x) = 32"
  shows "cell_ok c \<Longrightarrow> cell_ok d \<Longrightarrow> cell_hash p c = cell_hash p d \<Longrightarrow> c = d \<or> cells_collide p c d"
proof (induction c arbitrary: d)
  case (Cell bs rs)
  obtain bs' rs' where d: "d = Cell bs' rs'" by (cases d)
  let ?c = "Cell bs rs"
  show ?case
  proof (cases "cell_preimage p ?c = cell_preimage p d")
    case False
    moreover have "cell_preimage p ?c \<in> preimages p ?c" "cell_preimage p d \<in> preimages p d" by (auto simp: preimages_def)
    ultimately show ?thesis using Cell.prems(3) unfolding cells_collide_def cell_hash_preimage by blast
  next
    case True
    have f: "cell_fits ?c" "cell_fits d" and ok: "\<forall>r \<in> set rs. cell_ok r" "\<forall>r \<in> set rs'. cell_ok r"
      using Cell.prems d by (simp_all add: cell_ok_cell)
    have "bs = bs' \<and> map snd (map (\<lambda>r. (cell_depth r, cell_hash p r)) rs) = map snd (map (\<lambda>r. (cell_depth r, cell_hash p r)) rs')"
      using True f by (intro representation_inj) (auto simp: d cell_preimage_def cell_fits_def length_cell_hash [OF len])
    then have b: "bs = bs'" and h: "map (cell_hash p) rs = map (cell_hash p) rs'" by (simp_all add: comp_def)
    show ?thesis
    proof (cases "rs = rs'")
      case True
      with b d show ?thesis by simp
    next
      case False
      have l: "length rs = length rs'" using h by (metis length_map)
      with False obtain i where i: "i < length rs" "rs ! i \<noteq> rs' ! i" by (meson nth_equalityI)
      have "cell_hash p (rs ! i) = cell_hash p (rs' ! i)" using h i(1) l by (metis nth_map)
      with i l ok Cell.IH [of "rs ! i" "rs' ! i"] have "cells_collide p (rs ! i) (rs' ! i)" by simp
      with i l preimages_ref [of "rs ! i" ?c p] preimages_ref [of "rs' ! i" d p] show ?thesis
        unfolding cells_collide_def d by fastforce
    qed
  qed
qed

subsection \<open>The order of the cells\<close>

text \<open>\<open>visit\<close> works on what is seen and the list of finished cells.\<close>

fun visit :: "platform \<Rightarrow> cell \<Rightarrow> bytes set \<times> cell list \<Rightarrow> bytes set \<times> cell list" where
  "visit p (Cell bs rs) (seen, post) =
     (let h = cell_hash p (Cell bs rs) in
      if h \<in> seen then (seen, post)
      else case fold (\<lambda>r st. visit p r st) (rev rs) (insert h seen, post) of
             (seen', post') \<Rightarrow> (seen', post' @ [Cell bs rs]))"

declare visit.simps [simp del]

definition order :: "platform \<Rightarrow> cell \<Rightarrow> cell list" where
  "order p root = rev (snd (visit p root ({}, [])))"

record stats =
  st_cells :: nat
  st_depth :: nat

definition count_cells :: "platform \<Rightarrow> cell \<Rightarrow> stats" where
  "count_cells p c = \<lparr>st_cells = length (order p c), st_depth = cell_depth c\<rparr>"

text \<open>
  \<open>finishes p S Q\<close>: the cells of \<open>Q\<close> are new to \<open>S\<close> and finished one after the other, each with all its refs behind it.
\<close>

fun finishes :: "platform \<Rightarrow> bytes set \<Rightarrow> cell list \<Rightarrow> bool" where
  "finishes p S [] \<longleftrightarrow> True"
| "finishes p S (x # Q) \<longleftrightarrow>
     cell_hash p x \<notin> S \<and> cell_hash p ` set (cell_refs x) \<subseteq> S \<and> finishes p (insert (cell_hash p x) S) Q"

lemma finishes_append:
  "finishes p S (Q @ R) \<longleftrightarrow> finishes p S Q \<and> finishes p (S \<union> cell_hash p ` set Q) R"
  by (induction Q arbitrary: S) auto

lemma finishes_weaken:
  "finishes p (insert h S) Q \<Longrightarrow> h \<notin> S \<Longrightarrow> \<forall>x \<in> set Q. h \<notin> cell_hash p ` set (cell_refs x) \<Longrightarrow> finishes p S Q"
  by (induction Q arbitrary: S) (auto simp: insert_commute)

lemma finishes_new: "finishes p S Q \<Longrightarrow> x \<in> set Q \<Longrightarrow> cell_hash p x \<notin> S"
  by (induction Q arbitrary: S) auto

lemma finishes_distinct: "finishes p S Q \<Longrightarrow> distinct (map (cell_hash p) Q)"
  by (induction Q arbitrary: S) (auto dest: finishes_new)

text \<open>What one visit adds.\<close>

definition visited :: "platform \<Rightarrow> cell set \<Rightarrow> cell list \<Rightarrow> bytes set \<Rightarrow> cell list \<Rightarrow> bytes set \<times> cell list \<Rightarrow> bool" where
  "visited p C hs S P st \<longleftrightarrow>
     (\<exists>Q. snd st = P @ Q \<and> fst st = S \<union> cell_hash p ` set Q \<and> finishes p S Q \<and> set Q \<subseteq> C \<and> cell_hash p ` set hs \<subseteq> fst st)"

lemma visited_step:
  assumes "visited p C hs S P (S', P')" and "visited p C' hs' S' P' st"
  shows "visited p (C \<union> C') (hs @ hs') S P st"
proof -
  obtain Q where Q: "P' = P @ Q" "S' = S \<union> cell_hash p ` set Q" "finishes p S Q" "set Q \<subseteq> C" "cell_hash p ` set hs \<subseteq> S'"
    using assms(1) by (auto simp: visited_def)
  obtain R where R: "snd st = P' @ R" "fst st = S' \<union> cell_hash p ` set R" "finishes p S' R" "set R \<subseteq> C'"
    "cell_hash p ` set hs' \<subseteq> fst st" using assms(2) by (auto simp: visited_def)
  show ?thesis unfolding visited_def
    by (rule exI [of _ "Q @ R"]) (use Q R in \<open>auto simp: finishes_append\<close>)
qed

lemma visit_visits:
  assumes "inj_on (cell_hash p) (subcells root)"
  shows "c \<in> subcells root \<Longrightarrow> visited p (subcells c) [c] S P (visit p c (S, P))"
proof (induction c arbitrary: S P)
  case (Cell bs rs)
  let ?c = "Cell bs rs" and ?h = "cell_hash p (Cell bs rs)"
  have sub: "r \<in> subcells root" if "r \<in> set rs" for r
    using subcell_trans [of r ?c root] Cell.prems that by auto
  have many: "visited p (\<Union>r \<in> set xs. subcells r) xs S P (fold (\<lambda>r st. visit p r st) xs (S, P))"
    if "set xs \<subseteq> set rs" for xs S P
    using that
  proof (induction xs arbitrary: S P)
    case Nil
    then show ?case by (simp add: visited_def)
  next
    case (Cons r xs)
    obtain S' P' where st: "visit p r (S, P) = (S', P')" by fastforce
    have "visited p (subcells r) [r] S P (S', P')" using Cell.IH [of r S P] Cons.prems sub st by simp
    from visited_step [OF this Cons.IH] Cons.prems st show ?case by simp
  qed
  show ?case
  proof (cases "?h \<in> S")
    case True
    then show ?thesis by (simp add: visit.simps Let_def visited_def)
  next
    case False
    obtain S' P' where st: "fold (\<lambda>r st. visit p r st) (rev rs) (insert ?h S, P) = (S', P')" by fastforce
    obtain Q where Q: "P' = P @ Q" "S' = insert ?h S \<union> cell_hash p ` set Q" "finishes p (insert ?h S) Q"
        "set Q \<subseteq> (\<Union>r \<in> set rs. subcells r)" "cell_hash p ` set rs \<subseteq> S'"
      using many [of "rev rs" "insert ?h S" P] by (auto simp: st visited_def simp del: cell_hash.simps)
    have up: "?h \<noteq> cell_hash p r" if "r \<in> subcells y" "y \<in> set rs" for r y
    proof
      assume h: "?h = cell_hash p r"
      have "r \<in> subcells root" using subcell_trans [OF that(1) sub [OF that(2)]] .
      then have "r = ?c" using inj_onD [OF assms h Cell.prems] by simp
      moreover have "cell_depth r < cell_depth ?c"
        using depth_subcell [OF that(1)] depth_ref [of y ?c] that(2) by simp
      ultimately show False by simp
    qed
    note [simp del] = cell_hash.simps
    have "\<forall>x \<in> set Q. ?h \<notin> cell_hash p ` set (cell_refs x)"
    proof (rule ballI, rule notI)
      fix x assume "x \<in> set Q" and "?h \<in> cell_hash p ` set (cell_refs x)"
      then obtain y r where "y \<in> set rs" "x \<in> subcells y" "r \<in> set (cell_refs x)" "?h = cell_hash p r" using Q(4) by blast
      then show False using up [of r y] ref_subcell [of r x] subcell_trans [of r x y] by auto
    qed
    from finishes_weaken [OF Q(3) False this] have "finishes p S Q" .
    moreover have "?h \<noteq> cell_hash p x" if "x \<in> set Q" for x using finishes_new [OF Q(3) that] by (metis insertCI)
    then have "?h \<notin> S \<union> cell_hash p ` set Q" using False by (simp add: image_iff)
    moreover have "?h \<noteq> cell_hash p r" if "r \<in> set rs" for r using up [OF self_subcell that] .
    then have "?h \<notin> cell_hash p ` set rs" by (simp add: image_iff)
    then have "cell_hash p ` set rs \<subseteq> S \<union> cell_hash p ` set Q" using Q(2,5) subset_insert by (metis Un_insert_left)
    ultimately have "finishes p S (Q @ [?c])" by (simp add: finishes_append)
    then show ?thesis unfolding visited_def
      by (intro exI [of _ "Q @ [?c]"]) (use False Q st in \<open>auto simp: visit.simps Let_def\<close>)
  qed
qed

lemma closed_subcells: "c \<in> A \<Longrightarrow> (\<And>x r. x \<in> A \<Longrightarrow> r \<in> set (cell_refs x) \<Longrightarrow> r \<in> A) \<Longrightarrow> subcells c \<subseteq> A"
proof (induction c)
  case (Cell bs rs)
  have "subcells r \<subseteq> A" if "r \<in> set rs" for r
    using Cell.IH [OF that] Cell.prems(2) [OF Cell.prems(1), of r] Cell.prems(2) that by simp
  with Cell.prems(1) show ?case by auto
qed

lemma order_head: "\<exists>xs. order p root = root # xs"
proof (cases root)
  case (Cell bs rs)
  obtain S P where "fold (\<lambda>r st. visit p r st) (rev rs) (insert (cell_hash p (Cell bs rs)) {}, []) = (S, P)" by fastforce
  then show ?thesis using Cell by (intro exI [of _ "rev P"]) (simp add: order_def visit.simps Let_def)
qed

lemma order_finishes:
  assumes "inj_on (cell_hash p) (subcells root)"
  shows "finishes p {} (rev (order p root)) \<and> set (order p root) = subcells root"
proof -
  obtain Q where Q: "snd (visit p root ({}, [])) = Q" "finishes p {} Q" "set Q \<subseteq> subcells root"
    using visit_visits [OF assms, of root "{}" "[]"] by (auto simp: visited_def)
  then have o: "order p root = rev Q" by (simp add: order_def)
  have "subcells root \<subseteq> set Q"
  proof (rule closed_subcells)
    show "root \<in> set Q" using order_head [of p root] o by (metis list.set_intros(1) set_rev)
  next
    fix x r assume "x \<in> set Q" and r: "r \<in> set (cell_refs x)"
    then obtain Q1 Q2 where "Q = Q1 @ x # Q2" by (meson split_list)
    with Q(2) r have "cell_hash p r \<in> cell_hash p ` set Q" by (auto simp: finishes_append)
    moreover have "r \<in> subcells root"
      using \<open>x \<in> set Q\<close> Q(3) r subcell_trans [of r x root] ref_subcell [OF r] by auto
    ultimately show "r \<in> set Q" using inj_onD [OF assms] Q(3) by blast
  qed
  with Q o show ?thesis by auto
qed

text \<open>Every cell of the tree stands once in the order, the root first and each cell in front of the cells it refers to.\<close>

lemma order_topological:
  assumes "inj_on (cell_hash p) (subcells root)" and "i < length (order p root)" and "r \<in> set (cell_refs (order p root ! i))"
  shows "\<exists>j. i < j \<and> j < length (order p root) \<and> order p root ! j = r"
proof -
  let ?o = "order p root"
  have f: "finishes p {} (rev ?o)" and s: "set ?o = subcells root" using order_finishes [OF assms(1)] by auto
  have "rev ?o = rev (drop (Suc i) ?o) @ ?o ! i # rev (take i ?o)"
    using id_take_nth_drop [OF assms(2)] by (metis append.assoc append_Cons append_Nil rev.simps(2) rev_append)
  with f have "cell_hash p ` set (cell_refs (?o ! i)) \<subseteq> cell_hash p ` set (drop (Suc i) ?o)"
    by (simp add: finishes_append)
  with assms(3) obtain x where x: "x \<in> set (drop (Suc i) ?o)" "cell_hash p r = cell_hash p x" by blast
  have "?o ! i \<in> subcells root" using assms(2) s nth_mem by blast
  then have "r \<in> subcells root" using subcell_trans [of r "?o ! i" root] ref_subcell [OF assms(3)] by auto
  moreover have "x \<in> subcells root" using x(1) s in_set_dropD by fastforce
  ultimately have "r = x" using inj_onD [OF assms(1) x(2)] by simp
  with x(1) obtain k where "k < length (drop (Suc i) ?o)" "drop (Suc i) ?o ! k = r" by (metis in_set_conv_nth)
  then show ?thesis by (intro exI [of _ "Suc i + k"]) simp
qed

lemma order_distinct: "inj_on (cell_hash p) (subcells root) \<Longrightarrow> distinct (map (cell_hash p) (order p root))"
  using order_finishes finishes_distinct by (metis distinct_rev rev_map)

subsection \<open>The bag of cells\<close>

text \<open>
  \<open>bytesFor\<close>: the shift wraps at 64 bits, so the loop has no end for a value from \<open>2 ^ 56\<close> on: there the result is
  \<open>None\<close>.
\<close>

partial_function (option) bytes_for_from :: "nat \<Rightarrow> nat \<Rightarrow> nat option" where
  "bytes_for_from v n = (if 2 ^ (8 * n) mod 2 ^ 64 \<le> v then bytes_for_from v (n + 1) else Some n)"

definition bytes_for :: "nat \<Rightarrow> nat option" where
  "bytes_for v = bytes_for_from v 1"

definition append_be :: "nat \<Rightarrow> nat \<Rightarrow> bytes" where
  "append_be v n = map (\<lambda>i. char_of (v div 2 ^ (8 * i))) (rev [0 ..< n])"

text \<open>\<open>hash/crc32\<close>, one bit at a time: the polynomial in reversed bit order.\<close>

definition crc32_bit :: "32 word \<Rightarrow> 32 word \<Rightarrow> 32 word" where
  "crc32_bit poly crc = (if crc AND 1 \<noteq> 0 then drop_bit 1 crc XOR poly else drop_bit 1 crc)"

definition crc32_byte :: "32 word \<Rightarrow> 32 word \<Rightarrow> char \<Rightarrow> 32 word" where
  "crc32_byte poly crc c = (crc32_bit poly ^^ 8) (crc XOR of_nat (of_char c))"

definition crc32 :: "32 word \<Rightarrow> bytes \<Rightarrow> 32 word" where
  "crc32 poly p = NOT (foldl (crc32_byte poly) (NOT 0) p)"

definition castagnoli :: "32 word" where
  "castagnoli = 0x82F63B78"

definition uint32_le :: "nat \<Rightarrow> bytes" where
  "uint32_le n = [char_of n, char_of (n div 2 ^ 8), char_of (n div 2 ^ 16), char_of (n div 2 ^ 24)]"

definition boc_magic :: nat where
  "boc_magic = 0xb5ee9c72"

text \<open>The position of a hash in the order: the last one if a hash came twice, zero for an unknown hash.\<close>

definition cell_index :: "platform \<Rightarrow> cell list \<Rightarrow> bytes \<Rightarrow> nat" where
  "cell_index p cells h =
     (case map_of (rev (zip (map (cell_hash p) cells) [0 ..< length cells])) h of Some i \<Rightarrow> i | None \<Rightarrow> 0)"

definition cell_bytes :: "platform \<Rightarrow> cell list \<Rightarrow> nat \<Rightarrow> cell \<Rightarrow> bytes" where
  "cell_bytes p cells sz x =
     descriptors (length (cell_refs x)) (length (cell_bits x)) @ padded (cell_bits x) @
     concat (map (\<lambda>r. append_be (cell_index p cells (cell_hash p r)) sz) (cell_refs x))"

definition to_boc :: "platform \<Rightarrow> cell \<Rightarrow> bytes option" where
  "to_boc p c =
     (let cells = order p c in
      case bytes_for (length cells) of
        None \<Rightarrow> None
      | Some sz \<Rightarrow>
          let total = sum_list (map (\<lambda>x. 2 + (length (cell_bits x) + 7) div 8 + length (cell_refs x) * sz) cells) in
          case bytes_for total of
            None \<Rightarrow> None
          | Some off \<Rightarrow>
              let out = append_be boc_magic 4 @ [char_of (0x40 OR sz), char_of off] @
                    append_be (length cells) sz @ append_be 1 sz @ append_be 0 sz @
                    append_be total off @ append_be 0 sz @ concat (map (cell_bytes p cells sz) cells)
              in Some (out @ uint32_le (unat (crc32 castagnoli out))))"

definition short_hash :: "bytes \<Rightarrow> string" where
  "short_hash h = hex_encode (take 4 h) @ [CHR 0xE2, CHR 0x80, CHR 0xA6]"

subsection \<open>Reading a bag of cells\<close>

text \<open>
  The format as a node reads it, written from the published layout: magic, sizes, the counts, the cells with the
  indices of their refs, all behind the cell itself, and the checksum.
\<close>

definition unpad :: "bool \<Rightarrow> bytes \<Rightarrow> bool list" where
  "unpad tagged p = (if tagged then rev (tl (dropWhile Not (rev (bytes_bits p)))) else bytes_bits p)"

fun read_cell :: "nat \<Rightarrow> bytes \<Rightarrow> ((bool list \<times> nat list) \<times> bytes) option" where
  "read_cell sz (d1 # d2 # s) =
     (let k = of_char d1; m = (of_char d2 + 1) div 2 in
      if 4 < k \<or> length s < m + k * sz then None
      else Some ((unpad (odd (of_char d2 :: nat)) (take m s), map (\<lambda>i. big_value (take sz (drop (m + i * sz) s))) [0 ..< k]),
                 drop (m + k * sz) s))"
| "read_cell _ _ = None"

fun read_cells :: "nat \<Rightarrow> nat \<Rightarrow> bytes \<Rightarrow> (bool list \<times> nat list) list option" where
  "read_cells sz 0 s = (if s = [] then Some [] else None)"
| "read_cells sz (Suc n) s =
     (case read_cell sz s of
        None \<Rightarrow> None
      | Some (c, r) \<Rightarrow> map_option ((#) c) (read_cells sz n r))"

fun tie :: "nat \<Rightarrow> (bool list \<times> nat list) list \<Rightarrow> cell list option" where
  "tie i [] = Some []"
| "tie i ((bs, js) # raws) =
     (case tie (i + 1) raws of
        None \<Rightarrow> None
      | Some cs \<Rightarrow>
          if \<forall>j \<in> set js. i < j \<and> j < i + 1 + length cs then Some (Cell bs (map (\<lambda>j. cs ! (j - (i + 1))) js) # cs)
          else None)"

definition read_boc :: "bytes \<Rightarrow> cell option" where
  "read_boc s =
     (let out = take (length s - 4) s;
          sz = of_char (out ! 4) mod 8; off = of_char (out ! 5);
          field = (\<lambda>at n. big_value (take n (drop at out)));
          n = field 6 sz; body = drop (6 + 4 * sz + off) out in
      if length s < 10 \<or> drop (length s - 4) s \<noteq> uint32_le (unat (crc32 castagnoli out)) then None
      else if take 4 out \<noteq> append_be boc_magic 4 \<or> of_char (out ! 4) div 8 \<noteq> (8 :: nat) then None
      else if field (6 + sz) sz \<noteq> 1 \<or> field (6 + 2 * sz) sz \<noteq> 0 \<or> field (6 + 3 * sz) off \<noteq> length body then None
      else case read_cells sz n body of
             None \<Rightarrow> None
           | Some raws \<Rightarrow>
               (case tie 0 raws of
                  None \<Rightarrow> None
                | Some cs \<Rightarrow> let r = field (6 + 3 * sz + off) sz in if r < length cs then Some (cs ! r) else None))"

subsection \<open>A node reads what was serialized\<close>

lemma append_be_Suc: "append_be v (Suc n) = char_of (v div 2 ^ (8 * n)) # append_be v n"
  by (simp add: append_be_def)

lemma length_append_be [simp]: "length (append_be v n) = n"
  by (simp add: append_be_def)

lemma big_value_Cons: "big_value (c # p) = of_char c * 256 ^ length p + big_value p"
proof (induction p rule: rev_induct)
  case (snoc x p)
  then show ?case using big_value_snoc [of "c # p" x] big_value_snoc [of p x] by (simp add: algebra_simps)
qed (simp add: big_value_def)

lemma big_value_append_be: "v < 2 ^ (8 * n) \<Longrightarrow> big_value (append_be v n) = v"
proof -
  have "big_value (append_be v n) = v mod 2 ^ (8 * n)"
  proof (induction n)
    case 0
    then show ?case by (simp add: append_be_def big_value_def)
  next
    case (Suc n)
    have p: "(256 :: nat) ^ n = 2 ^ (8 * n)" using power_mult [of "2 :: nat" 8 n] by simp
    have "big_value (append_be v (Suc n)) = v div 2 ^ (8 * n) mod 256 * 2 ^ (8 * n) + v mod 2 ^ (8 * n)"
      by (simp add: append_be_Suc big_value_Cons Suc p)
    also have "\<dots> = v mod (2 ^ (8 * n) * 256)" by (simp only: mod_mult2_eq mult.commute [of _ "2 ^ (8 * n)"])
    also have "2 ^ (8 * n) * 256 = (2 :: nat) ^ (8 * Suc n)" by (simp add: power_add)
    finally show ?case .
  qed
  then show "v < 2 ^ (8 * n) \<Longrightarrow> ?thesis" by simp
qed

lemma bytes_for_some:
  assumes "bytes_for v = Some n"
  shows "0 < n \<and> n < 8 \<and> v < 2 ^ (8 * n)"
proof -
  have "k \<le> n \<and> v < 2 ^ (8 * n) mod 2 ^ 64" if "bytes_for_from v k = Some n" for k
    using that
  proof (rule bytes_for_from.raw_induct [of "\<lambda>v k n. k \<le> n \<and> v < 2 ^ (8 * n) mod 2 ^ 64", rotated])
    fix f :: "nat \<Rightarrow> nat \<Rightarrow> nat option" and v k r
    assume ih: "\<And>v k r. f v k = Some r \<Longrightarrow> k \<le> r \<and> v < 2 ^ (8 * r) mod 2 ^ 64"
      and eq: "(if 2 ^ (8 * k) mod 2 ^ 64 \<le> v then f v (k + 1) else Some k) = Some r"
    show "k \<le> r \<and> v < 2 ^ (8 * r) mod 2 ^ 64"
    proof (cases "2 ^ (8 * k) mod 2 ^ 64 \<le> v")
      case True
      with eq have "f v (k + 1) = Some r" by (simp only: if_True)
      from ih [OF this] show ?thesis by simp
    next
      case False
      with eq show ?thesis by (simp only: if_False option.inject not_le) simp
    qed
  qed
  from this [of 1] assms have b: "1 \<le> n" "v < 2 ^ (8 * n) mod 2 ^ 64" by (simp_all add: bytes_for_def)
  moreover have "n < 8"
  proof (rule ccontr)
    assume "\<not> n < 8"
    then have "(2 :: nat) ^ 64 dvd 2 ^ (8 * n)" by (intro le_imp_power_dvd) simp
    with b(2) show False by (simp add: dvd_eq_mod_eq_0)
  qed
  moreover have "(2 :: nat) ^ (8 * n) mod 2 ^ 64 \<le> 2 ^ (8 * n)" by (rule mod_less_eq_dividend)
  ultimately show ?thesis by linarith
qed

lemma bytes_for_returns: "v < 2 ^ 56 \<Longrightarrow> \<exists>n. bytes_for v = Some n"
proof -
  assume v: "v < 2 ^ 56"
  have "\<exists>n. bytes_for_from v k = Some n" if "k \<le> 7" for k
    using that
  proof (induction k rule: inc_induct)
    case base
    then show ?case using v by (simp add: bytes_for_from.simps)
  next
    case (step k)
    then show ?case by (cases "2 ^ (8 * k) mod 2 ^ 64 \<le> v") (simp_all add: bytes_for_from.simps [of v k])
  qed
  then show ?thesis by (simp add: bytes_for_def)
qed

definition raw_cell :: "platform \<Rightarrow> cell list \<Rightarrow> cell \<Rightarrow> bool list \<times> nat list" where
  "raw_cell p cells x = (cell_bits x, map (\<lambda>r. cell_index p cells (cell_hash p r)) (cell_refs x))"

lemma cell_index_nth:
  assumes "distinct (map (cell_hash p) cells)" and "i < length cells"
  shows "cell_index p cells (cell_hash p (cells ! i)) = i"
proof -
  let ?z = "zip (map (cell_hash p) cells) [0 ..< length cells]"
  have "(cell_hash p (cells ! i), i) \<in> set ?z"
    using assms(2) by (auto simp: set_zip intro!: exI [of _ i])
  then have "map_of (rev ?z) (cell_hash p (cells ! i)) = Some i"
    using assms(1) by (intro map_of_is_SomeI) (simp_all add: rev_map [symmetric])
  then show ?thesis by (simp add: cell_index_def)
qed

lemma unpad_padded: "unpad (odd (length bs div 8 + (length bs + 7) div 8)) (padded bs) = bs"
proof -
  have "dropWhile Not (rev (xs @ True # replicate n False)) = True # rev xs" for xs n
    by (induction n) (simp_all add: dropWhile_append)
  then show ?thesis using bits_of_padded [of bs] by (auto simp: unpad_def ceil8)
qed

lemma take_drop_chunk:
  "\<forall>x \<in> set xs. length x = n \<Longrightarrow> i < length xs \<Longrightarrow> take n (drop (i * n) (concat xs @ rest)) = xs ! i"
proof (induction xs arbitrary: i)
  case (Cons x xs)
  then show ?case by (cases i) simp_all
qed simp

lemma read_cell_bytes:
  assumes "cell_fits x" and "\<forall>r \<in> set (cell_refs x). cell_index p cells (cell_hash p r) < 2 ^ (8 * sz)"
  shows "read_cell sz (cell_bytes p cells sz x @ rest) = Some (raw_cell p cells x, rest)"
proof -
  let ?n = "length (cell_bits x)" and ?k = "length (cell_refs x)"
  let ?ix = "\<lambda>r. append_be (cell_index p cells (cell_hash p r)) sz"
  let ?js = "map ?ix (cell_refs x)" and ?d = "?n div 8 + (?n + 7) div 8"
  have d: "?d < 256" and k: "?k \<le> 4"
    using assms(1) descriptor_small [of ?n] by (simp_all add: cell_fits_def max_refs_def)
  have m: "(?d + 1) div 2 = (?n + 7) div 8" by (simp add: ceil8)
  have l: "\<forall>y \<in> set ?js. length y = sz" by simp
  have "take sz (drop (i * sz) (concat ?js @ rest)) = ?js ! i" if "i < ?k" for i
    using take_drop_chunk [OF l, of i rest] that by simp
  then have "map (\<lambda>i. big_value (take sz (drop (i * sz) (concat ?js @ rest)))) [0 ..< ?k]
      = map (\<lambda>r. cell_index p cells (cell_hash p r)) (cell_refs x)"
    using assms(2) by (intro nth_equalityI) (simp_all add: big_value_append_be)
  moreover have "drop (length (padded (cell_bits x)) + i) (padded (cell_bits x) @ s) = drop i s" for i s by simp
  ultimately show ?thesis
    using d k m length_concat_sized [OF l] unpad_padded [of "cell_bits x"]
    by (simp add: cell_bytes_def descriptors_def Let_def raw_cell_def add.commute [of _ "length (padded _)"])
qed

lemma read_cells_bytes:
  assumes "\<forall>x \<in> set xs. cell_fits x \<and> (\<forall>r \<in> set (cell_refs x). cell_index p cells (cell_hash p r) < 2 ^ (8 * sz))"
  shows "read_cells sz (length xs) (concat (map (cell_bytes p cells sz) xs)) = Some (map (raw_cell p cells) xs)"
  using assms by (induction xs) (simp_all add: read_cell_bytes)

lemma tie_cells:
  assumes "distinct (map (cell_hash p) L)"
    and top: "\<And>i r. i < length L \<Longrightarrow> r \<in> set (cell_refs (L ! i)) \<Longrightarrow> \<exists>j. i < j \<and> j < length L \<and> L ! j = r"
    and "i \<le> length L"
  shows "tie i (map (raw_cell p L) (drop i L)) = Some (drop i L)"
  using assms(3)
proof (induction i rule: inc_induct)
  case (step i)
  then have d: "drop i L = L ! i # drop (Suc i) L" by (simp add: Cons_nth_drop_Suc)
  let ?ix = "\<lambda>r. cell_index p L (cell_hash p r)"
  have "i < ?ix r \<and> ?ix r < length L \<and> drop (Suc i) L ! (?ix r - (i + 1)) = r" if r: "r \<in> set (cell_refs (L ! i))" for r
  proof -
    obtain j where j: "i < j" "j < length L" "L ! j = r" using top [OF step.hyps(2) r] by blast
    then have "?ix r = j" using cell_index_nth [OF assms(1) j(2)] by simp
    with j show ?thesis by simp
  qed
  moreover have "i + 1 + length (drop (Suc i) L) = length L" using step.hyps by simp
  ultimately have "map (\<lambda>j. drop (Suc i) L ! (j - (i + 1))) (map ?ix (cell_refs (L ! i))) = cell_refs (L ! i)"
    and "\<forall>j \<in> set (map ?ix (cell_refs (L ! i))). i < j \<and> j < i + 1 + length (drop (Suc i) L)"
    by (auto simp only: length_map nth_map set_map nth_mem intro!: nth_equalityI)
  with step.IH show ?case by (simp add: d raw_cell_def)
qed simp

lemma low_bits_or: "n < 8 \<Longrightarrow> 0x40 OR n = 64 + (n :: nat)"
proof -
  have "list_all (\<lambda>n. 0x40 OR n = 64 + (n :: nat)) [0 ..< 8]" by code_simp
  then show "n < 8 \<Longrightarrow> ?thesis" by (simp add: list_all_iff)
qed

text \<open>The bytes of a bag, read: the parts stand where the reader looks.\<close>

lemma read_boc_parts:
  assumes sz: "0 < sz" "sz < 8" and off: "off < 8" and n: "n < 2 ^ (8 * sz)" and t: "length body < 2 ^ (8 * off)"
    and cs: "read_cells sz n body = Some raws" "tie 0 raws = Some cs" "cs \<noteq> []"
  defines "out \<equiv> append_be boc_magic 4 @ [char_of (0x40 OR sz), char_of off] @ append_be n sz @ append_be 1 sz @
                  append_be 0 sz @ append_be (length body) off @ append_be 0 sz @ body"
  shows "read_boc (out @ uint32_le (unat (crc32 castagnoli out))) = Some (cs ! 0)"
proof -
  let ?crc = "uint32_le (unat (crc32 castagnoli out))"
  have c: "length ?crc = 4" by (simp add: uint32_le_def)
  obtain m0 m1 m2 m3 where m: "append_be boc_magic 4 = [m0, m1, m2, m3]" by (simp add: append_be_def upt_rec)
  have o: "out = [m0, m1, m2, m3, char_of (0x40 OR sz), char_of off] @ append_be n sz @ append_be 1 sz @
                  append_be 0 sz @ append_be (length body) off @ append_be 0 sz @ body"
    by (simp add: out_def m)
  have f4: "of_char (out ! 4) = 64 + sz" using sz by (simp add: o low_bits_or)
  have f5: "of_char (out ! 5) = off" using off by (simp add: o)
  have one: "(1 :: nat) < 2 ^ (8 * sz)" using sz(1) by (intro one_less_power) simp_all
  have at: "take k (drop i out) = ys" if "out = xs @ ys @ zs" "length xs = i" "length ys = k" for xs ys zs i k
    using that by simp
  let ?h = "[m0, m1, m2, m3, char_of (0x40 OR sz), char_of off]"
  let ?h1 = "?h @ append_be n sz @ append_be 1 sz"
  have v1: "take sz (drop 6 out) = append_be n sz" by (rule at [of ?h]) (simp_all add: o)
  have v2: "take sz (drop (6 + sz) out) = append_be 1 sz" by (rule at [of "?h @ append_be n sz"]) (simp_all add: o)
  have v3: "take sz (drop (6 + 2 * sz) out) = append_be 0 sz" by (rule at [of "?h1"]) (simp_all add: o)
  have v4: "take off (drop (6 + 3 * sz) out) = append_be (length body) off"
    by (rule at [of "?h1 @ append_be 0 sz"]) (simp_all add: o)
  have v5: "take sz (drop (6 + 3 * sz + off) out) = append_be 0 sz"
    by (rule at [of "?h1 @ append_be 0 sz @ append_be (length body) off"]) (simp_all add: o)
  have v6: "drop (6 + 4 * sz + off) out = body"
  proof -
    have g: "drop i out = ys" if "out = xs @ ys" "length xs = i" for xs ys i using that by simp
    show ?thesis
      by (rule g [of "?h1 @ append_be 0 sz @ append_be (length body) off @ append_be 0 sz"]) (simp_all add: o)
  qed
  note v = v1 v2 v3 v4 v5 v6
  have z: "big_value (append_be 0 sz) = 0" by (rule big_value_append_be) simp
  have "length out = 6 + 4 * sz + off + length body" by (simp add: o)
  then have "\<not> length (out @ ?crc) < 10" using c by simp
  moreover have "take (length (out @ ?crc) - 4) (out @ ?crc) = out" "drop (length (out @ ?crc) - 4) (out @ ?crc) = ?crc"
    using c by simp_all
  moreover have "take 4 out = append_be boc_magic 4" by (simp add: o m)
  moreover have "(64 + sz) mod 8 = sz" "(64 + sz) div 8 = 8" using sz(2) mod_mult_self3 [of 8 8 sz] by simp_all
  ultimately show ?thesis
    using cs unfolding read_boc_def Let_def
    by (simp only: f4 f5 v big_value_append_be [OF n] big_value_append_be [OF one] big_value_append_be [OF t] z) simp
qed

lemma cell_bytes_length:
  "length (cell_bytes p cells sz x) = 2 + (length (cell_bits x) + 7) div 8 + length (cell_refs x) * sz"
proof -
  have "length (concat (map (\<lambda>r. append_be (cell_index p cells (cell_hash p r)) sz) rs)) = length rs * sz" for rs
    by (induction rs) simp_all
  then show ?thesis by (simp add: cell_bytes_def descriptors_def)
qed

lemma cells_collide_mono: "x \<in> subcells c \<Longrightarrow> y \<in> subcells d \<Longrightarrow> cells_collide p x y \<Longrightarrow> cells_collide p c d"
  unfolding cells_collide_def preimages_def using subcell_trans by blast

lemma hash_inj_on:
  assumes "\<forall>x. length (sha256 p x) = 32" and "cell_ok c" and "\<not> cells_collide p c c"
  shows "inj_on (cell_hash p) (subcells c)"
proof (rule inj_onI)
  fix x y assume s: "x \<in> subcells c" "y \<in> subcells c" and h: "cell_hash p x = cell_hash p y"
  have "cell_ok x" "cell_ok y" using assms(2) s subcell_trans by (auto simp: cell_ok_def)
  with cell_hash_inj [OF assms(1) _ _ h] cells_collide_mono [OF s] assms(3) show "x = y" by blast
qed

lemma total_bound:
  assumes "\<forall>x \<in> set xs. cell_fits x" and "sz < 8"
  shows "sum_list (map (\<lambda>x. 2 + (length (cell_bits x) + 7) div 8 + length (cell_refs x) * sz) xs) \<le> 158 * length xs"
  using assms(1)
proof (induction xs)
  case (Cons x xs)
  then have "(length (cell_bits x) + 7) div 8 \<le> 1030 div 8" "length (cell_refs x) \<le> 4"
    by (auto simp: cell_fits_def max_bits_def max_refs_def intro: div_le_mono)
  moreover have "length (cell_refs x) * sz \<le> 4 * 7" using calculation(2) assms(2) by (intro mult_le_mono) simp_all
  ultimately show ?case using Cons by simp
qed simp

text \<open>
  C8. A tree of cells is serialized, and what a node reads back from the bytes is that tree, however its cells are
  shared and ordered, unless two of its cells are a SHA-256 collision.
\<close>

theorem bag_read_back:
  assumes "\<forall>x. length (sha256 p x) = 32" and "cell_ok c" and "card (subcells c) < 2 ^ 48"
  shows "cells_collide p c c \<or> (\<exists>out. to_boc p c = Some out \<and> read_boc out = Some c)"
proof (cases "cells_collide p c c")
  case False
  let ?L = "order p c"
  note inj = hash_inj_on [OF assms(1,2) False]
  have dist: "distinct (map (cell_hash p) ?L)" by (rule order_distinct [OF inj])
  have set: "set ?L = subcells c" using order_finishes [OF inj] by blast
  have "length ?L = card (subcells c)" using dist set distinct_card [of ?L] by (simp add: distinct_map)
  then have len: "length ?L < 2 ^ 48" using assms(3) by simp
  have fits: "\<forall>x \<in> set ?L. cell_fits x" using assms(2) set by (simp add: cell_ok_def)
  obtain sz where s: "bytes_for (length ?L) = Some sz" using bytes_for_returns [of "length ?L"] len by auto
  note sz = bytes_for_some [OF s]
  let ?t = "sum_list (map (\<lambda>x. 2 + (length (cell_bits x) + 7) div 8 + length (cell_refs x) * sz) ?L)"
  have "?t \<le> 158 * length ?L" using total_bound [OF fits] sz by blast
  then obtain off where o: "bytes_for ?t = Some off" using bytes_for_returns [of ?t] len by fastforce
  note off = bytes_for_some [OF o]
  let ?body = "concat (map (cell_bytes p ?L sz) ?L)"
  have t: "length ?body = ?t" by (simp add: length_concat comp_def cell_bytes_length)
  have ix: "cell_index p ?L (cell_hash p r) < 2 ^ (8 * sz)" if "x \<in> set ?L" "r \<in> set (cell_refs x)" for x r
  proof -
    have "r \<in> set ?L" using that set subcell_trans [of r x c] ref_subcell [OF that(2)] by auto
    then obtain i where "i < length ?L" "?L ! i = r" by (auto simp: in_set_conv_nth)
    with cell_index_nth [OF dist] sz show ?thesis by fastforce
  qed
  have r: "read_cells sz (length ?L) ?body = Some (map (raw_cell p ?L) ?L)"
    using fits ix by (intro read_cells_bytes) blast
  have "tie 0 (map (raw_cell p ?L) ?L) = Some ?L"
    using tie_cells [OF dist order_topological [OF inj], of 0] by simp
  moreover obtain xs where h: "?L = c # xs" using order_head by blast
  then have "?L ! 0 = c" "?L \<noteq> []" by simp_all
  ultimately have "\<exists>out. to_boc p c = Some out \<and> read_boc out = Some c"
    using read_boc_parts [OF _ _ _ _ _ r, of off ?L] sz off s o
    by (simp add: to_boc_def Let_def t del: append_assoc)
  then show ?thesis by blast
qed simp

definition flat_platform :: platform where
  "flat_platform = \<lparr>sha256 = (\<lambda>b. take 32 (b @ replicate 32 (CHR 0x00))), rfc3339nano = show_int\<rparr>"

theorem bag_read_back_witness:
  "cells_collide flat_platform (Cell [True] [Cell [] []]) (Cell [True] [Cell [] []]) \<or>
   (\<exists>out. to_boc flat_platform (Cell [True] [Cell [] []]) = Some out \<and> read_boc out = Some (Cell [True] [Cell [] []]))"
proof (rule bag_read_back)
  show "\<forall>x. length (sha256 flat_platform x) = 32" by (auto simp: flat_platform_def min_def)
  show "cell_ok (Cell [True] [Cell [] []])" by (simp add: cell_ok_def cell_fits_def max_bits_def max_refs_def deeper_def)
  show "card (subcells (Cell [True] [Cell [] []])) < 2 ^ 48" by simp
qed

subsection \<open>How many bytes\<close>

definition cell_cost :: "nat \<Rightarrow> cell \<Rightarrow> nat" where
  "cell_cost sz x = 2 + (length (cell_bits x) + 7) div 8 + length (cell_refs x) * sz"

definition tree_cost :: "nat \<Rightarrow> cell \<Rightarrow> nat" where
  "tree_cost sz c = (\<Sum>x \<in> subcells c. cell_cost sz x)"

lemma tree_cost_cell: "tree_cost sz (Cell bs rs) \<le> cell_cost sz (Cell bs rs) + (\<Sum>r\<leftarrow>rs. tree_cost sz r)"
proof -
  have "(\<Sum>x \<in> (\<Union>r \<in> set rs. subcells r). cell_cost sz x) \<le> (\<Sum>r\<leftarrow>rs. tree_cost sz r)"
  proof (induction rs)
    case (Cons r rs)
    have "(\<Sum>x \<in> subcells r \<union> (\<Union>r \<in> set rs. subcells r). cell_cost sz x) \<le>
        (\<Sum>x \<in> subcells r. cell_cost sz x) + (\<Sum>x \<in> (\<Union>r \<in> set rs. subcells r). cell_cost sz x)"
      by (subst sum_Un_nat) auto
    with Cons show ?case by (simp add: tree_cost_def)
  qed simp
  then show ?thesis by (auto simp: tree_cost_def sum.insert_if)
qed

lemma bytes_for_least:
  assumes "v < 2 ^ (8 * k)" and "0 < k" and "k < 8" and "bytes_for v = Some n"
  shows "n \<le> k"
proof -
  have "n \<le> k" if "bytes_for_from v j = Some n" "j \<le> k" for j
    using that(2,1)
  proof (induction j rule: inc_induct)
    case base
    have "(2 :: nat) ^ (8 * k) < 2 ^ 64" using assms(3) by (intro power_strict_increasing) simp_all
    with base assms(1) show ?case by (simp add: bytes_for_from.simps [of v k])
  next
    case (step j)
    then show ?case by (cases "2 ^ (8 * j) mod 2 ^ 64 \<le> v") (simp_all add: bytes_for_from.simps [of v j])
  qed
  from this [of 1] assms(2,4) show ?thesis by (simp add: bytes_for_def)
qed

text \<open>A bag is its header, its distinct cells and four bytes of checksum.\<close>

lemma to_boc_length:
  assumes "inj_on (cell_hash p) (subcells c)" and "to_boc p c = Some out"
  shows "\<exists>sz off. bytes_for (card (subcells c)) = Some sz \<and> bytes_for (tree_cost sz c) = Some off \<and>
                  length out = 10 + 4 * sz + off + tree_cost sz c"
proof -
  let ?L = "order p c"
  have d: "distinct ?L" using order_distinct [OF assms(1)] by (simp add: distinct_map)
  have s: "set ?L = subcells c" using order_finishes [OF assms(1)] by blast
  have n: "length ?L = card (subcells c)" using distinct_card [OF d] s by simp
  have t: "sum_list (map (cell_cost sz) ?L) = tree_cost sz c" for sz
    using d s by (simp add: sum_list_distinct_conv_sum_set tree_cost_def)
  have t': "(\<Sum>x\<leftarrow>?L. 2 + (length (cell_bits x) + 7) div 8 + length (cell_refs x) * sz) = tree_cost sz c" for sz
    using t [of sz] unfolding cell_cost_def by simp
  obtain sz off where b: "bytes_for (length ?L) = Some sz" "bytes_for (tree_cost sz c) = Some off"
    using assms(2) unfolding to_boc_def Let_def t' by (auto split: option.splits)
  have "length (concat (map (cell_bytes p ?L sz) ?L)) = tree_cost sz c"
    using t' [of sz] by (simp add: length_concat comp_def cell_bytes_length)
  then have "length out = 10 + 4 * sz + off + tree_cost sz c"
    using assms(2) b unfolding to_boc_def Let_def t' by (auto simp: uint32_le_def)
  with b n show ?thesis by auto
qed

lemma to_boc_exists:
  assumes "inj_on (cell_hash p) (subcells c)" and "cell_ok c" and "card (subcells c) < 2 ^ 48"
  shows "\<exists>out. to_boc p c = Some out"
proof -
  let ?L = "order p c"
  have s: "set ?L = subcells c" and "distinct ?L"
    using order_finishes [OF assms(1)] order_distinct [OF assms(1)] by (auto simp: distinct_map)
  then have n: "length ?L < 2 ^ 48" using distinct_card [of ?L] assms(3) by simp
  obtain sz where sz: "bytes_for (length ?L) = Some sz" using bytes_for_returns [of "length ?L"] n by auto
  have "(\<Sum>x\<leftarrow>?L. 2 + (length (cell_bits x) + 7) div 8 + length (cell_refs x) * sz) \<le> 158 * length ?L"
    using total_bound [of ?L sz] bytes_for_some [OF sz] s assms(2) by (simp add: cell_ok_def)
  then obtain off where "bytes_for (\<Sum>x\<leftarrow>?L. 2 + (length (cell_bits x) + 7) div 8 + length (cell_refs x) * sz) = Some off"
    using bytes_for_returns n by fastforce
  with sz show ?thesis by (simp add: to_boc_def Let_def)
qed

end
