(* ===== verification/Chain.thy ===== *)
theory Chain
  imports Tx_Seq Tx_Fee Finality Bulk
begin

section \<open>Chains: adapters and their registry\<close>

text \<open>
  Models \<open>internal/chain/chain.go\<close>, \<open>registry.go\<close>, \<open>build.go\<close> and the adapters of the four chains (\<open>evm.go\<close>, \<open>solana.go\<close>,
  \<open>sui.go\<close>, \<open>ton.go\<close>).

  An adapter is the answers it gives: its name, its sequencer (or none), its finality policy, its batch limits and, where
  the type has the method, its replacement policy. Protocol names are ASCII: \<open>strings.ToLower\<close> is the lower case of the
  26 letters.
\<close>

subsection \<open>Errors of the payment builders\<close>

datatype build_error = ErrEmptyBatch | ErrZeroRef | ErrBadAmount

subsection \<open>Adapters\<close>

datatype sequencer_kind = Counter_Sequencer counter | Unordered_Sequencer

record adapter =
  ad_protocol :: string
  ad_sequencer :: "sequencer_kind option"
  ad_finality :: finality_policy
  ad_limits :: limits
  ad_replacement :: "fee_policy option"

definition replacement :: "adapter \<Rightarrow> fee_policy option" where
  "replacement a = ad_replacement a"

definition no_policy :: finality_policy where
  "no_policy = \<lparr>fp_marker = '''', fp_require_marker = False, fp_confirmations = 0, fp_lost_after = 0\<rparr>"

definition no_limits :: limits where
  "no_limits = \<lparr>li_chain = '''', li_rules = [], li_align = 0, li_prepare_rules = [], li_new_account_rent = 0, li_rent_unit = ''''\<rparr>"

text \<open>Looking up a missing key gives the zero value.\<close>

definition default_finality :: "string \<Rightarrow> finality_policy" where
  "default_finality p = (case finality_defaults p of Some f \<Rightarrow> f | None \<Rightarrow> no_policy)"

definition default_limits :: "string \<Rightarrow> limits" where
  "default_limits p = (case bulk_defaults p of Some l \<Rightarrow> l | None \<Rightarrow> no_limits)"

definition evm_adapter :: adapter where
  "evm_adapter = \<lparr>ad_protocol = ''evm'', ad_sequencer = Some (Counter_Sequencer new_counter),
     ad_finality = default_finality ''evm'', ad_limits = default_limits ''evm'', ad_replacement = Some default_fee_policy\<rparr>"

definition solana_adapter :: adapter where
  "solana_adapter = \<lparr>ad_protocol = ''solana'', ad_sequencer = Some Unordered_Sequencer,
     ad_finality = default_finality ''solana'', ad_limits = default_limits ''solana'', ad_replacement = None\<rparr>"

definition ton_adapter :: adapter where
  "ton_adapter = \<lparr>ad_protocol = ''ton'', ad_sequencer = Some (Counter_Sequencer new_counter),
     ad_finality = default_finality ''ton'', ad_limits = default_limits ''ton'', ad_replacement = None\<rparr>"

definition sui_adapter :: adapter where
  "sui_adapter = \<lparr>ad_protocol = ''sui'', ad_sequencer = Some Unordered_Sequencer,
     ad_finality = default_finality ''sui'', ad_limits = default_limits ''sui'', ad_replacement = None\<rparr>"

subsection \<open>The registry\<close>

datatype incomplete =
    NoProtocol
  | NetworkSuffix string
  | NotLowerCase string
  | NoSequencer string
  | AcceptsAnything string
  | MarkerUnnamed string
  | ForeignLimits string string
  | NoBatchRules string
  | NoRentUnit string
  | ZeroRule string
  | NoRoom string string
  | NoPublicSource string string

datatype registry_error =
    ErrUnknownChain string
  | ErrDuplicateAdapter string
  | ErrIncompleteAdapter incomplete

type_synonym registry = "(string \<times> adapter) list"

definition ascii_lower :: "char \<Rightarrow> char" where
  "ascii_lower c = (let n = of_char c :: nat in if 65 \<le> n \<and> n \<le> 90 then char_of (n + 32) else c)"

fun vet_rules :: "string \<Rightarrow> rul list \<Rightarrow> incomplete option" where
  "vet_rules p [] = None"
| "vet_rules p (r # rs) =
     (if ru_unit r = '''' \<or> ru_cap r = 0 \<or> ru_item r = 0 then Some (ZeroRule p)
      else if ru_base r + ru_item r > ru_cap r then Some (NoRoom (ru_unit r) p)
      else if take 8 (ru_source r) \<noteq> ''https://'' then Some (NoPublicSource (ru_unit r) p)
      else vet_rules p rs)"

definition vet :: "adapter \<Rightarrow> incomplete option" where
  "vet a =
     (let p = ad_protocol a; f = ad_finality a; l = ad_limits a in
      if p = '''' then Some NoProtocol
      else if CHR '':'' \<in> set p then Some (NetworkSuffix p)
      else if p \<noteq> map ascii_lower p then Some (NotLowerCase p)
      else if ad_sequencer a = None then Some (NoSequencer p)
      else if \<not> fp_require_marker f \<and> fp_confirmations f = 0 then Some (AcceptsAnything p)
      else if fp_require_marker f \<and> fp_marker f = '''' then Some (MarkerUnnamed p)
      else if li_chain l \<noteq> p then Some (ForeignLimits p (li_chain l))
      else if li_rules l = [] then Some (NoBatchRules p)
      else if li_rent_unit l = '''' then Some (NoRentUnit p)
      else vet_rules p (li_rules l))"

definition register :: "registry \<Rightarrow> adapter \<Rightarrow> registry_error + registry" where
  "register r a =
     (case vet a of
        Some e \<Rightarrow> Inl (ErrIncompleteAdapter e)
      | None \<Rightarrow>
          let p = ad_protocol a in
          if map_of r p \<noteq> None then Inl (ErrDuplicateAdapter p)
          else Inr (AList.update p a r))"

fun register_all :: "registry \<Rightarrow> adapter list \<Rightarrow> registry_error + registry" where
  "register_all r [] = Inr r"
| "register_all r (a # as) = (case register r a of Inl e \<Rightarrow> Inl e | Inr r' \<Rightarrow> register_all r' as)"

definition new_registry :: "adapter list \<Rightarrow> registry_error + registry" where
  "new_registry as = register_all [] as"

definition adapter_for :: "registry \<Rightarrow> string \<Rightarrow> registry_error + adapter" where
  "adapter_for r name =
     (let p = cut_before (CHR '':'') name in
      case map_of r p of None \<Rightarrow> Inl (ErrUnknownChain p) | Some a \<Rightarrow> Inr a)"

definition protocols :: "registry \<Rightarrow> string list" where
  "protocols r = sort (map fst r)"

text \<open>\<open>Default\<close> panics where this is an error.\<close>

definition default_registry :: "registry_error + registry" where
  "default_registry = new_registry [evm_adapter, solana_adapter, ton_adapter, sui_adapter]"

subsection \<open>What the registry hands out\<close>

lemma vet_rules_room: "vet_rules p rs = None \<Longrightarrow> r \<in> set rs \<Longrightarrow> \<not> ru_base r + ru_item r > ru_cap r"
  by (induction rs) (auto split: if_splits)

lemma register_lookup:
  "register r a = Inr r' \<Longrightarrow> map_of r' q = (if q = ad_protocol a then Some a else map_of r q) \<and> vet a = None \<and> map_of r (ad_protocol a) = None"
  by (auto simp: register_def Let_def update_conv' split: option.splits if_splits)

lemma register_all_lookup:
  assumes "register_all r as = Inr r'"
  shows "map_of r' q = (case find (\<lambda>a. ad_protocol a = q) as of Some a \<Rightarrow> Some a | None \<Rightarrow> map_of r q) \<and>
         list_all (\<lambda>a. vet a = None \<and> map_of r (ad_protocol a) = None) as \<and> distinct (map ad_protocol as)"
  using assms
proof (induction as arbitrary: r)
  case (Cons a as)
  then obtain r1 where r1: "register r a = Inr r1" "register_all r1 as = Inr r'" by (auto split: sum.splits)
  note l = register_lookup [OF r1(1)]
  have v: "vet b = None \<and> map_of r1 (ad_protocol b) = None" if "b \<in> set as" for b
    using Cons.IH [OF r1(2)] that by (auto simp: list_all_iff)
  have n: "b \<in> set as \<Longrightarrow> ad_protocol b \<noteq> ad_protocol a \<and> ad_protocol a \<noteq> ad_protocol b" for b using v [of b] l [of "ad_protocol b"] by auto
  moreover have "b \<in> set as \<Longrightarrow> map_of r (ad_protocol b) = None" for b
    using v [of b] l [of "ad_protocol b"] n [of b] by auto
  moreover have "find (\<lambda>b. ad_protocol b = ad_protocol a) as = None" using n by (auto simp: find_None_iff)
  ultimately show ?case using Cons.IH [OF r1(2)] l v by (auto simp: list_all_iff image_iff split: option.splits)
qed simp

text \<open>
  A registry that came out of its constructor hands out, for a chain with or without a network suffix, the one adapter
  of that protocol, and the adapter can answer: its limits describe that protocol and, where they neither align batches
  nor prepare accounts, no run of payouts is refused as too large for a batch.
\<close>

theorem registered_adapter_answers:
  assumes "new_registry as = Inr r" and "adapter_for r (p @ net) = Inr a" and "CHR '':'' \<notin> set p" and "net = '''' \<or> hd net = CHR '':''"
  shows "a \<in> set as \<and> ad_protocol a = p \<and> (\<forall>b \<in> set as. ad_protocol b = p \<longrightarrow> b = a) \<and> li_chain (ad_limits a) = p \<and>
         (items \<noteq> [] \<longrightarrow> li_align (ad_limits a) = 0 \<longrightarrow> li_prepare_rules (ad_limits a) = [] \<longrightarrow>
            (\<exists>plan. pack items (ad_limits a) = Inr plan))"
proof -
  have t: "takeWhile (\<lambda>x. x \<noteq> CHR '':'') (p @ net) = p"
  proof -
    have "\<forall>x \<in> set p. x \<noteq> CHR '':''" using assms(3) by auto
    then show ?thesis using assms(4) by (cases net) (simp_all add: takeWhile_append2 takeWhile_eq_all_conv)
  qed
  note all = register_all_lookup [OF assms(1) [unfolded new_registry_def]]
  have "map_of r p = Some a" using assms(2) t by (simp add: adapter_for_def cut_before_def Let_def split: option.splits)
  then have f: "find (\<lambda>a. ad_protocol a = p) as = Some a" using all [of p] by (simp split: option.splits)
  then have a: "a \<in> set as" "ad_protocol a = p" by (auto simp: find_Some_iff)
  moreover have "b = a" if "b \<in> set as" "ad_protocol b = p" for b
    using all that a by (auto simp: distinct_map inj_on_def)
  moreover have v: "vet a = None" using all a(1) by (auto simp: list_all_iff)
  then have l: "li_chain (ad_limits a) = p" "vet_rules p (li_rules (ad_limits a)) = None" "li_rules (ad_limits a) \<noteq> []"
    using a(2) by (simp_all add: vet_def Let_def split: if_splits)
  moreover have "\<exists>plan. pack items (ad_limits a) = Inr plan"
    if "items \<noteq> []" "li_align (ad_limits a) = 0" "li_prepare_rules (ad_limits a) = []"
  proof -
    have n: "find (\<lambda>r. ru_base r + ru_item r > ru_cap r) (li_rules (ad_limits a)) = None"
      using vet_rules_room [OF l(2)] by (simp add: find_None_iff)
    have "\<exists>bs. pack_loop False (li_rules (ad_limits a)) i its done cur used = Inr bs" for i its "done" cur used
      by (induction its arbitrary: i "done" cur used) (use n in auto)
    then obtain bs where "pack_greedy items (ad_limits a) = Inr bs" unfolding pack_greedy_def by blast
    then show ?thesis using that l(3) by (simp add: pack_def pack_prepare_def Let_def)
  qed
  ultimately show ?thesis by blast
qed
theorem registered_adapter_answers_witness:
  "\<exists>r a. default_registry = Inr r \<and> adapter_for r (''ton'' @ '':mainnet'') = Inr a \<and> a = ton_adapter \<and>
         (\<exists>plan. pack [\<lparr>po_ref = '''', po_merchant = '''', po_amount = None, po_new_token_account = False\<rparr>] (ad_limits a) = Inr plan)"
proof -
  let ?it = "\<lparr>po_ref = '''', po_merchant = '''', po_amount = None, po_new_token_account = False\<rparr>"
  have v: "vet evm_adapter = None" "vet solana_adapter = None" "vet ton_adapter = None" "vet sui_adapter = None"
    by (simp_all add: vet_def evm_adapter_def solana_adapter_def ton_adapter_def sui_adapter_def default_finality_def
        finality_defaults_def default_limits_def bulk_defaults_def evm_limits_def solana_limits_def ton_limits_def sui_limits_def
        resource_def ascii_lower_def Let_def)
  have p: "ad_protocol evm_adapter = ''evm''" "ad_protocol solana_adapter = ''solana''" "ad_protocol ton_adapter = ''ton''"
    "ad_protocol sui_adapter = ''sui''"
    by (simp_all add: evm_adapter_def solana_adapter_def ton_adapter_def sui_adapter_def)
  obtain r where r: "default_registry = Inr r" and m: "map_of r ''ton'' = Some ton_adapter"
    by (simp add: default_registry_def new_registry_def register_def v p Let_def)
  moreover have f: "adapter_for r (''ton'' @ '':mainnet'') = Inr ton_adapter"
    using m by (simp add: adapter_for_def cut_before_def)
  moreover have "li_align (ad_limits ton_adapter) = 0" "li_prepare_rules (ad_limits ton_adapter) = []"
    by (simp_all add: ton_adapter_def default_limits_def bulk_defaults_def ton_limits_def)
  ultimately show ?thesis
    using registered_adapter_answers [of "[evm_adapter, solana_adapter, ton_adapter, sui_adapter]" r "''ton''" "'':mainnet''" ton_adapter "[?it]"]
    by (auto simp: default_registry_def)
qed

end
