(* ===== verification/Evm_Call.thy ===== *)
theory Evm_Call
  imports Chain Boc
begin

section \<open>EVM calldata of a batch\<close>

text \<open>
  Models \<open>internal/chain/evmcall.go\<close>: \<open>SettleBatchCalldata\<close> with \<open>parseAddress\<close> and the two word writers. The decoder at
  the end states how the contract reads its arguments (the ABI of \<open>settleBatch(address,address,(address,uint256,bytes32)[])\<close>);
  the theorem says that it finds the payments there, in order.
\<close>

datatype call_error =
    Build_Failed build_error
  | Bad_Evm_Address string
  | Call_Context string call_error
  | Call_Payout nat call_error

definition settle_batch_selector :: bytes where
  "settle_batch_selector = [CHR 0xD0, CHR 0xE1, CHR 0xD6, CHR 0x48]"

definition parse_evm_address :: "string \<Rightarrow> call_error + bytes" where
  "parse_evm_address s =
     (if length s \<noteq> 42 \<or> take 2 s \<noteq> ''0x'' then Inl (Bad_Evm_Address s)
      else case hex_decode (drop 2 s) of None \<Rightarrow> Inl (Bad_Evm_Address s) | Some a \<Rightarrow> Inr a)"

definition append_address_word :: "bytes \<Rightarrow> bytes \<Rightarrow> bytes" where
  "append_address_word b a = (b @ replicate 12 (CHR 0x00)) @ a"

fun uint_word :: "nat \<Rightarrow> nat \<Rightarrow> bytes \<Rightarrow> bytes" where
  "uint_word i v w = (if v = 0 then w else uint_word (i + 1) (v div 256) (w[31 - i := char_of v]))"

declare uint_word.simps [simp del]

definition append_uint_word :: "bytes \<Rightarrow> nat \<Rightarrow> bytes" where
  "append_uint_word b v = b @ uint_word 0 v (replicate 32 (CHR 0x00))"

text \<open>\<open>big.Int.FillBytes\<close> on 32 bytes, for a value that fits.\<close>

definition fill_bytes :: "nat \<Rightarrow> bytes" where
  "fill_bytes v = replicate (32 - length (big_bytes v)) (CHR 0x00) @ big_bytes v"

fun settle_items :: "nat \<Rightarrow> payout list \<Rightarrow> bytes \<Rightarrow> call_error + bytes" where
  "settle_items i [] out = Inr out"
| "settle_items i (it # its) out =
     (case parse_evm_address (po_merchant it) of
        Inl e \<Rightarrow> Inl (Call_Payout i (Call_Context ''merchant'' e))
      | Inr m \<Rightarrow>
          (case po_amount it of
             None \<Rightarrow> Inl (Call_Payout i (Build_Failed ErrBadAmount))
           | Some a \<Rightarrow>
               if a \<le> 0 then Inl (Call_Payout i (Build_Failed ErrBadAmount))
               else if 2 ^ 256 \<le> a then Inl (Call_Payout i (Call_Context ''uint256'' (Build_Failed ErrBadAmount)))
               else if ref_is_zero (po_ref it) then Inl (Call_Payout i (Build_Failed ErrZeroRef))
               else settle_items (i + 1) its ((append_address_word out m @ fill_bytes (nat a)) @ po_ref it)))"

definition settle_batch_calldata :: "string \<Rightarrow> string \<Rightarrow> payout list \<Rightarrow> call_error + bytes" where
  "settle_batch_calldata token payer items =
     (if items = [] then Inl (Build_Failed ErrEmptyBatch)
      else case parse_evm_address token of
             Inl e \<Rightarrow> Inl (Call_Context ''token'' e)
           | Inr tok \<Rightarrow>
               (case parse_evm_address payer of
                  Inl e \<Rightarrow> Inl (Call_Context ''payer'' e)
                | Inr pay \<Rightarrow>
                    let out = settle_batch_selector;
                        out = append_address_word out tok;
                        out = append_address_word out pay;
                        out = append_uint_word out 0x60;
                        out = append_uint_word out (length items)
                    in settle_items 0 items out))"

subsection \<open>How the contract reads it\<close>

definition abi_word :: "nat \<Rightarrow> bytes \<Rightarrow> bytes" where
  "abi_word at d = take 32 (drop at d)"

definition abi_uint :: "nat \<Rightarrow> bytes \<Rightarrow> nat" where
  "abi_uint at d = big_value (abi_word at d)"

definition abi_address :: "nat \<Rightarrow> bytes \<Rightarrow> bytes option" where
  "abi_address at d =
     (let w = abi_word at d in if take 12 w = replicate 12 (CHR 0x00) then Some (drop 12 w) else None)"

definition abi_tuple :: "bytes \<Rightarrow> (bytes \<times> nat \<times> bytes) option" where
  "abi_tuple d = map_option (\<lambda>m. (m, abi_uint 32 d, abi_word 64 d)) (abi_address 0 d)"

fun abi_tuples :: "nat \<Rightarrow> bytes \<Rightarrow> (bytes \<times> nat \<times> bytes) list option" where
  "abi_tuples 0 d = Some []"
| "abi_tuples (Suc n) d =
     (if length d < 96 then None
      else case (abi_tuple d, abi_tuples n (drop 96 d)) of (Some t, Some ts) \<Rightarrow> Some (t # ts) | _ \<Rightarrow> None)"

definition abi_settle_batch :: "bytes \<Rightarrow> (bytes \<times> bytes \<times> (bytes \<times> nat \<times> bytes) list) option" where
  "abi_settle_batch out =
     (let d = drop 4 out; off = abi_uint 64 d in
      if take 4 out \<noteq> settle_batch_selector \<or> length d < 96 \<or> length d < off + 32 then None
      else case (abi_address 0 d, abi_address 32 d, abi_tuples (abi_uint off d) (drop (off + 32) d)) of
             (Some tok, Some pay, Some ps) \<Rightarrow> Some (tok, pay, ps)
           | _ \<Rightarrow> None)"

subsection \<open>The contract reads the payments\<close>

lemma uint_word_bytes:
  "length (big_bytes v) \<le> k \<Longrightarrow> k \<le> 32 \<Longrightarrow>
   uint_word (32 - k) v (replicate k z @ s) = replicate (k - length (big_bytes v)) z @ big_bytes v @ s"
proof (induction v arbitrary: k s rule: big_bytes.induct)
  case (1 v)
  show ?case
  proof (cases "v = 0")
    case True
    then show ?thesis by (simp add: uint_word.simps [of _ 0] big_bytes.simps [of 0])
  next
    case False
    then obtain k' where k: "k = Suc k'" using 1 by (cases k) (simp_all add: big_bytes.simps [of v])
    have "(replicate k z @ s)[31 - (32 - k) := char_of v] = replicate k' z @ char_of v # s"
    proof -
      have "31 - (32 - k) = k'" using 1 k by simp
      then show ?thesis by (simp add: k replicate_append_same [symmetric] list_update_append)
    qed
    moreover have "32 - k + 1 = 32 - k'" using 1 k by simp
    moreover have "uint_word (32 - k') (v div 256) (replicate k' z @ char_of v # s)
        = replicate (k' - length (big_bytes (v div 256))) z @ big_bytes (v div 256) @ char_of v # s"
      using 1 False k by (intro "1.IH") (simp_all add: big_bytes.simps [of v])
    ultimately show ?thesis using False k by (simp add: uint_word.simps [of _ v] big_bytes.simps [of v])
  qed
qed

lemma append_uint_word: "v < 2 ^ 256 \<Longrightarrow> append_uint_word b v = b @ fill_bytes v"
  using uint_word_bytes [of v 32 "CHR 0x00" "[]"] length_big_bytes [of v 32] by (simp add: append_uint_word_def fill_bytes_def)

lemma length_fill_bytes [simp]: "v < 2 ^ 256 \<Longrightarrow> length (fill_bytes v) = 32"
  using length_big_bytes [of v 32] by (simp add: fill_bytes_def)

lemma big_value_fill: "big_value (fill_bytes v) = v"
proof -
  have "big_value (replicate n (CHR 0x00) @ p) = big_value p" for n p
    by (induction n) (simp_all add: big_value_Cons)
  then show ?thesis by (simp add: fill_bytes_def)
qed

lemma parse_evm_length: "parse_evm_address s = Inr a \<Longrightarrow> length a = 20"
  by (auto simp: parse_evm_address_def dest: hex_decode_length split: if_splits option.splits)

text \<open>One payment in the list.\<close>

definition paid :: "payout \<Rightarrow> bytes \<times> nat \<times> bytes \<Rightarrow> bool" where
  "paid it t \<longleftrightarrow> parse_evm_address (po_merchant it) = Inr (fst t) \<and> po_amount it = Some (int (fst (snd t))) \<and> 0 < fst (snd t) \<and>
     fst (snd t) < 2 ^ 256 \<and> po_ref it = snd (snd t) \<and> \<not> ref_is_zero (po_ref it)"

lemma settle_items_read:
  assumes "settle_items i its out = Inr out'" and "\<forall>it \<in> set its. length (po_ref it) = 32"
  shows "\<exists>d ts. out' = out @ d \<and> length d = 96 * length its \<and> abi_tuples (length its) d = Some ts \<and> list_all2 paid its ts"
  using assms
proof (induction its arbitrary: i out)
  case (Cons it its)
  obtain m where m: "parse_evm_address (po_merchant it) = Inr m" using Cons.prems by (auto split: sum.splits)
  with Cons.prems obtain a where a: "po_amount it = Some a" "0 < a" "a < 2 ^ 256" "\<not> ref_is_zero (po_ref it)"
    by (auto simp: not_le split: option.splits if_splits)
  let ?d = "replicate 12 (CHR 0x00) @ m @ fill_bytes (nat a) @ po_ref it"
  have f: "length (fill_bytes (nat a)) = 32" using a by simp
  have "settle_items (i + 1) its (out @ ?d) = Inr out'" using Cons.prems m a by (simp add: append_address_word_def)
  from Cons.IH [OF this] Cons.prems obtain d ts where d: "out' = (out @ ?d) @ d" "length d = 96 * length its"
    "abi_tuples (length its) d = Some ts" "list_all2 paid its ts" by auto
  note l = parse_evm_length [OF m] f Cons.prems(2)
  have t: "abi_tuple (?d @ d) = Some (m, nat a, po_ref it)"
    using l by (simp add: abi_tuple_def abi_address_def abi_word_def abi_uint_def Let_def big_value_fill)
  have "drop 96 (?d @ d) = d" using l by simp
  then have "abi_tuples (length (it # its)) (?d @ d) = Some ((m, nat a, po_ref it) # ts)"
    using l d(3) t by simp
  moreover have "paid it (m, nat a, po_ref it)" using a m by (simp add: paid_def nat_less_iff)
  ultimately show ?case using d l by (intro exI [of _ "?d @ d"] exI [of _ "(m, nat a, po_ref it) # ts"]) simp
qed simp

text \<open>
  C9. From the calldata of a batch the contract reads the token, the payer and one payment per payout, in order, each with
  the merchant, the positive amount and the ref of that payout, and nothing else is in it.
\<close>

theorem calldata_pays_the_batch:
  assumes "settle_batch_calldata token payer items = Inr out"
    and "\<forall>it \<in> set items. length (po_ref it) = 32" and "length items < 2 ^ 63"
  shows "\<exists>tok pay ts. parse_evm_address token = Inr tok \<and> parse_evm_address payer = Inr pay \<and>
           abi_settle_batch out = Some (tok, pay, ts) \<and> list_all2 paid items ts \<and> length out = 132 + 96 * length items"
proof -
  obtain tok pay where t: "parse_evm_address token = Inr tok" "parse_evm_address payer = Inr pay"
    using assms(1) by (auto simp: settle_batch_calldata_def split: sum.splits if_splits)
  let ?z = "replicate 12 (CHR 0x00)" and ?n = "length items"
  let ?head = "settle_batch_selector @ (?z @ tok) @ (?z @ pay) @ fill_bytes 0x60 @ fill_bytes ?n"
  have n: "?n < 2 ^ 256" using assms(3) by (rule less_le_trans) simp
  have "settle_items 0 items ?head = Inr out"
    using assms(1) t n by (simp add: settle_batch_calldata_def Let_def append_address_word_def append_uint_word split: if_splits)
  from settle_items_read [OF this assms(2)] obtain d ts where d: "out = ?head @ d" "length d = 96 * ?n"
    "abi_tuples ?n d = Some ts" "list_all2 paid items ts" by blast
  have l: "length tok = 20" "length pay = 20" "length (fill_bytes 0x60) = 32" "length (fill_bytes ?n) = 32"
    "length settle_batch_selector = 4"
    using parse_evm_length t n by (simp_all add: settle_batch_selector_def)
  let ?d = "(?z @ tok) @ (?z @ pay) @ fill_bytes 0x60 @ fill_bytes ?n @ d"
  have o: "out = settle_batch_selector @ ?d" using d(1) by simp
  then have s: "drop 4 out = ?d" "take 4 out = settle_batch_selector" using l(5) by simp_all
  have w: "abi_uint 64 ?d = 0x60" "abi_uint 0x60 ?d = ?n" "abi_address 0 ?d = Some tok" "abi_address 32 ?d = Some pay"
    "drop (0x60 + 32) ?d = d" "length ?d = 128 + length d"
    using l by (simp_all add: abi_uint_def abi_word_def abi_address_def Let_def big_value_fill)
  have "abi_settle_batch out = Some (tok, pay, ts)"
    unfolding abi_settle_batch_def s Let_def w(1-5) d(3) using w(6) by simp
  moreover have "length out = 132 + 96 * ?n" using o l d(2) by simp
  ultimately show ?thesis using t d(4) by blast
qed
lemma parse_evm_encoded: "length a = 20 \<Longrightarrow> parse_evm_address (''0x'' @ hex_encode a) = Inr a"
  by (simp add: parse_evm_address_def)

theorem calldata_pays_the_batch_witness:
  "\<exists>out t. settle_batch_calldata (''0x'' @ hex_encode (replicate 20 (CHR 0x11))) (''0x'' @ hex_encode (replicate 20 (CHR 0x22)))
             [\<lparr>po_ref = replicate 32 (CHR 0x33), po_merchant = ''0x'' @ hex_encode (replicate 20 (CHR 0x44)),
               po_amount = Some 500, po_new_token_account = False\<rparr>] = Inr out \<and>
           abi_settle_batch out = Some (replicate 20 (CHR 0x11), replicate 20 (CHR 0x22), [t]) \<and> length out = 228"
proof -
  let ?tok = "replicate 20 (CHR 0x11)" and ?pay = "replicate 20 (CHR 0x22)" and ?m = "replicate 20 (CHR 0x44)"
  let ?it = "\<lparr>po_ref = replicate 32 (CHR 0x33), po_merchant = ''0x'' @ hex_encode ?m, po_amount = Some 500, po_new_token_account = False\<rparr>"
  have p: "parse_evm_address (''0x'' @ hex_encode ?tok) = Inr ?tok" "parse_evm_address (''0x'' @ hex_encode ?pay) = Inr ?pay"
    "parse_evm_address (''0x'' @ hex_encode ?m) = Inr ?m" by (rule parse_evm_encoded, simp)+
  have "\<not> ref_is_zero (replicate 32 (CHR 0x33))" by (simp add: ref_is_zero_def zero_ref_def)
  then obtain out where o: "settle_batch_calldata (''0x'' @ hex_encode ?tok) (''0x'' @ hex_encode ?pay) [?it] = Inr out"
    by (simp add: settle_batch_calldata_def p Let_def del: append.simps)
  from calldata_pays_the_batch [OF o] p obtain ts where "abi_settle_batch out = Some (?tok, ?pay, ts)" "list_all2 paid [?it] ts" "length out = 228"
    by (auto simp del: append.simps)
  with o show ?thesis by (cases ts) (auto simp: list_all2_Cons1)
qed

end
