(* ===== verification/Ton_Msg.thy ===== *)
theory Ton_Msg
  imports Chain Boc
begin

unbundle bit_operations_syntax

section \<open>TON: the external message of a batch\<close>

text \<open>
  Models \<open>internal/chain/tonmsg.go\<close>: the transfer body, the internal message, the action list and the signing cell of one
  wallet request.

  The readers at the end state how a wallet reads its request, the network an internal message and a jetton wallet a
  transfer. The theorems say that the wallet finds one action per payout, in the order of the run, that the tree is
  exactly as deep as the batch limits say, and which inputs are refused.
\<close>

subsection \<open>Constants\<close>

definition ton_auth_signed_external :: u64 where
  "ton_auth_signed_external = 0x7369676e"

definition ton_action_send_msg :: u64 where
  "ton_action_send_msg = 0x0ec3c86d"

definition ton_send_mode :: u64 where
  "ton_send_mode = 1 + 2"

definition ton_op_transfer :: u64 where
  "ton_op_transfer = 0xf8a7ea5"

definition ton_op_internal_transfer :: u64 where
  "ton_op_internal_transfer = 0x178d4519"

definition ton_op_transfer_notification :: u64 where
  "ton_op_transfer_notification = 0x7362d09c"

definition ton_op_excesses :: u64 where
  "ton_op_excesses = 0xd53276db"

definition ton_max_messages :: nat where
  "ton_max_messages = 255"

definition ton_default_wallet_id :: "32 word" where
  "ton_default_wallet_id = 0x7FFFFF11"

definition ton_attach :: int where
  "ton_attach = 50000000"

definition ton_forward :: int where
  "ton_forward = 1"

definition ton_payload_scheme :: string where
  "ton_payload_scheme = ''payment_ref ref:bits256 = ForwardPayload''"

definition crc32_ieee :: "32 word" where
  "crc32_ieee = 0xEDB88320"

definition ton_payload_op :: u64 where
  "ton_payload_op = ucast (crc32 crc32_ieee ton_payload_scheme AND 0x7fffffff)"

subsection \<open>Building a request\<close>

record ton_accounts =
  ta_wallet :: address
  ta_jetton_wallet :: address
  ta_wallet_id :: "32 word"

datatype ton_error =
    Ton_Build build_error
  | Too_Many_Messages nat
  | Ton_Zero_Account
  | Bad_Ton_Address string
  | Ton_Boc boc_error
  | Ton_Payout nat ton_error

record ton_request =
  tr_seqno :: "32 word"
  tr_valid_until :: "32 word"
  tr_items :: "payout list"
  tr_bodies :: "cell list"
  tr_messages :: "cell list"
  tr_signing :: cell

definition ton_boc :: "boc_error + cell \<Rightarrow> ton_error + cell" where
  "ton_boc r = (case r of Inl e \<Rightarrow> Inl (Ton_Boc e) | Inr c \<Rightarrow> Inr c)"

definition ton_payload :: "ref \<Rightarrow> ton_error + cell" where
  "ton_payload r = ton_boc (assemble [put_uint ton_payload_op 32, put_bytes r])"

definition ton_transfer_body :: "ton_accounts \<Rightarrow> payout \<Rightarrow> ton_error + cell" where
  "ton_transfer_body acc it =
     (if ref_is_zero (po_ref it) then Inl (Ton_Build ErrZeroRef)
      else case po_amount it of
             None \<Rightarrow> Inl (Ton_Build ErrBadAmount)
           | Some amount \<Rightarrow>
               if amount \<le> 0 then Inl (Ton_Build ErrBadAmount)
               else case parse_address (po_merchant it) of
                      Inl _ \<Rightarrow> Inl (Bad_Ton_Address (po_merchant it))
                    | Inr to \<Rightarrow>
                        (case ton_payload (po_ref it) of
                           Inl e \<Rightarrow> Inl e
                         | Inr payload \<Rightarrow>
                             ton_boc (assemble
                               [put_uint ton_op_transfer 32,
                                put_uint (of_nat (big_value (take 8 (po_ref it)))) 64,
                                put_coins (Some amount),
                                put_address to,
                                put_address (ta_wallet acc),
                                put_maybe_ref None,
                                put_coins (Some ton_forward),
                                put_bit True, put_ref payload])))"

definition ton_internal_message :: "address \<Rightarrow> int \<Rightarrow> cell \<Rightarrow> ton_error + cell" where
  "ton_internal_message to value body =
     ton_boc (assemble
       [put_uint 24 6,
        put_address to,
        put_coins (Some value), put_bit False,
        put_coins (Some 0), put_coins (Some 0),
        put_uint 0 64, put_uint 0 32,
        put_bit False,
        put_bit True, put_ref body])"

text \<open>The loop over the payouts: a body and a message for each, from payout \<open>i\<close> on.\<close>

fun ton_messages :: "ton_accounts \<Rightarrow> nat \<Rightarrow> payout list \<Rightarrow> ton_error + (cell \<times> cell) list" where
  "ton_messages acc i [] = Inr []"
| "ton_messages acc i (it # its) =
     (case ton_transfer_body acc it of
        Inl e \<Rightarrow> Inl (Ton_Payout i e)
      | Inr body \<Rightarrow>
          (case ton_internal_message (ta_jetton_wallet acc) ton_attach body of
             Inl e \<Rightarrow> Inl e
           | Inr msg \<Rightarrow>
               (case ton_messages acc (i + 1) its of Inl e \<Rightarrow> Inl e | Inr ms \<Rightarrow> Inr ((body, msg) # ms))))"

text \<open>The action list grows from the inside out: the first message is the deepest.\<close>

fun ton_out_list :: "cell \<Rightarrow> cell list \<Rightarrow> ton_error + cell" where
  "ton_out_list list [] = Inr list"
| "ton_out_list list (m # ms) =
     (case ton_boc (assemble [put_ref list, put_uint ton_action_send_msg 32, put_uint ton_send_mode 8, put_ref m]) of
        Inl e \<Rightarrow> Inl e
      | Inr list' \<Rightarrow> ton_out_list list' ms)"

definition transfer_request :: "ton_accounts \<Rightarrow> 32 word \<Rightarrow> 32 word \<Rightarrow> payout list \<Rightarrow> ton_error + ton_request" where
  "transfer_request acc seqno valid_until items =
     (if items = [] then Inl (Ton_Build ErrEmptyBatch)
      else if ton_max_messages < length items then Inl (Too_Many_Messages (length items))
      else if address_is_zero (ta_wallet acc) \<or> address_is_zero (ta_jetton_wallet acc) then Inl Ton_Zero_Account
      else
        let acc = (if ta_wallet_id acc = 0 then acc\<lparr>ta_wallet_id := ton_default_wallet_id\<rparr> else acc) in
        case ton_messages acc 0 items of
          Inl e \<Rightarrow> Inl e
        | Inr ms \<Rightarrow>
            (case ton_boc (build_cell new_builder) of
               Inl e \<Rightarrow> Inl e
             | Inr none \<Rightarrow>
                 (case ton_out_list none (map snd ms) of
                    Inl e \<Rightarrow> Inl e
                  | Inr list \<Rightarrow>
                      (case ton_boc (assemble
                               [put_uint ton_auth_signed_external 32, put_int (scast (ta_wallet_id acc)) 32,
                                put_uint (ucast valid_until) 32, put_uint (ucast seqno) 32,
                                put_maybe_ref (Some list), put_bit False]) of
                         Inl e \<Rightarrow> Inl e
                       | Inr signing \<Rightarrow>
                           Inr \<lparr>tr_seqno = seqno, tr_valid_until = valid_until, tr_items = items,
                                tr_bodies = map fst ms, tr_messages = map snd ms, tr_signing = signing\<rparr>))))"

definition signing_hash :: "platform \<Rightarrow> ton_request \<Rightarrow> bytes" where
  "signing_hash p r = cell_hash p (tr_signing r)"

definition request_messages :: "ton_request \<Rightarrow> nat" where
  "request_messages r = length (tr_messages r)"

definition request_size :: "platform \<Rightarrow> ton_request \<Rightarrow> nat option" where
  "request_size p r = map_option length (to_boc p (tr_signing r))"

definition request_stats :: "platform \<Rightarrow> ton_request \<Rightarrow> stats" where
  "request_stats p r = count_cells p (tr_signing r)"

record hop =
  hp_op :: u64
  hp_name :: string
  hp_from :: string
  hp_to :: string
  hp_bounce :: bool

definition ton_hops :: "hop list" where
  "ton_hops =
     [\<lparr>hp_op = ton_op_transfer, hp_name = ''transfer'', hp_from = ''wallet'', hp_to = ''our jetton wallet'', hp_bounce = True\<rparr>,
      \<lparr>hp_op = ton_op_internal_transfer, hp_name = ''internal_transfer'', hp_from = ''our jetton wallet'',
       hp_to = ''merchant's jetton wallet'', hp_bounce = True\<rparr>,
      \<lparr>hp_op = ton_op_transfer_notification, hp_name = ''transfer_notification'', hp_from = ''merchant's jetton wallet'',
       hp_to = ''merchant'', hp_bounce = False\<rparr>,
      \<lparr>hp_op = ton_op_excesses, hp_name = ''excesses'', hp_from = ''merchant's jetton wallet'', hp_to = ''wallet'',
       hp_bounce = False\<rparr>]"
subsection \<open>How a request is read\<close>

record jetton_transfer =
  jt_query :: u64
  jt_amount :: int
  jt_to :: address
  jt_response :: address
  jt_forward :: int
  jt_ref :: ref

definition read_payload :: "cell \<Rightarrow> ref option" where
  "read_payload c =
     (case read_whole (do { op \<leftarrow> get_uint 32; r \<leftarrow> get_bytes 32; State_Monad.return (op, r) }) c of
        Some (op, r) \<Rightarrow> if op = ton_payload_op then Some r else None
      | None \<Rightarrow> None)"

definition read_transfer :: "cell \<Rightarrow> jetton_transfer option" where
  "read_transfer c =
     (case read_whole (do {
              op \<leftarrow> get_uint 32;
              q \<leftarrow> get_uint 64;
              amount \<leftarrow> get_coins;
              to \<leftarrow> get_address;
              response \<leftarrow> get_address;
              custom \<leftarrow> get_maybe_ref;
              forward \<leftarrow> get_coins;
              either \<leftarrow> get_bit;
              payload \<leftarrow> get_ref;
              State_Monad.return (op, q, amount, to, response, custom, forward, either, payload) }) c of
        Some (op, q, amount, to, response, custom, forward, either, Some payload) \<Rightarrow>
          if op = ton_op_transfer \<and> custom = None \<and> either
          then map_option (\<lambda>r. \<lparr>jt_query = q, jt_amount = amount, jt_to = to, jt_response = response, jt_forward = forward,
                              jt_ref = r\<rparr>) (read_payload payload)
          else None
      | _ \<Rightarrow> None)"

text \<open>The parts of an internal message: the address, the value and the body.\<close>

definition read_message :: "cell \<Rightarrow> (address \<times> int \<times> cell) option" where
  "read_message c =
     (case read_whole (do {
              header \<leftarrow> get_uint 6;
              to \<leftarrow> get_address;
              value \<leftarrow> get_coins;
              extra \<leftarrow> get_bit;
              ihr \<leftarrow> get_coins;
              fwd \<leftarrow> get_coins;
              lt \<leftarrow> get_uint 64;
              created \<leftarrow> get_uint 32;
              init \<leftarrow> get_bit;
              either \<leftarrow> get_bit;
              body \<leftarrow> get_ref;
              State_Monad.return (header, to, value, extra, init, either, body) }) c of
        Some (header, to, value, extra, init, either, Some body) \<Rightarrow>
          if header = 24 \<and> \<not> extra \<and> \<not> init \<and> either then Some (to, value, body) else None
      | _ \<Rightarrow> None)"

text \<open>The action list, in the order the action phase runs it: the innermost first.\<close>

definition read_action :: "cell \<Rightarrow> cell option" where
  "read_action c =
     (case read_whole (do {
              prev \<leftarrow> get_ref;
              op \<leftarrow> get_uint 32;
              mode \<leftarrow> get_uint 8;
              msg \<leftarrow> get_ref;
              State_Monad.return (op, mode, msg) }) c of
        Some (op, mode, msg) \<Rightarrow> if op = ton_action_send_msg \<and> mode = 3 then msg else None
      | None \<Rightarrow> None)"

fun read_actions :: "cell \<Rightarrow> cell list option" where
  "read_actions (Cell bs []) = (if bs = [] then Some [] else None)"
| "read_actions (Cell bs (prev # rs)) =
     (case (read_actions prev, read_action (Cell bs (prev # rs))) of
        (Some ms, Some m) \<Rightarrow> Some (ms @ [m])
      | _ \<Rightarrow> None)"

fun read_all :: "('a \<Rightarrow> 'b option) \<Rightarrow> 'a list \<Rightarrow> 'b list option" where
  "read_all f [] = Some []"
| "read_all f (x # xs) = (case (f x, read_all f xs) of (Some y, Some ys) \<Rightarrow> Some (y # ys) | _ \<Rightarrow> None)"

record wallet_request =
  wr_wallet_id :: u64
  wr_valid_until :: u64
  wr_seqno :: u64
  wr_transfers :: "(address \<times> int \<times> jetton_transfer) list"

definition read_payment :: "cell \<Rightarrow> (address \<times> int \<times> jetton_transfer) option" where
  "read_payment c =
     (case read_message c of
        Some (to, value, body) \<Rightarrow> map_option (\<lambda>t. (to, value, t)) (read_transfer body)
      | None \<Rightarrow> None)"

definition read_request :: "cell \<Rightarrow> wallet_request option" where
  "read_request c =
     (case read_whole (do {
              op \<leftarrow> get_uint 32;
              wallet_id \<leftarrow> get_int 32;
              valid_until \<leftarrow> get_uint 32;
              seqno \<leftarrow> get_uint 32;
              actions \<leftarrow> get_maybe_ref;
              extended \<leftarrow> get_bit;
              State_Monad.return (op, wallet_id, valid_until, seqno, actions, extended) }) c of
        Some (op, wallet_id, valid_until, seqno, Some actions, extended) \<Rightarrow>
          if op = ton_auth_signed_external \<and> \<not> extended
          then map_option (\<lambda>ts. \<lparr>wr_wallet_id = wallet_id, wr_valid_until = valid_until, wr_seqno = seqno, wr_transfers = ts\<rparr>)
                 (Option.bind (read_actions actions) (read_all read_payment))
          else None
      | _ \<Rightarrow> None)"

subsection \<open>Every part is read back\<close>

lemma ton_boc_Inr [simp]: "ton_boc r = Inr c \<longleftrightarrow> r = Inr c"
  by (cases r) (simp_all add: ton_boc_def)

lemma ton_boc_simps [simp]: "ton_boc (Inr c) = Inr c" "ton_boc (Inl e) = Inl (Ton_Boc e)"
  by (simp_all add: ton_boc_def)

definition sized_accounts :: "ton_accounts \<Rightarrow> bool" where
  "sized_accounts acc \<longleftrightarrow> length (ad_hash (ta_wallet acc)) = 32 \<and> length (ad_hash (ta_jetton_wallet acc)) = 32"

lemma ton_payload_op_width: "take_bit 32 ton_payload_op = ton_payload_op"
  by (intro bit_eqI) (auto simp: ton_payload_op_def bit_simps)

lemma read_payload_back:
  assumes "ton_payload r = Inr c" and "length r = 32"
  shows "read_payload c = Some r \<and> cell_depth c = 0 \<and> cell_ok c"
proof -
  let ?fs = "[Uint_Field ton_payload_op 32, Bytes_Field r]"
  have a: "assemble (map put_one ?fs) = Inr c" using assms(1) by (simp add: ton_payload_def)
  have c: "c = Cell (uint_bits ton_payload_op 32 @ bytes_bits r @ []) ([] @ [] @ [])"
    using assemble_fields [OF _ a] by (simp add: ton_payload_op_width)
  have "reads (do { op \<leftarrow> get_uint 32; r \<leftarrow> get_bytes 32; State_Monad.return (op, r) })
      (uint_bits ton_payload_op 32 @ bytes_bits r @ []) ([] @ [] @ []) (take_bit 32 ton_payload_op, r)"
    using assms(2) by (intro reads_bind [OF reads_uint] reads_bind [OF reads_bytes [of r, unfolded assms(2)]] reads_return)
  then show ?thesis
    unfolding read_payload_def c using assms(2)
    by (simp add: read_whole_cell ton_payload_op_width deeper_def cell_ok_def cell_fits_def max_bits_def max_refs_def)
qed

lemma length_coins_bits: "v < 2 ^ 120 \<Longrightarrow> length (coins_bits v) \<le> 124"
  using coins_length [of v] by (simp add: coins_bits_def)

lemma length_address_bits: "length (ad_hash a) = 32 \<Longrightarrow> length (address_bits a) \<le> 267"
  by (simp add: address_bits_def)

lemma coins_zero: "coins_bits 0 = uint_bits 0 4"
  by (simp add: coins_bits_def big_bytes.simps [of 0] bytes_bits_def)

text \<open>The fields of a transfer body and of an internal message, as the code lists them.\<close>

definition body_fields :: "u64 \<Rightarrow> int \<Rightarrow> address \<Rightarrow> address \<Rightarrow> cell \<Rightarrow> field list" where
  "body_fields q amount to response payload =
     [Uint_Field ton_op_transfer 32, Uint_Field q 64, Coins_Field amount, Address_Field to, Address_Field response,
      Maybe_Field None, Coins_Field ton_forward, Bit_Field True, Ref_Field payload]"

definition message_fields :: "address \<Rightarrow> int \<Rightarrow> cell \<Rightarrow> field list" where
  "message_fields to value body =
     [Uint_Field 24 6, Address_Field to, Coins_Field value, Bit_Field False, Coins_Field 0, Coins_Field 0,
      Uint_Field 0 64, Uint_Field 0 32, Bit_Field False, Bit_Field True, Ref_Field body]"

lemma u64_fits: "take_bit 64 (v :: u64) = v"
  by (rule bit_eqI) (auto simp: bit_simps)

lemma body_fields_ok:
  "0 \<le> amount \<Longrightarrow> amount < 2 ^ 120 \<Longrightarrow> length (ad_hash to) = 32 \<Longrightarrow> length (ad_hash resp) = 32 \<Longrightarrow>
   list_all field_ok (body_fields q amount to resp pl)"
  by (simp add: body_fields_def u64_fits ton_op_transfer_def ton_forward_def)

lemma message_fields_ok: "length (ad_hash to) = 32 \<Longrightarrow> list_all field_ok (message_fields to ton_attach body)"
  by (simp add: message_fields_def ton_attach_def)

lemma read_transfer_back:
  assumes ok: "list_all field_ok (body_fields q amount to resp pl)" and a: "assemble (map put_one (body_fields q amount to resp pl)) = Inr c"
    and pl: "read_payload pl = Some r" and d: "cell_depth pl = 0"
  shows "read_transfer c =
           Some \<lparr>jt_query = q, jt_amount = amount, jt_to = to, jt_response = resp, jt_forward = ton_forward, jt_ref = r\<rparr> \<and>
         cell_depth c = 1"
proof -
  have s: "length (ad_hash to) = 32" "length (ad_hash resp) = 32" and am: "0 \<le> amount" "amount < 2 ^ 120"
    using ok by (simp_all add: body_fields_def)
  let ?bs = "uint_bits ton_op_transfer 32 @ uint_bits q 64 @ coins_bits (nat amount) @ address_bits to @ address_bits resp @
             [None \<noteq> (None :: cell option)] @ coins_bits (nat ton_forward) @ [True] @ [] @ []"
  let ?rs = "[] @ [] @ [] @ [] @ [] @ (case None of None \<Rightarrow> [] | Some c \<Rightarrow> [c]) @ [] @ [] @ [pl] @ []"
  have c: "c = Cell ?bs ?rs" using assemble_fields [OF ok a] by (simp add: body_fields_def)
  let ?m = "do { op \<leftarrow> get_uint 32; q \<leftarrow> get_uint 64; amount \<leftarrow> get_coins; to \<leftarrow> get_address; response \<leftarrow> get_address;
      custom \<leftarrow> get_maybe_ref; forward \<leftarrow> get_coins; either \<leftarrow> get_bit; payload \<leftarrow> get_ref;
      State_Monad.return (op, q, amount, to, response, custom, forward, either, payload) }"
  have "reads ?m ?bs ?rs (take_bit 32 ton_op_transfer, take_bit 64 q, int (nat amount), to, resp, None,
      int (nat ton_forward), True, Some pl)"
    by (intro reads_bind [OF reads_uint] reads_bind [OF reads_coins] reads_bind [OF reads_address] reads_bind [OF reads_maybe_ref]
        reads_bind [OF reads_bit] reads_bind [OF reads_ref] reads_return s)
      (use am in \<open>simp_all add: nat_less_iff ton_forward_def\<close>)
  from read_whole_cell [OF this] show ?thesis
    unfolding read_transfer_def c using pl d am
    by (simp add: u64_fits ton_op_transfer_def ton_forward_def deeper_def del: append_Cons append_Nil)
qed

lemma read_message_back:
  assumes s: "length (ad_hash to) = 32" and a: "assemble (map put_one (message_fields to ton_attach body)) = Inr c"
  shows "read_message c = Some (to, ton_attach, body) \<and> cell_depth c = cell_depth body + 1"
proof -
  let ?bs = "uint_bits 24 6 @ address_bits to @ coins_bits (nat ton_attach) @ [False] @ coins_bits 0 @ coins_bits 0 @
             uint_bits 0 64 @ uint_bits 0 32 @ [False] @ [True] @ [] @ []"
  let ?rs = "[] @ [] @ [] @ [] @ [] @ [] @ [] @ [] @ [] @ [] @ [body] @ []"
  have c: "c = Cell ?bs ?rs" using assemble_fields [OF message_fields_ok [OF s] a] by (simp add: message_fields_def)
  let ?m = "do { header \<leftarrow> get_uint 6; to \<leftarrow> get_address; value \<leftarrow> get_coins; extra \<leftarrow> get_bit; ihr \<leftarrow> get_coins;
      fwd \<leftarrow> get_coins; lt \<leftarrow> get_uint 64; created \<leftarrow> get_uint 32; init \<leftarrow> get_bit; either \<leftarrow> get_bit; body \<leftarrow> get_ref;
      State_Monad.return (header, to, value, extra, init, either, body) }"
  have "reads ?m ?bs ?rs (take_bit 6 24, to, int (nat ton_attach), False, False, True, Some body)"
    by (intro reads_bind [OF reads_uint] reads_bind [OF reads_coins] reads_bind [OF reads_address] reads_bind [OF reads_bit]
        reads_bind [OF reads_ref] reads_return s)
      (simp_all add: nat_less_iff ton_attach_def)
  from read_whole_cell [OF this] show ?thesis
    unfolding read_message_def c by (simp add: ton_attach_def deeper_def del: append_Cons append_Nil)
qed

definition action_fields :: "cell \<Rightarrow> cell \<Rightarrow> field list" where
  "action_fields list m = [Ref_Field list, Uint_Field ton_action_send_msg 32, Uint_Field ton_send_mode 8, Ref_Field m]"

lemma action_fields_ok: "list_all field_ok (action_fields list m)"
  by (simp add: action_fields_def ton_action_send_msg_def ton_send_mode_def)

lemma read_action_back:
  assumes a: "assemble (map put_one (action_fields prev m)) = Inr c"
  shows "read_actions c = map_option (\<lambda>ms. ms @ [m]) (read_actions prev) \<and>
         cell_depth c = max (cell_depth prev) (cell_depth m) + 1"
proof -
  let ?bs = "[] @ uint_bits ton_action_send_msg 32 @ uint_bits ton_send_mode 8 @ [] @ []"
  let ?rs = "[prev] @ [] @ [] @ [m] @ []"
  have c: "c = Cell ?bs ?rs" using assemble_fields [OF action_fields_ok a] by (simp add: action_fields_def)
  let ?m = "do { prev \<leftarrow> get_ref; op \<leftarrow> get_uint 32; mode \<leftarrow> get_uint 8; msg \<leftarrow> get_ref; State_Monad.return (op, mode, msg) }"
  have "reads ?m ?bs ?rs (take_bit 32 ton_action_send_msg, take_bit 8 ton_send_mode, Some m)"
    by (intro reads_bind [OF reads_uint] reads_bind [OF reads_ref] reads_return)
  from read_whole_cell [OF this] have "read_action c = Some m"
    unfolding read_action_def c by (simp add: ton_action_send_msg_def ton_send_mode_def)
  then show ?thesis by (auto simp: c deeper_def split: option.split)
qed

lemma out_list_back:
  "ton_out_list list ms = Inr c \<Longrightarrow> \<forall>m \<in> set ms. cell_depth m = 2 \<Longrightarrow> cell_depth list = (if n = 0 then 0 else n + 2) \<Longrightarrow>
   read_actions c = map_option (\<lambda>xs. xs @ ms) (read_actions list) \<and>
   cell_depth c = (if n + length ms = 0 then 0 else n + length ms + 2)"
proof (induction ms arbitrary: list n)
  case Nil
  then show ?case by (simp add: option.map_ident)
next
  case (Cons m ms)
  then obtain l where l: "assemble (map put_one (action_fields list m)) = Inr l" "ton_out_list l ms = Inr c"
    by (auto simp: action_fields_def split: sum.splits)
  note b = read_action_back [OF l(1)]
  have "cell_depth l = (if Suc n = 0 then 0 else Suc n + 2)" using b Cons.prems(2,3) by simp
  with Cons.IH [OF l(2)] Cons.prems(2) have
    "read_actions c = map_option (\<lambda>xs. xs @ ms) (read_actions l) \<and> cell_depth c = Suc n + length ms + 2" by fastforce
  with b show ?case by (simp add: option.map_comp comp_def)
qed

text \<open>What the wallet is asked to send for one payout.\<close>

definition pays :: "ton_accounts \<Rightarrow> payout \<Rightarrow> address \<times> int \<times> jetton_transfer \<Rightarrow> bool" where
  "pays acc it tr \<longleftrightarrow>
     (case tr of (to, value, t) \<Rightarrow>
        to = ta_jetton_wallet acc \<and> value = ton_attach \<and> po_amount it = Some (jt_amount t) \<and>
        0 < jt_amount t \<and> jt_amount t < 2 ^ 120 \<and> parse_address (po_merchant it) = Inr (jt_to t) \<and>
        jt_response t = ta_wallet acc \<and> jt_forward t = ton_forward \<and> jt_ref t = po_ref it \<and> \<not> ref_is_zero (po_ref it) \<and>
        jt_query t = of_nat (big_value (take 8 (po_ref it))))"

lemma transfer_body_back:
  assumes "ton_transfer_body acc it = Inr body" and sz: "sized_accounts acc" and "length (po_ref it) = 32"
    and msg: "ton_internal_message (ta_jetton_wallet acc) ton_attach body = Inr m"
  shows "\<exists>tr. read_payment m = Some tr \<and> pays acc it tr \<and> cell_depth m = 2"
proof -
  let ?q = "of_nat (big_value (take 8 (po_ref it))) :: u64"
  obtain amount to pl where i: "\<not> ref_is_zero (po_ref it)" "po_amount it = Some amount" "0 < amount"
    "parse_address (po_merchant it) = Inr to" "ton_payload (po_ref it) = Inr pl"
    and a: "assemble (map put_one (body_fields ?q amount to (ta_wallet acc) pl)) = Inr body"
    using assms(1) by (auto simp: ton_transfer_body_def body_fields_def split: if_splits option.splits sum.splits)
  have am: "0 \<le> amount" "amount < 2 ^ 120" using assembled_coins [OF a, of amount] by (simp_all add: body_fields_def)
  have ok: "list_all field_ok (body_fields ?q amount to (ta_wallet acc) pl)"
    using body_fields_ok [OF am parse_address_length [OF i(4)]] sz by (simp add: sized_accounts_def)
  note p = read_payload_back [OF i(5) assms(3)]
  have t: "read_transfer body = Some \<lparr>jt_query = ?q, jt_amount = amount, jt_to = to, jt_response = ta_wallet acc,
      jt_forward = ton_forward, jt_ref = po_ref it\<rparr> \<and> cell_depth body = 1"
    using read_transfer_back [OF ok a] sz p by (simp add: sized_accounts_def)
  have "assemble (map put_one (message_fields (ta_jetton_wallet acc) ton_attach body)) = Inr m"
    using msg by (simp add: ton_internal_message_def message_fields_def)
  from read_message_back [OF _ this] sz have "read_message m = Some (ta_jetton_wallet acc, ton_attach, body) \<and> cell_depth m = 2"
    using t by (simp add: sized_accounts_def)
  with t i am show ?thesis by (simp add: read_payment_def pays_def)
qed

lemma ton_messages_back:
  "ton_messages acc i its = Inr ms \<Longrightarrow> sized_accounts acc \<Longrightarrow> \<forall>it \<in> set its. length (po_ref it) = 32 \<Longrightarrow>
   (\<exists>trs. read_all read_payment (map snd ms) = Some trs \<and> list_all2 (pays acc) its trs) \<and> length ms = length its \<and>
   (\<forall>m \<in> set (map snd ms). cell_depth m = 2)"
proof (induction its arbitrary: i ms)
  case (Cons it its)
  then obtain body m ms' where m: "ton_transfer_body acc it = Inr body"
    "ton_internal_message (ta_jetton_wallet acc) ton_attach body = Inr m" "ton_messages acc (i + 1) its = Inr ms'"
    "ms = (body, m) # ms'" by (auto split: sum.splits)
  have len: "length (po_ref it) = 32" using Cons.prems(3) by simp
  obtain tr where "read_payment m = Some tr" "pays acc it tr" "cell_depth m = 2"
    using transfer_body_back [OF m(1) Cons.prems(2) len m(2)] by blast
  with Cons.IH [OF m(3) Cons.prems(2)] Cons.prems(3) m(4) show ?case by auto
qed simp

definition signing_fields :: "32 word \<Rightarrow> 32 word \<Rightarrow> 32 word \<Rightarrow> cell \<Rightarrow> field list" where
  "signing_fields wid v s list =
     [Uint_Field ton_auth_signed_external 32, Int_Field (scast wid) 32, Uint_Field (ucast v) 32, Uint_Field (ucast s) 32,
      Maybe_Field (Some list), Bit_Field False]"

lemma narrow_fits: "take_bit 32 (ucast (v :: 32 word) :: u64) = ucast v" "signed_take_bit 31 (scast (w :: 32 word) :: u64) = scast w"
proof -
  show "take_bit 32 (ucast v :: u64) = ucast v" by (rule bit_eqI) (auto simp: bit_simps dest: bit_imp_le_length)
  show "signed_take_bit 31 (scast w :: u64) = scast w" by (rule bit_eqI) (auto simp: bit_simps min_def)
qed

lemma signing_fields_ok: "list_all field_ok (signing_fields wid v s list)"
  by (simp add: signing_fields_def ton_auth_signed_external_def narrow_fits)

lemma read_request_back:
  assumes a: "assemble (map put_one (signing_fields wid v s list)) = Inr c"
    and l: "read_actions list = Some ms" "read_all read_payment ms = Some trs"
  shows "read_request c = Some \<lparr>wr_wallet_id = scast wid, wr_valid_until = ucast v, wr_seqno = ucast s, wr_transfers = trs\<rparr> \<and>
         cell_depth c = cell_depth list + 1"
proof -
  let ?bs = "uint_bits ton_auth_signed_external 32 @ uint_bits (scast wid) 32 @ uint_bits (ucast v) 32 @ uint_bits (ucast s) 32 @
             [Some list \<noteq> None] @ [False] @ []"
  let ?rs = "[] @ [] @ [] @ [] @ (case Some list of None \<Rightarrow> [] | Some c \<Rightarrow> [c]) @ [] @ []"
  have c: "c = Cell ?bs ?rs" using assemble_fields [OF signing_fields_ok a] by (simp add: signing_fields_def)
  let ?m = "do { op \<leftarrow> get_uint 32; wallet_id \<leftarrow> get_int 32; valid_until \<leftarrow> get_uint 32; seqno \<leftarrow> get_uint 32;
      actions \<leftarrow> get_maybe_ref; extended \<leftarrow> get_bit;
      State_Monad.return (op, wallet_id, valid_until, seqno, actions, extended) }"
  have "reads ?m ?bs ?rs (take_bit 32 ton_auth_signed_external, signed_take_bit (32 - 1) (scast wid), take_bit 32 (ucast v),
      take_bit 32 (ucast s), Some list, False)"
    by (intro reads_bind [OF reads_uint] reads_bind [OF reads_int] reads_bind [OF reads_maybe_ref] reads_bind [OF reads_bit] reads_return)
      simp_all
  from read_whole_cell [OF this] show ?thesis
    unfolding read_request_def c using l
    by (simp add: ton_auth_signed_external_def narrow_fits deeper_def del: append_Cons append_Nil)
qed

definition wallet_id_of :: "ton_accounts \<Rightarrow> 32 word" where
  "wallet_id_of acc = (if ta_wallet_id acc = 0 then ton_default_wallet_id else ta_wallet_id acc)"

lemma pays_wallet_id: "pays (acc\<lparr>ta_wallet_id := i\<rparr>) = pays acc"
  by (simp add: pays_def fun_eq_iff)

lemma request_read:
  assumes "transfer_request acc seqno valid_until items = Inr req" and "sized_accounts acc"
    and "\<forall>it \<in> set items. length (po_ref it) = 32"
  shows "\<exists>trs. read_request (tr_signing req) =
             Some \<lparr>wr_wallet_id = scast (wallet_id_of acc), wr_valid_until = ucast valid_until, wr_seqno = ucast seqno,
                   wr_transfers = trs\<rparr> \<and>
           list_all2 (pays acc) items trs \<and> request_messages req = length items \<and> length items \<le> 255 \<and>
           cell_depth (tr_signing req) = length items + 3"
proof -
  let ?acc = "if ta_wallet_id acc = 0 then acc\<lparr>ta_wallet_id := ton_default_wallet_id\<rparr> else acc"
  obtain ms l c where ms: "ton_messages ?acc 0 items = Inr ms" and l: "ton_out_list (Cell [] []) (map snd ms) = Inr l"
    and c: "assemble (map put_one (signing_fields (ta_wallet_id ?acc) valid_until seqno l)) = Inr c"
    and req: "tr_signing req = c" "tr_messages req = map snd ms" and n: "items \<noteq> []" "length items \<le> 255"
    using assms(1)
    by (auto simp: transfer_request_def Let_def signing_fields_def ton_max_messages_def build_cell_def new_builder_def deeper_def
        split: if_splits sum.splits)
  have "sized_accounts ?acc" using assms(2) by (simp add: sized_accounts_def)
  from ton_messages_back [OF ms this assms(3)] obtain trs where trs: "read_all read_payment (map snd ms) = Some trs"
    "list_all2 (pays ?acc) items trs" "length ms = length items" "\<forall>m \<in> set (map snd ms). cell_depth m = 2" by blast
  have "read_actions l = Some (map snd ms) \<and> cell_depth l = length items + 2"
    using out_list_back [OF l trs(4), of 0] trs(3) n(1) by (simp add: deeper_def)
  then have "read_request c = Some \<lparr>wr_wallet_id = scast (ta_wallet_id ?acc), wr_valid_until = ucast valid_until,
      wr_seqno = ucast seqno, wr_transfers = trs\<rparr> \<and> cell_depth c = length items + 3"
    using read_request_back [OF c _ trs(1)] by simp
  moreover have "pays ?acc = pays acc" "ta_wallet_id ?acc = wallet_id_of acc" by (simp_all add: pays_wallet_id wallet_id_of_def)
  ultimately show ?thesis using trs(2,3) req n(2) by (auto simp: request_messages_def)
qed

text \<open>
  C7. What the relayer signs for a batch is a request in which the wallet finds, under its own id with this seqno and this
  deadline, one transfer per payout in the order of the run: to our jetton wallet, with that payout's amount, merchant and
  ref, the change coming back to us. The tree is as deep as the batch limits count it.
\<close>

theorem request_pays_the_batch:
  assumes "transfer_request acc seqno valid_until items = Inr req" and "sized_accounts acc"
    and "\<forall>it \<in> set items. length (po_ref it) = 32"
  shows "\<exists>trs. read_request (tr_signing req) =
             Some \<lparr>wr_wallet_id = scast (wallet_id_of acc), wr_valid_until = ucast valid_until, wr_seqno = ucast seqno,
                   wr_transfers = trs\<rparr> \<and>
           list_all2 (pays acc) items trs \<and> request_messages req = length items \<and> length items \<le> 255 \<and>
           cell_depth (tr_signing req) = length items + 3"
  using assms by (rule request_read)

lemma request_depth:
  assumes "transfer_request acc seqno valid_until items = Inr req" and "sized_accounts acc"
    and "\<forall>it \<in> set items. length (po_ref it) = 32"
  shows "cell_depth (tr_signing req) = length items + 3"
  using request_read [OF assms] by blast

subsection \<open>Which batches have a request\<close>

lemma deeper_le: "\<forall>d \<in> set ds. d < n \<Longrightarrow> deeper ds \<le> n"
  using Max_less_iff [of "set ds" n] by (auto simp: deeper_max Suc_le_eq)

lemma put_fields_cell:
  assumes "list_all field_ok fs" "length (concat (map field_bits fs)) \<le> max_bits" "length (concat (map field_refs fs)) \<le> max_refs"
    and "\<forall>r \<in> set (concat (map field_refs fs)). cell_depth r < 0xffff"
  shows "\<exists>c. assemble (map put_one fs) = Inr c"
proof -
  let ?rs = "concat (map field_refs fs)"
  have "\<forall>d \<in> set (map cell_depth ?rs). d < 0xffff" using assms(4) by auto
  from deeper_le [OF this] have "cell_depth (Cell (concat (map field_bits fs)) ?rs) \<le> 0xffff" by simp
  then have "cell_fits (Cell (concat (map field_bits fs)) ?rs)"
    unfolding cell_fits_def using assms(2,3) by (simp only: cell.sel)
  from assemble_fits [OF assms(1) this] show ?thesis by blast
qed

lemma payload_built: "length r = 32 \<Longrightarrow> \<exists>c. ton_payload r = Inr c"
  using put_fields_cell [of "[Uint_Field ton_payload_op 32, Bytes_Field r]"]
  by (simp add: ton_payload_def ton_payload_op_width max_bits_def max_refs_def)

definition payable :: "payout \<Rightarrow> bool" where
  "payable it \<longleftrightarrow> \<not> ref_is_zero (po_ref it) \<and> (\<exists>v. po_amount it = Some v \<and> 0 < v \<and> v < 2 ^ 120) \<and>
     (\<exists>to. parse_address (po_merchant it) = Inr to)"

lemma body_payable:
  assumes "ton_transfer_body acc it = Inr body"
  shows "payable it"
proof -
  from assms obtain amount to pl where i: "\<not> ref_is_zero (po_ref it)" "po_amount it = Some amount" "0 < amount"
    "parse_address (po_merchant it) = Inr to"
    and a: "assemble (map put_one (body_fields (of_nat (big_value (take 8 (po_ref it)))) amount to (ta_wallet acc) pl)) = Inr body"
    by (auto simp: ton_transfer_body_def body_fields_def split: if_splits option.splits sum.splits)
  with assembled_coins [OF a, of amount] show ?thesis by (simp add: payable_def body_fields_def)
qed

lemma body_built:
  assumes "payable it" and "sized_accounts acc" and "length (po_ref it) = 32"
  shows "\<exists>body. ton_transfer_body acc it = Inr body \<and> cell_depth body = 1"
proof -
  from assms(1) obtain v to where v: "\<not> ref_is_zero (po_ref it)" "po_amount it = Some v" "0 < v" "v < 2 ^ 120" "parse_address (po_merchant it) = Inr to"
    by (auto simp: payable_def)
  obtain pl where pl: "ton_payload (po_ref it) = Inr pl" using payload_built [OF assms(3)] by blast
  note p = read_payload_back [OF pl assms(3)]
  let ?fs = "body_fields (of_nat (big_value (take 8 (po_ref it)))) v to (ta_wallet acc) pl"
  have ok: "list_all field_ok ?fs"
    using v assms(2) parse_address_length [OF v(5)] by (intro body_fields_ok) (simp_all add: sized_accounts_def)
  have "length (coins_bits (nat v)) \<le> 124" "length (coins_bits (nat ton_forward)) \<le> 124" "length (address_bits to) \<le> 267"
      "length (address_bits (ta_wallet acc)) \<le> 267"
    using v assms(2) parse_address_length [OF v(5)]
    by (auto intro!: length_coins_bits length_address_bits simp: sized_accounts_def ton_forward_def nat_less_iff)
  then obtain body where a: "assemble (map put_one ?fs) = Inr body"
    using put_fields_cell [OF ok] p by (auto simp: body_fields_def max_bits_def max_refs_def)
  then have "ton_transfer_body acc it = Inr body" using v pl by (simp add: ton_transfer_body_def body_fields_def)
  moreover have "cell_depth body = 1" using read_transfer_back [OF ok a] p by blast
  ultimately show ?thesis by blast
qed

lemma message_built:
  assumes "length (ad_hash to) = 32" and "cell_depth body = 1"
  shows "\<exists>m. ton_internal_message to ton_attach body = Inr m \<and> cell_depth m = 2"
proof -
  have "length (coins_bits (nat ton_attach)) \<le> 124" "length (coins_bits 0) \<le> 124" "length (address_bits to) \<le> 267"
    using assms by (auto intro!: length_coins_bits length_address_bits simp: ton_attach_def)
  then obtain m where "assemble (map put_one (message_fields to ton_attach body)) = Inr m"
    using put_fields_cell [OF message_fields_ok [OF assms(1), of body]] assms(2)
    by (auto simp: message_fields_def max_bits_def max_refs_def)
  with read_message_back [OF assms(1) this] assms(2) show ?thesis by (simp add: ton_internal_message_def message_fields_def)
qed

lemma messages_built:
  "sized_accounts acc \<Longrightarrow> \<forall>it \<in> set its. length (po_ref it) = 32 \<Longrightarrow> (\<exists>ms. ton_messages acc i its = Inr ms) \<longleftrightarrow> (\<forall>it \<in> set its. payable it)"
proof (induction its arbitrary: i)
  case (Cons it its)
  have sz: "length (po_ref it) = 32" using Cons.prems by simp
  show ?case
  proof (cases "payable it")
    case True
    then obtain body where b: "ton_transfer_body acc it = Inr body" "cell_depth body = 1"
      using body_built [OF _ Cons.prems(1) sz] by blast
    obtain m where m: "ton_internal_message (ta_jetton_wallet acc) ton_attach body = Inr m"
      using message_built [OF _ b(2)] Cons.prems(1) by (auto simp: sized_accounts_def)
    show ?thesis using Cons.IH [of "i + 1"] Cons.prems True b(1) m by (auto split: sum.split)
  next
    case False
    then have "ton_transfer_body acc it \<noteq> Inr body" for body using body_payable by blast
    with False show ?thesis by (auto split: sum.split)
  qed
qed simp

lemma out_list_built:
  "\<forall>m \<in> set ms. cell_depth m = 2 \<Longrightarrow> cell_depth list = (if n = 0 then 0 else n + 2) \<Longrightarrow> n + length ms \<le> 255 \<Longrightarrow>
   \<exists>c. ton_out_list list ms = Inr c"
proof (induction ms arbitrary: list n)
  case (Cons m ms)
  have "\<exists>l. assemble (map put_one (action_fields list m)) = Inr l"
    using Cons.prems by (intro put_fields_cell action_fields_ok) (auto simp: action_fields_def max_bits_def max_refs_def)
  then obtain l where l: "assemble (map put_one (action_fields list m)) = Inr l" by blast
  have "cell_depth l = (if Suc n = 0 then 0 else Suc n + 2)" using read_action_back [OF l] Cons.prems by simp
  with Cons.IH [of l "Suc n"] Cons.prems obtain c where "ton_out_list l ms = Inr c" by auto
  moreover have "ton_boc (assemble [put_ref list, put_uint ton_action_send_msg 32, put_uint ton_send_mode 8, put_ref m]) = Inr l"
    using l by (simp add: action_fields_def)
  ultimately show ?case by simp
qed simp

lemma request_built_iff:
  assumes sz: "sized_accounts acc" and refs: "\<forall>it \<in> set items. length (po_ref it) = 32"
  shows "(\<exists>req. transfer_request acc seqno valid_until items = Inr req) \<longleftrightarrow>
         0 < length items \<and> length items \<le> 255 \<and> \<not> address_is_zero (ta_wallet acc) \<and>
         \<not> address_is_zero (ta_jetton_wallet acc) \<and> (\<forall>it \<in> set items. payable it)"
proof -
  let ?acc = "if ta_wallet_id acc = 0 then acc\<lparr>ta_wallet_id := ton_default_wallet_id\<rparr> else acc"
  have sz': "sized_accounts ?acc" using sz by (simp add: sized_accounts_def)
  have empty: "ton_boc (build_cell new_builder) = Inr (Cell [] [])" by (simp add: build_cell_def new_builder_def deeper_def)
  show ?thesis
  proof (cases "items \<noteq> [] \<and> length items \<le> 255 \<and> \<not> address_is_zero (ta_wallet acc) \<and> \<not> address_is_zero (ta_jetton_wallet acc)")
    case False
    then show ?thesis by (auto simp: transfer_request_def ton_max_messages_def)
  next
    case True
    show ?thesis
    proof (cases "\<forall>it \<in> set items. payable it")
      case False
      then have "\<nexists>ms. ton_messages ?acc 0 items = Inr ms" using messages_built [OF sz' refs] by blast
      then obtain e where "ton_messages ?acc 0 items = Inl e" by (cases "ton_messages ?acc 0 items") auto
      with False True show ?thesis by (auto simp: transfer_request_def Let_def)
    next
      case pay: True
      then obtain ms where ms: "ton_messages ?acc 0 items = Inr ms" using messages_built [OF sz' refs] by blast
      note b = ton_messages_back [OF ms sz' refs]
      then obtain l where l: "ton_out_list (Cell [] []) (map snd ms) = Inr l"
        using out_list_built [of "map snd ms" "Cell [] []" 0] True by (auto simp: deeper_def)
      have "cell_depth l \<le> length items + 2" using out_list_back [OF l, of 0] b by (simp add: deeper_def)
      then have "\<exists>c. assemble (map put_one (signing_fields (ta_wallet_id ?acc) valid_until seqno l)) = Inr c"
        using True by (intro put_fields_cell signing_fields_ok) (auto simp: signing_fields_def max_bits_def max_refs_def)
      then obtain c where c: "ton_boc (assemble [put_uint ton_auth_signed_external 32, put_int (scast (ta_wallet_id ?acc)) 32,
          put_uint (ucast valid_until) 32, put_uint (ucast seqno) 32, put_maybe_ref (Some l), put_bit False]) = Inr c"
        by (auto simp: signing_fields_def)
      have "\<exists>req. transfer_request acc seqno valid_until items = Inr req"
        unfolding transfer_request_def Let_def empty ms sum.case l c using True by (simp add: ton_max_messages_def)
      with True pay show ?thesis by simp
    qed
  qed
qed

text \<open>
  A batch has a request exactly when it has between 1 and 255 payouts, both accounts are given, and every payout carries
  a ref, a positive amount below \<open>2 ^ 120\<close> and an address that can be read.
\<close>

theorem request_exists_iff:
  assumes "sized_accounts acc" and "\<forall>it \<in> set items. length (po_ref it) = 32"
  shows "(\<exists>req. transfer_request acc seqno valid_until items = Inr req) \<longleftrightarrow>
         0 < length items \<and> length items \<le> 255 \<and> \<not> address_is_zero (ta_wallet acc) \<and>
         \<not> address_is_zero (ta_jetton_wallet acc) \<and> (\<forall>it \<in> set items. payable it)"
  using assms by (rule request_built_iff)

definition ton_demo_address :: "char \<Rightarrow> address" where
  "ton_demo_address c = \<lparr>ad_workchain = 0, ad_hash = replicate 32 c\<rparr>"

definition ton_demo_accounts :: ton_accounts where
  "ton_demo_accounts = \<lparr>ta_wallet = ton_demo_address CHR 0x01, ta_jetton_wallet = ton_demo_address CHR 0x02, ta_wallet_id = 0\<rparr>"

definition ton_demo_payout :: payout where
  "ton_demo_payout = \<lparr>po_ref = replicate 32 CHR 0x01, po_merchant = address_string (ton_demo_address CHR 0x03), po_amount = Some 1000000,
     po_new_token_account = False\<rparr>"

lemma ton_demo_sized: "sized_accounts ton_demo_accounts" "\<forall>it \<in> set [ton_demo_payout]. length (po_ref it) = 32"
  by (simp_all add: sized_accounts_def ton_demo_accounts_def ton_demo_address_def ton_demo_payout_def)

lemma ton_demo_payable:
  "payable ton_demo_payout" "\<not> address_is_zero (ta_wallet ton_demo_accounts)" "\<not> address_is_zero (ta_jetton_wallet ton_demo_accounts)"
proof -
  have "parse_address (address_string (ton_demo_address CHR 0x03)) = Inr (ton_demo_address CHR 0x03)"
    by (rule parse_raw_form) (simp add: ton_demo_address_def)
  then show "payable ton_demo_payout" by (simp add: payable_def ton_demo_payout_def ref_is_zero_def zero_ref_def)
  show "\<not> address_is_zero (ta_wallet ton_demo_accounts)" "\<not> address_is_zero (ta_jetton_wallet ton_demo_accounts)"
    by (simp_all add: ton_demo_accounts_def ton_demo_address_def address_is_zero_def zero_address_def)
qed

theorem request_exists_iff_witness: "\<exists>req. transfer_request ton_demo_accounts 7 1700000000 [ton_demo_payout] = Inr req"
  using request_exists_iff [OF ton_demo_sized, of 7 1700000000] ton_demo_payable by simp

theorem request_pays_the_batch_witness:
  "\<exists>req r trs. transfer_request ton_demo_accounts 7 1700000000 [ton_demo_payout] = Inr req \<and> read_request (tr_signing req) = Some r \<and>
     wr_seqno r = 7 \<and> wr_transfers r = trs \<and> list_all2 (pays ton_demo_accounts) [ton_demo_payout] trs \<and> cell_depth (tr_signing req) = 4"
proof -
  obtain req where r: "transfer_request ton_demo_accounts 7 1700000000 [ton_demo_payout] = Inr req"
    using request_built_iff [OF ton_demo_sized, of 7 1700000000] ton_demo_payable by auto
  from request_pays_the_batch [OF r ton_demo_sized] r show ?thesis by (force simp: list_all2_Cons1)
qed

subsection \<open>How large a request is\<close>

lemma forward_bits: "length (coins_bits (nat ton_forward)) = 12"
  by (simp add: coins_bits_def ton_forward_def big_bytes.simps [of "Suc 0"] big_bytes.simps [of 0])

lemma attach_bits: "length (coins_bits (nat ton_attach)) \<le> 36"
  using length_big_bytes [of 50000000 4] by (simp add: coins_bits_def ton_attach_def)

lemma bytes_of_bits: "n \<le> 8 * k \<Longrightarrow> (n + 7) div 8 \<le> (k :: nat)"
  using div_le_mono [of "n + 7" "8 * k + 7" 8] by simp

lemma payload_cost:
  assumes "ton_payload r = Inr c" and "length r = 32"
  shows "tree_cost sz c = 38 \<and> card (subcells c) = 1 \<and> cell_ok c"
proof -
  have "c = Cell (uint_bits ton_payload_op 32 @ bytes_bits r) []"
    using assemble_fields [of "[Uint_Field ton_payload_op 32, Bytes_Field r]" c] assms(1)
    by (simp add: ton_payload_def ton_payload_op_width)
  with read_payload_back [OF assms] show ?thesis using assms(2) by (simp add: tree_cost_def cell_cost_def)
qed

lemma card_cell: "card (subcells (Cell bs rs)) \<le> 1 + (\<Sum>r\<leftarrow>rs. card (subcells r))"
proof -
  have "card (\<Union>r \<in> set rs. subcells r) \<le> (\<Sum>r\<leftarrow>rs. card (subcells r))"
  proof (induction rs)
    case (Cons r rs)
    then show ?case using card_Un_le [of "subcells r" "\<Union>r \<in> set rs. subcells r"] by simp
  qed simp
  then show ?thesis using card_insert_le_m1 [of "Suc (\<Sum>r\<leftarrow>rs. card (subcells r))" "\<Union>r \<in> set rs. subcells r"]
    by simp
qed

text \<open>The cost of an assembled cell is its own and at most that of its refs.\<close>

lemma assembled_cost:
  assumes "list_all field_ok fs" and "assemble (map put_one fs) = Inr c"
    and "length (concat (map field_bits fs)) \<le> 8 * k" and "\<forall>r \<in> set (concat (map field_refs fs)). cell_ok r"
  shows "tree_cost sz c \<le> 2 + k + length (concat (map field_refs fs)) * sz + (\<Sum>r\<leftarrow>concat (map field_refs fs). tree_cost sz r) \<and>
         card (subcells c) \<le> 1 + (\<Sum>r\<leftarrow>concat (map field_refs fs). card (subcells r)) \<and> cell_ok c"
proof -
  let ?bs = "concat (map field_bits fs)" and ?rs = "concat (map field_refs fs)"
  have c: "c = Cell ?bs ?rs" by (rule assemble_fields [OF assms(1,2)])
  have "cell_cost sz (Cell ?bs ?rs) \<le> 2 + k + length ?rs * sz" using bytes_of_bits [OF assms(3)] by (simp add: cell_cost_def)
  with tree_cost_cell [of sz ?bs ?rs] card_cell [of ?bs ?rs] assembled_ok [OF assms(2,4)] show ?thesis unfolding c by linarith
qed

lemma message_cost:
  assumes b: "ton_transfer_body acc it = Inr body" and sz: "sized_accounts acc" and r: "length (po_ref it) = 32"
    and m: "ton_internal_message (ta_jetton_wallet acc) ton_attach body = Inr m"
  shows "tree_cost w m \<le> 190 + 2 * w \<and> card (subcells m) \<le> 3 \<and> cell_ok m"
proof -
  obtain amount to pl where i: "parse_address (po_merchant it) = Inr to" "ton_payload (po_ref it) = Inr pl"
    and a: "assemble (map put_one (body_fields (of_nat (big_value (take 8 (po_ref it)))) amount to (ta_wallet acc) pl)) = Inr body"
    using b by (auto simp: ton_transfer_body_def body_fields_def split: if_splits option.splits sum.splits)
  let ?fs = "body_fields (of_nat (big_value (take 8 (po_ref it)))) amount to (ta_wallet acc) pl"
  have am: "0 \<le> amount" "amount < 2 ^ 120" using assembled_coins [OF a, of amount] by (simp_all add: body_fields_def)
  have ok: "list_all field_ok ?fs"
    using body_fields_ok [OF am parse_address_length [OF i(1)]] sz by (simp add: sized_accounts_def)
  have l: "length (coins_bits (nat amount)) \<le> 124" "length (address_bits to) \<le> 267" "length (address_bits (ta_wallet acc)) \<le> 267"
      "length (address_bits (ta_jetton_wallet acc)) \<le> 267"
    using am sz parse_address_length [OF i(1)]
    by (auto intro!: length_coins_bits length_address_bits simp: sized_accounts_def nat_less_iff)
  note p = payload_cost [OF i(2) r, of w]
  have body: "tree_cost w body \<le> 2 + 96 + w + 38 \<and> card (subcells body) \<le> 2 \<and> cell_ok body"
    using assembled_cost [OF ok a, of 96 w] l p by (simp add: body_fields_def forward_bits)
  have "assemble (map put_one (message_fields (ta_jetton_wallet acc) ton_attach body)) = Inr m"
    using m by (simp add: ton_internal_message_def message_fields_def)
  moreover have "length (coins_bits 0) = 4" by (simp add: coins_zero)
  ultimately have "tree_cost w m \<le> 2 + 52 + w + tree_cost w body \<and> card (subcells m) \<le> 1 + card (subcells body) \<and> cell_ok m"
    using assembled_cost [of "message_fields (ta_jetton_wallet acc) ton_attach body" m 52 w] l(4) attach_bits body sz
    by (simp add: message_fields_ok sized_accounts_def) (simp add: message_fields_def)
  with body show ?thesis by linarith
qed

lemma messages_cost:
  "ton_messages acc i its = Inr ms \<Longrightarrow> sized_accounts acc \<Longrightarrow> \<forall>it \<in> set its. length (po_ref it) = 32 \<Longrightarrow>
   m \<in> set (map snd ms) \<Longrightarrow> tree_cost w m \<le> 190 + 2 * w \<and> card (subcells m) \<le> 3 \<and> cell_ok m"
proof (induction its arbitrary: i ms)
  case (Cons it its)
  then obtain body m' ms' where m: "ton_transfer_body acc it = Inr body"
    "ton_internal_message (ta_jetton_wallet acc) ton_attach body = Inr m'" "ton_messages acc (i + 1) its = Inr ms'"
    "ms = (body, m') # ms'" by (auto split: sum.splits)
  have len: "length (po_ref it) = 32" using Cons.prems(3) by simp
  show ?case
  proof (cases "m = m'")
    case True
    with message_cost [OF m(1) Cons.prems(2) len m(2)] show ?thesis by blast
  next
    case False
    with Cons.IH [OF m(3) Cons.prems(2)] Cons.prems(3,4) m(4) show ?thesis by simp
  qed
qed simp

lemma out_list_cost:
  "ton_out_list list ms = Inr c \<Longrightarrow> \<forall>m \<in> set ms. tree_cost w m \<le> 190 + 2 * w \<and> card (subcells m) \<le> 3 \<and> cell_ok m \<Longrightarrow>
   cell_ok list \<Longrightarrow>
   tree_cost w c \<le> tree_cost w list + length ms * (197 + 4 * w) \<and> card (subcells c) \<le> card (subcells list) + 4 * length ms \<and> cell_ok c"
proof (induction ms arbitrary: list)
  case (Cons m ms)
  then obtain l where l: "assemble (map put_one (action_fields list m)) = Inr l" "ton_out_list l ms = Inr c"
    by (auto simp: action_fields_def split: sum.splits)
  have "tree_cost w l \<le> tree_cost w list + (197 + 4 * w) \<and> card (subcells l) \<le> card (subcells list) + 4 \<and> cell_ok l"
    using assembled_cost [OF action_fields_ok l(1), of 5 w] Cons.prems(2,3) by (auto simp: action_fields_def)
  with Cons.IH [OF l(2)] Cons.prems(2) show ?case by (force simp: algebra_simps)
qed simp

lemma request_cost:
  assumes "transfer_request acc seqno valid_until items = Inr req" and "sized_accounts acc"
    and "\<forall>it \<in> set items. length (po_ref it) = 32"
  shows "tree_cost w (tr_signing req) \<le> 21 + w + length items * (197 + 4 * w) \<and>
         card (subcells (tr_signing req)) \<le> 2 + 4 * length items \<and> cell_ok (tr_signing req) \<and> length items \<le> 255"
proof -
  let ?acc = "if ta_wallet_id acc = 0 then acc\<lparr>ta_wallet_id := ton_default_wallet_id\<rparr> else acc"
  obtain ms l where ms: "ton_messages ?acc 0 items = Inr ms" and l: "ton_out_list (Cell [] []) (map snd ms) = Inr l"
    and c: "assemble (map put_one (signing_fields (ta_wallet_id ?acc) valid_until seqno l)) = Inr (tr_signing req)"
    and n: "length items \<le> 255"
    using assms(1)
    by (auto simp: transfer_request_def Let_def signing_fields_def ton_max_messages_def build_cell_def new_builder_def deeper_def
        split: if_splits sum.splits)
  have sz: "sized_accounts ?acc" using assms(2) by (simp add: sized_accounts_def)
  have len: "length ms = length items" using ton_messages_back [OF ms sz assms(3)] by blast
  have "cell_ok (Cell [] [])" by (simp add: cell_ok_def cell_fits_def deeper_def)
  from out_list_cost [OF l _ this, of w] messages_cost [OF ms sz assms(3)] have
    "tree_cost w l \<le> 2 + length items * (197 + 4 * w) \<and> card (subcells l) \<le> 1 + 4 * length items \<and> cell_ok l"
    using len by (simp add: tree_cost_def cell_cost_def)
  with assembled_cost [OF signing_fields_ok c, of 17 w] n show ?thesis by (simp add: signing_fields_def)
qed

text \<open>
  C33. With its signature and the header around it, 99 bytes in all, a request is never larger than the network takes in an
  external message, whatever the amounts and however many of the 255 places are used: at most 205 bytes a payout.
\<close>

theorem request_fits_the_network:
  assumes "transfer_request acc seqno valid_until items = Inr req" and "sized_accounts acc"
    and "\<forall>it \<in> set items. length (po_ref it) = 32" and "\<forall>x. length (sha256 p x) = 32"
  shows "cells_collide p (tr_signing req) (tr_signing req) \<or>
         (\<exists>n. request_size p req = Some n \<and> n + 99 \<le> 142 + 205 * length items \<and> n + 99 \<le> 65535)"
proof (cases "cells_collide p (tr_signing req) (tr_signing req)")
  case False
  let ?c = "tr_signing req" and ?n = "length items"
  note rc = request_cost [OF assms(1-3)]
  have ok: "cell_ok ?c" and n: "?n \<le> 255" and card: "card (subcells ?c) \<le> 2 + 4 * ?n" using rc [of 0] by blast+
  note inj = hash_inj_on [OF assms(4) ok False]
  obtain out where out: "to_boc p ?c = Some out" using to_boc_exists [OF inj ok] card n by auto
  from to_boc_length [OF inj out] obtain sz off where b: "bytes_for (card (subcells ?c)) = Some sz"
    "bytes_for (tree_cost sz ?c) = Some off" "length out = 10 + 4 * sz + off + tree_cost sz ?c" by blast
  have sz: "sz \<le> 2" using bytes_for_least [of _ 2, OF _ _ _ b(1)] card n by simp
  have "?n * (197 + 4 * sz) \<le> ?n * 205" using sz by (intro mult_le_mono) simp_all
  with rc [of sz] sz have t: "tree_cost sz ?c \<le> 23 + 205 * ?n" by linarith
  then have "off \<le> 2" using bytes_for_least [of _ 2, OF _ _ _ b(2)] n by simp
  with b(3) sz t have "length out + 99 \<le> 142 + 205 * ?n" by linarith
  with out n show ?thesis by (simp add: request_size_def)
qed simp

theorem request_fits_the_network_witness:
  "\<exists>req. transfer_request ton_demo_accounts 7 1700000000 [ton_demo_payout] = Inr req \<and>
     (cells_collide flat_platform (tr_signing req) (tr_signing req) \<or>
      (\<exists>n. request_size flat_platform req = Some n \<and> n + 99 \<le> 347))"
proof -
  obtain req where r: "transfer_request ton_demo_accounts 7 1700000000 [ton_demo_payout] = Inr req"
    using request_built_iff [OF ton_demo_sized, of 7 1700000000] ton_demo_payable by auto
  have "\<forall>x. length (sha256 flat_platform x) = 32" by (auto simp: flat_platform_def min_def)
  from request_fits_the_network [OF r ton_demo_sized this] r show ?thesis by auto
qed

subsection \<open>From the plan to the requests\<close>

text \<open>
  Every batch of a TON plan of payable payouts becomes a request, the batches together are the run, and the depth the
  plan writes on a batch is the depth of its request, inside the network's limit of 512.
\<close>

theorem ton_plan_becomes_requests:
  assumes "pack items ton_limits = Inr plan" and "sized_accounts acc" and "\<forall>it \<in> set items. length (po_ref it) = 32 \<and> payable it"
    and "\<not> address_is_zero (ta_wallet acc)" and "\<not> address_is_zero (ta_jetton_wallet acc)"
  shows "concat (map bt_items (bp_batches plan)) = items \<and>
         (\<forall>b \<in> set (bp_batches plan). \<exists>req. transfer_request acc seqno valid_until (bt_items b) = Inr req \<and>
            int (cell_depth (tr_signing req)) = uint (us_used (bt_used b ! 2)) \<and> cell_depth (tr_signing req) \<le> 512)"
proof -
  have sane: "limits_sane ton_limits (length items)"
    by (simp add: limits_sane_def rules_sane_def ton_limits_def resource_def)
  note parts = pack_parts [OF sane assms(1)]
  have al: "li_align ton_limits = 0" by (simp add: ton_limits_def)
  have c: "cut (li_rules ton_limits) 0 items (bp_batches plan)"
    using sane assms(1) by (cases rule: pack_InrD) (simp_all add: al)
  have "\<exists>req. transfer_request acc seqno valid_until (bt_items b) = Inr req \<and>
            int (cell_depth (tr_signing req)) = uint (us_used (bt_used b ! 2)) \<and> cell_depth (tr_signing req) \<le> 512"
    if b: "b \<in> set (bp_batches plan)" for b
  proof -
    let ?n = "length (bt_items b)"
    have sub: "set (bt_items b) \<subseteq> set items" using parts(1) b by auto
    then have refs: "\<forall>it \<in> set (bt_items b). length (po_ref it) = 32" using assms(3) by blast
    have "0 < ?n" using parts(1) b by (auto simp: image_iff)
    moreover have n: "?n \<le> 255" using cut_cost(2) [OF c b] by (simp add: ton_limits_def resource_def cost_def)
    ultimately obtain req where req: "transfer_request acc seqno valid_until (bt_items b) = Inr req"
      using request_built_iff [OF assms(2) refs, of seqno valid_until] assms(3-5) sub by blast
    have len: "length (bt_used b) = 3"
      using arg_cong [OF cut_cost(1) [OF c b], of length] by (simp add: ton_limits_def)
    have "uint (us_used (bt_used b ! 2)) = map uint (map us_used (bt_used b)) ! 2" using len by simp
    also have "\<dots> = 3 + int ?n" unfolding cut_cost(1) [OF c b] by (simp add: ton_limits_def resource_def cost_def)
    finally have "uint (us_used (bt_used b ! 2)) = int (?n + 3)" by simp
    moreover have "cell_depth (tr_signing req) = ?n + 3" by (rule request_depth [OF req assms(2) refs])
    ultimately show ?thesis using req n by auto
  qed
  with parts(1) show ?thesis by blast
qed

theorem ton_plan_becomes_requests_witness:
  "\<exists>plan. pack [ton_demo_payout] ton_limits = Inr plan \<and>
     (\<forall>b \<in> set (bp_batches plan). \<exists>req. transfer_request ton_demo_accounts 7 1700000000 (bt_items b) = Inr req)"
proof -
  obtain plan where p: "pack [ton_demo_payout] ton_limits = Inr plan"
    by (simp add: pack_def pack_greedy_def pack_prepare_def ton_limits_def resource_def Let_def del: used_of_simps)
  have "\<forall>it \<in> set [ton_demo_payout]. length (po_ref it) = 32 \<and> payable it" using ton_demo_sized(2) ton_demo_payable(1) by simp
  from ton_plan_becomes_requests [OF p ton_demo_sized(1) this ton_demo_payable(2,3), of 7 1700000000] p show ?thesis by blast
qed

end
