(* ===== verification/Ton_Read.thy ===== *)
theory Ton_Read
  imports Ton_Msg Recon
begin

unbundle bit_operations_syntax

section \<open>TON: following a payment on the chain\<close>

text \<open>
  Models \<open>internal/chain/tonread.go\<close>: the trace of a payment from the external message to the merchant's jetton wallet, the
  listener's \<open>Lookup\<close>, the reconciler's \<open>Finalized\<close> and \<open>Transfers\<close>, and the readers of message bodies.

  The node is not in the repository: it is the argument \<open>v\<close>, its answers at the reader's first, second, ... call, since the
  chain moves on between two calls. A message in \<open>tx_out\<close> is never nil.
\<close>

subsection \<open>Messages, transactions, the node\<close>

record ton_message =
  tm_hash :: bytes
  tm_src :: address
  tm_dst :: address
  tm_value :: "int option"
  tm_bounce :: bool
  tm_bounced :: bool
  tm_body :: "cell option"

record ton_tx =
  tx_account :: address
  tx_lt :: u64
  tx_hash :: bytes
  tx_in :: "ton_message option"
  tx_out :: "ton_message list"
  tx_aborted :: bool
  tx_exit_code :: int
  tx_masterchain :: u64

datatype ton_read_error =
    Node_Failed string
  | Not_Our_Request
  | Not_Internal_Transfer
  | Bad_Body boc_error

record ton_node =
  tn_masterchain :: "ton_read_error + u64"
  tn_by_in_msg :: "bytes \<Rightarrow> ton_read_error + ton_tx option"
  tn_transactions :: "address \<Rightarrow> u64 \<Rightarrow> u64 \<Rightarrow> ton_read_error + ton_tx list"

datatype ton_outcome = TON_Not_Accepted | TON_In_Flight | TON_Delivered | TON_Bounced | TON_Rejected

fun ton_outcome_name :: "ton_outcome \<Rightarrow> string" where
  "ton_outcome_name TON_Not_Accepted = ''not accepted''"
| "ton_outcome_name TON_In_Flight = ''in flight''"
| "ton_outcome_name TON_Delivered = ''delivered''"
| "ton_outcome_name TON_Bounced = ''bounced''"
| "ton_outcome_name TON_Rejected = ''rejected''"

record ton_step =
  sp_role :: string
  sp_op :: string
  sp_tx :: "ton_tx option"

definition ton_step_text :: "ton_step \<Rightarrow> string" where
  "ton_step_text s =
     (case sp_tx s of
        None \<Rightarrow> sp_role s @ '' '' @ ellipsis
      | Some tx \<Rightarrow>
          (let at = (if tx_masterchain tx \<noteq> 0 then show_nat (unat (tx_masterchain tx)) else ''-'') in
           if tx_aborted tx
           then sp_role s @ '' '' @ at @ '' aborted (exit '' @ show_int (tx_exit_code tx) @ '')''
           else sp_role s @ '' '' @ at))"

record ton_trace =
  tt_steps :: "ton_step list"
  tt_outcome :: ton_outcome
  tt_terminal :: "ton_tx option"
  tt_received :: "int option"

definition ton_trace_text :: "ton_trace \<Rightarrow> string" where
  "ton_trace_text t =
     (let line = join_with '' -> '' (map ton_step_text (tt_steps t)) in
      case tt_received t of
        Some r \<Rightarrow> line @ ''   '' @ ton_outcome_name (tt_outcome t) @ '' '' @ show_int r
      | None \<Rightarrow> line @ ''   '' @ ton_outcome_name (tt_outcome t))"

subsection \<open>Reading bodies\<close>

definition slice_err :: "boc_error option reader" where
  "slice_err = State (\<lambda>s. (sl_err s, s))"

text \<open>\<open>tonForwardRef\<close>: the ref, and whether there was one of ours.\<close>

definition payload_ref :: "cell \<Rightarrow> ref \<times> bool" where
  "payload_ref p =
     (case run_state (get_uint 32) (begin_cell p) of
        (op, s) \<Rightarrow>
          if op \<noteq> ton_payload_op then (zero_ref, False)
          else (case run_state (get_bytes 32) s of
                  (r, s) \<Rightarrow> if sl_err s \<noteq> None \<or> remaining s \<noteq> 0 then (zero_ref, False) else (r, True)))"

definition ton_forward_ref :: "(ref \<times> bool) reader" where
  "ton_forward_ref = do {
     b \<leftarrow> get_bit;
     if \<not> b then State_Monad.return (zero_ref, False)
     else do {
       p \<leftarrow> get_ref;
       e \<leftarrow> slice_err;
       State_Monad.return (case p of
           None \<Rightarrow> (zero_ref, False)
         | Some p \<Rightarrow> if e \<noteq> None then (zero_ref, False) else payload_ref p) } }"

definition body_op :: "cell \<Rightarrow> u64" where
  "body_op c = fst (run_state (get_uint 32) (begin_cell c))"

text \<open>The reads of \<open>findTransfer\<close> behind the op.\<close>

definition transfer_ref :: "(ref \<times> bool) reader" where
  "transfer_ref = do {
     _ \<leftarrow> get_uint 64;
     _ \<leftarrow> get_coins;
     _ \<leftarrow> get_address;
     _ \<leftarrow> get_address;
     _ \<leftarrow> get_maybe_ref;
     _ \<leftarrow> get_coins;
     ton_forward_ref }"

definition carries_transfer :: "ref \<Rightarrow> ton_message \<Rightarrow> bool" where
  "carries_transfer r m \<longleftrightarrow>
     (case tm_body m of
        None \<Rightarrow> False
      | Some body \<Rightarrow>
          if tm_bounced m then False
          else (case run_state (get_uint 32) (begin_cell body) of
                  (op, s) \<Rightarrow>
                    if op \<noteq> ton_op_transfer then False
                    else (case fst (run_state transfer_ref s) of (got, ok) \<Rightarrow> ok \<and> got = r)))"

definition find_transfer :: "ton_message list \<Rightarrow> ref \<Rightarrow> ton_message option" where
  "find_transfer out r = find (carries_transfer r) out"

definition find_op :: "ton_message list \<Rightarrow> u64 \<Rightarrow> ton_message option" where
  "find_op out op =
     find (\<lambda>m. case tm_body m of None \<Rightarrow> False | Some b \<Rightarrow> \<not> tm_bounced m \<and> body_op b = op) out"

definition ton_internal_transfer :: "cell \<Rightarrow> ton_read_error + (int \<times> address \<times> ref)" where
  "ton_internal_transfer body =
     (case run_state (get_uint 32) (begin_cell body) of
        (op, s) \<Rightarrow>
          if op \<noteq> ton_op_internal_transfer then Inl Not_Internal_Transfer
          else (case run_state (do {
                  _ \<leftarrow> get_uint 64;
                  amount \<leftarrow> get_coins;
                  sender \<leftarrow> get_address;
                  _ \<leftarrow> get_address;
                  _ \<leftarrow> get_coins;
                  r \<leftarrow> ton_forward_ref;
                  State_Monad.return (amount, sender, fst r) }) s of
                  (x, s) \<Rightarrow> (case sl_err s of Some e \<Rightarrow> Inl (Bad_Body e) | None \<Rightarrow> Inr x)))"

definition parse_hash :: "string \<Rightarrow> bytes option" where
  "parse_hash s =
     (let s = (if take 2 s = ''0x'' then drop 2 s else s) in
      if length s \<noteq> 64 then None else hex_decode s)"

subsection \<open>The trace\<close>

text \<open>The last bounced message a failed transaction sent.\<close>

definition last_bounced :: "ton_message list \<Rightarrow> ton_message option" where
  "last_bounced out = find tm_bounced (rev out)"

definition add_step :: "ton_trace \<Rightarrow> string \<Rightarrow> string \<Rightarrow> ton_tx option \<Rightarrow> ton_trace" where
  "add_step tr role op tx = tr\<lparr>tt_steps := tt_steps tr @ [\<lparr>sp_role = role, sp_op = op, sp_tx = tx\<rparr>]\<rparr>"

definition bounce_back :: "(nat \<Rightarrow> ton_node) \<Rightarrow> nat \<Rightarrow> ton_trace \<Rightarrow> ton_tx \<Rightarrow> string \<Rightarrow> ton_outcome \<Rightarrow> ton_trace \<times> ton_read_error option" where
  "bounce_back v k tr failed role outcome =
     (case last_bounced (tx_out failed) of
        None \<Rightarrow> (tr\<lparr>tt_outcome := outcome, tt_terminal := Some failed\<rparr>, None)
      | Some bounced \<Rightarrow>
          (case tn_by_in_msg (v k) (tm_hash bounced) of
             Inl e \<Rightarrow> (tr, Some e)
           | Inr landed \<Rightarrow>
               (let tr = add_step tr role ''bounced'' landed in
                case landed of
                  None \<Rightarrow> (tr, None)
                | Some tx \<Rightarrow> (tr\<lparr>tt_outcome := outcome, tt_terminal := Some tx\<rparr>, None))))"

definition trace_step2 :: "(nat \<Rightarrow> ton_node) \<Rightarrow> nat \<Rightarrow> ton_trace \<Rightarrow> ton_tx \<Rightarrow> ton_trace \<times> ton_read_error option" where
  "trace_step2 v k tr ours =
     (case find_op (tx_out ours) ton_op_internal_transfer of
        None \<Rightarrow> (tr, Some Not_Our_Request)
      | Some internal \<Rightarrow>
          (case tn_by_in_msg (v k) (tm_hash internal) of
             Inl e \<Rightarrow> (tr, Some e)
           | Inr theirs \<Rightarrow>
               (let tr = add_step tr ''merchant's jetton wallet'' ''internal_transfer'' theirs in
                case theirs of
                  None \<Rightarrow> (tr, None)
                | Some tx \<Rightarrow>
                    if tx_aborted tx then bounce_back v (k + 1) tr tx ''our jetton wallet'' TON_Bounced
                    else (case ton_internal_transfer (the (tm_body internal)) of
                            Inl e \<Rightarrow> (tr, Some e)
                          | Inr (amount, _, _) \<Rightarrow>
                              (tr\<lparr>tt_outcome := TON_Delivered, tt_terminal := Some tx, tt_received := Some amount\<rparr>, None)))))"

definition ton_follow :: "(nat \<Rightarrow> ton_node) \<Rightarrow> nat \<Rightarrow> bytes \<Rightarrow> ref \<Rightarrow> ton_trace \<times> ton_read_error option" where
  "ton_follow v k external r =
     (let tr = \<lparr>tt_steps = [], tt_outcome = TON_Not_Accepted, tt_terminal = None, tt_received = None\<rparr> in
      case tn_by_in_msg (v k) external of
        Inl e \<Rightarrow> (tr, Some e)
      | Inr None \<Rightarrow> (tr, None)
      | Inr (Some wallet) \<Rightarrow>
          (let tr = add_step tr ''wallet'' ''external'' (Some wallet) in
           case find_transfer (tx_out wallet) r of
             None \<Rightarrow> (tr, Some Not_Our_Request)
           | Some transfer \<Rightarrow>
               (let tr = tr\<lparr>tt_outcome := TON_In_Flight\<rparr> in
                case tn_by_in_msg (v (k + 1)) (tm_hash transfer) of
                  Inl e \<Rightarrow> (tr, Some e)
                | Inr ours \<Rightarrow>
                    (let tr = add_step tr ''our jetton wallet'' ''transfer'' ours in
                     case ours of
                       None \<Rightarrow> (tr, None)
                     | Some tx \<Rightarrow>
                         if tx_aborted tx then bounce_back v (k + 2) tr tx ''wallet'' TON_Rejected
                         else trace_step2 v (k + 2) tr tx))))"

subsection \<open>The listener's and the reconciler's questions\<close>

definition no_sighting :: sighting where
  "no_sighting = \<lparr>ob_included = False, ob_height = 0, ob_head = 0, ob_final = False, ob_succeeded = False, si_received = None\<rparr>"

definition steps_height :: "ton_step list \<Rightarrow> u64" where
  "steps_height ss =
     foldl (\<lambda>h st. case sp_tx st of Some tx \<Rightarrow> if tx_masterchain tx > h then tx_masterchain tx else h | None \<Rightarrow> h) 0 ss"

definition ton_lookup :: "(nat \<Rightarrow> ton_node) \<Rightarrow> intent \<Rightarrow> ton_read_error + sighting" where
  "ton_lookup v it =
     (case tn_masterchain (v 0) of
        Inl e \<Rightarrow> Inl e
      | Inr head \<Rightarrow>
          (case parse_hash (i_tx_hash it) of
             None \<Rightarrow> Inl Not_Our_Request
           | Some external \<Rightarrow>
               (case ton_follow v 1 external (i_ref it) of
                  (_, Some e) \<Rightarrow> Inl e
                | (tr, None) \<Rightarrow>
                    let s = no_sighting\<lparr>ob_head := head\<rparr> in
                    if tt_outcome tr = TON_Not_Accepted then Inr s
                    else
                      (let s = s\<lparr>ob_included := True, ob_height := steps_height (tt_steps tr)\<rparr> in
                       case tt_terminal tr of
                         None \<Rightarrow> Inr s
                       | Some tx \<Rightarrow>
                           (let s = s\<lparr>ob_height := tx_masterchain tx, ob_final := (tx_masterchain tx \<noteq> 0),
                                      ob_succeeded := (tt_outcome tr = TON_Delivered)\<rparr> in
                            Inr (if ob_succeeded s then s\<lparr>si_received := tt_received tr\<rparr> else s))))))"

definition ton_finalized :: "(nat \<Rightarrow> ton_node) \<Rightarrow> ton_read_error + u64" where
  "ton_finalized v = tn_masterchain (v 0)"

text \<open>The loop of \<open>Transfers\<close> over one account's transactions.\<close>

definition credited :: "ton_tx \<Rightarrow> cell option" where
  "credited tx =
     (case tx_in tx of
        None \<Rightarrow> None
      | Some m \<Rightarrow>
          if tx_aborted tx \<or> tm_bounced m \<or> tx_masterchain tx = 0 then None
          else (case tm_body m of
                  None \<Rightarrow> None
                | Some b \<Rightarrow> if body_op b \<noteq> ton_op_internal_transfer then None else Some b))"

fun account_transfers :: "string \<Rightarrow> string \<Rightarrow> ton_tx list \<Rightarrow> ton_read_error + transfer list" where
  "account_transfers token merchant [] = Inr []"
| "account_transfers token merchant (tx # txs) =
     (case credited tx of
        None \<Rightarrow> account_transfers token merchant txs
      | Some body \<Rightarrow>
          (case ton_internal_transfer body of
             Inl e \<Rightarrow> Inl e
           | Inr (amount, sender, r) \<Rightarrow>
               (case account_transfers token merchant txs of
                  Inl e \<Rightarrow> Inl e
                | Inr ts \<Rightarrow>
                    Inr (\<lparr>tf_tx_hash = hex_encode (tx_hash tx), tf_height = tx_masterchain tx, tf_ref = r, tf_token = token,
                          tf_from = address_string sender, tf_to = merchant, tf_amount = amount\<rparr> # ts))))"

text \<open>The watched wallets: a map from the jetton wallet to its merchant.\<close>

type_synonym watched = "(address \<times> string) list"

definition watch :: "watched \<Rightarrow> string \<Rightarrow> address \<Rightarrow> watched" where
  "watch w merchant a = AList.update a merchant w"

fun transfers_of :: "(nat \<Rightarrow> ton_node) \<Rightarrow> nat \<Rightarrow> string \<Rightarrow> watched \<Rightarrow> u64 \<Rightarrow> u64 \<Rightarrow> address list \<Rightarrow> ton_read_error + transfer list" where
  "transfers_of v k token w from to [] = Inr []"
| "transfers_of v k token w from to (a # as) =
     (case tn_transactions (v k) a from to of
        Inl e \<Rightarrow> Inl e
      | Inr txs \<Rightarrow>
          (case account_transfers token (case map_of w a of Some m \<Rightarrow> m | None \<Rightarrow> '''') txs of
             Inl e \<Rightarrow> Inl e
           | Inr ts \<Rightarrow> map_sum id (\<lambda>r. ts @ r) (transfers_of v (k + 1) token w from to as)))"

definition ton_transfers :: "(nat \<Rightarrow> ton_node) \<Rightarrow> string \<Rightarrow> watched \<Rightarrow> u64 \<Rightarrow> u64 \<Rightarrow> ton_read_error + transfer list" where
  "ton_transfers v token w from to = transfers_of v 0 token w from to (sort_key address_string (map fst w))"

subsection \<open>The reader finds what the builder sent\<close>

lemma reads_slice_err: "reads slice_err [] [] None"
  by (auto simp: reads_def slice_err_def sl_at_def)

lemma payload_ref_back:
  assumes "ton_payload r = Inr c" and "length r = 32"
  shows "payload_ref c = (r, True)"
proof -
  have c: "c = Cell (uint_bits ton_payload_op 32 @ bytes_bits r) []"
    using assemble_fields [of "[Uint_Field ton_payload_op 32, Bytes_Field r]" c] assms(1)
    by (simp add: ton_payload_def ton_payload_op_width)
  have "sl_at (begin_cell c) (uint_bits ton_payload_op 32 @ bytes_bits r @ []) ([] @ [] @ [])"
    by (simp add: c sl_at_def begin_cell_def)
  then obtain s where s: "run_state (get_uint 32) (begin_cell c) = (take_bit 32 ton_payload_op, s)"
    "sl_at s (bytes_bits r @ []) ([] @ [])" "sl_cell s = sl_cell (begin_cell c)" by (rule readsE [OF reads_uint])
  obtain s' where "run_state (get_bytes (length r)) s = (r, s')" "sl_at s' [] []" "sl_cell s' = sl_cell s"
    using s(2) by (rule readsE [OF reads_bytes])
  with s assms(2) show ?thesis by (auto simp: payload_ref_def sl_at_def remaining_def ton_payload_op_width begin_cell_def c)
qed

lemma reads_forward_ref: "reads ton_forward_ref [True] [p] (payload_ref p)"
proof -
  have "reads ton_forward_ref ([True] @ [] @ [] @ []) ([] @ [p] @ [] @ []) (payload_ref p)"
    unfolding ton_forward_ref_def
    by (rule reads_bind [OF reads_bit], simp, rule reads_bind [where bs = "[]" and rs = "[p]", simplified, OF reads_ref],
        rule reads_bind [where bs = "[]" and rs = "[]", simplified, OF reads_slice_err], simp add: reads_return)
  then show ?thesis by simp
qed

lemma body_carries:
  assumes b: "ton_transfer_body acc it = Inr body" and sz: "sized_accounts acc" and r: "length (po_ref it) = 32"
    and m: "tm_body m = Some body" "\<not> tm_bounced m"
  shows "carries_transfer x m \<longleftrightarrow> x = po_ref it"
proof -
  let ?q = "of_nat (big_value (take 8 (po_ref it))) :: u64"
  obtain amount to pl where i: "parse_address (po_merchant it) = Inr to" "ton_payload (po_ref it) = Inr pl"
    and a: "assemble (map put_one (body_fields ?q amount to (ta_wallet acc) pl)) = Inr body"
    using b by (auto simp: ton_transfer_body_def body_fields_def split: if_splits option.splits sum.splits)
  have am: "0 \<le> amount" "amount < 2 ^ 120" using assembled_coins [OF a, of amount] by (simp_all add: body_fields_def)
  have s: "length (ad_hash to) = 32" "length (ad_hash (ta_wallet acc)) = 32"
    using sz parse_address_length [OF i(1)] by (simp_all add: sized_accounts_def)
  let ?bs = "uint_bits ?q 64 @ coins_bits (nat amount) @ address_bits to @ address_bits (ta_wallet acc) @ [None \<noteq> (None :: cell option)] @
      coins_bits (nat ton_forward) @ [True]"
  let ?rs = "[] @ [] @ [] @ [] @ (case None of None \<Rightarrow> [] | Some c \<Rightarrow> [c]) @ [] @ [pl]"
  have c: "body = Cell (uint_bits ton_op_transfer 32 @ ?bs) ([] @ ?rs)"
    using assemble_fields [OF body_fields_ok [OF am s] a] by (simp add: body_fields_def)
  have "sl_at (begin_cell body) (uint_bits ton_op_transfer 32 @ ?bs @ []) ([] @ ?rs @ [])"
    by (simp add: c sl_at_def begin_cell_def)
  then obtain s1 where s1: "run_state (get_uint 32) (begin_cell body) = (take_bit 32 ton_op_transfer, s1)" "sl_at s1 (?bs @ []) (?rs @ [])"
    using reads_uint [of 32 ton_op_transfer] unfolding reads_def by blast
  have "reads transfer_ref ?bs ?rs (payload_ref pl)"
    unfolding transfer_ref_def
    by (intro reads_bind [OF reads_uint] reads_bind [OF reads_coins] reads_bind [OF reads_address] reads_bind [OF reads_maybe_ref]
        reads_forward_ref s)
      (use am in \<open>simp_all add: nat_less_iff ton_forward_def\<close>)
  then obtain s2 where "run_state transfer_ref s1 = (payload_ref pl, s2)" using s1(2) unfolding reads_def by blast
  with s1(1) payload_ref_back [OF i(2) r] m show ?thesis
    by (auto simp: carries_transfer_def ton_op_transfer_def)
qed

lemma request_bodies:
  "ton_messages acc i its = Inr ms \<Longrightarrow> length ms = length its \<and> (\<forall>k < length its. ton_transfer_body acc (its ! k) = Inr (fst (ms ! k)))"
proof (induction its arbitrary: i ms)
  case (Cons it its)
  then obtain body m ms' where m: "ton_transfer_body acc it = Inr body" "ton_messages acc (i + 1) its = Inr ms'" "ms = (body, m) # ms'"
    by (auto split: sum.splits)
  with Cons.IH [OF m(2)] show ?case by (auto simp: less_Suc_eq_0_disj)
qed simp

text \<open>
  When the wallet sent out the messages of a request, the trace of each of its payments starts at that payment's own
  message: the reader finds, under the payout's ref, the message built for it.
\<close>

theorem reader_finds_own_message:
  assumes "transfer_request acc seqno valid_until items = Inr req" and "sized_accounts acc"
    and "\<forall>it \<in> set items. length (po_ref it) = 32" and "distinct (map po_ref items)"
    and "length out = length items" and "\<forall>k < length items. tm_body (out ! k) = Some (tr_bodies req ! k) \<and> \<not> tm_bounced (out ! k)"
    and "k < length items"
  shows "find_transfer out (po_ref (items ! k)) = Some (out ! k)"
proof -
  let ?acc = "if ta_wallet_id acc = 0 then acc\<lparr>ta_wallet_id := ton_default_wallet_id\<rparr> else acc"
  obtain ms where ms: "ton_messages ?acc 0 items = Inr ms" "tr_bodies req = map fst ms"
    using assms(1) by (auto simp: transfer_request_def Let_def split: if_splits sum.splits)
  have sz: "sized_accounts ?acc" using assms(2) by (simp add: sized_accounts_def)
  have "carries_transfer x (out ! j) \<longleftrightarrow> x = po_ref (items ! j)" if "j < length items" for j x
    using request_bodies [OF ms(1)] assms(3,6) that ms(2) by (intro body_carries [OF _ sz]) auto
  moreover have "po_ref (items ! j) \<noteq> po_ref (items ! k)" if "j < k" for j
    using assms(4,7) that by (auto simp: distinct_conv_nth)
  ultimately show ?thesis
    using assms(5,7) unfolding find_transfer_def find_Some_iff by (intro exI [of _ k]) fastforce
qed

subsection \<open>A settled payment was credited\<close>

definition paid_path :: "(nat \<Rightarrow> ton_node) \<Rightarrow> bytes \<Rightarrow> ref \<Rightarrow> int \<Rightarrow> ton_tx \<Rightarrow> bool" where
  "paid_path v external r amount theirs \<longleftrightarrow>
     (\<exists>wallet m ours internal body sender r'.
        tn_by_in_msg (v 1) external = Inr (Some wallet) \<and> m \<in> set (tx_out wallet) \<and> carries_transfer r m \<and>
        tn_by_in_msg (v 2) (tm_hash m) = Inr (Some ours) \<and> \<not> tx_aborted ours \<and>
        internal \<in> set (tx_out ours) \<and> tm_body internal = Some body \<and> \<not> tm_bounced internal \<and>
        tn_by_in_msg (v 3) (tm_hash internal) = Inr (Some theirs) \<and> \<not> tx_aborted theirs \<and>
        ton_internal_transfer body = Inr (amount, sender, r'))"

lemma bounce_back_outcome:
  assumes "bounce_back v k tr failed role out = (tr', e)" and "tt_outcome tr = TON_In_Flight"
  shows "tt_outcome tr' \<in> {TON_In_Flight, out} \<and> tt_received tr' = tt_received tr"
  using assms by (auto simp: bounce_back_def add_step_def Let_def split: option.splits sum.splits)

lemma trace_step2_delivered:
  assumes "trace_step2 v k tr ours = (tr', None)" and "tt_outcome tr' = TON_Delivered" and "tt_outcome tr = TON_In_Flight"
  shows "\<exists>internal body theirs amount sender r'. internal \<in> set (tx_out ours) \<and> tm_body internal = Some body \<and> \<not> tm_bounced internal \<and>
           tn_by_in_msg (v k) (tm_hash internal) = Inr (Some theirs) \<and> \<not> tx_aborted theirs \<and>
           ton_internal_transfer body = Inr (amount, sender, r') \<and> tt_terminal tr' = Some theirs \<and> tt_received tr' = Some amount"
proof -
  obtain internal theirs where i: "find_op (tx_out ours) ton_op_internal_transfer = Some internal"
    "tn_by_in_msg (v k) (tm_hash internal) = Inr (Some theirs)"
    using assms by (auto simp: trace_step2_def Let_def add_step_def split: option.splits sum.splits)
  then obtain body where b: "internal \<in> set (tx_out ours)" "tm_body internal = Some body" "\<not> tm_bounced internal"
    by (auto simp: find_op_def find_Some_iff split: option.splits)
  let ?tr = "add_step tr ''merchant's jetton wallet'' ''internal_transfer'' (Some theirs)"
  have na: "\<not> tx_aborted theirs"
  proof
    assume "tx_aborted theirs"
    with assms(1) i have "bounce_back v (k + 1) ?tr theirs ''our jetton wallet'' TON_Bounced = (tr', None)"
      by (simp add: trace_step2_def Let_def)
    from bounce_back_outcome [OF this] assms(2,3) show False by (simp add: add_step_def)
  qed
  with assms(1) i b obtain amount sender r' where "ton_internal_transfer body = Inr (amount, sender, r')"
    "tr' = ?tr\<lparr>tt_outcome := TON_Delivered, tt_terminal := Some theirs, tt_received := Some amount\<rparr>"
    by (auto simp: trace_step2_def Let_def split: sum.splits)
  with i b na show ?thesis by (intro exI conjI) (assumption | simp)+
qed

lemma follow_delivered:
  assumes "ton_follow v 1 external r = (tr, None)" and "tt_outcome tr = TON_Delivered"
  shows "\<exists>theirs amount. paid_path v external r amount theirs \<and> tt_terminal tr = Some theirs \<and> tt_received tr = Some amount"
proof -
  obtain wallet m where w: "tn_by_in_msg (v 1) external = Inr (Some wallet)" "find_transfer (tx_out wallet) r = Some m"
    using assms by (auto simp: ton_follow_def Let_def split: sum.splits option.splits)
  then have m: "m \<in> set (tx_out wallet)" "carries_transfer r m" by (auto simp: find_transfer_def find_Some_iff)
  let ?tr = "\<lambda>tx. add_step (add_step \<lparr>tt_steps = [], tt_outcome = TON_Not_Accepted, tt_terminal = None, tt_received = None\<rparr>
      ''wallet'' ''external'' (Some wallet)\<lparr>tt_outcome := TON_In_Flight\<rparr>) ''our jetton wallet'' ''transfer'' tx"
  obtain ours where o: "tn_by_in_msg (v 2) (tm_hash m) = Inr (Some ours)"
    using assms w by (auto simp: ton_follow_def Let_def add_step_def numeral_2_eq_2 split: sum.splits option.splits)
  have na: "\<not> tx_aborted ours"
  proof
    assume "tx_aborted ours"
    with assms(1) w o have "bounce_back v 3 (?tr (Some ours)) ours ''wallet'' TON_Rejected = (tr, None)"
      by (simp add: ton_follow_def Let_def numeral_2_eq_2 numeral_3_eq_3)
    from bounce_back_outcome [OF this] assms(2) show False by (simp add: add_step_def)
  qed
  with assms(1) w o have "trace_step2 v 3 (?tr (Some ours)) ours = (tr, None)"
    by (simp add: ton_follow_def Let_def numeral_2_eq_2 numeral_3_eq_3)
  from trace_step2_delivered [OF this assms(2)] obtain internal body theirs amount sender r' where
    "internal \<in> set (tx_out ours)" "tm_body internal = Some body" "\<not> tm_bounced internal"
    "tn_by_in_msg (v 3) (tm_hash internal) = Inr (Some theirs)" "\<not> tx_aborted theirs"
    "ton_internal_transfer body = Inr (amount, sender, r')" "tt_terminal tr = Some theirs" "tt_received tr = Some amount"
    by (auto simp: add_step_def)
  with w(1) m o na show ?thesis unfolding paid_path_def by blast
qed

lemma lookup_succeeded:
  assumes "ton_lookup v it = Inr s" and "ob_succeeded s"
  shows "\<exists>external theirs amount. parse_hash (i_tx_hash it) = Some external \<and> paid_path v external (i_ref it) amount theirs \<and>
           si_received s = Some amount \<and> ob_included s \<and> ob_height s = tx_masterchain theirs \<and> ob_final s = (tx_masterchain theirs \<noteq> 0)"
proof -
  obtain head external tr where h: "tn_masterchain (v 0) = Inr head" "parse_hash (i_tx_hash it) = Some external"
    "ton_follow v 1 external (i_ref it) = (tr, None)"
    using assms(1) by (auto simp: ton_lookup_def split: sum.splits option.splits prod.splits)
  have d: "tt_outcome tr = TON_Delivered"
    using assms h by (auto simp: ton_lookup_def Let_def no_sighting_def split: if_splits option.splits)
  obtain theirs amount where "paid_path v external (i_ref it) amount theirs" "tt_terminal tr = Some theirs" "tt_received tr = Some amount"
    using follow_delivered [OF h(3) d] by blast
  with assms h d show ?thesis
    by (intro exI [of _ external] exI [of _ theirs] exI [of _ amount]) (auto simp: ton_lookup_def Let_def no_sighting_def)
qed

definition ton_watcher :: "(ton_read_error \<Rightarrow> string) \<Rightarrow> (nat \<Rightarrow> ton_node) \<Rightarrow> intent \<Rightarrow> string + sighting" where
  "ton_watcher f v it = map_sum f id (ton_lookup v it)"


subsection \<open>What a jetton wallet sends on\<close>

text \<open>
  An \<open>internal_transfer\<close> as the published standard lays it out: the op, the query, the amount, the sender, the response
  address, the forwarded coins and the forward payload, given as what comes after the flag.
\<close>

definition internal_fields :: "u64 \<Rightarrow> int \<Rightarrow> address \<Rightarrow> address \<Rightarrow> int \<Rightarrow> field list \<Rightarrow> field list" where
  "internal_fields q amount sender resp fwd payload =
     [Uint_Field ton_op_internal_transfer 32, Uint_Field q 64, Coins_Field amount, Address_Field sender, Address_Field resp,
      Coins_Field fwd] @ payload"

lemma internal_ok:
  assumes "length (ad_hash sender) = 32" "length (ad_hash resp) = 32" "0 \<le> amount" "amount < 2 ^ 120" "0 \<le> fwd" "fwd < 2 ^ 120"
    and "list_all field_ok payload"
  shows "list_all field_ok (internal_fields q amount sender resp fwd payload)"
  using assms by (simp add: internal_fields_def u64_fits ton_op_internal_transfer_def)

text \<open>Up to the forward payload an assembled body is read field by field.\<close>

lemma internal_prefix:
  assumes ok: "list_all field_ok (internal_fields q amount sender resp fwd payload)"
    and a: "assemble (map put_one (internal_fields q amount sender resp fwd payload)) = Inr c"
    and f: "\<And>s. sl_at s (concat (map field_bits payload)) (concat (map field_refs payload)) \<Longrightarrow>
              \<exists>s'. run_state ton_forward_ref s = (y, s') \<and> sl_err s' = e"
  shows "ton_internal_transfer c = (case e of Some e \<Rightarrow> Inl (Bad_Body e) | None \<Rightarrow> Inr (amount, sender, fst y))"
proof -
  have s: "length (ad_hash sender) = 32" "length (ad_hash resp) = 32" and am: "0 \<le> amount" "amount < 2 ^ 120" "0 \<le> fwd" "fwd < 2 ^ 120"
    using ok by (simp_all add: internal_fields_def)
  have n: "nat amount < 2 ^ 120" "nat fwd < 2 ^ 120" using am by (simp_all add: nat_less_iff)
  let ?pb = "concat (map field_bits payload)" and ?pr = "concat (map field_refs payload)"
  let ?bs = "uint_bits q 64 @ coins_bits (nat amount) @ address_bits sender @ address_bits resp @ coins_bits (nat fwd)"
  have c: "c = Cell (uint_bits ton_op_internal_transfer 32 @ ?bs @ ?pb) ?pr"
    using assemble_fields [OF ok a] by (simp add: internal_fields_def)
  have "sl_at (begin_cell c) (uint_bits ton_op_internal_transfer 32 @ (?bs @ ?pb)) ([] @ ?pr)" by (simp add: c sl_at_def begin_cell_def)
  then obtain s1 where s1: "run_state (get_uint 32) (begin_cell c) = (take_bit 32 ton_op_internal_transfer, s1)" "sl_at s1 (?bs @ ?pb) ?pr"
    by (rule readsE [OF reads_uint])
  obtain s2 where s2: "run_state (get_uint 64) s1 = (q, s2)"
    "sl_at s2 (coins_bits (nat amount) @ (address_bits sender @ address_bits resp @ coins_bits (nat fwd) @ ?pb)) ([] @ ?pr)"
    using readsE [OF reads_uint [of 64 q], of s1 "coins_bits (nat amount) @ (address_bits sender @ address_bits resp @ coins_bits (nat fwd) @ ?pb)" ?pr] s1(2)
    by (auto simp: u64_fits)
  obtain s3 where s3: "run_state get_coins s2 = (int (nat amount), s3)" "sl_at s3 (address_bits sender @ (address_bits resp @ coins_bits (nat fwd) @ ?pb)) ([] @ ?pr)"
    using s2(2) by (rule readsE [OF reads_coins [OF n(1)]]) simp
  obtain s4 where s4: "run_state get_address s3 = (sender, s4)" "sl_at s4 (address_bits resp @ (coins_bits (nat fwd) @ ?pb)) ([] @ ?pr)"
    using s3(2) by (rule readsE [OF reads_address [OF s(1)]]) simp
  obtain s5 where s5: "run_state get_address s4 = (resp, s5)" "sl_at s5 (coins_bits (nat fwd) @ ?pb) ([] @ ?pr)"
    using s4(2) by (rule readsE [OF reads_address [OF s(2)]]) simp
  obtain s6 where s6: "run_state get_coins s5 = (int (nat fwd), s6)" "sl_at s6 ?pb ?pr"
    using s5(2) by (rule readsE [OF reads_coins [OF n(2)]]) simp
  from f [OF s6(2)] obtain s7 where s7: "run_state ton_forward_ref s6 = (y, s7)" "sl_err s7 = e" by blast
  have op: "take_bit 32 ton_op_internal_transfer = ton_op_internal_transfer" by (simp add: ton_op_internal_transfer_def)
  show ?thesis
    using s1(1) s2(1) s3(1) s4(1) s5(1) s6(1) s7 am
    by (simp add: ton_internal_transfer_def op State_Monad.bind_def State_Monad.return_def split: option.split)
qed

lemma internal_with_ref:
  assumes "list_all field_ok (internal_fields q amount sender resp fwd [Bit_Field True, Ref_Field pl])"
    and "assemble (map put_one (internal_fields q amount sender resp fwd [Bit_Field True, Ref_Field pl])) = Inr c"
    and "ton_payload r = Inr pl" and "length r = 32"
  shows "ton_internal_transfer c = Inr (amount, sender, r)"
proof -
  have "\<exists>s'. run_state ton_forward_ref s = ((r, True), s') \<and> sl_err s' = None"
    if "sl_at s (concat (map field_bits [Bit_Field True, Ref_Field pl])) (concat (map field_refs [Bit_Field True, Ref_Field pl]))" for s
  proof -
    have "sl_at s ([True] @ []) ([pl] @ [])" using that by simp
    then obtain s' where "run_state ton_forward_ref s = (payload_ref pl, s')" "sl_at s' [] []" by (rule readsE [OF reads_forward_ref])
    then show ?thesis using payload_ref_back [OF assms(3,4)] by (auto simp: sl_at_def)
  qed
  from internal_prefix [OF assms(1,2) this] show ?thesis by simp
qed

subsection \<open>A payload that is not ours\<close>

text \<open>A forward payload that promises a ref and has none leaves the slice with an error.\<close>

lemma internal_without_ref:
  assumes "list_all field_ok (internal_fields q amount sender resp fwd [Bit_Field True])"
    and "assemble (map put_one (internal_fields q amount sender resp fwd [Bit_Field True])) = Inr c"
  shows "ton_internal_transfer c = Inl (Bad_Body ErrShortRead)"
proof -
  have "\<exists>s'. run_state ton_forward_ref s = ((zero_ref, False), s') \<and> sl_err s' = Some ErrShortRead"
    if "sl_at s (concat (map field_bits [Bit_Field True])) (concat (map field_refs [Bit_Field True]))" for s
  proof -
    have "sl_at s ([True] @ []) ([] @ [])" using that by simp
    then obtain s1 where s1: "run_state get_bit s = (True, s1)" "sl_at s1 [] []" by (rule readsE [OF reads_bit])
    then have "run_state get_ref s1 = (None, s1\<lparr>sl_err := Some ErrShortRead\<rparr>)" by (simp add: get_ref_def sl_at_def)
    with s1(1) show ?thesis by (simp add: ton_forward_ref_def slice_err_def State_Monad.bind_def State_Monad.return_def)
  qed
  from internal_prefix [OF assms(1,2) this] show ?thesis by simp
qed

lemma account_transfers_stuck:
  "tx \<in> set txs \<Longrightarrow> credited tx = Some body \<Longrightarrow> ton_internal_transfer body = Inl e \<Longrightarrow>
   \<exists>e. account_transfers token merchant txs = Inl e"
  by (induction txs) (auto split: option.splits sum.splits)

lemma transfers_of_stuck:
  "a \<in> set as \<Longrightarrow> (\<And>j. \<exists>e. tn_transactions (v j) a from to = Inl e \<or>
      (\<exists>txs. tn_transactions (v j) a from to = Inr txs \<and> (\<exists>e. account_transfers token (case map_of w a of Some m \<Rightarrow> m | None \<Rightarrow> '''') txs = Inl e))) \<Longrightarrow>
   \<exists>e. transfers_of v k token w from to as = Inl e"
proof (induction as arbitrary: k)
  case (Cons x as)
  show ?case
  proof (cases "x = a")
    case True
    with Cons.prems(2) [of k] show ?thesis by (auto split: sum.splits)
  next
    case False
    with Cons.IH [of "k + 1"] Cons.prems obtain e where "transfers_of v (k + 1) token w from to as = Inl e" by auto
    then show ?thesis by (auto split: sum.splits)
  qed
qed simp

text \<open>
  One transaction stops the whole scan: if a watched jetton wallet once executed an \<open>internal_transfer\<close> whose sender's
  payload announces a ref and has none, then \<open>Transfers\<close> is an error for every window the node answers with that
  transaction, whatever else is in it.
\<close>

theorem foreign_payload_stops_the_scan:
  assumes "a \<in> fst ` set w" and "\<forall>j. \<exists>txs. tn_transactions (v j) a from to = Inr txs \<and> tx \<in> set txs"
    and "tx_in tx = Some m" and "\<not> tx_aborted tx" and "\<not> tm_bounced m" and "tx_masterchain tx \<noteq> 0" and "tm_body m = Some body"
    and "list_all field_ok (internal_fields q amount sender resp fwd [Bit_Field True])"
    and "assemble (map put_one (internal_fields q amount sender resp fwd [Bit_Field True])) = Inr body"
  shows "\<exists>e. ton_transfers v token w from to = Inl e"
proof -
  have op: "body_op body = ton_op_internal_transfer"
  proof -
    have "\<exists>bs rs. body = Cell (uint_bits ton_op_internal_transfer 32 @ bs) rs"
      using assemble_fields [OF assms(8,9)] by (simp add: internal_fields_def)
    then obtain bs rs where "body = Cell (uint_bits ton_op_internal_transfer 32 @ bs) rs" by blast
    then have "sl_at (begin_cell body) (uint_bits ton_op_internal_transfer 32 @ bs) ([] @ rs)" by (simp add: sl_at_def begin_cell_def)
    then obtain s where "run_state (get_uint 32) (begin_cell body) = (take_bit 32 ton_op_internal_transfer, s)"
      by (rule readsE [OF reads_uint])
    then show ?thesis by (simp add: body_op_def ton_op_internal_transfer_def)
  qed
  then have cr: "credited tx = Some body" using assms by (simp add: credited_def)
  have "a \<in> set (sort_key address_string (map fst w))" using assms(1) by simp
  moreover have "\<exists>e. tn_transactions (v j) a from to = Inl e \<or> (\<exists>txs. tn_transactions (v j) a from to = Inr txs \<and>
      (\<exists>e. account_transfers token (case map_of w a of Some m \<Rightarrow> m | None \<Rightarrow> '''') txs = Inl e))" for j
    using assms(2) account_transfers_stuck [OF _ cr internal_without_ref [OF assms(8,9)]] by fast
  ultimately show ?thesis unfolding ton_transfers_def by (rule transfers_of_stuck)
qed

subsection \<open>A message that was never sent\<close>

text \<open>
  Where the wallet accepted the request but its transaction sent out no transfer with the intent's ref (the send mode
  tells it to skip a message it cannot send), every check of that intent ends in an error, however old it is: it stays
  confirming, and neither the intent nor the books are changed.
\<close>

theorem skipped_message_is_never_failed:
  assumes "tn_masterchain (v 0) = Inr head" and "parse_hash (i_tx_hash it) = Some external"
    and "tn_by_in_msg (v 1) external = Inr (Some wallet)" and "find_transfer (tx_out wallet) (i_ref it) = None"
    and "store_get st k = Inr it" and "i_state it = StateConfirming" and "protocol (i_chain it) = ''ton''"
  shows "\<exists>rep. check p finality_defaults (ton_watcher f v) t_age t_at k st j = ((rep, Some (FromWatcher (f Not_Our_Request))), st, j)"
proof -
  have "ton_lookup v it = Inl Not_Our_Request"
    using assms by (simp add: ton_lookup_def ton_follow_def Let_def)
  then have "check_plan finality_defaults (ton_watcher f v) t_age t_at it = PlanError (FromWatcher (f Not_Our_Request))"
    using assms(7) by (simp add: check_plan_def ton_watcher_def finality_defaults_def)
  then show ?thesis using assms(5,6) by (simp add: check_def Let_def)
qed

subsection \<open>Two names for one payment\<close>

lemma account_transfers_hash:
  "account_transfers token merchant txs = Inr ts \<Longrightarrow> t \<in> set ts \<Longrightarrow> \<exists>tx \<in> set txs. tf_tx_hash t = hex_encode (tx_hash tx)"
  by (induction txs arbitrary: ts) (auto split: option.splits sum.splits)

lemma transfers_of_hash:
  "transfers_of v k token w from to as = Inr ts \<Longrightarrow> t \<in> set ts \<Longrightarrow>
   \<exists>j a txs tx. tn_transactions (v j) a from to = Inr txs \<and> tx \<in> set txs \<and> tf_tx_hash t = hex_encode (tx_hash tx)"
proof (induction as arbitrary: k ts)
  case (Cons a as)
  then obtain txs us vs where u: "tn_transactions (v k) a from to = Inr txs"
    "account_transfers token (case map_of w a of Some m \<Rightarrow> m | None \<Rightarrow> '''') txs = Inr us"
    "transfers_of v (k + 1) token w from to as = Inr vs" "ts = us @ vs"
    by (auto split: sum.splits simp: map_sum_def)
  show ?case
  proof (cases "t \<in> set us")
    case True
    with account_transfers_hash [OF u(2)] u(1) show ?thesis by blast
  next
    case False
    with Cons.prems(2) u(4) Cons.IH [OF u(3)] show ?thesis by simp
  qed
qed simp

lemma hex_encode_inj: "hex_encode a = hex_encode b \<longleftrightarrow> a = b"
  by (metis hex_decode_encode option.inject)

text \<open>
  C35. The intent names the external message, the reader's transfers name the receiver's transaction. Unless the two hashes
  coincide, the transfer of every settled TON intent, posted under the hash on record, is reported by the reconciler as
  paid twice.
\<close>

theorem settled_ton_payment_reported_twice:
  assumes "ton_transfers v token watched from to = Inr ts" and "t \<in> set ts"
    and "\<forall>j a txs tx. tn_transactions (v j) a from to = Inr txs \<longrightarrow> tx \<in> set txs \<longrightarrow> tx_hash tx \<noteq> external"
    and "\<not> ref_is_zero (tf_ref t)" and "store_get_by_ref (rw_intents (others_move ev w)) (tf_ref t) = Inr it"
    and "same_payment chain it t" and "i_state it = StateSettled"
    and "journal_get (rw_journal (others_move ev w)) (i_id it @ ''/post'') = Inr post" and "e_tx_hash post = hex_encode external"
  shows "\<exists>d. reconcile ev chain t rep w = (None, add_finding rep KindPaidTwice t (i_id it) d, others_move ev w)"
proof -
  have "tf_tx_hash t \<noteq> hex_encode external"
    using transfers_of_hash [OF assms(1) [unfolded ton_transfers_def] assms(2)] assms(3) hex_encode_inj by metis
  with assms(4-9) show ?thesis by (simp add: reconcile_def reconcile_settled_def Let_def) blast
qed

subsection \<open>A final sighting stays\<close>

text \<open>The chain grows: a transaction that handled a message stays, and may at most get its masterchain block.\<close>

definition later :: "ton_tx \<Rightarrow> ton_tx \<Rightarrow> bool" where
  "later t t' \<longleftrightarrow> t' = t \<or> tx_masterchain t = 0 \<and> (\<exists>n. t' = t\<lparr>tx_masterchain := n\<rparr>)"

definition node_grows :: "ton_node \<Rightarrow> ton_node \<Rightarrow> bool" where
  "node_grows n n' \<longleftrightarrow>
     (\<forall>h t. tn_by_in_msg n h = Inr (Some t) \<longrightarrow> (\<exists>t'. tn_by_in_msg n' h = Inr (Some t') \<and> later t t'))"

lemma later_keeps: "later t t' \<Longrightarrow> tx_out t' = tx_out t \<and> tx_aborted t' = tx_aborted t"
  by (auto simp: later_def)

definition same_end :: "ton_trace \<Rightarrow> ton_trace \<Rightarrow> bool" where
  "same_end tr tr' \<longleftrightarrow> tt_outcome tr' = tt_outcome tr \<and> tt_received tr' = tt_received tr \<and>
     (\<exists>t t'. tt_terminal tr = Some t \<and> tt_terminal tr' = Some t' \<and> later t t')"

lemma bounce_back_grows:
  assumes "bounce_back v k tr failed role out = (x, None)" and "tt_terminal x \<noteq> None" and "tt_terminal tr = None"
    and "tt_received tr = tt_received tr'" and "later failed failed'" and "node_grows (v k) (v' k')"
  shows "\<exists>x'. bounce_back v' k' tr' failed' role out = (x', None) \<and> same_end x x'"
proof (cases "last_bounced (tx_out failed)")
  case None
  with assms later_keeps [OF assms(5)] show ?thesis by (auto simp: bounce_back_def same_end_def)
next
  case (Some b)
  then obtain l where "tn_by_in_msg (v k) (tm_hash b) = Inr (Some l)"
    using assms(1-3) by (auto simp: bounce_back_def Let_def add_step_def split: sum.splits option.splits)
  moreover from this obtain l' where "tn_by_in_msg (v' k') (tm_hash b) = Inr (Some l')" "later l l'"
    using assms(6) unfolding node_grows_def by blast
  ultimately show ?thesis using Some assms(1,4) later_keeps [OF assms(5)]
    by (auto simp: bounce_back_def Let_def add_step_def same_end_def)
qed

lemma step2_grows:
  assumes "trace_step2 v k tr ours = (x, None)" and "tt_terminal x \<noteq> None" and "tt_terminal tr = None"
    and "tt_received tr = tt_received tr'" and "later ours ours'" and "\<forall>i j. node_grows (v i) (v' j)"
  shows "\<exists>x'. trace_step2 v' k tr' ours' = (x', None) \<and> same_end x x'"
proof -
  let ?add = "\<lambda>tr tx. add_step tr ''merchant's jetton wallet'' ''internal_transfer'' tx"
  obtain m t where m: "find_op (tx_out ours) ton_op_internal_transfer = Some m" "tn_by_in_msg (v k) (tm_hash m) = Inr (Some t)"
    using assms(1-3) by (auto simp: trace_step2_def Let_def add_step_def split: option.splits sum.splits)
  obtain t' where t': "tn_by_in_msg (v' k) (tm_hash m) = Inr (Some t')" "later t t'"
    using assms(6) m(2) unfolding node_grows_def by blast
  note o = later_keeps [OF assms(5)] and l = later_keeps [OF t'(2)]
  show ?thesis
  proof (cases "tx_aborted t")
    case True
    have "bounce_back v (k + 1) (?add tr (Some t)) t ''our jetton wallet'' TON_Bounced = (x, None)"
      using assms(1) m True by (simp add: trace_step2_def Let_def)
    from bounce_back_grows [OF this assms(2) _ _ t'(2), of "?add tr' (Some t')" v' "k + 1"] assms(3,4,6)
    obtain x' where "bounce_back v' (k + 1) (?add tr' (Some t')) t' ''our jetton wallet'' TON_Bounced = (x', None)" "same_end x x'"
      by (auto simp: add_step_def)
    with m o l t' True show ?thesis by (simp add: trace_step2_def Let_def)
  next
    case False
    with assms(1) m o l t' show ?thesis
      by (auto simp: trace_step2_def Let_def same_end_def add_step_def split: sum.splits prod.splits)
  qed
qed

lemma follow_grows:
  assumes "ton_follow v k external r = (x, None)" and "tt_terminal x \<noteq> None" and "\<forall>i j. node_grows (v i) (v' j)"
  shows "\<exists>x'. ton_follow v' k external r = (x', None) \<and> same_end x x'"
proof -
  let ?tr = "\<lambda>wal tx. add_step (add_step \<lparr>tt_steps = [], tt_outcome = TON_Not_Accepted, tt_terminal = None, tt_received = None\<rparr>
      ''wallet'' ''external'' (Some wal)\<lparr>tt_outcome := TON_In_Flight\<rparr>) ''our jetton wallet'' ''transfer'' tx"
  obtain wal m t where w: "tn_by_in_msg (v k) external = Inr (Some wal)" "find_transfer (tx_out wal) r = Some m"
    "tn_by_in_msg (v (k + 1)) (tm_hash m) = Inr (Some t)"
    using assms(1,2) by (auto simp: ton_follow_def Let_def add_step_def split: sum.splits option.splits)
  obtain wal' where w': "tn_by_in_msg (v' k) external = Inr (Some wal')" "later wal wal'"
    using assms(3) w(1) unfolding node_grows_def by blast
  obtain t' where t': "tn_by_in_msg (v' (k + 1)) (tm_hash m) = Inr (Some t')" "later t t'"
    using assms(3) w(3) unfolding node_grows_def by blast
  note o = later_keeps [OF w'(2)] and l = later_keeps [OF t'(2)]
  show ?thesis
  proof (cases "tx_aborted t")
    case True
    have "bounce_back v (k + 2) (?tr wal (Some t)) t ''wallet'' TON_Rejected = (x, None)"
      using assms(1) w True by (simp add: ton_follow_def Let_def)
    from bounce_back_grows [OF this assms(2) _ _ t'(2), of "?tr wal' (Some t')" v' "k + 2"] assms(3)
    obtain x' where "bounce_back v' (k + 2) (?tr wal' (Some t')) t' ''wallet'' TON_Rejected = (x', None)" "same_end x x'"
      by (auto simp: add_step_def)
    with w w' o l t' True show ?thesis by (simp add: ton_follow_def Let_def)
  next
    case False
    have "trace_step2 v (k + 2) (?tr wal (Some t)) t = (x, None)"
      using assms(1) w False by (simp add: ton_follow_def Let_def)
    from step2_grows [OF this assms(2) _ _ t'(2), of "?tr wal' (Some t')" v'] assms(3)
    obtain x' where "trace_step2 v' (k + 2) (?tr wal' (Some t')) t' = (x', None)" "same_end x x'"
      by (auto simp: add_step_def)
    with w w' o l t' False show ?thesis by (simp add: ton_follow_def Let_def)
  qed
qed

text \<open>
  As the chain grows, a sighting that was final is given again, head apart, at every later lookup: a delivered payment
  stays delivered with the same amount and height, a bounced one stays failed.
\<close>

theorem final_sighting_stays:
  assumes "ton_lookup v it = Inr s" and "ob_final s" and "\<forall>i j. node_grows (v i) (v' j)" and "tn_masterchain (v' 0) = Inr head"
  shows "ton_lookup v' it = Inr (s\<lparr>ob_head := head\<rparr>)"
proof -
  obtain external tr where h: "parse_hash (i_tx_hash it) = Some external" "ton_follow v 1 external (i_ref it) = (tr, None)"
    using assms(1) by (auto simp: ton_lookup_def split: sum.splits option.splits prod.splits)
  have n: "tt_outcome tr \<noteq> TON_Not_Accepted" "tt_terminal tr \<noteq> None"
    using assms(1,2) h by (auto simp: ton_lookup_def Let_def no_sighting_def split: if_splits option.splits sum.splits)
  then obtain tr' where tr': "ton_follow v' 1 external (i_ref it) = (tr', None)" "same_end tr tr'"
    using follow_grows [OF h(2) _ assms(3)] by blast
  then obtain t t' where t: "tt_terminal tr = Some t" "tt_terminal tr' = Some t'" "later t t'"
    "tt_outcome tr' = tt_outcome tr" "tt_received tr' = tt_received tr" by (auto simp: same_end_def)
  have "tx_masterchain t \<noteq> 0"
    using assms(1,2) h t n by (auto simp: ton_lookup_def Let_def no_sighting_def split: if_splits option.splits sum.splits)
  with t(3) have "t' = t" by (simp add: later_def)
  with assms(1,4) h tr'(1) t n show ?thesis
    by (auto simp: ton_lookup_def Let_def no_sighting_def split: if_splits sum.splits)
qed

subsection \<open>Every credit once\<close>

definition credit_of :: "string \<Rightarrow> string \<Rightarrow> ton_tx \<Rightarrow> transfer option" where
  "credit_of token merchant tx =
     (case credited tx of
        None \<Rightarrow> None
      | Some body \<Rightarrow>
          (case ton_internal_transfer body of
             Inl _ \<Rightarrow> None
           | Inr (amount, sender, r) \<Rightarrow>
               Some \<lparr>tf_tx_hash = hex_encode (tx_hash tx), tf_height = tx_masterchain tx, tf_ref = r, tf_token = token,
                     tf_from = address_string sender, tf_to = merchant, tf_amount = amount\<rparr>))"

definition merchant_of :: "watched \<Rightarrow> address \<Rightarrow> string" where
  "merchant_of w a = (case map_of w a of Some m \<Rightarrow> m | None \<Rightarrow> '''')"

lemma account_transfers_credits:
  "account_transfers token merchant txs = Inr ts \<Longrightarrow>
   ts = List.map_filter (credit_of token merchant) txs \<and> (\<forall>tx \<in> set txs. credited tx \<noteq> None \<longrightarrow> credit_of token merchant tx \<noteq> None)"
proof (induction txs arbitrary: ts)
  case (Cons tx txs)
  show ?case
  proof (cases "credited tx")
    case None
    with Cons show ?thesis by (simp add: credit_of_def map_filter_simps)
  next
    case (Some body)
    with Cons.prems obtain x us where x: "ton_internal_transfer body = Inr x" "account_transfers token merchant txs = Inr us"
      by (auto split: sum.splits)
    obtain amount sender r where "x = (amount, sender, r)" by (cases x)
    with Some x Cons.IH [OF x(2)] Cons.prems show ?thesis by (auto simp: credit_of_def map_filter_simps)
  qed
qed (simp add: map_filter_simps)

lemma transfers_of_credits:
  "transfers_of v k token w from to as = Inr ts \<Longrightarrow>
   \<exists>txss. length txss = length as \<and>
     (\<forall>j < length as. tn_transactions (v (k + j)) (as ! j) from to = Inr (txss ! j) \<and>
        (\<forall>tx \<in> set (txss ! j). credited tx \<noteq> None \<longrightarrow> credit_of token (merchant_of w (as ! j)) tx \<noteq> None)) \<and>
     ts = concat (map2 (\<lambda>a txs. List.map_filter (credit_of token (merchant_of w a)) txs) as txss)"
proof (induction as arbitrary: k ts)
  case (Cons a as)
  then obtain txs us vs where u: "tn_transactions (v k) a from to = Inr txs"
    "account_transfers token (merchant_of w a) txs = Inr us"
    "transfers_of v (k + 1) token w from to as = Inr vs" "ts = us @ vs"
    by (auto split: sum.splits simp: map_sum_def merchant_of_def)
  note c = account_transfers_credits [OF u(2)]
  obtain txss where t: "length txss = length as"
     "\<forall>j < length as. tn_transactions (v (k + 1 + j)) (as ! j) from to = Inr (txss ! j) \<and>
        (\<forall>tx \<in> set (txss ! j). credited tx \<noteq> None \<longrightarrow> credit_of token (merchant_of w (as ! j)) tx \<noteq> None)"
     "vs = concat (map2 (\<lambda>a txs. List.map_filter (credit_of token (merchant_of w a)) txs) as txss)"
    using Cons.IH [OF u(3)] by blast
  show ?case
  proof (intro exI [of _ "txs # txss"] conjI)
    show "\<forall>j < length (a # as). tn_transactions (v (k + j)) ((a # as) ! j) from to = Inr ((txs # txss) ! j) \<and>
        (\<forall>tx \<in> set ((txs # txss) ! j). credited tx \<noteq> None \<longrightarrow> credit_of token (merchant_of w ((a # as) ! j)) tx \<noteq> None)"
    proof (intro allI impI)
      fix j assume "j < length (a # as)"
      then show "tn_transactions (v (k + j)) ((a # as) ! j) from to = Inr ((txs # txss) ! j) \<and>
        (\<forall>tx \<in> set ((txs # txss) ! j). credited tx \<noteq> None \<longrightarrow> credit_of token (merchant_of w ((a # as) ! j)) tx \<noteq> None)"
        using u(1) c t(2) by (cases j) auto
    qed
  qed (use t u c in simp_all)
qed simp

text \<open>
  What the reader hands to the reconciler for a window is, wallet by wallet in the order of their addresses and in the
  node's order within each, exactly one transfer per transaction that credited a watched wallet: nothing is counted twice,
  left out or made up.
\<close>

theorem transfers_are_the_credits:
  assumes "ton_transfers v token w from to = Inr ts"
  defines "as \<equiv> sort_key address_string (map fst w)"
  shows "\<exists>txss. length txss = length as \<and>
     (\<forall>j < length as. tn_transactions (v j) (as ! j) from to = Inr (txss ! j) \<and>
        (\<forall>tx \<in> set (txss ! j). credited tx \<noteq> None \<longrightarrow> credit_of token (merchant_of w (as ! j)) tx \<noteq> None)) \<and>
     ts = concat (map2 (\<lambda>a txs. List.map_filter (credit_of token (merchant_of w a)) txs) as txss)"
  using transfers_of_credits [of v 0 token w "from" to as ts] assms by (simp add: ton_transfers_def)

subsection \<open>One payment, followed\<close>

definition ton_demo_hash :: "nat \<Rightarrow> bytes" where
  "ton_demo_hash n = replicate 32 (char_of n)"

definition ton_demo_message :: "nat \<Rightarrow> cell \<Rightarrow> ton_message" where
  "ton_demo_message n body = \<lparr>tm_hash = ton_demo_hash n, tm_src = zero_address, tm_dst = zero_address, tm_value = None,
     tm_bounce = True, tm_bounced = False, tm_body = Some body\<rparr>"

definition ton_demo_tx :: "nat \<Rightarrow> cell \<Rightarrow> ton_message list \<Rightarrow> ton_tx" where
  "ton_demo_tx n inbody out = \<lparr>tx_account = zero_address, tx_lt = of_nat n, tx_hash = ton_demo_hash n, tx_in = Some (ton_demo_message n inbody),
     tx_out = out, tx_aborted = False, tx_exit_code = 0, tx_masterchain = 7\<rparr>"

text \<open>The message with hash \<open>n\<close> was handled by the transaction with hash \<open>n + 3\<close>.\<close>

definition ton_demo_node :: "cell \<Rightarrow> cell \<Rightarrow> ton_node" where
  "ton_demo_node b1 b2 = \<lparr>tn_masterchain = Inr 9,
     tn_by_in_msg = (\<lambda>h. Inr (if h = ton_demo_hash 1 then Some (ton_demo_tx 4 b1 [ton_demo_message 2 b1])
                          else if h = ton_demo_hash 2 then Some (ton_demo_tx 5 b1 [ton_demo_message 3 b2])
                          else if h = ton_demo_hash 3 then Some (ton_demo_tx 6 b2 []) else None)),
     tn_transactions = (\<lambda>_ _ _. Inr [ton_demo_tx 6 b2 []])\<rparr>"

lemma ton_demo_hashes: "m < 256 \<Longrightarrow> n < 256 \<Longrightarrow> ton_demo_hash m = ton_demo_hash n \<longleftrightarrow> m = n"
  using byte_inj [of m n] by (simp add: ton_demo_hash_def replicate_eq_replicate)

lemma parse_hash_hex: "length h = 32 \<Longrightarrow> hd h \<noteq> CHR 0x00 \<Longrightarrow> parse_hash (hex_encode h) = Some h"
proof -
  assume l: "length h = 32" and "hd h \<noteq> CHR 0x00"
  obtain c r where h: "h = c # r" using l by (cases h) simp_all
  have "hex_digit d \<noteq> CHR ''x''" if "d < 16" for d
  proof
    assume "hex_digit d = CHR ''x''"
    with hex_value_hex_digit [OF that] show False by (simp add: hex_value_def)
  qed
  then have "hex_digit (of_char c mod 16) \<noteq> CHR ''x''" by simp
  then have "take 2 (hex_encode h) \<noteq> ''0x''" by (simp add: h hex_encode_def)
  then show ?thesis using l by (simp add: parse_hash_def Let_def)
qed

lemma parse_demo_hash: "0 < n \<Longrightarrow> n < 256 \<Longrightarrow> parse_hash (hex_encode (ton_demo_hash n)) = Some (ton_demo_hash n)"
proof -
  assume "0 < n" "n < 256"
  then have "of_char (char_of n :: char) \<noteq> (of_char CHR 0x00 :: nat)" by simp
  then have "char_of n \<noteq> CHR 0x00" by metis
  then show ?thesis by (intro parse_hash_hex) (simp_all add: ton_demo_hash_def)
qed

lemma ton_demo_bodies:
  "\<exists>b1 b2. ton_transfer_body ton_demo_accounts ton_demo_payout = Inr b1 \<and> ton_internal_transfer b2 = Inr (100, ton_demo_address CHR 0x01, po_ref ton_demo_payout) \<and>
     body_op b2 = ton_op_internal_transfer"
proof -
  have len: "length (po_ref ton_demo_payout) = 32" using ton_demo_sized(2) by simp
  obtain b1 where b1: "ton_transfer_body ton_demo_accounts ton_demo_payout = Inr b1"
    using body_built [OF ton_demo_payable(1) ton_demo_sized(1) len] by blast
  obtain pl where pl: "ton_payload (po_ref ton_demo_payout) = Inr pl" using payload_built [OF len] by blast
  let ?fs = "internal_fields 0 100 (ton_demo_address CHR 0x01) (ton_demo_address CHR 0x01) 1 [Bit_Field True, Ref_Field pl]"
  have ok: "list_all field_ok ?fs" by (intro internal_ok) (simp_all add: ton_demo_address_def)
  have "length (address_bits (ton_demo_address CHR 0x01)) \<le> 267" by (rule length_address_bits) (simp add: ton_demo_address_def)
  then obtain b2 where b2: "assemble (map put_one ?fs) = Inr b2"
    using put_fields_cell [OF ok] read_payload_back [OF pl len] length_coins_bits [of 100] length_coins_bits [of 1]
    by (auto simp: internal_fields_def max_bits_def max_refs_def)
  have i: "ton_internal_transfer b2 = Inr (100, ton_demo_address CHR 0x01, po_ref ton_demo_payout)"
    by (rule internal_with_ref [OF ok b2 pl len])
  then have "body_op b2 = ton_op_internal_transfer"
    by (auto simp: ton_internal_transfer_def body_op_def split: prod.splits if_splits)
  with b1 i show ?thesis by blast
qed

lemma ton_demo_lookup:
  assumes "ton_transfer_body ton_demo_accounts ton_demo_payout = Inr b1" and "ton_internal_transfer b2 = Inr (100, a, r)"
    and "body_op b2 = ton_op_internal_transfer"
    and "i_tx_hash it = hex_encode (ton_demo_hash 1)" and "i_ref it = po_ref ton_demo_payout"
  shows "ton_lookup (\<lambda>_. ton_demo_node b1 b2) it =
     Inr \<lparr>ob_included = True, ob_height = 7, ob_head = 9, ob_final = True, ob_succeeded = True, si_received = Some 100\<rparr>"
proof -
  have p: "parse_hash (hex_encode (ton_demo_hash 1)) = Some (ton_demo_hash 1)" by (simp add: parse_demo_hash)
  have len: "length (po_ref ton_demo_payout) = 32" using ton_demo_sized(2) by simp
  have f: "find_transfer [ton_demo_message 2 b1] (po_ref ton_demo_payout) = Some (ton_demo_message 2 b1)"
    using body_carries [OF assms(1) ton_demo_sized(1) len, of "ton_demo_message 2 b1"]
    by (simp add: find_transfer_def ton_demo_message_def)
  have o: "find_op [ton_demo_message 3 b2] ton_op_internal_transfer = Some (ton_demo_message 3 b2)"
    using assms(3) by (simp add: find_op_def ton_demo_message_def)
  have n: "tn_by_in_msg (ton_demo_node b1 b2) (ton_demo_hash 1) = Inr (Some (ton_demo_tx 4 b1 [ton_demo_message 2 b1]))"
    "tn_by_in_msg (ton_demo_node b1 b2) (ton_demo_hash 2) = Inr (Some (ton_demo_tx 5 b1 [ton_demo_message 3 b2]))"
    "tn_by_in_msg (ton_demo_node b1 b2) (ton_demo_hash 3) = Inr (Some (ton_demo_tx 6 b2 []))"
    "tn_masterchain (ton_demo_node b1 b2) = Inr 9"
    by (simp_all add: ton_demo_node_def ton_demo_hashes)
  have m: "tm_hash (ton_demo_message k b) = ton_demo_hash k" "tm_body (ton_demo_message k b) = Some b" for k b
    by (simp_all add: ton_demo_message_def)
  have t: "tx_out (ton_demo_tx k b out) = out" "\<not> tx_aborted (ton_demo_tx k b out)" "tx_masterchain (ton_demo_tx k b out) = 7" for k b out
    by (simp_all add: ton_demo_tx_def)
  have "\<exists>ss. ton_follow (\<lambda>_. ton_demo_node b1 b2) 1 (ton_demo_hash 1) (po_ref ton_demo_payout) =
      (\<lparr>tt_steps = ss, tt_outcome = TON_Delivered, tt_terminal = Some (ton_demo_tx 6 b2 []), tt_received = Some 100\<rparr>, None)"
    by (simp add: ton_follow_def trace_step2_def Let_def n m t f o assms(2) add_step_def del: One_nat_def)
  then show ?thesis using assms(4,5) n(4) t p by (auto simp: ton_lookup_def Let_def no_sighting_def)
qed

subsection \<open>A payment on the test chain\<close>

abbreviation ton_demo_payer :: string where
  "ton_demo_payer \<equiv> address_string (ton_demo_address CHR 0x01)"

definition ton_demo_born :: intent where
  "ton_demo_born = demo_intent\<lparr>i_chain := ''ton:1'', i_payer := ton_demo_payer\<rparr>"

definition ton_demo_moved :: "intent \<Rightarrow> intent" where
  "ton_demo_moved it = commit (commit (commit it (demo_request StateAuthorized ActorAPI '''' ''''))
     (demo_request StateSettling ActorRelayer '''' '''')) (demo_request StateConfirming ActorRelayer (hex_encode (ton_demo_hash 1)) '''')"

definition ton_demo_intent :: intent where
  "ton_demo_intent = ton_demo_moved ton_demo_born"

definition ton_demo_store :: memory_store where
  "ton_demo_store = \<lparr>st_rows = [(''pi_1'', ton_demo_intent)], st_by_ref = (\<lambda>_. None)(replicate 32 (CHR 0x01) \<mapsto> ''pi_1'')\<rparr>"

definition ton_demo_hold :: entry where
  "ton_demo_hold = demo_hold\<lparr>e_asset := \<lparr>asset_chain = ''ton:1'', asset_token = ''usd''\<rparr>\<rparr>"

lemma hex_encode_demo: "hex_encode (ton_demo_hash n) \<noteq> []"
  using hex_encode_inj [of "ton_demo_hash n" "[]"] by (simp add: ton_demo_hash_def hex_encode_def)

lemma ton_demo_payer_some: "ton_demo_payer \<noteq> []"
  by (simp add: address_string_def show_int_def show_nat.simps [of 0] ton_demo_address_def)

lemma ton_demo_intent_simps [simp]:
  "i_id ton_demo_intent = ''pi_1''" "i_state ton_demo_intent = StateConfirming" "i_tx_hash ton_demo_intent = hex_encode (ton_demo_hash 1)"
  "i_ref ton_demo_intent = replicate 32 (CHR 0x01)" "i_amount ton_demo_intent = Some 100"
  "i_chain ton_demo_intent = ''ton:1''" "i_token ton_demo_intent = ''usd''" "i_updated_at ton_demo_intent = 20"
  "i_payer ton_demo_intent = ton_demo_payer" "i_merchant ton_demo_intent = ''bob''"
  by (simp_all add: ton_demo_intent_def ton_demo_moved_def ton_demo_born_def demo_intent_def demo_request_def commit_def)

lemma ton_demo_reachable: "reachable_intent demo_platform ton_demo_intent"
proof -
  have "new_intent demo_platform (demo_spec\<lparr>spec_chain := ''ton:1'', spec_payer := ton_demo_payer\<rparr>) 10 = Inr ton_demo_born"
    using ton_demo_payer_some
    by (simp add: new_intent_def demo_spec_def ton_demo_born_def demo_intent_def demo_platform_def derive_def Let_def)
  then have b: "reachable_intent demo_platform ton_demo_born" by (rule reachable_intent.born)
  let ?r1 = "demo_request StateAuthorized ActorAPI '''' ''''" and ?r2 = "demo_request StateSettling ActorRelayer '''' ''''"
    and ?r3 = "demo_request StateConfirming ActorRelayer (hex_encode (ton_demo_hash 1)) ''''"
  have st: "i_state ton_demo_born = StateCreated" "i_expires_at ton_demo_born = 0" "i_tx_hash ton_demo_born = []"
    by (simp_all add: ton_demo_born_def demo_intent_def)
  have c: "i_state (commit it r) = req_to r" "i_expires_at (commit it r) = i_expires_at it" for it r by (simp_all add: commit_def)
  have "apply_request ton_demo_born ?r1 = Inr (commit ton_demo_born ?r1, True)"
    by (simp add: apply_executed_iff st lookup_rule_def rules_def guard_def demo_request_def)
  from reachable_intent.moved [OF b this] have b2: "reachable_intent demo_platform (commit ton_demo_born ?r1)" .
  have "apply_request (commit ton_demo_born ?r1) ?r2 = Inr (commit (commit ton_demo_born ?r1) ?r2, True)"
    by (simp add: apply_executed_iff st c lookup_rule_def rules_def guard_def demo_request_def)
  from reachable_intent.moved [OF b2 this] have b3: "reachable_intent demo_platform (commit (commit ton_demo_born ?r1) ?r2)" .
  have "apply_request (commit (commit ton_demo_born ?r1) ?r2) ?r3 = Inr (commit (commit (commit ton_demo_born ?r1) ?r2) ?r3, True)"
    by (simp add: apply_executed_iff st c hex_encode_demo lookup_rule_def rules_def guard_def demo_request_def)
  from reachable_intent.moved [OF b3 this] show ?thesis by (simp add: ton_demo_intent_def ton_demo_moved_def)
qed

lemma ton_demo_get: "store_get ton_demo_store k = (if k = ''pi_1'' then Inr ton_demo_intent else Inl ErrIntentNotFound)"
  by (simp add: store_get_def ton_demo_store_def)

lemma ton_demo_inv: "store_inv demo_platform ton_demo_store"
  unfolding store_inv_def ton_demo_get
  using ton_demo_reachable by (auto simp: ton_demo_store_def)

lemma ton_demo_protocol [simp]: "protocol ''ton:1'' = ''ton''"
  by (simp add: protocol_def cut_before_def)

definition ton_demo_sighting :: sighting where
  "ton_demo_sighting = \<lparr>ob_included = True, ob_height = 7, ob_head = 9, ob_final = True, ob_succeeded = True, si_received = Some 100\<rparr>"

lemma ton_demo_plan:
  assumes "lookup ton_demo_intent = Inr ton_demo_sighting"
  shows "\<exists>d. check_plan finality_defaults lookup 30 31 ton_demo_intent = PlanPost (post_entry ton_demo_intent 100) d
         \<lparr>req_to = StateSettled, req_by = ActorListener, req_tx_hash = hex_encode (ton_demo_hash 1), req_reason = '''', req_at = 31\<rparr>"
proof -
  obtain policy where pol: "finality_defaults ''ton'' = Some policy"
    and k: "fv_kind (finality_judge policy (observation.truncate ton_demo_sighting) age) = KindFinal" for age
    by (simp add: finality_defaults_def finality_judge_kind settled_by_def depth_def ton_demo_sighting_def observation.truncate_def)
  show ?thesis
    by (simp add: check_plan_def pol k assms Let_def) (simp add: ton_demo_sighting_def)
qed

lemma ton_demo_run: "j_entries (journal_run demo_platform [ton_demo_hold]) = [seal demo_platform [] ton_demo_hold]"
proof -
  have "validate_entry ton_demo_hold = None"
    by (simp add: validate_entry_iff ton_demo_hold_def demo_entry_defs legs_balanced_def leg_value_def)
  then show ?thesis
    by (simp add: journal_run_def new_journal_def append_entry_def check_hold_def Let_def)
      (simp add: demo_hold_def ton_demo_hold_def)
qed

lemma ton_demo_check:
  assumes "lookup ton_demo_intent = Inr ton_demo_sighting"
  shows "\<exists>rep st' j' x. check demo_platform finality_defaults lookup 30 31 ''pi_1'' ton_demo_store
      (journal_run demo_platform [ton_demo_hold]) = ((rep, None), st', j') \<and> lr_outcome rep = Some OutcomeSettled \<and>
      append_entry demo_platform (journal_run demo_platform [ton_demo_hold]) (post_entry ton_demo_intent 100) = Inr (x, True, j')"
proof -
  let ?req = "\<lparr>req_to = StateSettled, req_by = ActorListener, req_tx_hash = hex_encode (ton_demo_hash 1), req_reason = '''', req_at = 31\<rparr>"
  obtain d where plan: "check_plan finality_defaults lookup 30 31 ton_demo_intent = PlanPost (post_entry ton_demo_intent 100) d ?req"
    using ton_demo_plan [where lookup = lookup] assms by blast
  have "validate_entry (post_entry ton_demo_intent 100) = None"
    by (simp add: validate_entry_iff post_entry_def legs_balanced_def leg_value_def payer_account_def merchant_account_def)
  then have "admissible (j_entries (journal_run demo_platform [ton_demo_hold])) (post_entry ton_demo_intent 100)"
    by (simp add: ton_demo_run admissible_def holds_money_def resolved_in_def)
      (simp add: ton_demo_hold_def demo_entry_defs post_entry_def)
  then obtain x j' where ap: "append_entry demo_platform (journal_run demo_platform [ton_demo_hold]) (post_entry ton_demo_intent 100) = Inr (x, True, j')"
    using append_applied_iff [OF journal_run_inv] by blast
  have rq: "apply_request ton_demo_intent ?req = Inr (commit ton_demo_intent ?req, True)"
    using hex_encode_demo by (simp add: apply_executed_iff lookup_rule_def rules_def guard_def)
  obtain st' where sv: "store_save demo_platform ton_demo_store (commit ton_demo_intent ?req) (i_version ton_demo_intent) = Inr st'"
    using ms.save_succeeds [where s = ton_demo_store and it = "commit ton_demo_intent ?req" and cur = ton_demo_intent
        and p = demo_platform] by (auto simp: ton_demo_get)
  show ?thesis
    using plan ap rq sv by (simp add: check_def ton_demo_get push_def Let_def)
qed

lemma ton_demo_watched:
  "\<exists>b1 b2. ton_transfer_body ton_demo_accounts ton_demo_payout = Inr b1 \<and> ton_internal_transfer b2 = Inr (100, ton_demo_address CHR 0x01, replicate 32 (CHR 0x01)) \<and>
     body_op b2 = ton_op_internal_transfer \<and> ton_lookup (\<lambda>_. ton_demo_node b1 b2) ton_demo_intent = Inr ton_demo_sighting"
proof -
  have r: "po_ref ton_demo_payout = replicate 32 (CHR 0x01)" by (simp add: ton_demo_payout_def)
  obtain b1 b2 where b: "ton_transfer_body ton_demo_accounts ton_demo_payout = Inr b1" 
    "ton_internal_transfer b2 = Inr (100, ton_demo_address CHR 0x01, po_ref ton_demo_payout)" "body_op b2 = ton_op_internal_transfer"
    using ton_demo_bodies by blast
  from ton_demo_lookup [OF b, of ton_demo_intent] b r show ?thesis by (auto simp: ton_demo_sighting_def)
qed


theorem reader_finds_own_message_witness:
  "\<exists>req m. transfer_request ton_demo_accounts 7 1700000000 [ton_demo_payout] = Inr req \<and> tm_body m = Some (hd (tr_bodies req)) \<and>
     find_transfer [m] (po_ref ton_demo_payout) = Some m"
proof -
  obtain req where r: "transfer_request ton_demo_accounts 7 1700000000 [ton_demo_payout] = Inr req"
    using request_built_iff [OF ton_demo_sized, of 7 1700000000] ton_demo_payable by auto
  have "tr_bodies req \<noteq> []"
    using r by (auto simp: transfer_request_def Let_def split: if_splits sum.splits)
  then have hd: "tr_bodies req ! 0 = hd (tr_bodies req)" by (cases "tr_bodies req") simp_all
  let ?m = "ton_demo_message 2 (hd (tr_bodies req))"
  have "find_transfer [?m] (po_ref ([ton_demo_payout] ! 0)) = Some ([?m] ! 0)"
    by (rule reader_finds_own_message [OF r ton_demo_sized]) (simp_all add: ton_demo_message_def hd)
  then have "find_transfer [?m] (po_ref ton_demo_payout) = Some ?m" by simp
  moreover have "tm_body ?m = Some (hd (tr_bodies req))" by (simp add: ton_demo_message_def)
  ultimately show ?thesis using r by blast
qed

theorem foreign_payload_stops_the_scan_witness:
  "\<exists>body e. ton_transfers (\<lambda>_. ton_demo_node body body) ''usd'' [(ton_demo_address CHR 0x02, ''bob'')] 5 9 = Inl e"
proof -
  let ?a = "ton_demo_address CHR 0x01"
  let ?fs = "internal_fields 0 100 ?a ?a 1 [Bit_Field True]"
  have ok: "list_all field_ok ?fs" by (intro internal_ok) (simp_all add: ton_demo_address_def)
  have "length (address_bits ?a) \<le> 267" by (rule length_address_bits) (simp add: ton_demo_address_def)
  then obtain b where b: "assemble (map put_one ?fs) = Inr b"
    using put_fields_cell [OF ok] length_coins_bits [of 100] length_coins_bits [of 1]
    by (auto simp: internal_fields_def max_bits_def max_refs_def)
  have "\<exists>e. ton_transfers (\<lambda>_. ton_demo_node b b) ''usd'' [(ton_demo_address CHR 0x02, ''bob'')] 5 9 = Inl e"
    by (rule foreign_payload_stops_the_scan [OF _ _ _ _ _ _ _ ok b, where a = "ton_demo_address CHR 0x02"
          and tx = "ton_demo_tx 6 b []" and m = "ton_demo_message 6 b"])
      (simp_all add: ton_demo_node_def ton_demo_tx_def ton_demo_message_def)
  then show ?thesis by blast
qed

theorem skipped_message_is_never_failed_witness:
  "\<exists>v rep. check demo_platform finality_defaults (ton_watcher (\<lambda>_. ''skipped'') v) 30 31 ''pi_1'' ton_demo_store new_journal
     = ((rep, Some (FromWatcher ''skipped'')), ton_demo_store, new_journal)"
proof -
  let ?t = "ton_demo_tx 4 (Cell [] []) []"
  let ?n = "(ton_demo_node (Cell [] []) (Cell [] []))\<lparr>tn_by_in_msg := \<lambda>h. Inr (Some ?t)\<rparr>"
  have m: "tn_masterchain ?n = Inr 9" by (simp add: ton_demo_node_def)
  have p: "parse_hash (i_tx_hash ton_demo_intent) = Some (ton_demo_hash 1)" using parse_demo_hash [of 1] by simp
  have f: "tn_by_in_msg ?n (ton_demo_hash 1) = Inr (Some ?t)" "find_transfer (tx_out ?t) (i_ref ton_demo_intent) = None"
    by (simp_all add: find_transfer_def ton_demo_tx_def)
  have g: "store_get ton_demo_store ''pi_1'' = Inr ton_demo_intent" "i_state ton_demo_intent = StateConfirming"
    "protocol (i_chain ton_demo_intent) = ''ton''" by (simp_all add: ton_demo_get)
  from skipped_message_is_never_failed [of "\<lambda>_. ?n", OF m p f g, of demo_platform "\<lambda>_. ''skipped''" 30 31 new_journal]
  show ?thesis by blast
qed

theorem final_sighting_stays_witness:
  "\<exists>v s. ton_lookup v ton_demo_intent = Inr s \<and> ob_final s \<and> ob_succeeded s"
proof -
  obtain b1 b2 where l: "ton_lookup (\<lambda>_. ton_demo_node b1 b2) ton_demo_intent = Inr ton_demo_sighting" using ton_demo_watched by blast
  let ?v = "\<lambda>_ :: nat. (ton_demo_node b1 b2)\<lparr>tn_masterchain := Inr 12\<rparr>"
  have f: "ob_final ton_demo_sighting" "ob_succeeded ton_demo_sighting" by (simp_all add: ton_demo_sighting_def)
  have "\<forall>i j. node_grows (ton_demo_node b1 b2) (?v j)" by (simp add: node_grows_def later_def)
  moreover have "tn_masterchain (?v 0) = Inr 12" by simp
  ultimately have "ton_lookup ?v ton_demo_intent = Inr (ton_demo_sighting\<lparr>ob_head := 12\<rparr>)"
    by (rule final_sighting_stays [OF l f(1)])
  with f show ?thesis by (intro exI [of _ ?v] exI [of _ "ton_demo_sighting\<lparr>ob_head := 12\<rparr>"]) simp
qed

definition ton_demo_transfer :: transfer where
  "ton_demo_transfer = \<lparr>tf_tx_hash = hex_encode (ton_demo_hash 6), tf_height = 7, tf_ref = replicate 32 (CHR 0x01), tf_token = ''usd'',
     tf_from = ton_demo_payer, tf_to = ''bob'', tf_amount = 100\<rparr>"

lemma ton_demo_transfers:
  "\<exists>b1 b2. ton_transfers (\<lambda>_. ton_demo_node b1 b2) ''usd'' [(ton_demo_address CHR 0x02, ''bob'')] 5 9 = Inr [ton_demo_transfer]"
proof -
  obtain b2 where b: "ton_internal_transfer b2 = Inr (100, ton_demo_address CHR 0x01, replicate 32 (CHR 0x01))"
    "body_op b2 = ton_op_internal_transfer" using ton_demo_watched by blast
  have "credited (ton_demo_tx 6 b2 []) = Some b2"
    using b(2) by (simp add: credited_def ton_demo_tx_def ton_demo_message_def)
  then have "ton_transfers (\<lambda>_. ton_demo_node b2 b2) ''usd'' [(ton_demo_address CHR 0x02, ''bob'')] 5 9 = Inr [ton_demo_transfer]"
    using b(1) by (simp add: ton_transfers_def ton_demo_node_def ton_demo_transfer_def)
      (simp add: ton_demo_tx_def)
  then show ?thesis by blast
qed

theorem transfers_are_the_credits_witness:
  "\<exists>b1 b2 tx. credit_of ''usd'' ''bob'' tx = Some ton_demo_transfer \<and>
     tn_transactions (ton_demo_node b1 b2) (ton_demo_address CHR 0x02) 5 9 = Inr [tx]"
proof -
  obtain b1 b2 where t: "ton_transfers (\<lambda>_. ton_demo_node b1 b2) ''usd'' [(ton_demo_address CHR 0x02, ''bob'')] 5 9 = Inr [ton_demo_transfer]"
    using ton_demo_transfers by blast
  have n: "tn_transactions (ton_demo_node b1 b2) (ton_demo_address CHR 0x02) 5 9 = Inr [ton_demo_tx 6 b2 []]"
    by (simp add: ton_demo_node_def)
  have "credit_of ''usd'' ''bob'' (ton_demo_tx 6 b2 []) = Some ton_demo_transfer"
    using transfers_are_the_credits [OF t] n
    by (auto simp: length_Suc_conv merchant_of_def map_filter_simps split: option.splits)
  with n show ?thesis by blast
qed

definition ton_demo_settled :: intent where
  "ton_demo_settled = ton_demo_intent\<lparr>i_state := StateSettled\<rparr>"

theorem settled_ton_payment_reported_twice_witness:
  "\<exists>ev w rep d. reconcile ev ''ton:1'' ton_demo_transfer rep w
     = (None, add_finding rep KindPaidTwice ton_demo_transfer ''pi_1'' d, others_move ev w)"
proof -
  obtain b1 b2 where t: "ton_transfers (\<lambda>_. ton_demo_node b1 b2) ''usd'' [(ton_demo_address CHR 0x02, ''bob'')] 5 9 = Inr [ton_demo_transfer]"
    using ton_demo_transfers by blast
  have n: "\<forall>j a txs tx. tn_transactions (ton_demo_node b1 b2) a 5 9 = Inr txs \<longrightarrow> tx \<in> set txs \<longrightarrow> tx_hash tx \<noteq> ton_demo_hash 1"
    using ton_demo_hashes [of 6 1] by (auto simp: ton_demo_node_def ton_demo_tx_def)
  obtain rep st' j' x where ap: "append_entry demo_platform (journal_run demo_platform [ton_demo_hold]) (post_entry ton_demo_intent 100) = Inr (x, True, j')"
    using ton_demo_check [where lookup = "\<lambda>_. Inr ton_demo_sighting"] by blast
  note es = append_applied_entries [OF ap]
  have inv: "journal_inv demo_platform j'" using mj.append_new [OF journal_run_inv ap] by blast
  let ?ev = "demo_recon_env (\<lambda>_. False) 8 []"
  let ?store = "\<lparr>st_rows = [(''pi_1'', ton_demo_settled)], st_by_ref = (\<lambda>_. None)(replicate 32 (CHR 0x01) \<mapsto> ''pi_1'')\<rparr>"
  let ?w = "demo_recon_world\<lparr>rw_intents := ?store, rw_journal := j'\<rparr>"
  have w: "rw_intents (others_move ?ev ?w) = ?store" "rw_journal (others_move ?ev ?w) = j'"
    by (simp_all add: others_move_def demo_recon_env_def)
  have id: "j_by_id j' ''pi_1/post'' = Some 1"
    using inv es unfolding journal_inv_def by (simp add: ton_demo_run post_entry_def seal_def)
  then have jg: "journal_get (rw_journal (others_move ?ev ?w)) (i_id ton_demo_settled @ ''/post'') = Inr (j_entries j' ! 1)"
    by (simp only: w journal_get_def) (simp add: ton_demo_settled_def)
  have px: "e_tx_hash (j_entries j' ! 1) = hex_encode (ton_demo_hash 1)"
    using mj.append_new [OF journal_run_inv ap] by (simp add: es ton_demo_run same_entry_def post_entry_def)
  have g: "store_get_by_ref (rw_intents (others_move ?ev ?w)) (tf_ref ton_demo_transfer) = Inr ton_demo_settled"
    by (simp add: w store_get_by_ref_def store_get_def ton_demo_transfer_def)
  have s: "same_payment ''ton:1'' ton_demo_settled ton_demo_transfer" "i_state ton_demo_settled = StateSettled"
    "\<not> ref_is_zero (tf_ref ton_demo_transfer)" "ton_demo_transfer \<in> set [ton_demo_transfer]" "i_id ton_demo_settled = ''pi_1''"
    by (simp_all add: same_payment_def ton_demo_settled_def ton_demo_transfer_def)
  from settled_ton_payment_reported_twice [OF t s(4) n s(3) g s(1,2) jg px] s(5) show ?thesis by metis
qed

end
