(* ===== verification/Csv.thy ===== *)
theory Csv
  imports Prelude
begin

section \<open>CSV: the records of a file\<close>

text \<open>
  What \<open>internal/intake\<close> uses of \<open>encoding/csv\<close> and the \<open>bufio\<close> reader below it: \<open>Reader.Read\<close> with \<open>FieldsPerRecord = -1\<close>,
  the comma, no comment character, \<open>LazyQuotes\<close> and \<open>TrimLeadingSpace\<close> off, and \<open>FieldPos\<close> as far as the line. The file
  is the bytes still to come, the number of the last line read and what the reader below answers at their end: nothing
  (\<open>io.EOF\<close>) or an error, which it then repeats. Columns are left out.

  \<open>csv_records\<close> is the loop \<open>for { rec, err := cr.Read() ... }\<close> of a client that goes on after a malformed record: every
  record of the file, with its line, and how the file ended. It terminates since every call but the last consumes a byte.
\<close>

record csv_reader =
  cr_rest :: bytes
  cr_line :: nat
  cr_fail :: "string option"

datatype quote_error = ErrBareQuote | ErrQuote

datatype csv_error = Csv_EOF | Csv_Failed string | Csv_Parse nat quote_error

type_synonym csv_record = "(string \<times> nat) list"

fun quote_error_text :: "quote_error \<Rightarrow> string" where
  "quote_error_text ErrBareQuote = ''bare '' @ [CHR 0x22] @ '' in non-quoted-field''"
| "quote_error_text ErrQuote = ''extraneous or missing '' @ [CHR 0x22] @ '' in quoted-field''"

subsection \<open>Lines\<close>

abbreviation newline :: char where "newline \<equiv> CHR 0x0A"
abbreviation return_char :: char where "return_char \<equiv> CHR 0x0D"
abbreviation quote_char :: char where "quote_char \<equiv> CHR 0x22"
abbreviation comma_char :: char where "comma_char \<equiv> CHR 0x2C"

definition length_nl :: "bytes \<Rightarrow> nat" where
  "length_nl b = (if b \<noteq> [] \<and> last b = newline then 1 else 0)"

definition normal_line :: "bytes \<Rightarrow> bytes" where
  "normal_line l =
     (if 2 \<le> length l \<and> l ! (length l - 2) = return_char \<and> l ! (length l - 1) = newline
      then take (length l - 2) l @ [newline] else l)"

definition end_error :: "csv_reader \<Rightarrow> csv_error" where
  "end_error r = (case cr_fail r of None \<Rightarrow> Csv_EOF | Some e \<Rightarrow> Csv_Failed e)"

definition read_line :: "csv_reader \<Rightarrow> (bytes \<times> csv_error option) \<times> csv_reader" where
  "read_line r =
     (let l = takeWhile (\<lambda>c. c \<noteq> newline) (cr_rest r); rest = dropWhile (\<lambda>c. c \<noteq> newline) (cr_rest r);
          r' = r\<lparr>cr_line := cr_line r + 1, cr_rest := tl rest\<rparr> in
      if rest \<noteq> [] then ((normal_line (l @ [newline]), None), r')
      else if l \<noteq> [] \<and> end_error r = Csv_EOF
      then ((if last l = return_char then butlast l else l, None), r')
      else ((l, Some (end_error r)), r'))"

lemma normal_line_length: "length (normal_line l) \<le> length l"
  unfolding normal_line_def by (cases "2 \<le> length l") auto

lemma read_line_size:
  assumes "read_line r = ((l, e), r')"
  shows "length l + length (cr_rest r') \<le> length (cr_rest r) \<and>
     (e = None \<or> l \<noteq> [] \<longrightarrow> length (cr_rest r') < length (cr_rest r))"
proof -
  define a b where "a = takeWhile (\<lambda>c. c \<noteq> newline) (cr_rest r)" and "b = dropWhile (\<lambda>c. c \<noteq> newline) (cr_rest r)"
  have len: "length (cr_rest r) = length a + length b" by (metis a_def b_def length_append takeWhile_dropWhile_id)
  have rl: "read_line r =
     (let r' = r\<lparr>cr_line := cr_line r + 1, cr_rest := tl b\<rparr> in
      if b \<noteq> [] then ((normal_line (a @ [newline]), None), r')
      else if a \<noteq> [] \<and> end_error r = Csv_EOF then ((if last a = return_char then butlast a else a, None), r')
      else ((a, Some (end_error r)), r'))"
    unfolding read_line_def a_def b_def Let_def by (rule refl)
  show ?thesis
  proof (cases b)
    case Nil
    with assms len show ?thesis unfolding rl Let_def by (cases a) (auto split: if_splits)
  next
    case (Cons c b')
    with assms have "l = normal_line (a @ [newline])" "cr_rest r' = b'" by (auto simp: rl Let_def)
    with Cons len normal_line_length [of "a @ [newline]"] show ?thesis by simp
  qed
qed

lemmas read_line_shrinks = read_line_size [THEN conjunct1]
  and read_line_consumes = read_line_size [THEN conjunct2, rule_format]

text \<open>The first loop of \<open>readRecord\<close>: empty lines are skipped.\<close>

function next_line :: "csv_reader \<Rightarrow> (bytes \<times> csv_error option) \<times> csv_reader" where
  "next_line r =
     (case read_line r of
        ((l, e), r') \<Rightarrow> if e = None \<and> length l = length_nl l then next_line r' else ((l, e), r'))"
  by pat_completeness auto
termination
  by (relation "measure (\<lambda>r. length (cr_rest r))") (auto dest: read_line_consumes [OF sym])

declare next_line.simps [simp del]

lemma next_line_consumes: "next_line r = ((l, e), r') \<Longrightarrow> e = None \<or> l \<noteq> [] \<Longrightarrow> length (cr_rest r') < length (cr_rest r)"
proof (induction r rule: next_line.induct)
  case (1 r)
  obtain l0 e0 r0 where r0: "read_line r = ((l0, e0), r0)" by (cases "read_line r") auto
  show ?case
  proof (cases "e0 = None \<and> length l0 = length_nl l0")
    case True
    with "1.prems" r0 have "next_line r0 = ((l, e), r')" by (simp add: next_line.simps [of r])
    from "1.IH" [OF r0 [symmetric] refl True this "1.prems"(2)] read_line_consumes [OF r0] True show ?thesis by simp
  next
    case False
    with "1.prems" r0 have "l0 = l" "e0 = e" "r0 = r'" by (auto simp: next_line.simps [of r])
    with read_line_consumes [OF r0] "1.prems"(2) show ?thesis by simp
  qed
qed

lemma next_line_error: "next_line r = ((l, Some e), r') \<Longrightarrow> e = Csv_EOF \<or> (\<exists>m. e = Csv_Failed m)"
proof (induction r rule: next_line.induct)
  case (1 r)
  obtain l0 e0 r0 where r0: "read_line r = ((l0, e0), r0)" by (cases "read_line r") auto
  show ?case
  proof (cases "e0 = None \<and> length l0 = length_nl l0")
    case True
    with "1.prems" r0 have "next_line r0 = ((l, Some e), r')" by (simp add: next_line.simps [of r])
    from "1.IH" [OF r0 [symmetric] refl True this] show ?thesis .
  next
    case False
    with "1.prems" r0 have "e0 = Some e" by (auto simp: next_line.simps [of r])
    with r0 show ?thesis by (auto simp: read_line_def Let_def end_error_def split: if_splits option.splits)
  qed
qed

subsection \<open>Fields\<close>

definition csv_done :: "csv_error option \<Rightarrow> csv_record \<Rightarrow> csv_error + csv_record" where
  "csv_done e rec = (case e of None \<Rightarrow> Inr rec | Some x \<Rightarrow> Inl x)"

text \<open>
  The loop over the fields: \<open>e\<close> is what the last read of a line answered, \<open>at\<close> the line of the position, \<open>line\<close> what is
  left of the current line, \<open>acc\<close> the fields so far. Inside a quoted field \<open>q\<close> is its first line and its bytes so far.
\<close>

function csv_fields :: "csv_reader \<Rightarrow> csv_error option \<Rightarrow> nat \<Rightarrow> (nat \<times> string) option \<Rightarrow> bytes \<Rightarrow> csv_record \<Rightarrow> (csv_error + csv_record) \<times> csv_reader" where
  "csv_fields r e at q line acc =
     (case q of
        None \<Rightarrow>
          if line = [] \<or> hd line \<noteq> quote_char
          then
            (let more = comma_char \<in> set line;
                 field = (if more then takeWhile (\<lambda>c. c \<noteq> comma_char) line else take (length line - length_nl line) line) in
             if quote_char \<in> set field then (Inl (Csv_Parse (cr_line r) ErrBareQuote), r)
             else if more then csv_fields r e at None (tl (dropWhile (\<lambda>c. c \<noteq> comma_char) line)) (acc @ [(field, at)])
             else (csv_done e (acc @ [(field, at)]), r))
          else csv_fields r e at (Some (at, '''')) (tl line) acc
      | Some (from, buf) \<Rightarrow>
          if quote_char \<in> set line
          then
            (let buf = buf @ takeWhile (\<lambda>c. c \<noteq> quote_char) line; line' = tl (dropWhile (\<lambda>c. c \<noteq> quote_char) line) in
             if line' \<noteq> [] \<and> hd line' = quote_char then csv_fields r e at (Some (from, buf @ [quote_char])) (tl line') acc
             else if line' \<noteq> [] \<and> hd line' = comma_char then csv_fields r e at None (tl line') (acc @ [(buf, from)])
             else if length_nl line' = length line' then (csv_done e (acc @ [(buf, from)]), r)
             else (Inl (Csv_Parse (cr_line r) ErrQuote), r))
          else if line \<noteq> []
          then if e \<noteq> None then (csv_done e acc, r)
               else (case read_line r of
                       ((l, e'), r') \<Rightarrow>
                         csv_fields r' (if e' = Some Csv_EOF then None else e') (if l \<noteq> [] then at + 1 else at) (Some (from, buf @ line)) l acc)
          else if e = None then (Inl (Csv_Parse at ErrQuote), r)
          else (csv_done e (acc @ [(buf, from)]), r))"
  by pat_completeness auto

lemma drop_to_shorter: "x \<in> set xs \<Longrightarrow> length (tl (dropWhile (\<lambda>c. c \<noteq> x) xs)) < length xs"
proof -
  assume "x \<in> set xs"
  then have "0 < length xs" by auto
  moreover have "length (dropWhile (\<lambda>c. c \<noteq> x) xs) \<le> length xs" by (rule length_dropWhile_le)
  ultimately show ?thesis unfolding length_tl by linarith
qed

lemma drop_to_shorter2: "x \<in> set xs \<Longrightarrow> length (tl (tl (dropWhile (\<lambda>c. c \<noteq> x) xs))) < length xs"
  using drop_to_shorter [of x xs] by simp

termination csv_fields
proof (relation "measure (\<lambda>(r, e, at, q, line, acc). length line + length (cr_rest r))", goal_cases)
  case (6 r e at q line acc x fl buf p r' l e')
  then have "read_line r = ((l, e'), r')" by simp
  from read_line_shrinks [OF this] 6 show ?case by (cases line) simp_all
qed (auto simp: drop_to_shorter [simplified] drop_to_shorter2 [simplified])

declare csv_fields.simps [simp del]

lemma csv_fields_rest: "csv_fields r e at q line acc = (x, r') \<Longrightarrow> length (cr_rest r') \<le> length (cr_rest r)"
proof (induction r e at q line acc rule: csv_fields.induct)
  case (1 r e at q line acc)
  note p = "1.prems" [unfolded csv_fields.simps [of r e at q line acc]]
  show ?case
  proof (cases q)
    case None
    show ?thesis
    proof (cases "line = [] \<or> hd line \<noteq> quote_char")
      case True
      then show ?thesis using "1.IH"(1) [OF None True refl refl] p
        by (auto simp: None Let_def split: if_splits)
    next
      case False
      then show ?thesis using "1.IH"(2) [OF None False] p by (simp add: None)
    qed
  next
    case (Some fb)
    obtain fl buf where fb: "fb = (fl, buf)" by (cases fb)
    show ?thesis
    proof (cases "quote_char \<in> set line")
      case True
      then show ?thesis
        using "1.IH"(3) [OF Some fb [symmetric] True refl refl] "1.IH"(4) [OF Some fb [symmetric] True refl refl] p
        by (auto simp: Some fb Let_def split: if_splits)
    next
      case False
      obtain l e' r0 where r0: "read_line r = ((l, e'), r0)" by (cases "read_line r") auto
      show ?thesis
      proof (cases "line \<noteq> [] \<and> e = None")
        case True
        then have "\<not> e \<noteq> None" "line \<noteq> []" by simp_all
        from "1.IH"(5) [OF Some fb [symmetric] False this(2,1) r0 [symmetric] refl] True read_line_shrinks [OF r0] p False
        show ?thesis by (simp add: Some fb r0)
      next
        case e: False
        with p False show ?thesis by (auto simp: Some fb split: if_splits)
      qed
    qed
  qed
qed

subsection \<open>Records\<close>

definition csv_read :: "csv_reader \<Rightarrow> (csv_error + csv_record) \<times> csv_reader" where
  "csv_read r =
     (case next_line r of
        ((l, e), r') \<Rightarrow>
          if e = Some Csv_EOF then (Inl Csv_EOF, r') else csv_fields r' e (cr_line r') None l [])"

definition csv_ended :: "csv_error + csv_record \<Rightarrow> bool" where
  "csv_ended x \<longleftrightarrow> (case x of Inl Csv_EOF \<Rightarrow> True | Inl (Csv_Failed _) \<Rightarrow> True | _ \<Rightarrow> False)"

lemma csv_read_consumes: "csv_read r = (x, r') \<Longrightarrow> \<not> csv_ended x \<Longrightarrow> length (cr_rest r') < length (cr_rest r)"
proof -
  assume a: "csv_read r = (x, r')" and n: "\<not> csv_ended x"
  obtain l e r0 where r0: "next_line r = ((l, e), r0)" by (cases "next_line r") auto
  have e: "e \<noteq> Some Csv_EOF" using a n r0 by (auto simp: csv_read_def csv_ended_def)
  with a r0 have f: "csv_fields r0 e (cr_line r0) None l [] = (x, r')" by (simp add: csv_read_def)
  have "e = None \<or> l \<noteq> []"
  proof (rule ccontr)
    assume "\<not> (e = None \<or> l \<noteq> [])"
    then obtain y where y: "e = Some y" "l = []" by auto
    with f have "x = Inl y"
      by (simp add: csv_fields.simps [of r0 "Some y" "cr_line r0" None "[]" "[]"] csv_done_def length_nl_def)
    moreover have "y = Csv_EOF \<or> (\<exists>m. y = Csv_Failed m)" using next_line_error [of r l y r0] r0 y by simp
    ultimately show False using n by (auto simp: csv_ended_def)
  qed
  with next_line_consumes [OF r0] csv_fields_rest [OF f] show ?thesis by simp
qed

text \<open>Every record of a file for a client that goes on after a malformed one, and the error it ends with, if any.\<close>

function csv_records :: "csv_reader \<Rightarrow> (nat \<times> quote_error + csv_record) list \<times> string option" where
  "csv_records r =
     (case csv_read r of
        (Inl Csv_EOF, _) \<Rightarrow> ([], None)
      | (Inl (Csv_Failed m), _) \<Rightarrow> ([], Some m)
      | (Inl (Csv_Parse n q), r') \<Rightarrow> map_prod (\<lambda>xs. Inl (n, q) # xs) id (csv_records r')
      | (Inr rec, r') \<Rightarrow> map_prod (\<lambda>xs. Inr rec # xs) id (csv_records r'))"
  by pat_completeness auto
termination
  by (relation "measure (\<lambda>r. length (cr_rest r))") (auto simp: csv_ended_def dest!: csv_read_consumes [OF sym])

declare csv_records.simps [simp del]

subsection \<open>Plainly written files\<close>

text \<open>Fields without commas, quotes and line ends are read back as they were written, one record per line.\<close>

definition plain_field :: "string \<Rightarrow> bool" where
  "plain_field f \<longleftrightarrow> (\<forall>c \<in> set f. c \<notin> {comma_char, quote_char, newline, return_char})"

definition csv_row_text :: "string list \<Rightarrow> string" where
  "csv_row_text fs = join_with [comma_char] fs"

definition csv_file :: "string list list \<Rightarrow> bytes" where
  "csv_file rows = concat (map (\<lambda>fs. csv_row_text fs @ [newline]) rows)"

lemma row_text_chars: "\<forall>f \<in> set fs. plain_field f \<Longrightarrow> c \<in> set (csv_row_text fs) \<Longrightarrow> c = comma_char \<or> c \<notin> {quote_char, newline, return_char}"
  unfolding csv_row_text_def by (induction "[comma_char]" fs rule: join_with.induct) (auto simp: plain_field_def)

lemma csv_fields_plain:
  "fs \<noteq> [] \<Longrightarrow> \<forall>f \<in> set fs. plain_field f \<Longrightarrow>
   csv_fields r None at None (csv_row_text fs @ [newline]) acc = (Inr (acc @ map (\<lambda>f. (f, at)) fs), r)"
  unfolding csv_row_text_def
proof (induction "[comma_char]" fs arbitrary: acc rule: join_with.induct)
  case (2 f)
  then have "\<forall>c \<in> set f. c \<noteq> comma_char \<and> c \<noteq> quote_char \<and> c \<noteq> newline" by (auto simp: plain_field_def)
  then have "comma_char \<notin> set (f @ [newline])" "quote_char \<notin> set f" "hd (f @ [newline]) \<noteq> quote_char"
    by (auto simp: hd_append)
  then show ?case
    by (simp add: csv_fields.simps [of r None at None "f @ [newline]"] Let_def length_nl_def csv_done_def)
next
  case (3 f g fs)
  let ?tail = "join_with [comma_char] (g # fs) @ [newline]"
  have p: "\<forall>c \<in> set f. c \<noteq> comma_char \<and> c \<noteq> quote_char \<and> c \<noteq> newline" using 3 by (auto simp: plain_field_def)
  then have c: "comma_char \<notin> set f" "quote_char \<notin> set f" by auto
  have t: "takeWhile (\<lambda>c. c \<noteq> comma_char) (f @ comma_char # ?tail) = f"
    "dropWhile (\<lambda>c. c \<noteq> comma_char) (f @ comma_char # ?tail) = comma_char # ?tail"
    using p by (simp_all add: takeWhile_append2 dropWhile_append2)
  have h: "f @ comma_char # ?tail \<noteq> []" "hd (f @ comma_char # ?tail) \<noteq> quote_char" using p by (cases f; simp)+
  have "csv_fields r None at None (f @ comma_char # ?tail) acc = csv_fields r None at None ?tail (acc @ [(f, at)])"
    by (subst csv_fields.simps) (simp only: option.case h t Let_def, simp add: c)
  moreover have "csv_fields r None at None ?tail (acc @ [(f, at)]) = (Inr ((acc @ [(f, at)]) @ map (\<lambda>f. (f, at)) (g # fs)), r)"
    using 3 by simp
  ultimately show ?case by simp
qed simp

lemma csv_read_plain:
  assumes "csv_row_text fs \<noteq> []" and "\<forall>f \<in> set fs. plain_field f" and "cr_rest r = csv_row_text fs @ newline # rest"
  shows "csv_read r = (Inr (map (\<lambda>f. (f, cr_line r + 1)) fs), r\<lparr>cr_line := cr_line r + 1, cr_rest := rest\<rparr>)"
proof -
  let ?t = "csv_row_text fs" and ?r = "r\<lparr>cr_line := cr_line r + 1, cr_rest := rest\<rparr>"
  have chars: "\<forall>c \<in> set ?t. c \<noteq> newline \<and> c \<noteq> return_char" using row_text_chars [OF assms(2)] by force
  then have tw: "takeWhile (\<lambda>c. c \<noteq> newline) (cr_rest r) = ?t" "dropWhile (\<lambda>c. c \<noteq> newline) (cr_rest r) = newline # rest"
    by (simp_all add: assms(3) takeWhile_append2 dropWhile_append2)
  have "last ?t \<in> set ?t" using assms(1) by simp
  then have "last ?t \<noteq> return_char" using chars by blast
  then have nl: "normal_line (?t @ [newline]) = ?t @ [newline]"
    using assms(1) by (auto simp: normal_line_def nth_append last_conv_nth)
  have "read_line r = ((?t @ [newline], None), ?r)" unfolding read_line_def tw Let_def by (simp add: nl)
  then have n: "next_line r = ((?t @ [newline], None), ?r)"
    using assms(1) by (simp add: next_line.simps [of r] length_nl_def)
  have "fs \<noteq> []" using assms(1) by (auto simp: csv_row_text_def)
  from csv_fields_plain [OF this assms(2), of ?r "cr_line r + 1" "[]"] n show ?thesis by (simp add: csv_read_def)
qed

lemma csv_read_end: "cr_rest r = [] \<Longrightarrow> \<exists>r'. csv_read r = (Inl (end_error r), r')"
  by (auto simp: csv_read_def next_line.simps [of r] read_line_def Let_def csv_fields.simps [of _ "Some _" _ None] length_nl_def csv_done_def end_error_def
      split: option.splits)

lemma csv_records_plain:
  assumes "\<forall>fs \<in> set rows. csv_row_text fs \<noteq> [] \<and> (\<forall>f \<in> set fs. plain_field f)"
  shows "csv_records \<lparr>cr_rest = csv_file rows, cr_line = n, cr_fail = e\<rparr> =
     (map2 (\<lambda>k fs. Inr (map (\<lambda>f. (f, k)) fs)) [Suc n..<Suc n + length rows] rows, e)"
  using assms
proof (induction rows arbitrary: n)
  case Nil
  let ?r = "\<lparr>cr_rest = [], cr_line = n, cr_fail = e\<rparr>"
  obtain r' where "csv_read ?r = (Inl (end_error ?r), r')" using csv_read_end [of ?r] by auto
  then show ?case by (simp add: csv_file_def csv_records.simps [of ?r] end_error_def split: option.split)
next
  case (Cons fs rows)
  let ?r = "\<lparr>cr_rest = csv_file (fs # rows), cr_line = n, cr_fail = e\<rparr>"
  have "csv_read ?r = (Inr (map (\<lambda>f. (f, Suc n)) fs), \<lparr>cr_rest = csv_file rows, cr_line = Suc n, cr_fail = e\<rparr>)"
    using csv_read_plain [of fs ?r "csv_file rows"] Cons.prems by (simp add: csv_file_def)
  with Cons.IH [of "Suc n"] Cons.prems show ?case
    by (simp add: csv_records.simps [of ?r] upt_rec [of "Suc n"] del: upt_Suc)
qed

end
