(* ===== verification/Intake.thy ===== *)
theory Intake
  imports Csv Http Bulk Intent
begin

section \<open>Intake: a payout file\<close>

text \<open>
  Models \<open>internal/intake\<close>: terms, reasons, rejects, policies, runs and their text (\<open>intake.go\<close>), \<open>Read\<close> with the checks of
  one row (\<open>read.go\<close>) and \<open>Run.Trace\<close> (\<open>trace.go\<close>). The file comes through \<open>Csv\<close>. \<open>strconv.Quote\<close>, which only the
  printed details use, is an argument of the printer.

  The lemmas show which rows are accepted, that no two accepted payouts are of one intent, what is left in the run of a
  refused file, and that the traces of the batches a plan cuts are the file's lines, each once and in order.
\<close>

subsection \<open>Terms, rejects, runs\<close>

record intake_terms =
  nt_chain :: string
  nt_token :: string
  nt_payer :: string

datatype reason = ReasonFields | ReasonIntentID | ReasonMerchant | ReasonAmount | ReasonDuplicate

fun reason_name :: "reason \<Rightarrow> string" where
  "reason_name ReasonFields = ''fields''"
| "reason_name ReasonIntentID = ''intent_id''"
| "reason_name ReasonMerchant = ''merchant''"
| "reason_name ReasonAmount = ''amount''"
| "reason_name ReasonDuplicate = ''duplicate''"

datatype reject_detail =
    Malformed quote_error
  | Field_Count nat
  | Not_Intent_Id string
  | Already_On string nat
  | Not_Merchant string
  | Not_Minor_Units string

record reject =
  rj_line :: nat
  rj_reason :: reason
  rj_detail :: reject_detail

record intake_policy =
  ip_skip :: bool
  ip_max_rejects :: int

record intake_run =
  ir_chain :: string
  ir_rows :: nat
  ir_accepted :: "payout list"
  ir_lines :: "nat list"
  ir_rejected :: "reject list"

record line_trace =
  lt_batch :: int
  lt_lines :: "nat list"

datatype intake_error =
    ErrNoRows
  | ErrBadHeader csv_error
  | ErrHeaderDiffers "string list"
  | ErrRejected nat nat
  | ErrTooManyRejects nat int
  | ErrReader string

datatype trace_error =
    ErrPlanHolds nat nat
  | ErrNoSuchBatch int nat
  | ErrEndsPast int
  | ErrMerchantDiffers int nat string string
  | Trace_Panics

fun detail_text :: "(string \<Rightarrow> string) \<Rightarrow> reject_detail \<Rightarrow> string" where
  "detail_text quote (Malformed q) = quote_error_text q"
| "detail_text quote (Field_Count n) = ''the row has '' @ show_nat n @ '' fields, want 3''"
| "detail_text quote (Not_Intent_Id s) = quote s @ '' is not an intent id''"
| "detail_text quote (Already_On s n) = s @ '' already appears on line '' @ show_nat n"
| "detail_text quote (Not_Merchant s) = quote s @ '' is not a merchant''"
| "detail_text quote (Not_Minor_Units s) = quote s @ '' is not a whole number of minor units''"

definition intake_run_text :: "intake_run \<Rightarrow> string" where
  "intake_run_text r = ''intake  '' @ pad_right 8 (ir_chain r) @ '' '' @ show_nat (ir_rows r) @ '' rows  '' @
     show_nat (length (ir_accepted r)) @ '' accepted  '' @ show_nat (length (ir_rejected r)) @ '' rejected''"

definition reject_text :: "(string \<Rightarrow> string) \<Rightarrow> reject \<Rightarrow> string" where
  "reject_text quote j = ''reject  line '' @ pad_right 5 (show_nat (rj_line j)) @ '' '' @
     pad_right 10 (reason_name (rj_reason j)) @ '' '' @ detail_text quote (rj_detail j)"

fun range_runs :: "nat \<Rightarrow> nat \<Rightarrow> nat list \<Rightarrow> (nat \<times> nat) list" where
  "range_runs start prev [] = [(start, prev)]"
| "range_runs start prev (l # ls) = (if l = prev + 1 then range_runs start l ls else (start, prev) # range_runs l l ls)"

fun range_text :: "nat \<times> nat \<Rightarrow> string" where
  "range_text (start, prev) = (if start = prev then show_nat start else show_nat start @ ''-'' @ show_nat prev)"

fun ranges :: "nat list \<Rightarrow> string" where
  "ranges [] = ''none''"
| "ranges (l # ls) = join_with '', '' (map range_text (range_runs l l ls))"

definition line_trace_text :: "line_trace \<Rightarrow> string" where
  "line_trace_text t = ''trace   batch #'' @ pad_right 3 (show_int (lt_batch t)) @ '' '' @ show_nat (length (lt_lines t)) @
     '' items  csv lines '' @ ranges (lt_lines t)"

subsection \<open>The checks of a row\<close>

definition csv_header :: "string list" where
  "csv_header = [''intent_id'', ''merchant'', ''amount'']"

definition max_field :: nat where
  "max_field = 64"

text \<open>
  \<open>strings.ToLower\<close> as far as a comparison with a word of ASCII letters can tell: the ASCII letters, and the two runes
  beyond ASCII whose lower case is an ASCII letter, U+0130 and U+212A.
\<close>

fun fold_lower :: "string \<Rightarrow> string" where
  "fold_lower [] = []"
| "fold_lower (c # s) =
     (if c = CHR 0xC4 \<and> s \<noteq> [] \<and> hd s = CHR 0xB0 then CHR ''i'' # fold_lower (tl s)
      else if c = CHR 0xE2 \<and> take 2 s = [CHR 0x84, CHR 0xAA] then CHR ''k'' # fold_lower (drop 2 s)
      else lower_char c # fold_lower s)"

definition byte_order_mark :: string where
  "byte_order_mark = [CHR 0xEF, CHR 0xBB, CHR 0xBF]"

definition without_mark :: "string \<Rightarrow> string" where
  "without_mark s = (if take 3 s = byte_order_mark then drop 3 s else s)"

definition same_header :: "string list \<Rightarrow> bool" where
  "same_header got \<longleftrightarrow> map (\<lambda>s. trim_space (fold_lower s)) got = csv_header"

definition ident_ok :: "string \<Rightarrow> bool" where
  "ident_ok s \<longleftrightarrow> \<not> (s = '''' \<or> max_field < length s) \<and>
     list_all (\<lambda>c. c \<notin> set [CHR '' '', CHR 0x09, CHR 0x0D, CHR 0x0A, CHR '','', CHR 0x22]) s"

definition minor_units :: "string \<Rightarrow> int option" where
  "minor_units s =
     (if s = '''' \<or> 40 < length s then None
      else if \<not> list_all is_digit s then None
      else case parse_int s of
             None \<Rightarrow> None
           | Some n \<Rightarrow> if n \<le> 0 then None else Some n)"

definition check_row :: "string list \<Rightarrow> nat \<Rightarrow> (string \<Rightarrow> nat option) \<Rightarrow> reject option \<times> (string \<Rightarrow> nat option)" where
  "check_row rec line seen =
     (if length rec \<noteq> length csv_header
      then (Some \<lparr>rj_line = line, rj_reason = ReasonFields, rj_detail = Field_Count (length rec)\<rparr>, seen)
      else
        let k = trim_space (rec ! 0) in
        if \<not> ident_ok k
        then (Some \<lparr>rj_line = line, rj_reason = ReasonIntentID, rj_detail = Not_Intent_Id (rec ! 0)\<rparr>, seen)
        else case seen k of
               Some before \<Rightarrow> (Some \<lparr>rj_line = line, rj_reason = ReasonDuplicate, rj_detail = Already_On k before\<rparr>, seen)
             | None \<Rightarrow>
                 (let seen = seen(k \<mapsto> line) in
                  if \<not> ident_ok (trim_space (rec ! 1))
                  then (Some \<lparr>rj_line = line, rj_reason = ReasonMerchant, rj_detail = Not_Merchant (rec ! 1)\<rparr>, seen)
                  else if minor_units (trim_space (rec ! 2)) = None
                  then (Some \<lparr>rj_line = line, rj_reason = ReasonAmount, rj_detail = Not_Minor_Units (rec ! 2)\<rparr>, seen)
                  else (None, seen)))"

subsection \<open>Reading a file\<close>

definition row_terms :: "intake_terms \<Rightarrow> string list \<Rightarrow> terms" where
  "row_terms t rec = \<lparr>t_intent_id = trim_space (rec ! 0), t_chain = nt_chain t, t_token = nt_token t, t_payer = nt_payer t,
     t_merchant = trim_space (rec ! 1), t_amount = trim_space (rec ! 2)\<rparr>"

definition row_payout :: "platform \<Rightarrow> intake_terms \<Rightarrow> string list \<Rightarrow> payout" where
  "row_payout p t rec = \<lparr>po_ref = derive p (row_terms t rec), po_merchant = trim_space (rec ! 1),
     po_amount = minor_units (trim_space (rec ! 2)), po_new_token_account = False\<rparr>"

text \<open>The body of the loop, for a malformed record and for a record.\<close>

type_synonym intake_state = "(string \<Rightarrow> nat option) \<times> intake_run"

definition reject_row :: "reject \<Rightarrow> intake_run \<Rightarrow> intake_run" where
  "reject_row j run = run\<lparr>ir_rejected := ir_rejected run @ [j]\<rparr>"

definition read_row :: "platform \<Rightarrow> intake_terms \<Rightarrow> intake_state \<Rightarrow> nat \<times> quote_error + csv_record \<Rightarrow> intake_state" where
  "read_row p t st x =
     (case st of (seen, run) \<Rightarrow>
        (let run = run\<lparr>ir_rows := ir_rows run + 1\<rparr> in
         case x of
           Inl (n, q) \<Rightarrow> (seen, reject_row \<lparr>rj_line = n, rj_reason = ReasonFields, rj_detail = Malformed q\<rparr> run)
         | Inr rec \<Rightarrow>
             (let line = snd (rec ! 0); fields = map fst rec in
              case check_row fields line seen of
                (Some j, seen) \<Rightarrow> (seen, reject_row j run)
              | (None, seen) \<Rightarrow>
                  (seen, run\<lparr>ir_accepted := ir_accepted run @ [row_payout p t fields], ir_lines := ir_lines run @ [line]\<rparr>))))"

function read_rows :: "platform \<Rightarrow> intake_terms \<Rightarrow> csv_reader \<Rightarrow> intake_state \<Rightarrow> intake_run \<times> string option" where
  "read_rows p t r st =
     (case csv_read r of
        (Inl Csv_EOF, _) \<Rightarrow> (snd st, None)
      | (Inl (Csv_Failed m), _) \<Rightarrow> (snd st, Some m)
      | (Inl (Csv_Parse n q), r') \<Rightarrow> read_rows p t r' (read_row p t st (Inl (n, q)))
      | (Inr rec, r') \<Rightarrow> read_rows p t r' (read_row p t st (Inr rec)))"
  by pat_completeness auto
termination
  by (relation "measure (\<lambda>(p, t, r, st). length (cr_rest r))") (auto simp: csv_ended_def dest!: csv_read_consumes [OF sym])

declare read_rows.simps [simp del]

definition intake_read :: "platform \<Rightarrow> csv_reader \<Rightarrow> intake_terms \<Rightarrow> intake_policy \<Rightarrow> intake_run \<times> intake_error option" where
  "intake_read p r t pol =
     (let run = \<lparr>ir_chain = nt_chain t, ir_rows = 0, ir_accepted = [], ir_lines = [], ir_rejected = []\<rparr> in
      case csv_read r of
        (Inl Csv_EOF, _) \<Rightarrow> (run, Some ErrNoRows)
      | (Inl e, _) \<Rightarrow> (run, Some (ErrBadHeader e))
      | (Inr rec, r') \<Rightarrow>
          (let first = map fst rec;
               first = (if first \<noteq> [] then first[0 := without_mark (first ! 0)] else first) in
           if \<not> same_header first then (run, Some (ErrHeaderDiffers first))
           else case read_rows p t r' (\<lambda>_. None, run) of
                  (run, Some m) \<Rightarrow> (run, Some (ErrReader m))
                | (run, None) \<Rightarrow>
                    if ir_rows run = 0 then (run, Some ErrNoRows)
                    else
                      (let n = length (ir_rejected run) in
                       if 0 < n \<and> \<not> ip_skip pol
                       then (run\<lparr>ir_accepted := [], ir_lines := []\<rparr>, Some (ErrRejected n (ir_rows run)))
                       else if 0 < n \<and> ip_max_rejects pol > 0 \<and> int n > ip_max_rejects pol
                       then (run\<lparr>ir_accepted := [], ir_lines := []\<rparr>, Some (ErrTooManyRejects n (ip_max_rejects pol)))
                       else (run, None))))"

subsection \<open>Tracing a batch\<close>

fun trace_items :: "intake_run \<Rightarrow> int \<Rightarrow> nat \<Rightarrow> nat \<Rightarrow> payout list \<Rightarrow> trace_error + nat list" where
  "trace_items run index at i [] = Inr []"
| "trace_items run index at i (it # its) =
     (if length (ir_accepted run) \<le> at + i then Inl Trace_Panics
      else if po_merchant it \<noteq> po_merchant (ir_accepted run ! (at + i))
      then Inl (ErrMerchantDiffers index (i + 1) (po_merchant it) (po_merchant (ir_accepted run ! (at + i))))
      else map_sum id (\<lambda>ls. ir_lines run ! (at + i) # ls) (trace_items run index at (i + 1) its))"

definition run_trace :: "intake_run \<Rightarrow> bulk_plan \<Rightarrow> int \<Rightarrow> trace_error + line_trace" where
  "run_trace run plan index =
     (if bp_payouts plan \<noteq> length (ir_accepted run) then Inl (ErrPlanHolds (bp_payouts plan) (length (ir_accepted run)))
      else if index < 1 \<or> int (length (bp_batches plan)) < index then Inl (ErrNoSuchBatch index (length (bp_batches plan)))
      else
        (let k = nat index - 1; at = sum_list (map (\<lambda>b. length (bt_items b)) (take k (bp_batches plan)));
             items = bt_items (bp_batches plan ! k) in
         if length (ir_lines run) < at + length items then Inl (ErrEndsPast index)
         else map_sum id (\<lambda>ls. \<lparr>lt_batch = index, lt_lines = ls\<rparr>) (trace_items run index at 0 items)))"

subsection \<open>Which rows are accepted\<close>

type_synonym csv_row = "nat \<times> quote_error + csv_record"

fun row_line :: "csv_row \<Rightarrow> nat" where
  "row_line (Inl (n, _)) = n"
| "row_line (Inr rec) = snd (rec ! 0)"

fun row_fields :: "csv_row \<Rightarrow> string list" where
  "row_fields (Inl _) = []"
| "row_fields (Inr rec) = map fst rec"

text \<open>The intent id a row names, when it has three fields and the first is one.\<close>

definition row_ident :: "csv_row \<Rightarrow> string option" where
  "row_ident x = (if length (row_fields x) = 3 \<and> ident_ok (trim_space (row_fields x ! 0)) then Some (trim_space (row_fields x ! 0)) else None)"

text \<open>A row is sound if it names an intent no earlier row names, a merchant and an amount.\<close>

definition row_sound :: "csv_row list \<Rightarrow> nat \<Rightarrow> bool" where
  "row_sound rs k \<longleftrightarrow> row_ident (rs ! k) \<noteq> None \<and> (\<forall>j < k. row_ident (rs ! j) \<noteq> row_ident (rs ! k)) \<and>
     ident_ok (trim_space (row_fields (rs ! k) ! 1)) \<and> minor_units (trim_space (row_fields (rs ! k) ! 2)) \<noteq> None"

abbreviation sound_rows :: "csv_row list \<Rightarrow> nat list" where
  "sound_rows rs \<equiv> filter (row_sound rs) [0..<length rs]"

abbreviation unsound_rows :: "csv_row list \<Rightarrow> nat list" where
  "unsound_rows rs \<equiv> filter (\<lambda>k. \<not> row_sound rs k) [0..<length rs]"

lemma read_rows_fold:
  "csv_records r = (rs, e) \<Longrightarrow> read_rows p t r st = (snd (foldl (read_row p t) st rs), e)"
proof (induction r arbitrary: rs st rule: csv_records.induct)
  case (1 r)
  obtain x r' where x: "csv_read r = (x, r')" by (cases "csv_read r") auto
  show ?case
  proof (cases x)
    case (Inr rec)
    obtain rs' where rs': "csv_records r' = (rs', e)" "rs = Inr rec # rs'"
      using "1.prems" x Inr by (cases "csv_records r'") (auto simp: csv_records.simps [of r])
    with "1.IH"(2) [OF x [symmetric] Inr rs'(1)] x Inr show ?thesis by (simp add: read_rows.simps [of p t r])
  next
    case (Inl y)
    show ?thesis
    proof (cases y)
      case (Csv_Parse n q)
      obtain rs' where rs': "csv_records r' = (rs', e)" "rs = Inl (n, q) # rs'"
        using "1.prems" x Inl Csv_Parse by (cases "csv_records r'") (auto simp: csv_records.simps [of r])
      with "1.IH"(1) [OF x [symmetric] Inl Csv_Parse rs'(1)] x Inl Csv_Parse show ?thesis by (simp add: read_rows.simps [of p t r])
    qed (use "1.prems" x Inl in \<open>auto simp: csv_records.simps [of r] read_rows.simps [of p t r]\<close>)
  qed
qed

lemma row_sound_snoc: "k < length rs \<Longrightarrow> row_sound (rs @ [x]) k \<longleftrightarrow> row_sound rs k"
  by (simp add: row_sound_def nth_append)

lemma filter_sound_snoc:
  "sound_rows (rs @ [x]) = sound_rows rs @ (if row_sound (rs @ [x]) (length rs) then [length rs] else [])"
  "unsound_rows (rs @ [x]) = unsound_rows rs @ (if row_sound (rs @ [x]) (length rs) then [] else [length rs])"
proof -
  have "filter (row_sound (rs @ [x])) [0..<length rs] = sound_rows rs" by (rule filter_cong) (simp_all add: row_sound_snoc)
  then show "sound_rows (rs @ [x]) = sound_rows rs @ (if row_sound (rs @ [x]) (length rs) then [length rs] else [])" by simp
  have "filter (\<lambda>k. \<not> row_sound (rs @ [x]) k) [0..<length rs] = unsound_rows rs" by (rule filter_cong) (simp_all add: row_sound_snoc)
  then show "unsound_rows (rs @ [x]) = unsound_rows rs @ (if row_sound (rs @ [x]) (length rs) then [] else [length rs])" by simp
qed

lemma check_row_spec:
  assumes "check_row fs line seen = (v, seen')" and "row_fields x = fs"
  shows "(\<forall>j. v = Some j \<longrightarrow> rj_line j = line) \<and>
     (case row_ident x of
        None \<Rightarrow> v \<noteq> None \<and> seen' = seen
      | Some k \<Rightarrow> if seen k \<noteq> None then v \<noteq> None \<and> seen' = seen
                  else seen' = seen(k \<mapsto> line) \<and>
                       (v = None \<longleftrightarrow> ident_ok (trim_space (fs ! 1)) \<and> minor_units (trim_space (fs ! 2)) \<noteq> None))"
  using assms by (auto simp: check_row_def row_ident_def csv_header_def Let_def split: if_splits option.splits)

definition row_passes :: "(string \<Rightarrow> nat option) \<Rightarrow> csv_row \<Rightarrow> bool" where
  "row_passes seen x \<longleftrightarrow> (\<exists>k. row_ident x = Some k \<and> seen k = None) \<and>
     ident_ok (trim_space (row_fields x ! 1)) \<and> minor_units (trim_space (row_fields x ! 2)) \<noteq> None"

lemma read_row_spec:
  assumes "read_row p t (seen, run) x = (seen', run')"
  shows "ir_rows run' = ir_rows run + 1 \<and> ir_chain run' = ir_chain run \<and>
     (\<forall>k. seen' k \<noteq> None \<longleftrightarrow> seen k \<noteq> None \<or> row_ident x = Some k) \<and>
     (if row_passes seen x
      then ir_accepted run' = ir_accepted run @ [row_payout p t (row_fields x)] \<and> ir_lines run' = ir_lines run @ [row_line x] \<and>
           ir_rejected run' = ir_rejected run
      else ir_accepted run' = ir_accepted run \<and> ir_lines run' = ir_lines run \<and>
           (\<exists>j. rj_line j = row_line x \<and> ir_rejected run' = ir_rejected run @ [j]))"
proof (cases x)
  case (Inl nq)
  then have "row_ident x = None" by (simp add: row_ident_def)
  with assms Inl show ?thesis by (cases nq) (auto simp: read_row_def reject_row_def Let_def row_passes_def)
next
  case (Inr rec)
  obtain v seen1 where v: "check_row (map fst rec) (snd (rec ! 0)) seen = (v, seen1)" by (cases "check_row (map fst rec) (snd (rec ! 0)) seen")
  have f: "row_fields x = map fst rec" using Inr by simp
  note c = check_row_spec [OF v f]
  have r: "seen' = seen1" "v = None \<Longrightarrow> run' = run\<lparr>ir_rows := ir_rows run + 1, ir_accepted := ir_accepted run @ [row_payout p t (map fst rec)],
      ir_lines := ir_lines run @ [snd (rec ! 0)]\<rparr>" "\<And>j. v = Some j \<Longrightarrow> run' = reject_row j (run\<lparr>ir_rows := ir_rows run + 1\<rparr>)"
    using assms v by (auto simp: read_row_def Inr Let_def split: option.splits)
  have "row_passes seen x \<longleftrightarrow> v = None"
    using c f by (auto simp: row_passes_def split: option.splits if_splits)
  moreover have "\<forall>k. seen1 k \<noteq> None \<longleftrightarrow> seen k \<noteq> None \<or> row_ident x = Some k"
    using c by (auto split: option.splits if_splits)
  ultimately show ?thesis using r c f Inr by (cases v) (auto simp: reject_row_def)
qed

lemma read_rows_state:
  assumes "foldl (read_row p t) (\<lambda>_. None, run0) rs = (seen, run)"
    and "ir_rows run0 = 0" "ir_accepted run0 = []" "ir_lines run0 = []" "ir_rejected run0 = []"
  shows "ir_rows run = length rs \<and> (\<forall>k. seen k \<noteq> None \<longleftrightarrow> (\<exists>j < length rs. row_ident (rs ! j) = Some k)) \<and>
     ir_accepted run = map (\<lambda>k. row_payout p t (row_fields (rs ! k))) (sound_rows rs) \<and>
     ir_lines run = map (\<lambda>k. row_line (rs ! k)) (sound_rows rs) \<and>
     map rj_line (ir_rejected run) = map (\<lambda>k. row_line (rs ! k)) (unsound_rows rs) \<and> ir_chain run = ir_chain run0"
  using assms(1)
proof (induction rs arbitrary: seen run rule: rev_induct)
  case Nil
  with assms(2-) show ?case by auto
next
  case (snoc x rs)
  obtain seen1 run1 where s1: "foldl (read_row p t) (\<lambda>_. None, run0) rs = (seen1, run1)" by (cases "foldl (read_row p t) (\<lambda>_. None, run0) rs")
  note ih = snoc.IH [OF s1]
  have "read_row p t (seen1, run1) x = (seen, run)" using snoc.prems s1 by simp
  note st = read_row_spec [OF this]
  have old: "map (\<lambda>k. f ((rs @ [x]) ! k)) (filter P [0..<length rs]) = map (\<lambda>k. f (rs ! k)) (filter P [0..<length rs])" for f :: "csv_row \<Rightarrow> 'b" and P
    by (auto simp: nth_append)
  have pass: "row_passes seen1 x \<longleftrightarrow> row_sound (rs @ [x]) (length rs)"
  proof -
    have "seen1 k = None \<longleftrightarrow> (\<forall>j < length rs. row_ident (rs ! j) \<noteq> Some k)" for k using ih by metis
    then show ?thesis unfolding row_passes_def row_sound_def by (auto simp: nth_append)
  qed
  have seen: "seen k \<noteq> None \<longleftrightarrow> (\<exists>j < length (rs @ [x]). row_ident ((rs @ [x]) ! j) = Some k)" for k
  proof -
    have q: "(\<exists>j < length xs. row_ident (xs ! j) = Some k) \<longleftrightarrow> (\<exists>y \<in> set xs. row_ident y = Some k)" for xs
      by (metis in_set_conv_nth)
    have "seen k \<noteq> None \<longleftrightarrow> (\<exists>j < length rs. row_ident (rs ! j) = Some k) \<or> row_ident x = Some k" using st ih by metis
    then show ?thesis unfolding q by auto
  qed
  let ?S = "row_sound (rs @ [x]) (length rs)"
  have run: "ir_accepted run = ir_accepted run1 @ (if ?S then [row_payout p t (row_fields x)] else [])"
      "ir_lines run = ir_lines run1 @ (if ?S then [row_line x] else [])"
      "map rj_line (ir_rejected run) = map rj_line (ir_rejected run1) @ (if ?S then [] else [row_line x])"
    using st [THEN conjunct2, THEN conjunct2, THEN conjunct2] pass by (cases ?S, auto)+
  have ih3: "ir_accepted run1 = map (\<lambda>k. row_payout p t (row_fields (rs ! k))) (sound_rows rs)"
    "ir_lines run1 = map (\<lambda>k. row_line (rs ! k)) (sound_rows rs)"
    "map rj_line (ir_rejected run1) = map (\<lambda>k. row_line (rs ! k)) (unsound_rows rs)" using ih by blast+
  have "ir_accepted run = map (\<lambda>k. row_payout p t (row_fields ((rs @ [x]) ! k))) (sound_rows (rs @ [x]))"
    unfolding run(1) ih3(1) filter_sound_snoc(1) map_append old [of "\<lambda>x. row_payout p t (row_fields x)" "row_sound rs"] by simp
  moreover have "ir_lines run = map (\<lambda>k. row_line ((rs @ [x]) ! k)) (sound_rows (rs @ [x]))"
    unfolding run(2) ih3(2) filter_sound_snoc(1) map_append old [of row_line "row_sound rs"] by simp
  moreover have "map rj_line (ir_rejected run) = map (\<lambda>k. row_line ((rs @ [x]) ! k)) (unsound_rows (rs @ [x]))"
    unfolding run(3) ih3(3) filter_sound_snoc(2) map_append old [of row_line "\<lambda>k. \<not> row_sound rs k"] by simp
  moreover have "ir_rows run = length (rs @ [x])" "ir_chain run = ir_chain run0" using st ih by simp_all
  ultimately show ?case using seen by blast
qed

subsection \<open>What a file yields\<close>

definition header_ok :: "csv_record \<Rightarrow> bool" where
  "header_ok rec \<longleftrightarrow> (let first = map fst rec in
     same_header (if first \<noteq> [] then first[0 := without_mark (first ! 0)] else first))"

abbreviation new_run_of :: "intake_terms \<Rightarrow> intake_run" where
  "new_run_of t \<equiv> \<lparr>ir_chain = nt_chain t, ir_rows = 0, ir_accepted = [], ir_lines = [], ir_rejected = []\<rparr>"

text \<open>The run behind a file's rows, before the policy has spoken.\<close>

lemma rows_run:
  assumes "csv_records body = (rs, e)"
  shows "\<exists>run. read_rows p t body (\<lambda>_. None, new_run_of t) = (run, e) \<and> ir_rows run = length rs \<and>
     ir_accepted run = map (\<lambda>k. row_payout p t (row_fields (rs ! k))) (sound_rows rs) \<and>
     ir_lines run = map (\<lambda>k. row_line (rs ! k)) (sound_rows rs) \<and>
     map rj_line (ir_rejected run) = map (\<lambda>k. row_line (rs ! k)) (unsound_rows rs)"
proof -
  obtain seen run where f: "foldl (read_row p t) (\<lambda>_. None, new_run_of t) rs = (seen, run)"
    by (cases "foldl (read_row p t) (\<lambda>_. None, new_run_of t) rs")
  from read_rows_state [OF f] read_rows_fold [OF assms, of p t "(\<lambda>_. None, new_run_of t)"] f show ?thesis by auto
qed

lemma intake_read_header:
  assumes "csv_read r = (Inr hdr, body)" and "header_ok hdr"
  shows "intake_read p r t pol =
     (case read_rows p t body (\<lambda>_. None, new_run_of t) of
        (run, Some m) \<Rightarrow> (run, Some (ErrReader m))
      | (run, None) \<Rightarrow>
          if ir_rows run = 0 then (run, Some ErrNoRows)
          else if 0 < length (ir_rejected run) \<and> \<not> ip_skip pol
          then (run\<lparr>ir_accepted := [], ir_lines := []\<rparr>, Some (ErrRejected (length (ir_rejected run)) (ir_rows run)))
          else if 0 < length (ir_rejected run) \<and> ip_max_rejects pol > 0 \<and> int (length (ir_rejected run)) > ip_max_rejects pol
          then (run\<lparr>ir_accepted := [], ir_lines := []\<rparr>, Some (ErrTooManyRejects (length (ir_rejected run)) (ip_max_rejects pol)))
          else (run, None))"
  using assms by (auto simp: intake_read_def header_ok_def Let_def split: prod.splits option.splits)

lemma intake_read_no_header:
  assumes "\<not> (\<exists>hdr body. csv_read r = (Inr hdr, body) \<and> header_ok hdr)"
  shows "\<exists>e. intake_read p r t pol = (new_run_of t, Some e) \<and> (\<forall>m. e \<noteq> ErrReader m)"
proof -
  obtain x body where x: "csv_read r = (x, body)" by (cases "csv_read r")
  with assms show ?thesis
    by (cases x) (auto simp: intake_read_def header_ok_def Let_def split: csv_error.split)
qed

lemma intake_read_runs:
  assumes "intake_read p r t pol = (run, None)"
  obtains hdr body rs where "csv_read r = (Inr hdr, body)" "header_ok hdr" "csv_records body = (rs, None)" "rs \<noteq> []"
    "read_rows p t body (\<lambda>_. None, new_run_of t) = (run, None)" "ir_rejected run = [] \<or> ip_skip pol"
    "0 < ip_max_rejects pol \<longrightarrow> int (length (ir_rejected run)) \<le> ip_max_rejects pol"
proof -
  obtain hdr body where h: "csv_read r = (Inr hdr, body)" "header_ok hdr"
    using assms intake_read_no_header [of r p t pol] by fastforce
  obtain rs e where rs: "csv_records body = (rs, e)" by (cases "csv_records body")
  obtain run1 where r1: "read_rows p t body (\<lambda>_. None, new_run_of t) = (run1, e)" "ir_rows run1 = length rs"
    using rows_run [OF rs] by blast
  show thesis
    using that [OF h] assms rs r1 unfolding intake_read_header [OF h]
    by (cases e) (auto split: if_splits)
qed

text \<open>
  C22. When \<open>Read\<close> returns no error, the file had our header and at least one row, and every row is in exactly one of two
  places: accepted are, in the file's order, precisely the rows that name an intent no earlier row names, a merchant and a
  positive amount, each as the payout of its own fields under the file's terms and with its own line; rejected, with their
  lines, are all others. Nothing is rejected unless the policy skips, and never more than it tolerates.
\<close>

theorem accepted_are_the_sound_rows:
  assumes "intake_read p r t pol = (run, None)"
  shows "\<exists>hdr body rs. csv_read r = (Inr hdr, body) \<and> header_ok hdr \<and> csv_records body = (rs, None) \<and> rs \<noteq> [] \<and>
     ir_rows run = length rs \<and> length (ir_accepted run) + length (ir_rejected run) = length rs \<and>
     ir_accepted run = map (\<lambda>k. row_payout p t (row_fields (rs ! k))) (sound_rows rs) \<and>
     ir_lines run = map (\<lambda>k. row_line (rs ! k)) (sound_rows rs) \<and>
     map rj_line (ir_rejected run) = map (\<lambda>k. row_line (rs ! k)) (unsound_rows rs) \<and>
     (ir_rejected run = [] \<or> ip_skip pol) \<and> (0 < ip_max_rejects pol \<longrightarrow> int (length (ir_rejected run)) \<le> ip_max_rejects pol)"
  using assms
proof (rule intake_read_runs)
  fix hdr body rs
  assume h: "csv_read r = (Inr hdr, body)" "header_ok hdr" and rs: "csv_records body = (rs, None)" "rs \<noteq> []"
    and rr: "read_rows p t body (\<lambda>_. None, new_run_of t) = (run, None)"
    and pol: "ir_rejected run = [] \<or> ip_skip pol" "0 < ip_max_rejects pol \<longrightarrow> int (length (ir_rejected run)) \<le> ip_max_rejects pol"
  from rows_run [OF rs(1), of p t] rr have run: "ir_rows run = length rs"
     "ir_accepted run = map (\<lambda>k. row_payout p t (row_fields (rs ! k))) (sound_rows rs)"
     "ir_lines run = map (\<lambda>k. row_line (rs ! k)) (sound_rows rs)"
     "map rj_line (ir_rejected run) = map (\<lambda>k. row_line (rs ! k)) (unsound_rows rs)" by auto
  have "length (ir_rejected run) = length (unsound_rows rs)" using arg_cong [OF run(4), of length] by simp
  then have "length (ir_accepted run) + length (ir_rejected run) = length rs"
    using sum_length_filter_compl [of "row_sound rs" "[0..<length rs]"] run(2) by simp
  with h rs run pol show ?thesis by blast
qed

text \<open>
  C21. No intent is paid twice out of one file: two accepted payouts with the same ref are a SHA-256 collision, because
  they are derived from terms with different intent ids.
\<close>

theorem file_pays_no_intent_twice:
  assumes "intake_read p r t pol = (run, None)" and "i < j" and "j < length (ir_accepted run)"
    and "po_ref (ir_accepted run ! i) = po_ref (ir_accepted run ! j)"
  shows "\<exists>a b. ir_accepted run ! i = row_payout p t a \<and> ir_accepted run ! j = row_payout p t b \<and> trim_space (a ! 0) \<noteq> trim_space (b ! 0) \<and>
     ref_preimage (row_terms t a) \<noteq> ref_preimage (row_terms t b) \<and>
     sha256 p (ref_preimage (row_terms t a)) = sha256 p (ref_preimage (row_terms t b))"
  using assms(1)
proof (rule intake_read_runs)
  fix hdr body rs
  assume rs: "csv_records body = (rs, None)" and rr: "read_rows p t body (\<lambda>_. None, new_run_of t) = (run, None)"
  from rows_run [OF rs, of p t] rr
  have acc: "ir_accepted run = map (\<lambda>k. row_payout p t (row_fields (rs ! k))) (sound_rows rs)" by auto
  let ?k = "sound_rows rs ! i" and ?l = "sound_rows rs ! j"
  have n: "j < length (sound_rows rs)" using assms(3) acc by simp
  have "?l \<in> set (sound_rows rs)" "?k \<in> set (sound_rows rs)" using n assms(2) by (simp_all only: nth_mem order.strict_trans [OF assms(2) n])
  then have s: "row_sound rs ?k" "row_sound rs ?l" by auto
  have "sorted_wrt (<) (sound_rows rs)" by (rule sorted_wrt_filter) simp
  then have "?k < ?l" using assms(2) n by (rule sorted_wrt_nth_less)
  then have "row_ident (rs ! ?k) \<noteq> row_ident (rs ! ?l)" using s(2) unfolding row_sound_def by blast
  moreover have "row_ident (rs ! x) = Some (t_intent_id (row_terms t (row_fields (rs ! x))))" if "row_sound rs x" for x
    using that unfolding row_sound_def row_ident_def by (auto simp: row_terms_def split: if_splits)
  ultimately have ne: "t_intent_id (row_terms t (row_fields (rs ! ?k))) \<noteq> t_intent_id (row_terms t (row_fields (rs ! ?l)))"
    using s by metis
  let ?a = "row_fields (rs ! ?k)" and ?b = "row_fields (rs ! ?l)"
  have pay: "ir_accepted run ! i = row_payout p t ?a" "ir_accepted run ! j = row_payout p t ?b"
    using n assms(2) by (simp_all add: acc)
  have "sha256 p (ref_preimage (row_terms t ?a)) = sha256 p (ref_preimage (row_terms t ?b))"
    using assms(4) unfolding pay by (simp add: row_payout_def derive_def)
  moreover have "row_terms t ?a \<noteq> row_terms t ?b" using ne by metis
  moreover have "trim_space (?a ! 0) \<noteq> trim_space (?b ! 0)" using ne by (simp add: row_terms_def)
  ultimately show ?thesis using pay by (intro exI [of _ ?a] exI [of _ ?b]) simp
qed

text \<open>One reject, with its line, for every unsound row of the file.\<close>

definition full_report :: "csv_reader \<Rightarrow> intake_run \<Rightarrow> bool" where
  "full_report r run \<longleftrightarrow> (\<exists>hdr body rs. csv_read r = (Inr hdr, body) \<and> csv_records body = (rs, None) \<and> ir_rows run = length rs \<and>
     unsound_rows rs \<noteq> [] \<and> map rj_line (ir_rejected run) = map (\<lambda>k. row_line (rs ! k)) (unsound_rows rs))"

text \<open>
  A file that is sent back pays nothing: with every error but a failing reader the run has no payout and no line. Rows
  are the reason only under the policy that says so, and then the report is complete: one reject for every unsound row.
\<close>

theorem refused_file_pays_nothing:
  assumes "intake_read p r t pol = (run, Some e)" and "\<forall>m. e \<noteq> ErrReader m"
  shows "ir_accepted run = [] \<and> ir_lines run = [] \<and>
     (case e of
        ErrRejected n rows \<Rightarrow> n = length (ir_rejected run) \<and> rows = ir_rows run \<and> \<not> ip_skip pol \<and> full_report r run
      | ErrTooManyRejects n lim \<Rightarrow> n = length (ir_rejected run) \<and> lim = ip_max_rejects pol \<and> lim < int n \<and> ip_skip pol \<and> full_report r run
      | _ \<Rightarrow> ir_rejected run = [])"
proof (cases "\<exists>hdr body. csv_read r = (Inr hdr, body) \<and> header_ok hdr")
  case False
  have "e = ErrNoRows \<or> (\<exists>x. e = ErrBadHeader x) \<or> (\<exists>x. e = ErrHeaderDiffers x)"
    using assms(1) False by (auto simp: intake_read_def header_ok_def Let_def split: prod.splits sum.splits csv_error.splits if_splits)
  with intake_read_no_header [OF False, of p t pol] assms(1) show ?thesis by auto
next
  case True
  then obtain hdr body where h: "csv_read r = (Inr hdr, body)" "header_ok hdr" by blast
  obtain rs x where rs: "csv_records body = (rs, x)" by (cases "csv_records body")
  obtain run1 where r1: "read_rows p t body (\<lambda>_. None, new_run_of t) = (run1, x)" "ir_rows run1 = length rs"
    "ir_accepted run1 = map (\<lambda>k. row_payout p t (row_fields (rs ! k))) (sound_rows rs)"
    "ir_lines run1 = map (\<lambda>k. row_line (rs ! k)) (sound_rows rs)"
    "map rj_line (ir_rejected run1) = map (\<lambda>k. row_line (rs ! k)) (unsound_rows rs)"
    using rows_run [OF rs] by blast
  have x: "x = None" using assms r1(1) unfolding intake_read_header [OF h] by (auto split: option.splits)
  let ?n = "length (ir_rejected run1)" and ?run = "run1\<lparr>ir_accepted := [], ir_lines := []\<rparr>"
  have "(run, Some e) = (if ir_rows run1 = 0 then (run1, Some ErrNoRows)
      else if 0 < ?n \<and> \<not> ip_skip pol then (?run, Some (ErrRejected ?n (ir_rows run1)))
      else if 0 < ?n \<and> ip_max_rejects pol > 0 \<and> int ?n > ip_max_rejects pol then (?run, Some (ErrTooManyRejects ?n (ip_max_rejects pol)))
      else (run1, None))"
    using assms(1) r1(1) x by (simp add: intake_read_header [OF h])
  then consider (rows) "ir_rows run1 = 0" "run = run1" "e = ErrNoRows"
    | (all) "0 < ?n" "run = ?run" "e = ErrRejected ?n (ir_rows run1)" "\<not> ip_skip pol"
    | (many) "0 < ?n" "run = ?run" "e = ErrTooManyRejects ?n (ip_max_rejects pol)" "ip_skip pol" "ip_max_rejects pol < int ?n"
    by (simp split: if_splits)
  then show ?thesis
  proof cases
    case rows
    with r1(2) have rs0: "rs = []" by simp
    with r1(5) have "ir_rejected run1 = []" by simp
    with rows r1(3,4) rs0 show ?thesis by simp
  next
    case all
    have "?n = length (unsound_rows rs)" using arg_cong [OF r1(5), of length] by simp
    with all(1) have "unsound_rows rs \<noteq> []" by force
    then have "full_report r run" unfolding full_report_def using h(1) rs x r1(2,5) all(2) by simp
    with all show ?thesis by simp
  next
    case many
    have "?n = length (unsound_rows rs)" using arg_cong [OF r1(5), of length] by simp
    with many(1) have "unsound_rows rs \<noteq> []" by force
    then have "full_report r run" unfolding full_report_def using h(1) rs x r1(2,5) many(2) by simp
    with many show ?thesis by simp
  qed
qed

text \<open>
  A reader that fails after the header is the exception: the payouts of the sound rows before the failure stay in the
  run that is returned with the error, whatever the policy says.
\<close>

theorem failing_reader_leaves_payouts:
  assumes "csv_read r = (Inr hdr, body)" and "header_ok hdr" and "csv_records body = (rs, Some m)"
  shows "\<exists>run. intake_read p r t pol = (run, Some (ErrReader m)) \<and>
     ir_accepted run = map (\<lambda>k. row_payout p t (row_fields (rs ! k))) (sound_rows rs)"
  using rows_run [OF assms(3), of p t] unfolding intake_read_header [OF assms(1,2)] by auto

subsection \<open>Tracing\<close>

lemma intake_read_lengths:
  assumes "intake_read p r t pol = (run, None)"
  shows "length (ir_lines run) = length (ir_accepted run)"
  using assms
proof (rule intake_read_runs)
  fix body rs
  assume rs: "csv_records body = (rs, None)" and rr: "read_rows p t body (\<lambda>_. None, new_run_of t) = (run, None)"
  obtain run1 where "read_rows p t body (\<lambda>_. None, new_run_of t) = (run1, None)"
    "ir_accepted run1 = map (\<lambda>k. row_payout p t (row_fields (rs ! k))) (sound_rows rs)"
    "ir_lines run1 = map (\<lambda>k. row_line (rs ! k)) (sound_rows rs)" using rows_run [OF rs] by blast
  with rr show ?thesis by simp
qed

lemma trace_items_ok:
  assumes "length (ir_lines run) = length (ir_accepted run)" and "its = take (length its) (drop (at + i) (ir_accepted run))"
  shows "trace_items run index at i its = Inr (take (length its) (drop (at + i) (ir_lines run)))"
  using assms(2)
proof (induction its arbitrary: i)
  case (Cons it its)
  have "drop (at + i) (ir_accepted run) \<noteq> []" using Cons.prems by auto
  then have n: "at + i < length (ir_accepted run)" by simp
  then have d: "drop (at + i) xs = xs ! (at + i) # drop (at + (i + 1)) xs" if "length xs = length (ir_accepted run)" for xs :: "'b list"
    using that Cons_nth_drop_Suc [of "at + i" xs] by simp
  from Cons.prems d [of "ir_accepted run"] have "it = ir_accepted run ! (at + i)" "its = take (length its) (drop (at + (i + 1)) (ir_accepted run))"
    by simp_all
  with Cons.IH [of "i + 1"] d [OF assms(1)] n show ?case by simp
qed simp

lemma run_trace_ok:
  assumes "length (ir_lines run) = length (ir_accepted run)" and "bp_payouts plan = length (ir_accepted run)"
    and "concat (map bt_items (bp_batches plan)) = ir_accepted run" and "k < length (bp_batches plan)"
  defines "at \<equiv> sum_list (map (\<lambda>b. length (bt_items b)) (take k (bp_batches plan)))"
  shows "run_trace run plan (int k + 1) =
     Inr \<lparr>lt_batch = int k + 1, lt_lines = take (length (bt_items (bp_batches plan ! k))) (drop at (ir_lines run))\<rparr>"
proof -
  let ?its = "bt_items (bp_batches plan ! k)" and ?bs = "map bt_items (bp_batches plan)"
  have at: "at = length (concat (take k ?bs))"
    by (simp add: at_def length_concat comp_def flip: take_map)
  have "concat ?bs = concat (take k ?bs) @ ?its @ concat (drop (Suc k) ?bs)"
    using id_take_nth_drop [of k ?bs] assms(4) by (metis concat.simps(2) concat_append length_map nth_map)
  then have acc: "ir_accepted run = concat (take k ?bs) @ ?its @ concat (drop (Suc k) ?bs)" using assms(3) by simp
  then have its: "?its = take (length ?its) (drop (at + 0) (ir_accepted run))" by (simp add: at)
  have "at + length ?its \<le> length (ir_lines run)" using acc assms(1) at by simp
  moreover have "nat (int k + 1) - 1 = k" by simp
  ultimately show ?thesis
    using assms(2,4) trace_items_ok [OF assms(1) its, of "int k + 1"] by (simp add: run_trace_def at_def Let_def)
qed

lemma slices_concat:
  "length xs = sum_list (map f bs) \<Longrightarrow>
   concat (map (\<lambda>k. take (f (bs ! k)) (drop (sum_list (map f (take k bs))) xs)) [0..<length bs]) = xs"
proof (induction bs arbitrary: xs)
  case (Cons b bs)
  have "concat (map (\<lambda>k. take (f (bs ! k)) (drop (sum_list (map f (take k bs))) (drop (f b) xs))) [0..<length bs]) = drop (f b) xs"
    using Cons.prems by (intro Cons.IH) simp
  then have "concat (map (\<lambda>k. take (f ((b # bs) ! k)) (drop (sum_list (map f (take k (b # bs)))) xs)) (map Suc [0..<length bs])) = drop (f b) xs"
    by (simp add: comp_def add.commute)
  moreover have "[0..<length (b # bs)] = 0 # map Suc [0..<length bs]" by (simp add: upt_conv_Cons map_Suc_upt del: upt_Suc)
  ultimately show ?case by simp
qed simp

text \<open>
  C23. The batches a plan cuts out of a file trace back to it. For every batch of a plan packed from the accepted payouts,
  and for no other number, \<open>Trace\<close> answers, with one line per payout of the batch; put together in the order of the
  batches, the answers are the lines of the accepted rows, each once and in the file's order.
\<close>

theorem batches_trace_to_the_file:
  assumes "intake_read p r t pol = (run, None)" and "limits_sane l (length (ir_accepted run))" and "pack (ir_accepted run) l = Inr plan"
  defines "n \<equiv> length (bp_batches plan)"
  shows "(\<forall>index. (\<exists>tr. run_trace run plan index = Inr tr) \<longleftrightarrow> 1 \<le> index \<and> index \<le> int n) \<and>
     (\<forall>k < n. \<forall>tr. run_trace run plan (int k + 1) = Inr tr \<longrightarrow>
        lt_batch tr = int k + 1 \<and> length (lt_lines tr) = length (bt_items (bp_batches plan ! k))) \<and>
     concat (map (\<lambda>k. lt_lines (projr (run_trace run plan (int k + 1)))) [0..<n]) = ir_lines run"
proof -
  note len = intake_read_lengths [OF assms(1)]
  have pays: "bp_payouts plan = length (ir_accepted run)"
    using assms(3) by (auto simp: pack_def Let_def split: if_splits sum.splits prod.splits)
  have cat: "concat (map bt_items (bp_batches plan)) = ir_accepted run" using pack_parts [OF assms(2,3)] by blast
  note ok = run_trace_ok [OF len pays cat]
  have total: "length (ir_lines run) = sum_list (map (\<lambda>b. length (bt_items b)) (bp_batches plan))"
    unfolding len by (subst cat [symmetric]) (simp add: length_concat comp_def)
  have sz: "length (take (length (bt_items (bp_batches plan ! k))) (drop (sum_list (map (\<lambda>b. length (bt_items b)) (take k (bp_batches plan)))) (ir_lines run)))
      = length (bt_items (bp_batches plan ! k))" if "k < n" for k
  proof -
    have "sum_list (map (\<lambda>b. length (bt_items b)) (bp_batches plan)) =
        sum_list (map (\<lambda>b. length (bt_items b)) (take k (bp_batches plan))) + length (bt_items (bp_batches plan ! k)) +
        sum_list (map (\<lambda>b. length (bt_items b)) (drop (Suc k) (bp_batches plan)))"
      using id_take_nth_drop [of k "bp_batches plan"] that unfolding n_def
      by (metis (no_types, lifting) add.assoc list.map(2) map_append sum_list.Cons sum_list_append)
    with total show ?thesis by simp
  qed
  have some: "(\<exists>tr. run_trace run plan index = Inr tr) \<longleftrightarrow> 1 \<le> index \<and> index \<le> int n" for index
  proof
    assume "\<exists>tr. run_trace run plan index = Inr tr"
    then show "1 \<le> index \<and> index \<le> int n" by (auto simp: run_trace_def n_def split: if_splits)
  next
    assume i: "1 \<le> index \<and> index \<le> int n"
    then have "nat (index - 1) < n" "index = int (nat (index - 1)) + 1" by linarith+
    then show "\<exists>tr. run_trace run plan index = Inr tr" using ok [of "nat (index - 1)"] n_def by metis
  qed
  have m: "map (\<lambda>k. lt_lines (projr (run_trace run plan (int k + 1)))) [0..<n] = map (\<lambda>k. take (length (bt_items (bp_batches plan ! k)))
      (drop (sum_list (map (\<lambda>b. length (bt_items b)) (take k (bp_batches plan)))) (ir_lines run))) [0..<n]"
    by (rule map_cong) (simp_all add: ok n_def)
  have "concat (map (\<lambda>k. lt_lines (projr (run_trace run plan (int k + 1)))) [0..<n]) = ir_lines run"
    unfolding m unfolding n_def by (rule slices_concat [OF total])
  moreover have "lt_batch tr = int k + 1 \<and> length (lt_lines tr) = length (bt_items (bp_batches plan ! k))"
    if "k < n" "run_trace run plan (int k + 1) = Inr tr" for k tr
    using that ok [of k] sz [of k] n_def by auto
  ultimately show ?thesis using some by blast
qed

text \<open>The ranges of a printed trace spell out its lines, whatever lines they are.\<close>

lemma range_runs_lines: "start \<le> prev \<Longrightarrow>
  concat (map (\<lambda>(a, b). [a..<Suc b]) (range_runs start prev ls)) = [start..<Suc prev] @ ls"
  by (induction start prev ls rule: range_runs.induct) (auto simp: upt_Suc_append)

theorem ranges_spell_out_the_lines:
  "ranges (l # ls) = join_with '', '' (map range_text (range_runs l l ls)) \<and>
   concat (map (\<lambda>(a, b). [a..<Suc b]) (range_runs l l ls)) = l # ls"
  using range_runs_lines [of l l ls] by simp

subsection \<open>Amounts with leading zeros\<close>

text \<open>
  A row whose amount is written with leading zeros is accepted, but its payout does not carry the ref of the intent it
  names: the ref is derived from the text as written, the intent's from the number. Unless SHA-256 collides the transfer
  will match no intent, and the contract's check that a ref is used once does not see the two as one payment.
\<close>

theorem leading_zero_changes_the_ref:
  assumes "intake_read p r t pol = (run, None)" and "csv_read r = (Inr hdr, body)" and "csv_records body = (rs, None)"
    and "k < length rs" and "row_sound rs k" and "hd (trim_space (row_fields (rs ! k) ! 2)) = CHR ''0''"
    and "new_intent p sp now = Inr it" and "spec_id sp = trim_space (row_fields (rs ! k) ! 0)"
    and "spec_amount sp = minor_units (trim_space (row_fields (rs ! k) ! 2))"
  defines "mine \<equiv> ref_preimage (row_terms t (row_fields (rs ! k)))" and "theirs \<equiv> ref_preimage (intent_terms it)"
  shows "\<exists>pay \<in> set (ir_accepted run). po_amount pay = i_amount it \<and>
     (po_ref pay \<noteq> i_ref it \<or> mine \<noteq> theirs \<and> sha256 p mine = sha256 p theirs)"
proof -
  let ?fs = "row_fields (rs ! k)" and ?a = "trim_space (row_fields (rs ! k) ! 2)"
  obtain rs' where rs': "csv_records body = (rs', None)" "read_rows p t body (\<lambda>_. None, new_run_of t) = (run, None)"
    using intake_read_runs [OF assms(1)] assms(2) by (metis Pair_inject Inr_inject)
  with assms(3) rows_run [of body rs None p t] have "ir_accepted run = map (\<lambda>k. row_payout p t (row_fields (rs ! k))) (sound_rows rs)" by auto
  then have pay: "row_payout p t ?fs \<in> set (ir_accepted run)" using assms(4,5) by simp
  obtain n where n: "minor_units ?a = Some n" "0 < n" using assms(5) by (auto simp: row_sound_def minor_units_def split: if_splits option.splits)
  have it: "i_amount it = Some n" "i_ref it = derive p (intent_terms it)" "intent_terms it = (intent_terms it)\<lparr>t_amount := show_int n\<rparr>"
    using assms(7,9) n by (auto simp: new_intent_def intent_terms_def Let_def split: if_splits)
  have "hd (show_int n) \<noteq> CHR ''0''" using n(2) hd_show_nat_pos [of "nat n"] by (simp add: show_int_def)
  then have "?a \<noteq> show_int n" using assms(6) by metis
  then have "row_terms t ?fs \<noteq> intent_terms it" using it(3) by (metis row_terms_def terms.select_convs(6) terms.surjective terms.update_convs(6))
  then have "mine \<noteq> theirs" by (simp add: mine_def theirs_def)
  then have "po_ref (row_payout p t ?fs) \<noteq> i_ref it \<or> mine \<noteq> theirs \<and> sha256 p mine = sha256 p theirs"
    unfolding it(2) derive_def row_payout_def mine_def theirs_def by simp
  moreover have "po_amount (row_payout p t ?fs) = i_amount it" using n it(1) by (simp add: row_payout_def)
  ultimately show ?thesis using pay by blast
qed

subsection \<open>A file with three rows\<close>

definition demo_file :: "string option \<Rightarrow> csv_reader" where
  "demo_file fail = \<lparr>cr_rest = csv_file [csv_header, [''pi_0'', ''bob'', ''7''], [''pi_1'', ''bob'', ''0100''], [''pi_1'', ''eve'', ''5'']],
     cr_line = 0, cr_fail = fail\<rparr>"

definition demo_intake_terms :: intake_terms where
  "demo_intake_terms = \<lparr>nt_chain = ''evm:1'', nt_token = ''usd'', nt_payer = ''alice''\<rparr>"

definition demo_header :: csv_record where
  "demo_header = [(''intent_id'', 1), (''merchant'', 1), (''amount'', 1)]"

definition demo_rows :: "csv_row list" where
  "demo_rows = [Inr [(''pi_0'', 2), (''bob'', 2), (''7'', 2)], Inr [(''pi_1'', 3), (''bob'', 3), (''0100'', 3)], Inr [(''pi_1'', 4), (''eve'', 4), (''5'', 4)]]"

definition demo_body :: "string option \<Rightarrow> csv_reader" where
  "demo_body fail = \<lparr>cr_rest = csv_file [[''pi_0'', ''bob'', ''7''], [''pi_1'', ''bob'', ''0100''], [''pi_1'', ''eve'', ''5'']], cr_line = 1, cr_fail = fail\<rparr>"

lemma demo_reads:
  "csv_read (demo_file fail) = (Inr demo_header, demo_body fail)" "csv_records (demo_body fail) = (demo_rows, fail)"
proof -
  show "csv_records (demo_body fail) = (demo_rows, fail)"
    unfolding demo_body_def
    by (subst csv_records_plain) (simp_all add: plain_field_def csv_row_text_def demo_rows_def upt_rec [of 2] upt_rec [of 3] upt_rec [of 4] numeral_eq_Suc)
  show "csv_read (demo_file fail) = (Inr demo_header, demo_body fail)"
    by (subst csv_read_plain [of csv_header]) (simp_all add: demo_file_def csv_file_def csv_header_def csv_row_text_def plain_field_def demo_header_def demo_body_def)
qed

lemma demo_trims:
  "trim_space ''intent_id'' = ''intent_id''" "trim_space ''merchant'' = ''merchant''" "trim_space ''amount'' = ''amount''"
  "trim_space ''pi_0'' = ''pi_0''" "trim_space ''pi_1'' = ''pi_1''" "trim_space ''bob'' = ''bob''" "trim_space ''eve'' = ''eve''"
  "trim_space ''7'' = ''7''" "trim_space ''0100'' = ''0100''" "trim_space ''5'' = ''5''"
  by (rule trim_space_ascii; simp add: ascii_space_def)+

lemma demo_header_ok: "header_ok demo_header"
  by (simp add: header_ok_def demo_header_def same_header_def without_mark_def byte_order_mark_def lower_char_def Let_def demo_trims csv_header_def)

lemma demo_amounts: "minor_units ''7'' = Some 7" "minor_units ''0100'' = Some 100" "minor_units ''5'' = Some 5"
  by code_simp+

lemma demo_sound: "row_sound demo_rows 0" "row_sound demo_rows (Suc 0)" "\<not> row_sound demo_rows 2"
  by (auto simp: row_sound_def row_ident_def demo_rows_def demo_trims demo_amounts ident_ok_def max_field_def less_Suc_eq numeral_2_eq_2)

lemma demo_sound_rows: "sound_rows demo_rows = [0, 1]" "unsound_rows demo_rows = [2]"
  using demo_sound by (simp_all add: demo_rows_def upt_rec numeral_2_eq_2 numeral_3_eq_3)

abbreviation demo_skip :: intake_policy where
  "demo_skip \<equiv> \<lparr>ip_skip = True, ip_max_rejects = 5\<rparr>"

abbreviation demo_strict :: intake_policy where
  "demo_strict \<equiv> \<lparr>ip_skip = False, ip_max_rejects = 0\<rparr>"

lemma demo_rows_run:
  obtains run where "read_rows p t (demo_body fail) (\<lambda>_. None, new_run_of t) = (run, fail)" "ir_rows run = 3"
     "ir_accepted run = [row_payout p t [''pi_0'', ''bob'', ''7''], row_payout p t [''pi_1'', ''bob'', ''0100'']]" "ir_lines run = [2, 3]"
     "length (ir_rejected run) = 1"
proof -
  obtain run where r: "read_rows p t (demo_body fail) (\<lambda>_. None, new_run_of t) = (run, fail)" "ir_rows run = length demo_rows"
    "ir_accepted run = map (\<lambda>k. row_payout p t (row_fields (demo_rows ! k))) (sound_rows demo_rows)"
    "ir_lines run = map (\<lambda>k. row_line (demo_rows ! k)) (sound_rows demo_rows)"
    "map rj_line (ir_rejected run) = map (\<lambda>k. row_line (demo_rows ! k)) (unsound_rows demo_rows)"
    using rows_run [OF demo_reads(2)] by metis
  have "length (ir_rejected run) = length (unsound_rows demo_rows)" using arg_cong [OF r(5), of length] by simp
  with that r show thesis unfolding demo_sound_rows by (simp add: demo_rows_def)
qed

lemma demo_read:
  obtains run where "intake_read p (demo_file None) t demo_skip = (run, None)"
    "ir_accepted run = [row_payout p t [''pi_0'', ''bob'', ''7''], row_payout p t [''pi_1'', ''bob'', ''0100'']]" "ir_lines run = [2, 3]"
proof (rule demo_rows_run [of p t None])
  fix run
  assume r: "read_rows p t (demo_body None) (\<lambda>_. None, new_run_of t) = (run, None)" "ir_rows run = 3" "length (ir_rejected run) = 1"
    and a: "ir_accepted run = [row_payout p t [''pi_0'', ''bob'', ''7''], row_payout p t [''pi_1'', ''bob'', ''0100'']]" "ir_lines run = [2, 3]"
  have "intake_read p (demo_file None) t demo_skip = (run, None)"
    unfolding intake_read_header [OF demo_reads(1) demo_header_ok] r(1) using r(2,3) by simp
  then show thesis using a by (rule that)
qed

theorem accepted_are_the_sound_rows_witness:
  "\<exists>run. intake_read demo_platform (demo_file None) demo_intake_terms demo_skip = (run, None) \<and>
     length (ir_accepted run) + length (ir_rejected run) = 3 \<and> ir_lines run = [2, 3]"
proof -
  obtain run where r: "intake_read demo_platform (demo_file None) demo_intake_terms demo_skip = (run, None)" "ir_lines run = [2, 3]"
    by (rule demo_read)
  from accepted_are_the_sound_rows [OF r(1)] demo_reads r show ?thesis by (auto simp: demo_rows_def)
qed

theorem file_pays_no_intent_twice_witness:
  "\<exists>a b. trim_space (a ! 0) \<noteq> trim_space (b ! 0) \<and>
     sha256 demo_platform (ref_preimage (row_terms demo_intake_terms a)) = sha256 demo_platform (ref_preimage (row_terms demo_intake_terms b))"
proof -
  obtain run where r: "intake_read demo_platform (demo_file None) demo_intake_terms demo_skip = (run, None)"
    "ir_accepted run = [row_payout demo_platform demo_intake_terms [''pi_0'', ''bob'', ''7''],
       row_payout demo_platform demo_intake_terms [''pi_1'', ''bob'', ''0100'']]"
    by (rule demo_read)
  have "po_ref (ir_accepted run ! 0) = po_ref (ir_accepted run ! 1)"
    by (simp add: r(2) row_payout_def derive_def demo_platform_def)
  from file_pays_no_intent_twice [OF r(1) _ _ this] r(2) show ?thesis by auto
qed

theorem refused_file_pays_nothing_witness:
  "\<exists>run. intake_read demo_platform (demo_file None) demo_intake_terms demo_strict = (run, Some (ErrRejected 1 3)) \<and>
     ir_accepted run = [] \<and> full_report (demo_file None) run"
proof -
  obtain run where r: "read_rows demo_platform demo_intake_terms (demo_body None) (\<lambda>_. None, new_run_of demo_intake_terms) = (run, None)"
    "ir_rows run = 3" "length (ir_rejected run) = 1"
    by (rule demo_rows_run)
  have i: "intake_read demo_platform (demo_file None) demo_intake_terms demo_strict = (run\<lparr>ir_accepted := [], ir_lines := []\<rparr>, Some (ErrRejected 1 3))"
    unfolding intake_read_header [OF demo_reads(1) demo_header_ok] r(1) using r(2,3) by simp
  from refused_file_pays_nothing [OF this] i show ?thesis by simp
qed

theorem failing_reader_leaves_payouts_witness:
  "\<exists>run. intake_read demo_platform (demo_file (Some ''reset'')) demo_intake_terms demo_strict = (run, Some (ErrReader ''reset'')) \<and>
     length (ir_accepted run) = 2"
proof -
  obtain run where "intake_read demo_platform (demo_file (Some ''reset'')) demo_intake_terms demo_strict = (run, Some (ErrReader ''reset''))"
    "ir_accepted run = map (\<lambda>k. row_payout demo_platform demo_intake_terms (row_fields (demo_rows ! k))) (sound_rows demo_rows)"
    using failing_reader_leaves_payouts [OF demo_reads(1) demo_header_ok demo_reads(2)] by blast
  then show ?thesis unfolding demo_sound_rows by (intro exI [of _ run]) simp
qed

theorem batches_trace_to_the_file_witness:
  "\<exists>run plan. intake_read demo_platform (demo_file None) demo_intake_terms demo_skip = (run, None) \<and>
     pack (ir_accepted run) small_greedy = Inr plan \<and>
     concat (map (\<lambda>k. lt_lines (projr (run_trace run plan (int k + 1)))) [0..<length (bp_batches plan)]) = [2, 3]"
proof -
  obtain run where r: "intake_read demo_platform (demo_file None) demo_intake_terms demo_skip = (run, None)" "ir_lines run = [2, 3]"
    and acc: "ir_accepted run = [row_payout demo_platform demo_intake_terms [''pi_0'', ''bob'', ''7''],
       row_payout demo_platform demo_intake_terms [''pi_1'', ''bob'', ''0100'']]"
    by (rule demo_read)
  from acc obtain a b where ab: "ir_accepted run = [a, b]" by blast
  have "\<exists>plan. pack [a, b] small_greedy = Inr plan"
    by (simp add: pack_def pack_greedy_def pack_prepare_def small_greedy_def resource_def Let_def)
  then obtain plan where p: "pack (ir_accepted run) small_greedy = Inr plan" unfolding ab [symmetric] by blast
  from batches_trace_to_the_file [OF r(1) small_sane p] r p show ?thesis by auto
qed

theorem leading_zero_changes_the_ref_witness:
  "\<exists>run. intake_read demo_platform (demo_file None) demo_intake_terms demo_skip = (run, None) \<and>
     (\<exists>pay \<in> set (ir_accepted run). po_amount pay = i_amount demo_intent)"
proof -
  obtain run where r: "intake_read demo_platform (demo_file None) demo_intake_terms demo_skip = (run, None)" by (rule demo_read)
  have f: "row_fields (demo_rows ! Suc 0) = [''pi_1'', ''bob'', ''0100'']" by (simp add: demo_rows_def)
  have "\<exists>pay \<in> set (ir_accepted run). po_amount pay = i_amount demo_intent"
    using leading_zero_changes_the_ref [OF r demo_reads(1) demo_reads(2) _ demo_sound(2) _ demo_intent_new]
    unfolding f by (auto simp: demo_trims demo_amounts demo_spec_def demo_rows_def)
  with r show ?thesis by blast
qed

end
