(* ===== verification/Throttle.thy ===== *)
theory Throttle
  imports Prelude "HOL-Library.Log_Nat"
begin

section \<open>The throttle before the RPC\<close>

text \<open>
  Models \<open>internal/relayer/throttle.go\<close>: the semaphore of \<open>Acquire\<close> and \<open>Release\<close>, and \<open>waitToken\<close> with its token bucket.
  A \<open>float64\<close> is the rational number it stands for, and each operation of the code rounds its result to the nearest double,
  ties to even; the magnitudes here stay below 2^1024, so infinities and NaN do not occur. Converting a float to an
  \<open>int64\<close> cuts off the fraction, and gives the smallest \<open>int64\<close> where the number does not fit, as amd64 does.

  Callers are processes that take one step at a time: the channel operations and the two sections under the mutex are the
  steps, the clock moves between them, and a context may end whenever a caller waits. The lemmas bound how many callers
  are past \<open>Acquire\<close> at once and how many are let through in a span of time, and show what becomes of the second bound when
  waits are given up.
\<close>

subsection \<open>Doubles\<close>

text \<open>The distance of the doubles around a number: 53 significant bits, and no finer than 2^-1074.\<close>

definition f64_scale :: nat where
  "f64_scale = 1074"

definition f64_ulp :: "rat \<Rightarrow> rat" where
  "f64_ulp x = 2 ^ (floorlog 2 (nat \<lfloor>\<bar>x\<bar> * 2 ^ f64_scale\<rfloor>) - 53) / 2 ^ f64_scale"

definition nearest_even :: "rat \<Rightarrow> int" where
  "nearest_even x = (let n = \<lfloor>x\<rfloor>; d = x - of_int n in if d < 1 / 2 \<or> d = 1 / 2 \<and> even n then n else n + 1)"

definition f64 :: "rat \<Rightarrow> rat" where
  "f64 x = of_int (nearest_even (x / f64_ulp x)) * f64_ulp x"

definition int64_of_float :: "rat \<Rightarrow> int" where
  "int64_of_float x = (let n = (if 0 \<le> x then \<lfloor>x\<rfloor> else \<lceil>x\<rceil>) in if - (2 ^ 63) \<le> n \<and> n < 2 ^ 63 then n else - (2 ^ 63))"

text \<open>\<open>Duration.Seconds\<close>.\<close>

definition go_seconds :: "duration \<Rightarrow> rat" where
  "go_seconds d = (let sec = sgn d * (\<bar>d\<bar> div second); nsec = d - sec * second in
     f64 (f64 (of_int sec) + f64 (f64 (of_int nsec) / 1000000000)))"

lemma f64_ulp_pos: "0 < f64_ulp x"
  by (simp add: f64_ulp_def)

lemma nearest_even_close: "\<bar>of_int (nearest_even x) - x\<bar> \<le> 1 / 2"
  by (simp add: nearest_even_def Let_def abs_if) linarith

lemma nearest_even_int [simp]: "nearest_even (of_int n) = n"
  by (simp add: nearest_even_def)

lemma nearest_even_nonneg: "0 \<le> x \<Longrightarrow> 0 \<le> nearest_even x"
  by (simp add: nearest_even_def Let_def)

lemma f64_close: "\<bar>f64 x - x\<bar> \<le> f64_ulp x / 2"
proof -
  let ?u = "f64_ulp x"
  have "f64 x - x = (of_int (nearest_even (x / ?u)) - x / ?u) * ?u"
    using f64_ulp_pos [of x] by (simp add: f64_def left_diff_distrib)
  then have "\<bar>f64 x - x\<bar> = \<bar>of_int (nearest_even (x / ?u)) - x / ?u\<bar> * ?u"
    using f64_ulp_pos [of x] by (simp add: abs_mult)
  also have "\<dots> \<le> 1 / 2 * ?u"
    using mult_right_mono [OF nearest_even_close [of "x / ?u"] less_imp_le [OF f64_ulp_pos [of x]]] .
  finally show ?thesis by simp
qed

lemma f64_ulp_small: "f64_ulp x \<le> \<bar>x\<bar> / 2 ^ 52 + 1 / 2 ^ f64_scale"
proof -
  let ?n = "nat \<lfloor>\<bar>x\<bar> * 2 ^ f64_scale\<rfloor>"
  show ?thesis
  proof (cases "floorlog 2 ?n \<le> 53")
    case True
    then show ?thesis by (simp add: f64_ulp_def)
  next
    case False
    then have "0 < ?n" by (metis floorlog_eq_zero_iff gr0I le0 nat_le_linear)
    then have "2 ^ (floorlog 2 ?n - 1) \<le> ?n" using floorlog_bounds [of ?n 2] by simp
    then have "(2 :: rat) ^ (floorlog 2 ?n - 1) \<le> of_nat ?n" by (metis of_nat_le_iff of_nat_numeral of_nat_power)
    also have "\<dots> \<le> \<bar>x\<bar> * 2 ^ f64_scale" by simp
    also have "floorlog 2 ?n - 1 = (floorlog 2 ?n - 53) + 52" using False by simp
    finally have "(2 :: rat) ^ (floorlog 2 ?n - 53) * 2 ^ 52 \<le> \<bar>x\<bar> * 2 ^ f64_scale" by (simp only: power_add)
    then have "(2 :: rat) ^ (floorlog 2 ?n - 53) / 2 ^ f64_scale \<le> \<bar>x\<bar> / 2 ^ 52"
      by (simp add: field_simps)
    moreover have "(0 :: rat) < 1 / 2 ^ f64_scale" by simp
    ultimately show ?thesis unfolding f64_ulp_def by linarith
  qed
qed

lemma f64_error: "\<bar>f64 x - x\<bar> \<le> \<bar>x\<bar> / 2 ^ 53 + 1 / 2 ^ 100"
proof -
  have "(1 :: rat) / 2 ^ f64_scale \<le> 1 / 2 ^ 100" by (simp add: f64_scale_def divide_le_eq)
  moreover have "\<bar>x\<bar> / 2 ^ 53 = \<bar>x\<bar> / 2 ^ 52 / 2" by simp
  moreover have "d \<le> a / 2 + r" if "d \<le> u / 2" "u \<le> a + q" "q \<le> r" "0 < q" for d u a q r :: rat
    using that by linarith
  ultimately show ?thesis using f64_close [of x] f64_ulp_small [of x] by (metis zero_less_divide_1_iff zero_less_numeral zero_less_power)
qed

lemma f64_nonneg: "0 \<le> x \<Longrightarrow> 0 \<le> f64 x"
  using nearest_even_nonneg [of "x / f64_ulp x"] f64_ulp_pos [of x] by (simp add: f64_def)

text \<open>Integers of up to 53 bits are doubles.\<close>

lemma f64_int:
  assumes "\<bar>n\<bar> < 2 ^ 53"
  shows "f64 (of_int n) = of_int n"
proof -
  define m where "m = nat \<bar>n\<bar>"
  have m: "m < 2 ^ 53" "(of_int \<bar>n\<bar> :: rat) = of_nat m" using assms by (simp_all add: m_def)
  have "\<bar>of_int n :: rat\<bar> * 2 ^ f64_scale = of_nat (m * 2 ^ f64_scale)" using m(2) by simp
  then have fl: "nat \<lfloor>\<bar>of_int n :: rat\<bar> * 2 ^ f64_scale\<rfloor> = m * 2 ^ f64_scale" by (metis floor_of_nat nat_int)
  define e where "e = floorlog 2 (m * 2 ^ f64_scale) - 53"
  have "floorlog 2 m \<le> 53" using m(1) by (simp add: floorlog_leI)
  then have "e \<le> f64_scale"
    unfolding e_def by (cases "m = 0") (simp_all add: floorlog_eq_zero_iff [THEN iffD2] floorlog_power)
  then have u: "f64_ulp (of_int n) = 1 / 2 ^ (f64_scale - e)"
    unfolding f64_ulp_def fl e_def [symmetric] by (simp add: power_diff)
  have "of_int n / f64_ulp (of_int n) = (of_int (n * 2 ^ (f64_scale - e)) :: rat)" unfolding u by simp
  then have "f64 (of_int n) = of_int (n * 2 ^ (f64_scale - e)) * f64_ulp (of_int n)" unfolding f64_def by (metis nearest_even_int)
  then show ?thesis unfolding u by simp
qed

lemma f64_numeral:
  "numeral k < (2 ^ 53 :: int) \<Longrightarrow> f64 (numeral k) = numeral k" "numeral k < (2 ^ 53 :: int) \<Longrightarrow> f64 (- numeral k) = - numeral k"
  "f64 0 = 0" "f64 1 = 1" "f64 (- 1) = - 1"
  using f64_int [of "numeral k"] f64_int [of "- numeral k"] f64_int [of 0] f64_int [of 1] f64_int [of "- 1"] by simp_all

lemma go_seconds_0: "go_seconds 0 = 0"
  by (simp add: go_seconds_def f64_numeral)

subsection \<open>The throttle\<close>

record throttle =
  th_slots :: "nat option"
  th_in_use :: nat
  th_rate :: rat
  th_burst :: rat
  th_tokens :: rat
  th_last :: time

definition new_throttle :: "int \<Rightarrow> rat \<Rightarrow> int \<Rightarrow> time \<Rightarrow> throttle" where
  "new_throttle max_in_flight per_second burst now =
     (let full = f64 (of_int (max burst 1)) in
      \<lparr>th_slots = (if max_in_flight > 0 then Some (nat max_in_flight) else None), th_in_use = 0, th_rate = per_second,
       th_burst = full, th_tokens = full, th_last = now\<rparr>)"

text \<open>Sending to the semaphore, \<open>None\<close> where it blocks, and receiving from it.\<close>

definition take_slot :: "throttle \<Rightarrow> throttle option" where
  "take_slot t = (case th_slots t of
     None \<Rightarrow> Some t
   | Some n \<Rightarrow> if th_in_use t < n then Some (t\<lparr>th_in_use := th_in_use t + 1\<rparr>) else None)"

definition free_slot :: "throttle \<Rightarrow> throttle option" where
  "free_slot t = (case th_slots t of
     None \<Rightarrow> Some t
   | Some n \<Rightarrow> if 0 < th_in_use t then Some (t\<lparr>th_in_use := th_in_use t - 1\<rparr>) else None)"

text \<open>The two sections of \<open>waitToken\<close> under the mutex.\<close>

definition take_token :: "throttle \<Rightarrow> time \<Rightarrow> duration \<times> throttle" where
  "take_token t now =
     (if th_rate t \<le> 0 then (0, t)
      else
        let tokens = min (th_burst t) (f64 (th_tokens t + f64 (go_seconds (time_sub now (th_last t)) * th_rate t)));
            tokens = f64 (tokens - 1);
            wait = (if tokens < 0 then int64_of_float (f64 (f64 (- tokens / th_rate t) * 1000000000)) else 0)
        in (wait, t\<lparr>th_tokens := tokens, th_last := now\<rparr>))"

definition give_back :: "throttle \<Rightarrow> throttle" where
  "give_back t = t\<lparr>th_tokens := f64 (th_tokens t + 1)\<rparr>"

subsection \<open>How many are let through in a span of time\<close>

text \<open>When each of a row of callers is let through, if they take their tokens at these readings of the clock.\<close>

fun grants :: "throttle \<Rightarrow> time list \<Rightarrow> time list" where
  "grants t [] = []"
| "grants t (now # ts) = (case take_token t now of (wait, t') \<Rightarrow> time_add now wait # grants t' ts)"

lemma length_grants [simp]: "length (grants t ts) = length ts"
  by (induction t ts rule: grants.induct) (simp_all split: prod.split)

lemma f64_error_small: "\<bar>x\<bar> \<le> 2 ^ 23 \<Longrightarrow> \<bar>f64 x - x\<bar> \<le> 1 / 2 ^ 29"
  using f64_error [of x] by simp

lemma go_seconds_close:
  assumes "0 \<le> d" and "d < 2 ^ 63"
  shows "\<bar>go_seconds d - of_int d / 1000000000\<bar> \<le> of_int d / 1000000000 / 2 ^ 52 + 1 / 2 ^ 50" "0 \<le> go_seconds d"
proof -
  let ?s = "d div second" and ?n = "d mod second"
  let ?q = "f64 (of_int ?n / 1000000000)"
  have sec: "second = 1000000000" by (simp add: second_def)
  have n: "0 \<le> ?n" "?n < 1000000000" and s: "0 \<le> ?s" using assms(1) by (simp_all add: sec pos_imp_zdiv_nonneg_iff)
  have "?s * 1000000000 + ?n = d" using div_mult_mod_eq [of d second] by (simp add: sec)
  with n assms(2) have s2: "?s < 2 ^ 53" by simp
  have g: "go_seconds d = f64 (of_int ?s + ?q)"
  proof -
    have "sgn d * (\<bar>d\<bar> div second) = ?s" using assms(1) by (cases "d = 0") simp_all
    moreover have "d - ?s * second = ?n" by (simp add: minus_div_mult_eq_mod)
    moreover have "f64 (of_int ?s) = of_int ?s" "f64 (of_int ?n) = of_int ?n" using n s s2 by (intro f64_int; simp)+
    ultimately show ?thesis by (simp only: go_seconds_def Let_def)
  qed
  have d: "of_int d / 1000000000 = of_int ?s + (of_int ?n :: rat) / 1000000000"
  proof -
    have "(of_int d :: rat) = of_int (?s * 1000000000 + ?n)" by (simp add: sec)
    then show ?thesis by (simp only: of_int_add of_int_mult of_int_numeral) (simp add: add_divide_distrib)
  qed
  have "(of_int ?n :: rat) / 1000000000 \<le> 1" "0 \<le> (of_int ?n :: rat) / 1000000000" using n by simp_all
  then have q: "\<bar>?q - of_int ?n / 1000000000\<bar> \<le> 1 / 2 ^ 52" "0 \<le> ?q"
    using f64_error [of "of_int ?n / 1000000000"] f64_nonneg [of "of_int ?n / 1000000000"] by simp_all
  have "0 \<le> (of_int ?s :: rat)" using s by simp
  then show "0 \<le> go_seconds d" unfolding g using q(2) by (intro f64_nonneg) simp
  have key: "\<bar>x - (a + m)\<bar> \<le> (a + m) / 2 ^ 52 + 1 / 2 ^ 50"
    if "\<bar>x - (a + y)\<bar> \<le> \<bar>a + y\<bar> / 2 ^ 53 + 1 / 2 ^ 100" "\<bar>y - m\<bar> \<le> 1 / 2 ^ 52" "0 \<le> y" "0 \<le> a" "0 \<le> m" for x a m y :: rat
    using that by (auto simp: abs_if field_simps split: if_splits)
  show "\<bar>go_seconds d - of_int d / 1000000000\<bar> \<le> of_int d / 1000000000 / 2 ^ 52 + 1 / 2 ^ 50"
    unfolding g d by (rule key [OF f64_error q]) (use n s in simp_all)
qed

definition usable :: "throttle \<Rightarrow> bool" where
  "usable t \<longleftrightarrow> 1 / 1024 \<le> th_rate t \<and> th_rate t \<le> 2 ^ 20 \<and> 1 \<le> th_burst t \<and> th_burst t \<le> 2 ^ 20 \<and>
     - (2 ^ 21) \<le> th_tokens t \<and> th_tokens t \<le> th_burst t"

text \<open>What rounding can add or take away, in tokens.\<close>

definition slack :: rat where
  "slack = 1 / 2 ^ 24"

lemma refill_bounds:
  fixes r b tok dt ds p y :: rat
  assumes r: "0 < r" "r \<le> 2 ^ 20" and b: "b \<le> 2 ^ 20" and tok: "- (2 ^ 21) \<le> tok" "tok \<le> b"
    and ds: "\<bar>ds - dt\<bar> \<le> dt / 2 ^ 52 + 1 / 2 ^ 50" "0 \<le> ds" "0 \<le> dt"
    and p: "p = f64 (ds * r)" and y: "y = f64 (tok + p)"
  shows "min b y \<le> tok + r * dt + slack / 2" "min b y \<ge> tok - slack / 2"
proof -
  have p0: "0 \<le> p" unfolding p using r ds by (intro f64_nonneg) simp
  show "min b y \<ge> tok - slack / 2"
  proof (cases "tok + p \<le> 2 ^ 22")
    case True
    with tok p0 have "\<bar>tok + p\<bar> \<le> 2 ^ 23" by (simp add: abs_le_iff)
    from f64_error_small [OF this] tok p0 show ?thesis unfolding y [symmetric] slack_def by (auto simp: abs_if split: if_splits)
  next
    case False
    have "2 ^ 21 \<le> y" using f64_error [of "tok + p"] False unfolding y [symmetric] by (auto simp: abs_if field_simps split: if_splits)
    then show ?thesis using b tok unfolding slack_def by simp
  qed
  show "min b y \<le> tok + r * dt + slack / 2"
  proof (cases "b - tok < r * dt")
    case True
    then show ?thesis unfolding slack_def by simp
  next
    case False
    have "ds * r \<le> (dt + dt / 2 ^ 52 + 1 / 2 ^ 50) * r" using ds(1) r(1) by (intro mult_right_mono) (auto simp: abs_if split: if_splits)
    also have "\<dots> = r * dt + r * dt / 2 ^ 52 + r / 2 ^ 50" by (simp add: field_simps)
    finally have "ds * r \<le> r * dt + 1 / 2 ^ 27" using False b tok r(2) by (simp add: field_simps)
    moreover have "0 \<le> ds * r" using ds r by simp
    moreover have "r * dt \<le> 2 ^ 22" using False b tok(1) by simp
    ultimately have "p \<le> r * dt + 1 / 2 ^ 26" and "p \<le> 2 ^ 22 + 1"
      using f64_error_small [of "ds * r"] unfolding p [symmetric] by (auto simp: abs_if split: if_splits)
    moreover from this have "\<bar>tok + p\<bar> \<le> 2 ^ 23" using p0 tok b by (simp add: abs_le_iff)
    ultimately show ?thesis using f64_error_small [of "tok + p"] unfolding y [symmetric] slack_def by (auto simp: abs_if split: if_splits)
  qed
qed

lemma take_token_step:
  assumes "usable t" and "th_last t \<le> now" and "now - th_last t < 2 ^ 63" and "take_token t now = (wait, t')"
  defines "dt \<equiv> of_int (now - th_last t) / 1000000000"
  shows "t' = t\<lparr>th_tokens := th_tokens t', th_last := now\<rparr>" "th_tokens t' \<le> th_burst t - 1 + slack"
    "th_tokens t' \<le> th_tokens t + th_rate t * dt - 1 + slack" "th_tokens t - 1 - slack \<le> th_tokens t'"
    "wait = (if th_tokens t' < 0 then int64_of_float (f64 (f64 (- th_tokens t' / th_rate t) * 1000000000)) else 0)"
proof -
  have d: "time_sub now (th_last t) = now - th_last t" using assms(2,3) by (simp add: time_sub_def)
  define p where "p = f64 (go_seconds (now - th_last t) * th_rate t)"
  define y where "y = f64 (th_tokens t + p)"
  define m where "m = min (th_burst t) y"
  have r: "0 < th_rate t" using assms(1) unfolding usable_def by (simp add: order_less_le_trans [of 0 "1 / 1024"])
  have t': "t' = t\<lparr>th_tokens := f64 (m - 1), th_last := now\<rparr>"
    "wait = (if f64 (m - 1) < 0 then int64_of_float (f64 (f64 (- f64 (m - 1) / th_rate t) * 1000000000)) else 0)"
    using assms(4) r unfolding take_token_def d Let_def p_def [symmetric] y_def [symmetric] m_def [symmetric] by auto
  then show "t' = t\<lparr>th_tokens := th_tokens t', th_last := now\<rparr>"
    "wait = (if th_tokens t' < 0 then int64_of_float (f64 (f64 (- th_tokens t' / th_rate t) * 1000000000)) else 0)" by simp_all
  have "0 \<le> now - th_last t" "0 \<le> dt" using assms(2) by (simp_all add: dt_def)
  then have "m \<le> th_tokens t + th_rate t * dt + slack / 2" "m \<ge> th_tokens t - slack / 2"
    using refill_bounds [OF r _ _ _ _ go_seconds_close [of "now - th_last t"] _ p_def y_def, of "th_burst t"] assms(1,3)
    unfolding usable_def dt_def m_def by simp_all
  moreover have "m \<le> th_burst t" by (simp add: m_def)
  moreover from calculation have "\<bar>m - 1\<bar> \<le> 2 ^ 23" using assms(1) unfolding usable_def slack_def by (auto simp: abs_le_iff)
  then have "\<bar>f64 (m - 1) - (m - 1)\<bar> \<le> slack / 2" using f64_error_small [of "m - 1"] unfolding slack_def by simp
  ultimately show "th_tokens t' \<le> th_burst t - 1 + slack" "th_tokens t' \<le> th_tokens t + th_rate t * dt - 1 + slack"
    "th_tokens t - 1 - slack \<le> th_tokens t'"
    unfolding t'(1) slack_def by (auto simp: abs_if split: if_splits)
qed

text \<open>A wait in nanoseconds is worth the tokens that were missing, but for the nanosecond the conversion cuts off.\<close>

lemma wait_bounds:
  assumes "1 / 1024 \<le> r" and "r \<le> 2 ^ 20" and "0 < k" and "k \<le> 2 ^ 22"
  defines "w \<equiv> int64_of_float (f64 (f64 (k / r) * 1000000000))"
  shows "0 \<le> w" "of_int w * r / 1000000000 \<le> k + slack" "k - slack - r / 1000000000 \<le> of_int w * r / 1000000000"
proof -
  define v where "v = k / r"
  define x where "x = f64 v"
  define z where "z = f64 (x * 1000000000)"
  have r: "0 < r" using assms(1) by simp
  have v: "0 \<le> v" "v * r = k" using assms(3) r by (simp_all add: v_def)
  have "v \<le> k * 1024" using assms(1,3) r by (simp add: v_def divide_le_eq field_simps)
  then have v2: "v \<le> 2 ^ 32" using assms(4) by simp
  have x: "\<bar>x - v\<bar> \<le> v / 2 ^ 53 + 1 / 2 ^ 100" "0 \<le> x" using f64_error [of v] f64_nonneg [of v] v by (simp_all add: x_def)
  then have z: "\<bar>z - x * 1000000000\<bar> \<le> x * 1000000000 / 2 ^ 53 + 1 / 2 ^ 100" "0 \<le> z"
    using f64_error [of "x * 1000000000"] f64_nonneg [of "x * 1000000000"] by (simp_all add: z_def)
  have zv: "\<bar>z - v * 1000000000\<bar> \<le> v * 1000000000 / 2 ^ 51 + 1 / 2 ^ 50"
    using x z v by (auto simp: abs_if field_simps split: if_splits)
  have "z < 2 ^ 63" using zv v2 by (auto simp: abs_if field_simps split: if_splits)
  then have w: "w = \<lfloor>z\<rfloor>" using z(2) unfolding w_def v_def [symmetric] x_def [symmetric] z_def [symmetric]
    by (simp add: int64_of_float_def Let_def floor_less_iff)
  show "0 \<le> w" using z(2) by (simp add: w)
  have up: "v * 1000000000 / 2 ^ 51 * r = k * 1000000000 / 2 ^ 51" using v(2) by simp
  have "of_int w \<le> z" by (simp add: w)
  then have "of_int w * r \<le> (v * 1000000000 + v * 1000000000 / 2 ^ 51 + 1 / 2 ^ 50) * r"
    using zv r by (intro mult_right_mono) (auto simp: abs_if split: if_splits)
  also have "\<dots> = k * 1000000000 + k * 1000000000 / 2 ^ 51 + r / 2 ^ 50" using v(2) by (simp add: field_simps)
  finally show "of_int w * r / 1000000000 \<le> k + slack" using assms(2,4) unfolding slack_def by simp
  have "(v * 1000000000 - v * 1000000000 / 2 ^ 51 - 1 / 2 ^ 50 - 1) * r \<le> of_int w * r"
  proof (rule mult_right_mono)
    have "z < of_int w + 1" unfolding w by linarith
    then show "v * 1000000000 - v * 1000000000 / 2 ^ 51 - 1 / 2 ^ 50 - 1 \<le> of_int w" using zv by (auto simp: abs_if split: if_splits)
  qed (use r in simp)
  moreover have "(v * 1000000000 - v * 1000000000 / 2 ^ 51 - 1 / 2 ^ 50 - 1) * r = k * 1000000000 - k * 1000000000 / 2 ^ 51 - r / 2 ^ 50 - r"
    using v(2) by (simp add: field_simps)
  ultimately show "k - slack - r / 1000000000 \<le> of_int w * r / 1000000000" using assms(2,4) unfolding slack_def by simp
qed

text \<open>
  The moment at which the bucket was, or will be, just empty, counted in tokens since time 0. Every token taken moves it by
  one, and every caller is let through between that moment and a burst later.
\<close>

abbreviation worth :: "throttle \<Rightarrow> int \<Rightarrow> rat" where
  "worth t x \<equiv> of_int x * th_rate t / 1000000000"

definition empty_at :: "throttle \<Rightarrow> rat" where
  "empty_at t = worth t (th_last t) - th_tokens t"

lemma grant_step:
  assumes "usable t" and "2 - 2 ^ 21 \<le> th_tokens t" and "th_last t \<le> now" and "now - th_last t < 2 ^ 63"
    and "take_token t now = (wait, t')"
  shows "usable t'" "th_tokens t - 2 \<le> th_tokens t'" "th_rate t' = th_rate t" "th_burst t' = th_burst t" "th_last t' = now"
    "empty_at t + 1 - slack \<le> empty_at t'"
    "empty_at t' - slack - worth t 1 \<le> worth t (now + wait)" "worth t (now + wait) \<le> empty_at t' + th_burst t - 1 + slack" "0 \<le> wait"
proof -
  note s = take_token_step [OF assms(1,3,4,5)]
  have u: "1 / 1024 \<le> th_rate t" "th_rate t \<le> 2 ^ 20" "1 \<le> th_burst t" "th_burst t \<le> 2 ^ 20" "th_tokens t \<le> th_burst t"
    using assms(1) by (auto simp: usable_def)
  have e: "th_rate t' = th_rate t" "th_burst t' = th_burst t" "th_last t' = now"
    using arg_cong [OF s(1), of th_rate] arg_cong [OF s(1), of th_burst] arg_cong [OF s(1), of th_last] by simp_all
  then show "th_rate t' = th_rate t" "th_burst t' = th_burst t" "th_last t' = now" by simp_all
  show k: "th_tokens t - 2 \<le> th_tokens t'" using s(4) by (simp add: slack_def)
  have "th_tokens t' \<le> th_burst t" using s(2) by (simp add: slack_def)
  then show "usable t'" using u assms(2) k unfolding usable_def e by simp
  have "worth t now - worth t (th_last t) = th_rate t * (of_int (now - th_last t) / 1000000000)"
    by (simp add: left_diff_distrib right_diff_distrib diff_divide_distrib mult.commute)
  then show "empty_at t + 1 - slack \<le> empty_at t'" using s(3) e by (simp add: empty_at_def)
  have em: "empty_at t' = worth t now - th_tokens t'" using e by (simp add: empty_at_def)
  have g: "worth t (now + wait) = worth t now + worth t wait" by (simp only: of_int_add distrib_right add_divide_distrib)
  have r0: "0 \<le> th_rate t" using order_trans [OF _ u(1)] by simp
  have "empty_at t' - slack - worth t 1 \<le> worth t (now + wait) \<and> worth t (now + wait) \<le> empty_at t' + th_burst t - 1 + slack \<and> 0 \<le> wait"
  proof (cases "th_tokens t' < 0")
    case True
    then have w: "wait = int64_of_float (f64 (f64 (- th_tokens t' / th_rate t) * 1000000000))" using s(5) by simp
    have "- th_tokens t' \<le> 2 ^ 22" "0 < - th_tokens t'" using k assms(2) True by simp_all
    from wait_bounds [OF u(1,2) this(2,1)] show ?thesis unfolding w [symmetric] g em using u(3) by simp
  next
    case False
    then have "wait = 0" using s(5) by simp
    then show ?thesis using False s(2) r0 unfolding g em slack_def by simp
  qed
  then show "empty_at t' - slack - worth t 1 \<le> worth t (now + wait)" "worth t (now + wait) \<le> empty_at t' + th_burst t - 1 + slack" "0 \<le> wait" by simp_all
qed

lemma grants_late:
  assumes "usable t" and "2 * of_nat (length ts) - 2 ^ 21 \<le> th_tokens t" and "sorted (th_last t # ts)"
    and "\<forall>now \<in> set ts. now - th_last t < 2 ^ 63" and "i < length ts"
  shows "empty_at t + of_nat (i + 1) * (1 - slack) - slack - worth t 1 \<le> worth t (grants t ts ! i)"
  using assms
proof (induction t ts arbitrary: i rule: grants.induct)
  case (2 t now ts)
  obtain wait t' where tk: "take_token t now = (wait, t')" by (cases "take_token t now")
  have "2 - 2 ^ 21 \<le> th_tokens t" using "2.prems"(2) by simp
  note s = grant_step [OF "2.prems"(1) this _ _ tk]
  have ln: "th_last t \<le> now" "now - th_last t < 2 ^ 63" using "2.prems"(3,4) by simp_all
  note s = s [OF ln]
  show ?case
  proof (cases i)
    case 0
    then show ?thesis using s(6,7) by (simp add: tk time_add_def)
  next
    case (Suc j)
    have "2 * of_nat (length ts) - 2 ^ 21 \<le> th_tokens t'" using "2.prems"(2) s(2) by simp
    moreover have "sorted (th_last t' # ts)" "\<forall>n \<in> set ts. n - th_last t' < 2 ^ 63" using "2.prems"(3,4) s(5) ln by auto
    moreover have "j < length ts" using "2.prems"(5) Suc by simp
    ultimately have "empty_at t' + of_nat (j + 1) * (1 - slack) - slack - worth t 1 \<le> worth t (grants t' ts ! j)"
      using "2.IH" [OF tk [symmetric] s(1)] s(3) by simp
    moreover have "of_nat (i + 1) * (1 - slack) = of_nat (j + 1) * (1 - slack) + (1 - slack)" using Suc by (simp add: field_simps)
    ultimately show ?thesis using s(6) Suc by (simp add: tk)
  qed
qed simp

lemma grants_spread:
  assumes "usable t" and "2 * of_nat (length ts) - 2 ^ 21 \<le> th_tokens t" and "sorted (th_last t # ts)"
    and "\<forall>now \<in> set ts. now - th_last t < 2 ^ 63" and "i \<le> j" and "j < length ts"
  shows "of_nat (j - i) * (1 - slack) - (th_burst t - 1) - 2 * slack - worth t 1 \<le> worth t (grants t ts ! j) - worth t (grants t ts ! i)"
  using assms
proof (induction t ts arbitrary: i j rule: grants.induct)
  case (2 t now ts)
  obtain wait t' where tk: "take_token t now = (wait, t')" by (cases "take_token t now")
  have b: "2 - 2 ^ 21 \<le> th_tokens t" "th_last t \<le> now" "now - th_last t < 2 ^ 63" using "2.prems"(2-4) by simp_all
  note s = grant_step [OF "2.prems"(1) b tk]
  have rest: "2 * of_nat (length ts) - 2 ^ 21 \<le> th_tokens t'" "sorted (th_last t' # ts)" "\<forall>n \<in> set ts. n - th_last t' < 2 ^ 63"
    using "2.prems"(2-4) s(2,5) b by auto
  show ?case
  proof (cases i)
    case 0
    show ?thesis
    proof (cases j)
      case 0
      have "1 \<le> th_burst t" "0 \<le> th_rate t" using "2.prems"(1) by (auto simp: usable_def intro: order_trans [of 0 "1 / 1024"])
      then show ?thesis using \<open>i = 0\<close> 0 by (simp add: slack_def)
    next
      case (Suc k)
      have "k < length ts" using "2.prems"(6) Suc by simp
      from grants_late [OF s(1) rest this] s(3)
      have "empty_at t' + of_nat (k + 1) * (1 - slack) - slack - worth t 1 \<le> worth t (grants t' ts ! k)" by simp
      with s(8) \<open>i = 0\<close> Suc show ?thesis by (simp add: tk time_add_def)
    qed
  next
    case (Suc i')
    then obtain j' where "j = Suc j'" "i' \<le> j'" "j' < length ts" using "2.prems"(5,6) by (cases j) auto
    with "2.IH" [OF tk [symmetric] s(1) rest] s(3,4) Suc show ?thesis by (simp add: tk)
  qed
qed simp

text \<open>All that are let through in a window lie between its first and its last, so no more than the spread between these.\<close>

lemma grants_in_window:
  fixes since width :: time
  assumes u: "usable t" "2 * of_nat (length ts) - 2 ^ 21 \<le> th_tokens t" and ts: "sorted (th_last t # ts)"
    "\<forall>now \<in> set ts. now - th_last t < 2 ^ 63" "length ts \<le> 2 ^ 20" and "0 \<le> width"
  defines "I \<equiv> {i. i < length ts \<and> since \<le> grants t ts ! i \<and> grants t ts ! i \<le> since + width}"
  shows "of_nat (card I) < th_burst t + worth t (width + 1) + 1"
proof (cases "I = {}")
  case True
  have "1 \<le> th_burst t" "1 / 1024 \<le> th_rate t" using u(1) by (simp_all add: usable_def)
  moreover from this(2) have "0 \<le> worth t (width + 1)" using assms(6) by (simp add: order_trans [of 0 "1 / 1024"])
  ultimately show ?thesis using True by simp
next
  case False
  have fin: "finite I" by (simp add: I_def)
  define i j where "i = Min I" and "j = Max I"
  have ij: "i \<in> I" "j \<in> I" "i \<le> j" using fin False by (simp_all add: i_def j_def)
  have "I \<subseteq> {i..j}" using fin by (auto simp: i_def j_def)
  then have "card I \<le> j - i + 1" using card_mono [of "{i..j}" I] ij(3) by simp
  then have card: "of_nat (card I) \<le> (of_nat (j - i) + 1 :: rat)" by (metis of_nat_1 of_nat_add of_nat_le_iff)
  have j: "j < length ts" and "grants t ts ! j - grants t ts ! i \<le> width" using ij(1,2) by (simp_all add: I_def)
  then have "(of_int (grants t ts ! j - grants t ts ! i) :: rat) \<le> of_int width" by (simp only: of_int_le_iff)
  moreover have "0 \<le> th_rate t" using u(1) by (auto simp: usable_def intro: order_trans [of 0 "1 / 1024"])
  ultimately have "worth t (grants t ts ! j - grants t ts ! i) \<le> worth t width" by (intro divide_right_mono mult_right_mono) simp_all
  then have m: "of_nat (j - i) * (1 - slack) - (th_burst t - 1) - 2 * slack - worth t 1 \<le> worth t width"
    using grants_spread [OF u ts(1,2) ij(3) j] by (simp add: left_diff_distrib diff_divide_distrib)
  have "(of_nat (j - i) :: rat) \<le> of_nat (2 ^ 20)" using j ts(3) by (subst of_nat_le_iff) simp
  then have "(of_nat (j - i) :: rat) * slack \<le> 2 ^ 20 * slack" by (intro mult_right_mono) (simp_all add: slack_def)
  then have "of_nat (j - i) * slack + 2 * slack < 1" by (simp add: slack_def)
  moreover have "of_nat (j - i) * (1 - slack) = of_nat (j - i) - of_nat (j - i) * slack" by (simp add: right_diff_distrib)
  moreover have "worth t (width + 1) = worth t width + worth t 1" by (simp only: of_int_add distrib_right add_divide_distrib)
  ultimately show ?thesis using card m by linarith
qed

subsection \<open>Callers\<close>

text \<open>
  Where a caller is: before \<open>Acquire\<close> has its slot or after \<open>Release\<close>, with a slot on the way to its token, asleep until a
  time, on the way out with its token handed back, or let through. Two logs hold the times for which the callers that took a
  token were told to wait, and the times at which callers were let through.
\<close>

datatype caller = Outside | Has_Slot | Asleep time | Leaving | Sending

record limiter =
  lm_throttle :: throttle
  lm_callers :: "nat \<Rightarrow> caller"
  lm_now :: time
  lm_due :: "time list"
  lm_log :: "time list"

definition new_limiter :: "int \<Rightarrow> rat \<Rightarrow> int \<Rightarrow> time \<Rightarrow> limiter" where
  "new_limiter max_in_flight per_second burst now =
     \<lparr>lm_throttle = new_throttle max_in_flight per_second burst now, lm_callers = (\<lambda>_. Outside), lm_now = now, lm_due = [], lm_log = []\<rparr>"

datatype limiter_action = Tick time | Get_Slot nat | Turn_Away nat | Take nat | Wake nat | Give_Up nat | Leave nat | Free nat

definition let_through :: "nat \<Rightarrow> limiter \<Rightarrow> limiter" where
  "let_through c s = s\<lparr>lm_callers := (lm_callers s)(c := Sending), lm_log := lm_log s @ [lm_now s]\<rparr>"

text \<open>One step of \<open>Acquire\<close>, \<open>Release\<close> or the clock, \<open>None\<close> where it is not due.\<close>

fun act :: "limiter_action \<Rightarrow> limiter \<Rightarrow> limiter option" where
  "act (Tick now) s = (if lm_now s \<le> now then Some (s\<lparr>lm_now := now\<rparr>) else None)"
| "act (Get_Slot c) s =
     (if lm_callers s c \<noteq> Outside then None
      else case take_slot (lm_throttle s) of
          None \<Rightarrow> None
        | Some t \<Rightarrow> Some (s\<lparr>lm_throttle := t, lm_callers := (lm_callers s)(c := Has_Slot)\<rparr>))"
| "act (Turn_Away c) s = (if lm_callers s c = Outside \<and> take_slot (lm_throttle s) = None then Some s else None)"
| "act (Take c) s =
     (if lm_callers s c \<noteq> Has_Slot then None
      else case take_token (lm_throttle s) (lm_now s) of (wait, t) \<Rightarrow>
        let due = time_add (lm_now s) wait; s = s\<lparr>lm_throttle := t, lm_due := lm_due s @ [due]\<rparr> in
        if wait \<le> 0 then Some (let_through c s) else Some (s\<lparr>lm_callers := (lm_callers s)(c := Asleep due)\<rparr>))"
| "act (Wake c) s = (case lm_callers s c of Asleep g \<Rightarrow> if g \<le> lm_now s then Some (let_through c s) else None | _ \<Rightarrow> None)"
| "act (Give_Up c) s =
     (case lm_callers s c of
        Asleep g \<Rightarrow> Some (s\<lparr>lm_throttle := give_back (lm_throttle s), lm_callers := (lm_callers s)(c := Leaving)\<rparr>)
      | _ \<Rightarrow> None)"
| "act (Leave c) s =
     (if lm_callers s c \<noteq> Leaving then None
      else map_option (\<lambda>t. s\<lparr>lm_throttle := t, lm_callers := (lm_callers s)(c := Outside)\<rparr>) (free_slot (lm_throttle s)))"
| "act (Free c) s =
     (if lm_callers s c \<noteq> Sending then None
      else map_option (\<lambda>t. s\<lparr>lm_throttle := t, lm_callers := (lm_callers s)(c := Outside)\<rparr>) (free_slot (lm_throttle s)))"

fun limiter_run :: "limiter_action list \<Rightarrow> limiter \<Rightarrow> limiter option" where
  "limiter_run [] s = Some s"
| "limiter_run (a # as) s = (case act a s of None \<Rightarrow> None | Some s \<Rightarrow> limiter_run as s)"

subsection \<open>How many are past \<open>Acquire\<close> at once\<close>

abbreviation inside :: "limiter \<Rightarrow> nat set" where
  "inside s \<equiv> {c. lm_callers s c \<noteq> Outside}"

definition slots_ok :: "limiter \<Rightarrow> bool" where
  "slots_ok s \<longleftrightarrow> finite (inside s) \<and>
     (\<forall>n. th_slots (lm_throttle s) = Some n \<longrightarrow> th_in_use (lm_throttle s) = card (inside s) \<and> card (inside s) \<le> n)"

lemma token_keeps_slots: "take_token t now = (wait, t') \<Longrightarrow> th_slots t' = th_slots t \<and> th_in_use t' = th_in_use t"
  by (auto simp: take_token_def Let_def split: if_splits)

lemma give_back_keeps_slots [simp]: "th_slots (give_back t) = th_slots t" "th_in_use (give_back t) = th_in_use t"
  by (simp_all add: give_back_def)

lemma inside_upd:
  "x \<noteq> Outside \<Longrightarrow> {d. (f(c := x)) d \<noteq> Outside} = insert c {d. f d \<noteq> Outside}"
  "{d. (f(c := Outside)) d \<noteq> Outside} = {d. f d \<noteq> Outside} - {c}"
  by auto

lemma moved_inside: "f c \<noteq> Outside \<Longrightarrow> x \<noteq> Outside \<Longrightarrow> {d. (f(c := x)) d \<noteq> Outside} = {d. f d \<noteq> Outside}"
  by auto

lemma act_slots_ok:
  assumes "act a s = Some s'" and "slots_ok s"
  shows "slots_ok s' \<and> th_slots (lm_throttle s') = th_slots (lm_throttle s)"
proof (cases a)
  case (Tick now)
  then show ?thesis using assms by (auto simp: slots_ok_def split: if_splits)
next
  case (Get_Slot c)
  then show ?thesis using assms
    by (auto simp: slots_ok_def take_slot_def inside_upd simp del: fun_upd_apply split: if_splits option.splits)
next
  case (Turn_Away c)
  then show ?thesis using assms by (auto split: if_splits)
next
  case (Take c)
  then show ?thesis using assms
    by (auto simp: slots_ok_def let_through_def moved_inside Let_def simp del: fun_upd_apply dest!: token_keeps_slots split: if_splits prod.splits)
next
  case (Wake c)
  then show ?thesis using assms
    by (auto simp: slots_ok_def let_through_def moved_inside simp del: fun_upd_apply split: if_splits caller.splits)
next
  case (Give_Up c)
  then show ?thesis using assms
    by (auto simp: slots_ok_def moved_inside simp del: fun_upd_apply split: caller.splits)
next
  case (Leave c)
  then show ?thesis using assms
    by (auto simp: slots_ok_def free_slot_def inside_upd simp del: fun_upd_apply split: if_splits option.splits)
next
  case (Free c)
  then show ?thesis using assms
    by (auto simp: slots_ok_def free_slot_def inside_upd simp del: fun_upd_apply split: if_splits option.splits)
qed

lemma run_slots_ok:
  "limiter_run as s = Some s' \<Longrightarrow> slots_ok s \<Longrightarrow> slots_ok s' \<and> th_slots (lm_throttle s') = th_slots (lm_throttle s)"
  by (induction as s rule: limiter_run.induct) (auto dest: act_slots_ok split: option.splits)

lemma new_slots_ok: "slots_ok (new_limiter n r b now)" "0 < n \<Longrightarrow> th_slots (lm_throttle (new_limiter n r b now)) = Some (nat n)"
  by (simp_all add: slots_ok_def new_limiter_def new_throttle_def Let_def)

text \<open>
  C29. Whatever the callers do, and whenever their contexts end, at most \<open>MaxInFlight\<close> of them are past \<open>Acquire\<close> and not yet
  at \<open>Release\<close>; who hands a slot back never blocks on the semaphore, and when nobody is inside no slot is missing.
\<close>

theorem in_flight_is_bounded:
  assumes "limiter_run as (new_limiter n r b now) = Some s" and "0 < n"
  shows "int (card {c. lm_callers s c = Sending}) \<le> n \<and>
     (\<forall>c. lm_callers s c \<in> {Leaving, Sending} \<longrightarrow> free_slot (lm_throttle s) \<noteq> None) \<and>
     ((\<forall>c. lm_callers s c = Outside) \<longrightarrow> th_in_use (lm_throttle s) = 0)"
proof -
  from run_slots_ok [OF assms(1) new_slots_ok(1)] new_slots_ok(2) [OF assms(2), of r b now]
  have s: "slots_ok s" "th_slots (lm_throttle s) = Some (nat n)" by simp_all
  then have k: "finite (inside s)" "th_in_use (lm_throttle s) = card (inside s)" "card (inside s) \<le> nat n" by (auto simp: slots_ok_def)
  have "{c. lm_callers s c = Sending} \<subseteq> inside s" by auto
  then have "card {c. lm_callers s c = Sending} \<le> nat n" using card_mono [OF k(1)] k(3) by (meson le_trans)
  moreover have "free_slot (lm_throttle s) \<noteq> None" if "lm_callers s c \<in> {Leaving, Sending}" for c
  proof -
    have "c \<in> inside s" using that by auto
    then have "0 < card (inside s)" using k(1) by (auto simp: card_gt_0_iff)
    then show ?thesis using s(2) k(2) by (simp add: free_slot_def)
  qed
  moreover have "th_in_use (lm_throttle s) = 0" if "\<forall>c. lm_callers s c = Outside" using that k(2) by simp
  moreover have "int (nat n) = n" using assms(2) by simp
  ultimately show ?thesis by (metis of_nat_le_iff)
qed

theorem in_flight_is_bounded_witness:
  "\<exists>s. limiter_run [Get_Slot 0, Take 0, Turn_Away 1] (new_limiter 1 0 0 0) = Some s \<and> lm_callers s 0 = Sending \<and>
     card {c. lm_callers s c = Sending} \<le> 1"
proof -
  define s where "s = the (limiter_run [Get_Slot 0, Take 0, Turn_Away 1] (new_limiter 1 0 0 0))"
  have s: "limiter_run [Get_Slot 0, Take 0, Turn_Away 1] (new_limiter 1 0 0 0) = Some s" "lm_callers s 0 = Sending"
    unfolding s_def by (simp_all add: new_limiter_def new_throttle_def take_slot_def take_token_def let_through_def Let_def)
  from in_flight_is_bounded [OF s(1)] s show ?thesis by auto
qed

subsection \<open>How many are let through, with every interleaving\<close>

lemma take_token_in_use:
  "take_token (t\<lparr>th_in_use := k\<rparr>) now = (fst (take_token t now), (snd (take_token t now))\<lparr>th_in_use := k\<rparr>)"
  by (simp add: take_token_def Let_def)

lemma grants_in_use: "grants (t\<lparr>th_in_use := k\<rparr>) ts = grants t ts"
proof (induction ts arbitrary: t)
  case (Cons now ts)
  obtain wait t' where "take_token t now = (wait, t')" by (cases "take_token t now")
  with Cons.IH [of t'] show ?case by (simp add: take_token_in_use)
qed simp

lemma grants_slot: "take_slot t = Some t' \<or> free_slot t = Some t' \<Longrightarrow> grants t' ts = grants t ts \<and> th_last t' = th_last t"
  by (auto simp: take_slot_def free_slot_def grants_in_use split: option.splits if_splits)

lemma take_token_last: "take_token t now = (wait, t') \<Longrightarrow> th_last t \<le> now \<Longrightarrow> th_last t' \<le> now"
  by (auto simp: take_token_def Let_def split: if_splits)

text \<open>Unless a wait is given up, the callers are due as if they had taken their tokens one after the other.\<close>

definition goes_on :: "limiter \<Rightarrow> time list \<Rightarrow> limiter \<Rightarrow> bool" where
  "goes_on s ts s' \<longleftrightarrow> lm_due s' = lm_due s @ grants (lm_throttle s) ts \<and> sorted (lm_now s # ts) \<and> (\<forall>now \<in> set ts. now \<le> lm_now s') \<and>
     lm_now s \<le> lm_now s'"

lemma act_due:
  assumes "act a s = Some s'" and "\<forall>c. a \<noteq> Give_Up c" and "th_last (lm_throttle s) \<le> lm_now s"
  shows "th_last (lm_throttle s') \<le> lm_now s' \<and> lm_now s \<le> lm_now s' \<and>
    (\<forall>ts. \<exists>nows. set nows \<subseteq> {lm_now s} \<and> lm_due s' @ grants (lm_throttle s') ts = lm_due s @ grants (lm_throttle s) (nows @ ts))"
proof (cases a)
  case (Take c)
  obtain wait t where t: "take_token (lm_throttle s) (lm_now s) = (wait, t)" by (cases "take_token (lm_throttle s) (lm_now s)")
  have s': "lm_throttle s' = t" "lm_now s' = lm_now s" "lm_due s' = lm_due s @ [time_add (lm_now s) wait]"
    using assms(1) Take by (auto simp: t Let_def let_through_def split: if_splits)
  have "lm_due s' @ grants (lm_throttle s') ts = lm_due s @ grants (lm_throttle s) ([lm_now s] @ ts)" for ts
    using t by (simp add: s')
  then show ?thesis using take_token_last [OF t assms(3)] s' by (intro conjI allI exI [of _ "[lm_now s]"]) auto
next
  case (Wake c)
  then have "lm_throttle s' = lm_throttle s" "lm_now s' = lm_now s" "lm_due s' = lm_due s"
    using assms(1) by (auto simp: let_through_def split: caller.splits if_splits)
  then show ?thesis using assms(3) by (auto intro: exI [of _ "[]"])
next
  case (Get_Slot c)
  then obtain t where "take_slot (lm_throttle s) = Some t" "lm_throttle s' = t" "lm_now s' = lm_now s" "lm_due s' = lm_due s"
    using assms(1) by (auto split: if_splits option.splits)
  then show ?thesis using assms(3) grants_slot [of "lm_throttle s" t] by (auto intro: exI [of _ "[]"])
next
  case (Leave c)
  then obtain t where "free_slot (lm_throttle s) = Some t" "lm_throttle s' = t" "lm_now s' = lm_now s" "lm_due s' = lm_due s"
    using assms(1) by (auto split: if_splits)
  then show ?thesis using assms(3) grants_slot [of "lm_throttle s" t] by (auto intro: exI [of _ "[]"])
next
  case (Free c)
  then obtain t where "free_slot (lm_throttle s) = Some t" "lm_throttle s' = t" "lm_now s' = lm_now s" "lm_due s' = lm_due s"
    using assms(1) by (auto split: if_splits)
  then show ?thesis using assms(3) grants_slot [of "lm_throttle s" t] by (auto intro: exI [of _ "[]"])
qed (use assms in \<open>auto split: if_splits intro: exI [of _ "[]"]\<close>)

lemma run_due:
  "limiter_run as s = Some s' \<Longrightarrow> \<forall>c. Give_Up c \<notin> set as \<Longrightarrow> th_last (lm_throttle s) \<le> lm_now s \<Longrightarrow> \<exists>ts. goes_on s ts s'"
proof (induction as s rule: limiter_run.induct)
  case (1 s)
  then show ?case by (auto simp: goes_on_def intro: exI [of _ "[]"])
next
  case (2 a as s)
  then obtain s1 where s1: "act a s = Some s1" "limiter_run as s1 = Some s'" by (auto split: option.splits)
  have "\<forall>c. a \<noteq> Give_Up c" "\<forall>c. Give_Up c \<notin> set as" using "2.prems"(2) by auto
  note step = act_due [OF s1(1) this(1) "2.prems"(3)]
  then obtain ts where ts: "goes_on s1 ts s'" using "2.IH" [OF s1(1,2) \<open>\<forall>c. Give_Up c \<notin> set as\<close>] by blast
  from step obtain nows where nows: "set nows \<subseteq> {lm_now s}" "lm_due s1 @ grants (lm_throttle s1) ts = lm_due s @ grants (lm_throttle s) (nows @ ts)" by blast
  have "sorted nows" using nows(1) by (induction nows) auto
  moreover have "lm_now s1 \<le> now" if "now \<in> set ts" for now using ts that by (auto simp: goes_on_def)
  ultimately have "sorted (lm_now s # nows @ ts)" "\<forall>now \<in> set (nows @ ts). now \<le> lm_now s'" "lm_now s \<le> lm_now s'"
    using nows(1) ts step by (fastforce simp: goes_on_def sorted_append)+
  then have "goes_on s (nows @ ts) s'" using ts nows(2) by (simp add: goes_on_def)
  then show ?case by blast
qed

text \<open>
  C28. However callers contend, if no wait is given up, at most \<open>Burst\<close> and what \<open>PerSecond\<close> allows are due in any span of
  time: the count stays below the two together, a nanosecond for the rounding of the wait and one for that of the floats. For
  rates from 1/1024 to 2^20 a second, bursts up to 2^20 and up to 2^20 callers in 292 years.
\<close>

theorem rate_is_kept:
  assumes "limiter_run as (new_limiter slots rate burst start) = Some s" and "\<forall>c. Give_Up c \<notin> set as"
    and "1 / 1024 \<le> rate" and "rate \<le> 2 ^ 20" and "burst \<le> 2 ^ 20" and "length (lm_due s) \<le> 2 ^ 20" and "lm_now s - start < 2 ^ 63"
    and "0 \<le> width"
  shows "of_nat (card {i. i < length (lm_due s) \<and> since \<le> lm_due s ! i \<and> lm_due s ! i \<le> since + width})
    < of_int (max burst 1) + rate * of_int (width + 1) / 1000000000 + 1"
proof -
  define t where "t = new_throttle slots rate burst start"
  have n: "lm_throttle (new_limiter slots rate burst start) = t" "lm_due (new_limiter slots rate burst start) = []"
    "lm_now (new_limiter slots rate burst start) = start" by (simp_all add: new_limiter_def t_def)
  have "f64 (of_int (max burst 1)) = of_int (max burst 1)" using assms(5) by (intro f64_int) (simp add: abs_if)
  then have t: "th_rate t = rate" "th_burst t = of_int (max burst 1)" "th_tokens t = of_int (max burst 1)" "th_last t = start"
    by (simp_all add: t_def new_throttle_def Let_def)
  obtain ts where ts: "lm_due s = grants t ts" "sorted (th_last t # ts)" "\<forall>now \<in> set ts. now \<le> lm_now s"
    using run_due [OF assms(1,2)] unfolding n goes_on_def t(4) by auto
  have len: "length ts \<le> 2 ^ 20" "\<forall>now \<in> set ts. now - th_last t < 2 ^ 63" using assms(6,7) ts(1,3) by (fastforce simp: t(4))+
  have "(of_int (max burst 1) :: rat) \<le> of_int (2 ^ 20)" using assms(5) by (subst of_int_le_iff) simp
  then have b: "1 \<le> (of_int (max burst 1) :: rat)" "(of_int (max burst 1) :: rat) \<le> 2 ^ 20" by (simp_all del: of_int_max)
  have u: "usable t" using assms(3,4) b by (simp add: usable_def t del: of_int_max)
  have "(of_nat (length ts) :: rat) \<le> 2 ^ 20" using len(1) by (metis of_nat_le_iff of_nat_numeral of_nat_power)
  then have "2 * of_nat (length ts) - 2 ^ 21 \<le> th_tokens t" using b(1) by (simp add: t del: of_int_max)
  from grants_in_window [OF u this ts(2) len(2,1) assms(8), of since] show ?thesis
    unfolding ts(1) t length_grants by (simp only: mult.commute [of rate])
qed

theorem rate_is_kept_witness:
  "\<exists>s. limiter_run [Get_Slot 0, Take 0, Get_Slot 1, Take 1, Tick second, Wake 1] (new_limiter 0 1 1 0) = Some s \<and> lm_due s = [0, second] \<and>
     of_nat (card {i. i < 2 \<and> 0 \<le> lm_due s ! i \<and> lm_due s ! i \<le> 0 + second}) < (3 + 1 / 1000000000 :: rat)"
proof -
  define s where "s = the (limiter_run [Get_Slot 0, Take 0, Get_Slot 1, Take 1, Tick second, Wake 1] (new_limiter 0 1 1 0))"
  have s: "limiter_run [Get_Slot 0, Take 0, Get_Slot 1, Take 1, Tick second, Wake 1] (new_limiter 0 1 1 0) = Some s"
    "lm_due s = [0, second]" "lm_now s = second"
    unfolding s_def by (simp_all add: new_limiter_def new_throttle_def take_slot_def take_token_def time_sub_def go_seconds_0
        f64_numeral int64_of_float_def let_through_def time_add_def second_def Let_def)
  have "of_nat (card {i. i < 2 \<and> 0 \<le> lm_due s ! i \<and> lm_due s ! i \<le> 0 + second}) < (3 + 1 / 1000000000 :: rat)"
  proof -
    have "Suc (Suc 0) \<le> 2 ^ 20" by simp
    then show ?thesis using rate_is_kept [OF s(1), of second 0] unfolding s(2,3) by (simp add: second_def numeral_2_eq_2 [symmetric])
  qed
  with s show ?thesis by blast
qed

subsection \<open>Waits that are given up\<close>

abbreviation sleeper_cycle :: "nat \<Rightarrow> limiter_action list" where
  "sleeper_cycle c \<equiv> [Get_Slot c, Take c]"

text \<open>
  A wait that is given up hands its token back, but those who wait behind it keep their times, so the next to come is
  told a time that is taken already. With one a second and a burst of one, three callers can be let through at one moment.
\<close>

theorem given_up_waits_bunch:
  "\<exists>as s. limiter_run as (new_limiter 0 1 1 0) = Some s \<and> lm_log s = [0, 3 * second, 3 * second, 3 * second]"
proof (intro exI conjI)
  let ?as = "sleeper_cycle 0 @ sleeper_cycle 1 @ sleeper_cycle 2 @ sleeper_cycle 3 @ [Give_Up 1, Leave 1, Give_Up 2, Leave 2] @
    sleeper_cycle 1 @ sleeper_cycle 2 @ [Give_Up 1, Leave 1] @ sleeper_cycle 1 @ [Tick (3 * second), Wake 3, Wake 2, Wake 1]"
  show "limiter_run ?as (new_limiter 0 1 1 0) = Some (the (limiter_run ?as (new_limiter 0 1 1 0)))"
    and "lm_log (the (limiter_run ?as (new_limiter 0 1 1 0))) = [0, 3 * second, 3 * second, 3 * second]"
    by (simp_all add: new_limiter_def new_throttle_def take_slot_def free_slot_def take_token_def give_back_def time_sub_def go_seconds_0
        f64_numeral int64_of_float_def let_through_def time_add_def second_def Let_def)
qed

end
