(* ===== verification/Pool.thy ===== *)
theory Pool
  imports Relayer
begin

section \<open>The pool of workers\<close>

text \<open>
  Models \<open>internal/relayer/pool.go\<close>: the goroutines of \<open>Pool.Run\<close>, \<open>runOne\<close> with its counters and its recover, and the
  two-stage shutdown; and the loop \<open>Worker.Run\<close> of \<open>relayer.go\<close>. The goroutines take one step at a time in any order: the
  check of the context, the atomic counters and the call of \<open>RunOnce\<close> are the steps. A call answers what it answers, or
  panics; what it does in between is the theory \<open>Relayer\<close>. Timers may fire at any time.

  The lemmas show what the statistics count, that the shutdown ends after a bounded number of steps whatever the schedule,
  and how many calls it lets begin.
\<close>

subsection \<open>Configuration and statistics\<close>

record pool_config =
  pc_size :: int
  pc_idle :: duration
  pc_drain_timeout :: duration

definition default_pool_config :: pool_config where
  "default_pool_config = \<lparr>pc_size = 4, pc_idle = second, pc_drain_timeout = 20 * second\<rparr>"

record pool_stats =
  pt_sent :: u64
  pt_noop :: u64
  pt_retry :: u64
  pt_review :: u64
  pt_poison :: u64
  pt_errors :: u64
  pt_panics :: u64
  pt_abandoned :: int

definition no_stats :: pool_stats where
  "no_stats = \<lparr>pt_sent = 0, pt_noop = 0, pt_retry = 0, pt_review = 0, pt_poison = 0, pt_errors = 0, pt_panics = 0, pt_abandoned = 0\<rparr>"

datatype once_result = Returned relay_report bool "relayer_error option" | Panicked

fun count_outcome :: "relay_outcome \<Rightarrow> pool_stats \<Rightarrow> pool_stats" where
  "count_outcome RelaySent st = st\<lparr>pt_sent := pt_sent st + 1\<rparr>"
| "count_outcome RelayNoop st = st\<lparr>pt_noop := pt_noop st + 1\<rparr>"
| "count_outcome RelayRetry st = st\<lparr>pt_retry := pt_retry st + 1\<rparr>"
| "count_outcome RelayReview st = st\<lparr>pt_review := pt_review st + 1\<rparr>"
| "count_outcome RelayPoison st = st\<lparr>pt_poison := pt_poison st + 1\<rparr>"
| "count_outcome _ st = st"

text \<open>What \<open>runOne\<close> makes of the call: its own result and the counters.\<close>

fun run_one :: "once_result \<Rightarrow> pool_stats \<Rightarrow> bool \<times> pool_stats" where
  "run_one Panicked st = (True, st\<lparr>pt_panics := pt_panics st + 1\<rparr>)"
| "run_one (Returned rep ok err) st =
     (let st = (if err \<noteq> None then st\<lparr>pt_errors := pt_errors st + 1\<rparr> else st) in
      if \<not> ok then (False, st) else (True, count_outcome (rr_outcome rep) st))"

subsection \<open>The goroutines\<close>

text \<open>
  Where a goroutine is: before the loop's check of the context, past it, in the call of \<open>RunOnce\<close>, past it with the result of
  \<open>runOne\<close>, in the select, or gone. And where \<open>Run\<close> itself is: waiting for the context, for the goroutines or the drain
  timeout, for the goroutines alone, or returned.
\<close>

datatype goroutine = At_Loop | Entered | Running | Counted bool | Resting | Gone

datatype main_loop = Serving | Draining | Stopped | Finished pool_stats

record pool =
  pl_workers :: "goroutine list"
  pl_busy :: int
  pl_stats :: pool_stats
  pl_ended :: bool
  pl_hard_stop :: bool
  pl_main :: main_loop
  pl_results :: "once_result list"

definition new_pool :: "pool_config \<Rightarrow> pool" where
  "new_pool cfg = \<lparr>pl_workers = replicate (nat (pc_size cfg)) At_Loop, pl_busy = 0, pl_stats = no_stats, pl_ended = False,
     pl_hard_stop = False, pl_main = Serving, pl_results = []\<rparr>"

definition put_worker :: "nat \<Rightarrow> goroutine \<Rightarrow> pool \<Rightarrow> pool" where
  "put_worker i g p = p\<lparr>pl_workers := (pl_workers p)[i := g]\<rparr>"

datatype pool_action = End_Context | Check nat | Enter nat | Return nat once_result | Leave_One nat | Rest_Over nat
  | See_End | Drain_Timeout | Finish

abbreviation worker_is :: "pool \<Rightarrow> nat \<Rightarrow> goroutine \<Rightarrow> bool" where
  "worker_is p i g \<equiv> i < length (pl_workers p) \<and> pl_workers p ! i = g"

text \<open>One step, \<open>None\<close> where it is not due. The result of every call is logged: nothing reads the log.\<close>

fun pool_act :: "pool_action \<Rightarrow> pool \<Rightarrow> pool option" where
  "pool_act End_Context p = (if pl_ended p then None else Some (p\<lparr>pl_ended := True\<rparr>))"
| "pool_act (Check i) p =
     (if worker_is p i At_Loop then Some (put_worker i (if pl_ended p then Gone else Entered) p) else None)"
| "pool_act (Enter i) p =
     (if worker_is p i Entered then Some (put_worker i Running (p\<lparr>pl_busy := pl_busy p + 1\<rparr>)) else None)"
| "pool_act (Return i r) p =
     (if worker_is p i Running
      then case run_one r (pl_stats p) of (ok, st) \<Rightarrow>
        Some (put_worker i (Counted ok) (p\<lparr>pl_stats := st, pl_results := pl_results p @ [r]\<rparr>))
      else None)"
| "pool_act (Leave_One i) p =
     (if worker_is p i (Counted True) then Some (put_worker i At_Loop (p\<lparr>pl_busy := pl_busy p - 1\<rparr>))
      else if worker_is p i (Counted False) then Some (put_worker i Resting (p\<lparr>pl_busy := pl_busy p - 1\<rparr>))
      else None)"
| "pool_act (Rest_Over i) p = (if worker_is p i Resting then Some (put_worker i At_Loop p) else None)"
| "pool_act See_End p = (if pl_main p = Serving \<and> pl_ended p then Some (p\<lparr>pl_main := Draining\<rparr>) else None)"
| "pool_act Drain_Timeout p =
     (if pl_main p = Draining
      then Some (p\<lparr>pl_stats := (pl_stats p)\<lparr>pt_abandoned := pl_busy p\<rparr>, pl_hard_stop := True, pl_main := Stopped\<rparr>)
      else None)"
| "pool_act Finish p =
     (if (pl_main p = Draining \<or> pl_main p = Stopped) \<and> list_all (\<lambda>g. g = Gone) (pl_workers p)
      then Some (p\<lparr>pl_hard_stop := True, pl_main := Finished (pl_stats p)\<rparr>) else None)"

fun pool_run :: "pool_action list \<Rightarrow> pool \<Rightarrow> pool option" where
  "pool_run [] p = Some p"
| "pool_run (a # as) p = (case pool_act a p of None \<Rightarrow> None | Some p \<Rightarrow> pool_run as p)"

subsection \<open>What the statistics count\<close>

abbreviation tally :: "(once_result \<Rightarrow> bool) \<Rightarrow> once_result list \<Rightarrow> u64" where
  "tally P rs \<equiv> of_nat (length (filter P rs))"

fun outcome_is :: "relay_outcome \<Rightarrow> once_result \<Rightarrow> bool" where
  "outcome_is out (Returned rep ok err) \<longleftrightarrow> ok \<and> rr_outcome rep = out"
| "outcome_is out Panicked \<longleftrightarrow> False"

fun is_error :: "once_result \<Rightarrow> bool" where
  "is_error (Returned rep ok err) \<longleftrightarrow> err \<noteq> None"
| "is_error Panicked \<longleftrightarrow> False"

fun found_nothing :: "once_result \<Rightarrow> bool" where
  "found_nothing (Returned rep ok err) \<longleftrightarrow> \<not> ok"
| "found_nothing Panicked \<longleftrightarrow> False"

definition counts :: "once_result list \<Rightarrow> int \<Rightarrow> pool_stats" where
  "counts rs abandoned = \<lparr>pt_sent = tally (outcome_is RelaySent) rs, pt_noop = tally (outcome_is RelayNoop) rs,
     pt_retry = tally (outcome_is RelayRetry) rs, pt_review = tally (outcome_is RelayReview) rs,
     pt_poison = tally (outcome_is RelayPoison) rs, pt_errors = tally is_error rs, pt_panics = tally (\<lambda>r. r = Panicked) rs,
     pt_abandoned = abandoned\<rparr>"

lemma run_one_counts: "snd (run_one r (counts rs k)) = counts (rs @ [r]) k"
proof (cases r)
  case (Returned rep ok err)
  then show ?thesis by (cases "rr_outcome rep") (auto simp: counts_def Let_def)
qed (simp add: counts_def)

fun in_call :: "goroutine \<Rightarrow> bool" where
  "in_call Running = True"
| "in_call (Counted _) = True"
| "in_call _ = False"

definition callers :: "pool \<Rightarrow> nat" where
  "callers p = length (filter in_call (pl_workers p))"

lemma length_filter_update:
  "i < length xs \<Longrightarrow> length (filter P (xs[i := x])) + (if P (xs ! i) then 1 else 0) = length (filter P xs) + (if P x then 1 else 0)"
proof -
  assume i: "i < length xs"
  have "filter P xs = filter P (take i xs @ xs ! i # drop (Suc i) xs)" using id_take_nth_drop [OF i] by simp
  then show ?thesis using i by (simp add: upd_conv_take_nth_drop)
qed

lemma callers_put:
  "i < length (pl_workers p) \<Longrightarrow> callers (put_worker i g p) + (if in_call (pl_workers p ! i) then 1 else 0) = callers p + (if in_call g then 1 else 0)"
  using length_filter_update [of i "pl_workers p" in_call g] by (simp add: callers_def put_worker_def)

lemma put_worker_simps [simp]:
  "pl_workers (put_worker i g p) = (pl_workers p)[i := g]" "pl_busy (put_worker i g p) = pl_busy p"
  "pl_stats (put_worker i g p) = pl_stats p" "pl_ended (put_worker i g p) = pl_ended p" "pl_main (put_worker i g p) = pl_main p"
  "pl_results (put_worker i g p) = pl_results p"
  by (simp_all add: put_worker_def)

lemma callers_le: "callers p \<le> length (pl_workers p)"
  by (simp add: callers_def)

lemma callers_frame [simp]:
  "callers (p\<lparr>pl_busy := b\<rparr>) = callers p" "callers (p\<lparr>pl_stats := st\<rparr>) = callers p" "callers (p\<lparr>pl_ended := e\<rparr>) = callers p"
  "callers (p\<lparr>pl_main := m\<rparr>) = callers p" "callers (p\<lparr>pl_hard_stop := h\<rparr>) = callers p" "callers (p\<lparr>pl_results := r\<rparr>) = callers p"
  by (simp_all add: callers_def)

definition pool_ok :: "nat \<Rightarrow> pool \<Rightarrow> bool" where
  "pool_ok n p \<longleftrightarrow> length (pl_workers p) = n \<and> pl_busy p = int (callers p) \<and>
     pl_stats p = counts (pl_results p) (pt_abandoned (pl_stats p)) \<and>
     0 \<le> pt_abandoned (pl_stats p) \<and> pt_abandoned (pl_stats p) \<le> int n \<and>
     (pl_main p \<in> {Serving, Draining} \<longrightarrow> pt_abandoned (pl_stats p) = 0) \<and>
     (\<forall>st. pl_main p = Finished st \<longrightarrow> st = pl_stats p \<and> (\<forall>i < n. pl_workers p ! i = Gone)) \<and> (pl_main p \<noteq> Serving \<longrightarrow> pl_ended p)"

lemma run_one_abandoned: "run_one r st = (ok, st') \<Longrightarrow> pt_abandoned st' = pt_abandoned st"
proof (cases r)
  case (Returned rep ok' err)
  moreover assume "run_one r st = (ok, st')"
  ultimately show ?thesis by (cases "rr_outcome rep") (auto simp: Let_def split: if_splits)
qed auto

lemma not_finished: "pool_ok n p \<Longrightarrow> worker_is p i g \<Longrightarrow> g \<noteq> Gone \<Longrightarrow> pl_main p \<noteq> Finished st"
  by (auto simp: pool_ok_def)

lemma worker_step_ok:
  assumes "pool_ok n p" and "worker_is p i g" and "g \<noteq> Gone"
    and "pl_workers q = pl_workers p" "pl_ended q = pl_ended p" "pl_main q = pl_main p"
    and "pl_stats q = counts (pl_results q) (pt_abandoned (pl_stats p))"
    and "pl_busy q - pl_busy p = (if in_call g' then 1 else 0) - (if in_call g then 1 else 0)"
  shows "pool_ok n (put_worker i g' q)"
proof -
  have c: "callers q = callers p" using assms(4) by (simp add: callers_def)
  have "int (callers (put_worker i g' q)) + (if in_call g then 1 else 0) = int (callers p) + (if in_call g' then 1 else 0)"
    using callers_put [of i q g'] assms(2,4) c by (simp split: if_splits)
  moreover have "pt_abandoned (pl_stats q) = pt_abandoned (pl_stats p)" using assms(7) by (simp add: counts_def)
  ultimately show ?thesis using assms not_finished [OF assms(1-3)] by (auto simp: pool_ok_def)
qed

lemma pool_act_ok:
  assumes "pool_act a p = Some p'" and "pool_ok n p"
  shows "pool_ok n p'"
proof -
  have st: "pl_stats p = counts (pl_results p) (pt_abandoned (pl_stats p))" using assms(2) by (simp add: pool_ok_def)
  note step = worker_step_ok [OF assms(2)]
  show ?thesis
  proof (cases a)
    case (Check i)
    then show ?thesis using assms(1) st by (auto split: if_splits intro!: step [where g = At_Loop])
  next
    case (Enter i)
    then show ?thesis using assms(1) st by (auto split: if_splits intro!: step [where g = Entered])
  next
    case (Return i r)
    then obtain ok st' where r: "worker_is p i Running" "run_one r (pl_stats p) = (ok, st')"
      "p' = put_worker i (Counted ok) (p\<lparr>pl_stats := st', pl_results := pl_results p @ [r]\<rparr>)"
      using assms(1) by (auto split: if_splits prod.splits)
    have "st' = counts (pl_results p @ [r]) (pt_abandoned (pl_stats p))"
      using run_one_counts [of r "pl_results p" "pt_abandoned (pl_stats p)"] r(2) st by (metis snd_conv)
    then show ?thesis unfolding r(3) by (intro step [OF r(1)]) simp_all
  next
    case (Leave_One i)
    then consider "worker_is p i (Counted True)" "p' = put_worker i At_Loop (p\<lparr>pl_busy := pl_busy p - 1\<rparr>)"
      | "worker_is p i (Counted False)" "p' = put_worker i Resting (p\<lparr>pl_busy := pl_busy p - 1\<rparr>)"
      using assms(1) by (auto split: if_splits)
    then show ?thesis by cases (use st in \<open>simp_all only:\<close>, auto intro!: step [where g = "Counted _"])
  next
    case (Rest_Over i)
    then show ?thesis using assms(1) st by (auto split: if_splits intro!: step [where g = Resting])
  next
    case Drain_Timeout
    then show ?thesis using assms callers_le [of p] by (auto simp: pool_ok_def counts_def split: if_splits)
  next
    case Finish
    then show ?thesis using assms by (auto simp: pool_ok_def list_all_length split: if_splits)
  qed (use assms in \<open>auto simp: pool_ok_def split: if_splits\<close>)
qed

lemma pool_run_ok: "pool_run as p = Some p' \<Longrightarrow> pool_ok n p \<Longrightarrow> pool_ok n p'"
  by (induction as p rule: pool_run.induct) (auto dest: pool_act_ok split: option.splits)

lemma new_pool_ok: "pool_ok (nat (pc_size cfg)) (new_pool cfg)"
  by (simp add: pool_ok_def new_pool_def callers_def counts_def no_stats_def filter_replicate)

text \<open>Every call that had a job and did not panic ends in one of the seven outcomes.\<close>

lemma report_outcome [simp]: "rr_outcome (report out d) = out" by (simp add: report_def)

definition answered :: "relay_report \<Rightarrow> relayer_error option \<Rightarrow> bool" where
  "answered rep err \<longleftrightarrow> err = None \<longrightarrow> rr_outcome rep \<noteq> RelayNone"

lemma after_send_answered: "after_send k ev w it res ans = (rep, err, s, w') \<Longrightarrow> answered rep err"
  by (auto simp: after_send_def answered_def split: sum.splits option.splits prod.splits)

lemma claim_answered: "claim_and_send k ev w it res = (rep, err, s, w') \<Longrightarrow> answered rep err"
  by (auto simp: claim_and_send_def Let_def dest: after_send_answered split: sum.splits option.splits prod.splits if_splits) (auto simp: answered_def)

lemma authorized_answered: "process_authorized k ev w it = (rep, err, w') \<Longrightarrow> answered rep err"
  by (auto simp: process_authorized_def dest: claim_answered split: sum.splits option.splits prod.splits) (auto simp: answered_def)

lemma review_answered: "review k ev w it r = (rep, err, w') \<Longrightarrow> answered rep err"
  by (auto simp: review_def answered_def split: option.splits prod.splits if_splits)

lemma after_rescue_answered: "after_rescue k ev w it res pl ans = (rep, err, s, w') \<Longrightarrow> answered rep err"
  by (auto simp: after_rescue_def answered_def Let_def split: sum.splits option.splits prod.splits if_splits)

lemma rescue_answered: "rescue k ev w it = (rep, err, w') \<Longrightarrow> answered rep err"
  unfolding rescue_def Let_def replace_or_cancel_def
  by (auto dest: review_answered after_rescue_answered split: sum.splits option.splits prod.splits if_splits) (auto simp: answered_def)

lemma process_answered: "process k ev w d = (rep, err, w') \<Longrightarrow> answered rep err"
  by (auto simp: process_def dest: authorized_answered rescue_answered split: sum.splits state.splits if_splits) (auto simp: answered_def)

lemma give_up_answered: "give_up k ev w d r v = (rep, x, err, w') \<Longrightarrow> answered rep err"
  unfolding give_up_def give_up_fail_def Let_def
  by (auto simp: answered_def split: sum.splits option.splits prod.splits if_splits ledger_error.splits)

lemma poison_answered: "poison k ev w d r v = (rep, err, w') \<Longrightarrow> answered rep err"
  by (auto simp: poison_def dest: give_up_answered split: sum.splits prod.splits if_splits) (auto simp: answered_def)

lemma run_once_answered:
  assumes "run_once k ev w = (rep, ok, err, w')"
  shows "(ok \<longrightarrow> rr_outcome rep \<noteq> RelayNone) \<and> (\<not> ok \<longrightarrow> err = None)"
proof (cases "lease (wd_queue w) (ev_now ev 0) (cf_lease (wk_cfg k))")
  case (Pair d q)
  show ?thesis
  proof (cases d)
    case None
    then show ?thesis using assms Pair by (simp add: run_once_def)
  next
    case (Some d)
    obtain rep0 perr w1 where p: "process k ev (w\<lparr>wd_queue := q\<rparr>) d = (rep0, perr, w1)" by (metis prod_cases3)
    note a = process_answered [OF p]
    show ?thesis using assms a unfolding run_once_def Pair Some
      by (auto simp: p Let_def answered_def dest!: poison_answered split: option.splits prod.splits if_splits)
  qed
qed

definition from_run_once :: "once_result \<Rightarrow> bool" where
  "from_run_once r \<longleftrightarrow> (\<forall>rep ok err. r = Returned rep ok err \<longrightarrow> (\<exists>k ev w w'. run_once k ev w = (rep, ok, err, w')))"

lemma tally_snoc: "tally P (rs @ [r]) = tally P rs + (if P r then 1 else 0)"
  by simp

lemma outcome_kinds:
  assumes "from_run_once r"
  shows "(1 :: u64) = (if outcome_is RelaySent r then 1 else 0) + (if outcome_is RelayNoop r then 1 else 0) +
    (if outcome_is RelayRetry r then 1 else 0) + (if outcome_is RelayReview r then 1 else 0) + (if outcome_is RelayPoison r then 1 else 0) +
    (if r = Panicked then 1 else 0) + (if found_nothing r then 1 else 0) + (if outcome_is RelayReplaced r then 1 else 0) +
    (if outcome_is RelayCleared r then 1 else 0)"
proof (cases r)
  case (Returned rep ok err)
  with assms have "ok \<longrightarrow> rr_outcome rep \<noteq> RelayNone" by (auto simp: from_run_once_def dest: run_once_answered)
  with Returned show ?thesis by (cases ok; cases "rr_outcome rep") simp_all
qed simp

lemma calls_by_kind:
  "\<forall>r \<in> set rs. from_run_once r \<Longrightarrow> of_nat (length rs) = tally (outcome_is RelaySent) rs + tally (outcome_is RelayNoop) rs +
     tally (outcome_is RelayRetry) rs + tally (outcome_is RelayReview) rs + tally (outcome_is RelayPoison) rs +
     tally (\<lambda>r. r = Panicked) rs + tally found_nothing rs + tally (outcome_is RelayReplaced) rs + tally (outcome_is RelayCleared) rs"
proof (induction rs rule: rev_induct)
  case (snoc r rs)
  from snoc.prems have "from_run_once r" "\<forall>r \<in> set rs. from_run_once r" by simp_all
  note sum = arg_cong2 [where f = "(+)", OF snoc.IH [OF this(2)] outcome_kinds [OF this(1)]]
  show ?case unfolding tally_snoc length_append_singleton of_nat_Suc add.commute [of 1] sum by (simp only: add_ac)
qed simp

lemma no_timeout_no_abandoned:
  "pool_run as p = Some p' \<Longrightarrow> Drain_Timeout \<notin> set as \<Longrightarrow> pt_abandoned (pl_stats p') = pt_abandoned (pl_stats p)"
proof (induction as p rule: pool_run.induct)
  case (2 a as p)
  then obtain q where q: "pool_act a p = Some q" "pool_run as q = Some p'" by (auto split: option.splits)
  have "pt_abandoned (pl_stats q) = pt_abandoned (pl_stats p)"
    using q(1) "2.prems"(2) by (cases a) (auto split: if_splits prod.splits dest: run_one_abandoned)
  with "2.IH" [OF q(1,2)] "2.prems"(2) show ?case by simp
qed simp

text \<open>
  C30. At every moment the counter of busy workers is the number of goroutines inside \<open>runOne\<close>, never more than \<open>Size\<close>. When
  \<open>Run\<close> returns none is, the statistics are the tallies of everything its calls of \<open>RunOnce\<close> answered, and \<open>Abandoned\<close> is at
  most \<open>Size\<close>, and zero if the drain timeout did not fire. The counters and the calls that found the queue empty add up to
  the number of calls only together with the replaced and the cleared jobs, which no counter counts.
\<close>

theorem statistics_are_the_calls:
  assumes "pool_run as (new_pool cfg) = Some p" and "\<forall>r \<in> set (pl_results p). from_run_once r"
  shows "pl_busy p = int (callers p) \<and> pl_busy p \<le> max 0 (pc_size cfg) \<and>
    (\<forall>st. pl_main p = Finished st \<longrightarrow>
       callers p = 0 \<and> st = counts (pl_results p) (pt_abandoned st) \<and> 0 \<le> pt_abandoned st \<and> pt_abandoned st \<le> max 0 (pc_size cfg) \<and>
       (Drain_Timeout \<notin> set as \<longrightarrow> pt_abandoned st = 0) \<and>
       of_nat (length (pl_results p)) = pt_sent st + pt_noop st + pt_retry st + pt_review st + pt_poison st + pt_panics st +
         tally found_nothing (pl_results p) + tally (outcome_is RelayReplaced) (pl_results p) + tally (outcome_is RelayCleared) (pl_results p))"
proof -
  have ok: "pool_ok (nat (pc_size cfg)) p" by (rule pool_run_ok [OF assms(1) new_pool_ok])
  then have b: "pl_busy p = int (callers p)" "pl_busy p \<le> max 0 (pc_size cfg)"
    using callers_le [of p] by (auto simp: pool_ok_def)
  have none: "pt_abandoned (pl_stats p) = 0" if "Drain_Timeout \<notin> set as"
    using assms(1) that no_timeout_no_abandoned [of as "new_pool cfg" p] by (simp add: new_pool_def no_stats_def)
  {
    fix st assume f: "pl_main p = Finished st"
    have s: "st = pl_stats p" "\<forall>i < length (pl_workers p). pl_workers p ! i = Gone" using ok f by (auto simp: pool_ok_def)
    then have "\<forall>g \<in> set (pl_workers p). g = Gone" by (auto simp: in_set_conv_nth)
    then have "callers p = 0" by (simp add: callers_def filter_empty_conv) auto
    have c: "st = counts (pl_results p) (pt_abandoned st)" using ok s(1) by (simp add: pool_ok_def)
    note sel = arg_cong [OF c, of pt_sent] arg_cong [OF c, of pt_noop] arg_cong [OF c, of pt_retry] arg_cong [OF c, of pt_review]
      arg_cong [OF c, of pt_poison] arg_cong [OF c, of pt_panics]
    note sel = sel [unfolded counts_def pool_stats.select_convs]
    note c
    moreover from ok s(1) have "0 \<le> pt_abandoned st" "pt_abandoned st \<le> max 0 (pc_size cfg)"
      unfolding pool_ok_def max_def by (auto split: if_splits)
    moreover have "of_nat (length (pl_results p)) = pt_sent st + pt_noop st + pt_retry st + pt_review st + pt_poison st + pt_panics st +
       tally found_nothing (pl_results p) + tally (outcome_is RelayReplaced) (pl_results p) + tally (outcome_is RelayCleared) (pl_results p)"
      unfolding calls_by_kind [OF assms(2)] sel ..
    ultimately have "callers p = 0 \<and> st = counts (pl_results p) (pt_abandoned st) \<and> 0 \<le> pt_abandoned st \<and> pt_abandoned st \<le> max 0 (pc_size cfg) \<and>
       (Drain_Timeout \<notin> set as \<longrightarrow> pt_abandoned st = 0) \<and>
       of_nat (length (pl_results p)) = pt_sent st + pt_noop st + pt_retry st + pt_review st + pt_poison st + pt_panics st +
         tally found_nothing (pl_results p) + tally (outcome_is RelayReplaced) (pl_results p) + tally (outcome_is RelayCleared) (pl_results p)"
      using \<open>callers p = 0\<close> none s(1) by (metis (no_types))
  }
  then show ?thesis using b by blast
qed

subsection \<open>Shutdown\<close>

fun steps_left :: "goroutine \<Rightarrow> nat" where
  "steps_left Gone = 0"
| "steps_left At_Loop = 1"
| "steps_left Resting = 2"
| "steps_left (Counted _) = 3"
| "steps_left Running = 4"
| "steps_left Entered = 5"

fun main_left :: "main_loop \<Rightarrow> nat" where
  "main_left Serving = 3"
| "main_left Draining = 2"
| "main_left Stopped = 1"
| "main_left (Finished _) = 0"

definition shutdown_left :: "pool \<Rightarrow> nat" where
  "shutdown_left p = sum_list (map steps_left (pl_workers p)) + main_left (pl_main p)"

lemma sum_list_map_update:
  fixes f :: "'a \<Rightarrow> nat"
  assumes "i < length xs"
  shows "sum_list (map f (xs[i := x])) + f (xs ! i) = sum_list (map f xs) + f x"
proof -
  have "sum_list (map f xs) = sum_list (map f (take i xs @ xs ! i # drop (Suc i) xs))" using id_take_nth_drop [OF assms] by simp
  then show ?thesis using assms by (simp add: upd_conv_take_nth_drop)
qed

lemma shutdown_put:
  "i < length (pl_workers p) \<Longrightarrow> steps_left g < steps_left (pl_workers p ! i) \<Longrightarrow> shutdown_left (put_worker i g p) < shutdown_left p"
  using sum_list_map_update [of i "pl_workers p" steps_left g] by (simp add: shutdown_left_def)

lemma shutdown_frame [simp]:
  "shutdown_left (p\<lparr>pl_busy := b\<rparr>) = shutdown_left p"
  "shutdown_left (p\<lparr>pl_stats := st, pl_results := rs\<rparr>) = shutdown_left p"
  by (simp_all add: shutdown_left_def)

lemma shutdown_step:
  assumes "pool_act a p = Some p'" and "pl_ended p"
  shows "shutdown_left p' < shutdown_left p \<and> pl_ended p'"
proof (cases a)
  case (Return i r)
  then obtain ok st' where "worker_is p i Running"
      "p' = put_worker i (Counted ok) (p\<lparr>pl_stats := st', pl_results := pl_results p @ [r]\<rparr>)"
    using assms(1) by (auto split: if_splits prod.splits)
  then show ?thesis using assms(2) shutdown_put [of i "p\<lparr>pl_stats := st', pl_results := pl_results p @ [r]\<rparr>" "Counted ok"] by simp
next
  case (Enter i)
  then show ?thesis using assms shutdown_put [of i "p\<lparr>pl_busy := pl_busy p + 1\<rparr>" Running] by (auto split: if_splits)
next
  case (Leave_One i)
  then show ?thesis
    using assms shutdown_put [of i "p\<lparr>pl_busy := pl_busy p - 1\<rparr>" At_Loop] shutdown_put [of i "p\<lparr>pl_busy := pl_busy p - 1\<rparr>" Resting]
    by (auto split: if_splits)
next
  case (Check i)
  then show ?thesis using assms shutdown_put [of i p Gone] by (auto split: if_splits)
next
  case (Rest_Over i)
  then show ?thesis using assms shutdown_put [of i p At_Loop] by (auto split: if_splits)
next
  case Finish
  then show ?thesis using assms by (auto simp: shutdown_left_def split: if_splits)
qed (use assms in \<open>auto simp: shutdown_left_def split: if_splits\<close>)

lemma shutdown_run: "pool_run as p = Some q \<Longrightarrow> pl_ended p \<Longrightarrow> shutdown_left q + length as \<le> shutdown_left p \<and> pl_ended q"
  by (induction as p rule: pool_run.induct) (fastforce dest: shutdown_step split: option.splits)+

text \<open>How many goroutines have passed the check and not yet begun their call.\<close>

definition past_check :: "pool \<Rightarrow> nat" where
  "past_check p = length (filter (\<lambda>g. g = Entered) (pl_workers p))"

fun is_enter :: "pool_action \<Rightarrow> bool" where
  "is_enter (Enter _) = True"
| "is_enter _ = False"

lemma past_check_put:
  "i < length (pl_workers p) \<Longrightarrow> past_check (put_worker i g p) + (if pl_workers p ! i = Entered then 1 else 0) = past_check p + (if g = Entered then 1 else 0)"
  using length_filter_update [of i "pl_workers p" "\<lambda>g. g = Entered" g] by (simp add: past_check_def)

lemma past_check_frame [simp]:
  "past_check (p\<lparr>pl_busy := b\<rparr>) = past_check p" "past_check (p\<lparr>pl_stats := st, pl_results := rs\<rparr>) = past_check p"
  by (simp_all add: past_check_def)

lemma enter_step:
  assumes "pool_act a p = Some p'" and "pl_ended p"
  shows "past_check p' + (if is_enter a then 1 else 0) = past_check p"
proof (cases a)
  case (Return i r)
  then obtain ok st' where "worker_is p i Running"
      "p' = put_worker i (Counted ok) (p\<lparr>pl_stats := st', pl_results := pl_results p @ [r]\<rparr>)"
    using assms(1) by (auto split: if_splits prod.splits)
  then show ?thesis using Return past_check_put [of i "p\<lparr>pl_stats := st', pl_results := pl_results p @ [r]\<rparr>" "Counted ok"] by simp
next
  case (Enter i)
  then show ?thesis using assms past_check_put [of i "p\<lparr>pl_busy := pl_busy p + 1\<rparr>" Running] by (auto split: if_splits)
next
  case (Leave_One i)
  then show ?thesis
    using assms past_check_put [of i "p\<lparr>pl_busy := pl_busy p - 1\<rparr>" At_Loop] past_check_put [of i "p\<lparr>pl_busy := pl_busy p - 1\<rparr>" Resting]
    by (auto split: if_splits)
next
  case (Check i)
  then show ?thesis using assms past_check_put [of i p Gone] by (auto split: if_splits)
next
  case (Rest_Over i)
  then show ?thesis using assms past_check_put [of i p At_Loop] by (auto split: if_splits)
qed (use assms in \<open>auto simp: past_check_def split: if_splits\<close>)

lemma enter_run:
  "pool_run as p = Some q \<Longrightarrow> pl_ended p \<Longrightarrow> past_check q + length (filter is_enter as) = past_check p"
  by (induction as p rule: pool_run.induct) (fastforce dest: shutdown_step enter_step split: option.splits if_splits)+

lemma due_step:
  assumes "pool_ok n p" and "pl_ended p" and "\<forall>st. pl_main p \<noteq> Finished st"
  shows "\<exists>a p'. pool_act a p = Some p'"
proof (cases "list_all (\<lambda>g. g = Gone) (pl_workers p)")
  case True
  show ?thesis
  proof (cases "pl_main p = Serving")
    case True
    then have "pool_act See_End p = Some (p\<lparr>pl_main := Draining\<rparr>)" using assms(2) by simp
    then show ?thesis by blast
  next
    case False
    then have "pl_main p = Draining \<or> pl_main p = Stopped" using assms(3) by (cases "pl_main p") auto
    then have "pool_act Finish p = Some (p\<lparr>pl_hard_stop := True, pl_main := Finished (pl_stats p)\<rparr>)" using True by simp
    then show ?thesis by blast
  qed
next
  case False
  then obtain i where i: "i < length (pl_workers p)" "pl_workers p ! i \<noteq> Gone" by (auto simp: list_all_length)
  show ?thesis
  proof (cases "pl_workers p ! i")
    case At_Loop
    then have "pool_act (Check i) p \<noteq> None" using i by simp
    then show ?thesis by blast
  next
    case Entered
    then have "pool_act (Enter i) p \<noteq> None" using i by simp
    then show ?thesis by blast
  next
    case Running
    then have "pool_act (Return i Panicked) p \<noteq> None" using i by simp
    then show ?thesis by blast
  next
    case (Counted ok)
    then have "pool_act (Leave_One i) p \<noteq> None" using i by (cases ok) simp_all
    then show ?thesis by blast
  next
    case Resting
    then have "pool_act (Rest_Over i) p \<noteq> None" using i by simp
    then show ?thesis by blast
  qed (use i in simp)
qed

text \<open>
  C18. Once the context has ended, every schedule brings \<open>Run\<close> to its return: it has at most 5 steps per worker and 3 of its
  own left, and while \<open>Run\<close> has not returned some step is due, provided that calls of \<open>RunOnce\<close> return. On the way only the
  workers that had passed the check of the context before it ended begin another call, one each.
\<close>

theorem shutdown_terminates:
  assumes "pool_run as (new_pool cfg) = Some p" and "pl_ended p" and "pool_run bs p = Some q"
  shows "length bs \<le> 5 * nat (pc_size cfg) + 3 \<and>
    ((\<exists>st. pl_main q = Finished st) \<or> (\<exists>a q'. pool_act a q = Some q')) \<and>
    length (filter is_enter bs) \<le> past_check p \<and> past_check p + callers p \<le> nat (pc_size cfg)"
proof -
  have ok: "pool_ok (nat (pc_size cfg)) p" by (rule pool_run_ok [OF assms(1) new_pool_ok])
  have len: "length (pl_workers p) = nat (pc_size cfg)" using ok by (simp add: pool_ok_def)
  have "sum_list (map steps_left gs) \<le> 5 * length gs" for gs
  proof (induction gs)
    case (Cons g gs)
    then show ?case by (cases g) simp_all
  qed simp
  then have "sum_list (map steps_left (pl_workers p)) \<le> 5 * length (pl_workers p)" .
  moreover have "main_left (pl_main p) \<le> 3" by (cases "pl_main p") simp_all
  ultimately have "length bs \<le> 5 * nat (pc_size cfg) + 3"
    using shutdown_run [OF assms(3,2)] len by (simp add: shutdown_left_def)
  moreover have "(\<exists>st. pl_main q = Finished st) \<or> (\<exists>a q'. pool_act a q = Some q')"
    using due_step [OF pool_run_ok [OF assms(3) ok]] shutdown_run [OF assms(3,2)] by blast
  moreover have "length (filter is_enter bs) \<le> past_check p" using enter_run [OF assms(3,2)] by simp
  moreover have "length (filter (\<lambda>g. g = Entered) gs) + length (filter in_call gs) \<le> length gs" for gs
  proof (induction gs)
    case (Cons g gs)
    then show ?case by (cases g) simp_all
  qed simp
  then have "past_check p + callers p \<le> length (pl_workers p)" unfolding past_check_def callers_def .
  ultimately show ?thesis using len by simp
qed

text \<open>
  \<open>Abandoned\<close> is no count of jobs that were given up: it counts the goroutines inside \<open>runOne\<close> when the drain timeout
  fires. One whose call then still ends well, and one whose call found the queue empty, are in it.
\<close>

theorem abandoned_counts_finished_jobs:
  "(\<exists>as p st. pool_run as (new_pool cfg) = Some p \<and> pl_main p = Finished st \<and> pt_abandoned st = 1 \<and>
      pl_results p = [Returned rep True None] \<and> pt_sent st = 1) \<and>
   (\<exists>as p st. pool_run as (new_pool cfg) = Some p \<and> pl_main p = Finished st \<and> pt_abandoned st = 1 \<and>
      pl_results p = [Returned rep False None])"
  if "pc_size cfg = 1" and "rr_outcome rep = RelaySent"
proof -
  have n: "new_pool cfg = \<lparr>pl_workers = [At_Loop], pl_busy = 0, pl_stats = no_stats, pl_ended = False, pl_hard_stop = False,
      pl_main = Serving, pl_results = []\<rparr>"
    using that(1) by (simp add: new_pool_def)
  let ?as = "[Check 0, Enter 0, End_Context, See_End, Drain_Timeout, Return 0 (Returned rep True None), Leave_One 0, Check 0, Finish]"
  let ?bs = "[Check 0, Enter 0, End_Context, See_End, Drain_Timeout, Return 0 (Returned rep False None), Leave_One 0, Rest_Over 0, Check 0, Finish]"
  let ?p = "the (pool_run ?as (new_pool cfg))" and ?q = "the (pool_run ?bs (new_pool cfg))"
  have p: "pool_run ?as (new_pool cfg) = Some ?p" "pl_main ?p = Finished (no_stats\<lparr>pt_abandoned := 1, pt_sent := 1\<rparr>)"
    "pl_results ?p = [Returned rep True None]"
    unfolding n using that(2) by (simp_all add: put_worker_def no_stats_def)
  have q: "pool_run ?bs (new_pool cfg) = Some ?q" "pl_main ?q = Finished (no_stats\<lparr>pt_abandoned := 1\<rparr>)"
    "pl_results ?q = [Returned rep False None]"
    unfolding n by (simp_all add: put_worker_def no_stats_def)
  show ?thesis
    by (intro conjI exI) (rule p q | simp)+
qed

subsection \<open>A pool of one\<close>

abbreviation one_worker :: pool_config where
  "one_worker \<equiv> default_pool_config\<lparr>pc_size := 1\<rparr>"

lemma new_one_worker: "new_pool one_worker = \<lparr>pl_workers = [At_Loop], pl_busy = 0, pl_stats = no_stats, pl_ended = False,
    pl_hard_stop = False, pl_main = Serving, pl_results = []\<rparr>"
  by (simp add: new_pool_def)

theorem statistics_are_the_calls_witness:
  "\<exists>as p st. pool_run as (new_pool one_worker) = Some p \<and> pl_main p = Finished st \<and> length (pl_results p) = 1 \<and> pt_panics st = 1 \<and>
     st = counts (pl_results p) (pt_abandoned st)"
proof -
  let ?as = "[Check 0, Enter 0, Return 0 Panicked, Leave_One 0, End_Context, Check 0, See_End, Finish]"
  define p where "p = the (pool_run ?as (new_pool one_worker))"
  have p: "pool_run ?as (new_pool one_worker) = Some p" "pl_main p = Finished (no_stats\<lparr>pt_panics := 1\<rparr>)" "pl_results p = [Panicked]"
    unfolding p_def new_one_worker by (simp_all add: put_worker_def no_stats_def)
  have "\<forall>r \<in> set (pl_results p). from_run_once r" by (simp add: p(3) from_run_once_def)
  from statistics_are_the_calls [OF p(1) this] p(2)
  have c: "no_stats\<lparr>pt_panics := 1\<rparr> = counts (pl_results p) (pt_abandoned (no_stats\<lparr>pt_panics := 1\<rparr>))" by blast
  have "length (pl_results p) = 1" "pt_panics (no_stats\<lparr>pt_panics := 1\<rparr>) = 1" using p(3) by simp_all
  with p(1,2) c show ?thesis by blast
qed

theorem shutdown_terminates_witness:
  "\<exists>p q. pool_run [Check 0, End_Context] (new_pool one_worker) = Some p \<and> pool_run [Enter 0, Return 0 Panicked] p = Some q \<and>
     past_check p = 1 \<and> (\<exists>a q'. pool_act a q = Some q')"
proof -
  define p where "p = the (pool_run [Check 0, End_Context] (new_pool one_worker))"
  define q where "q = the (pool_run [Enter 0, Return 0 Panicked] p)"
  have p: "pool_run [Check 0, End_Context] (new_pool one_worker) = Some p" "pl_ended p" "past_check p = 1"
    unfolding p_def new_one_worker by (simp_all add: put_worker_def no_stats_def past_check_def)
  have q: "pool_run [Enter 0, Return 0 Panicked] p = Some q" "pl_main q = Serving"
    unfolding q_def p_def new_one_worker by (simp_all add: put_worker_def no_stats_def)
  from shutdown_terminates [OF p(1,2) q(1)] p q show ?thesis by auto
qed

theorem abandoned_counts_finished_jobs_witness:
  "\<exists>as p st. pool_run as (new_pool one_worker) = Some p \<and> pl_main p = Finished st \<and> pt_abandoned st = 1 \<and> pt_sent st = 1"
proof -
  have "pc_size one_worker = 1" "rr_outcome (report RelaySent '''') = RelaySent" by simp_all
  from conjunct1 [OF abandoned_counts_finished_jobs [OF this]] show ?thesis by blast
qed

subsection \<open>The loop of a single worker\<close>

text \<open>
  \<open>Worker.Run\<close>, given what the calls of \<open>RunOnce\<close> answer and in which of its selects the context has ended; the result is the
  error it returns, the context's as \<open>None\<close>.
\<close>

partial_function (option) worker_run :: "(nat \<Rightarrow> relay_report \<times> bool \<times> relayer_error option) \<Rightarrow> (nat \<Rightarrow> bool) \<Rightarrow> nat
    \<Rightarrow> relayer_error option option" where
  "worker_run once ended n =
     (case once n of (_, ok, err) \<Rightarrow>
        if err \<noteq> None \<and> \<not> ok then Some err
        else if ok then worker_run once ended (n + 1)
        else if ended n then Some None
        else worker_run once ended (n + 1))"

definition stops_at :: "(nat \<Rightarrow> relay_report \<times> bool \<times> relayer_error option) \<Rightarrow> (nat \<Rightarrow> bool) \<Rightarrow> nat \<Rightarrow> bool" where
  "stops_at once ended n \<longleftrightarrow> \<not> fst (snd (once n)) \<and> (snd (snd (once n)) \<noteq> None \<or> ended n)"

lemma worker_run_step:
  "worker_run once ended n = (if stops_at once ended n then Some (snd (snd (once n))) else worker_run once ended (n + 1))"
  by (subst worker_run.simps) (auto simp: stops_at_def split: prod.splits)

lemma worker_run_stops:
  "stops_at once ended (n + k) \<Longrightarrow> \<forall>j < k. \<not> stops_at once ended (n + j) \<Longrightarrow> worker_run once ended n = Some (snd (snd (once (n + k))))"
proof (induction k arbitrary: n)
  case (Suc k)
  have "\<not> stops_at once ended n" using Suc.prems(2) by (metis add_0_right zero_less_Suc)
  moreover have "worker_run once ended (n + 1) = Some (snd (snd (once (n + 1 + k))))"
  proof (rule Suc.IH)
    show "stops_at once ended (n + 1 + k)" using Suc.prems(1) by simp
    show "\<forall>j < k. \<not> stops_at once ended (n + 1 + j)"
    proof (intro allI impI)
      fix j assume "j < k"
      then show "\<not> stops_at once ended (n + 1 + j)" using Suc.prems(2) [rule_format, of "Suc j"] by simp
    qed
  qed
  ultimately show ?case by (subst worker_run_step) (simp add: add_ac)
qed (simp add: worker_run_step)

lemma worker_run_returns:
  assumes "worker_run once ended n = Some r"
  shows "\<exists>k \<ge> n. stops_at once ended k"
proof (rule worker_run.raw_induct [OF _ assms])
  fix run :: "(nat \<Rightarrow> relay_report \<times> bool \<times> relayer_error option) \<Rightarrow> (nat \<Rightarrow> bool) \<Rightarrow> nat \<Rightarrow> relayer_error option option"
    and once ended n r
  assume hyp: "\<And>once ended n r. run once ended n = Some r \<Longrightarrow> \<exists>k \<ge> n. stops_at once ended k"
    and body: "(case once n of (_, ok, err) \<Rightarrow> if err \<noteq> None \<and> \<not> ok then Some err else if ok then run once ended (n + 1)
        else if ended n then Some None else run once ended (n + 1)) = Some r"
  show "\<exists>k \<ge> n. stops_at once ended k"
  proof (cases "stops_at once ended n")
    case False
    then have "run once ended (n + 1) = Some r" using body by (auto simp: stops_at_def split: prod.splits if_splits)
    then show ?thesis using hyp by (meson add_leD1)
  qed blast
qed

text \<open>
  \<open>Worker.Run\<close> returns exactly when some call finds no job and fails or finds the context ended in its select, with
  the error of the first such call. While there is a job for every call it does not return, whatever becomes of the context
  and whatever errors the calls report.
\<close>

lemma worker_run_needs_an_empty_queue:
  "(\<exists>r. worker_run once ended 0 = Some r) \<longleftrightarrow> (\<exists>k. stops_at once ended k)"
  "stops_at once ended k \<Longrightarrow> \<forall>j < k. \<not> stops_at once ended j \<Longrightarrow> worker_run once ended 0 = Some (snd (snd (once k)))"
  "\<forall>n. fst (snd (once n)) \<Longrightarrow> worker_run once ended 0 = None"
proof -
  show "(\<exists>r. worker_run once ended 0 = Some r) \<longleftrightarrow> (\<exists>k. stops_at once ended k)"
  proof
    assume "\<exists>k. stops_at once ended k"
    then obtain k where "stops_at once ended k" "\<forall>j < k. \<not> stops_at once ended j" by (metis exists_least_iff)
    then show "\<exists>r. worker_run once ended 0 = Some r" using worker_run_stops [of once ended 0 k] by simp
  qed (use worker_run_returns in blast)
  show "stops_at once ended k \<Longrightarrow> \<forall>j < k. \<not> stops_at once ended j \<Longrightarrow> worker_run once ended 0 = Some (snd (snd (once k)))"
    using worker_run_stops [of once ended 0 k] by simp
  show "\<forall>n. fst (snd (once n)) \<Longrightarrow> worker_run once ended 0 = None"
    using worker_run_returns [of once ended 0] by (cases "worker_run once ended 0") (auto simp: stops_at_def)
qed

end
