(* ===== verification/Spec2Isabelle.thy ===== *)
theory Spec2Isabelle
  imports Prelude Payment_Ref Intent Intent_Store Ledger Journal Job_Queue Tx_Seq Tx_Fee Tx_Fail
    Dead_Letters Finality Listener Relayer Relayer_Safety Merkle Bulk Solana_Msg Recon Http
    Idempotency Api Ton_Address Boc Chain Evm_Call Ton_Msg Ton_Read Csv Intake
    Throttle Pool
begin

text \<open>
  A verification library for the backend of the settlement engine, the Go service under \<open>src/backend/internal\<close>.

  A payment intent is created over HTTP, authorized by its payer, sent by a relayer, watched until it is final on its chain,
  settled in the ledger, and checked afterwards against what the chain itself reports. Payouts can also come as a file, be
  packed into batches that fit a chain's limits and be turned into the bytes a contract reads.

  \<^bold>\<open>Parts and theories.\<close> Each theory models one package or one part of it and opens with what it holds.

  \<^item> \<open>Prelude\<close>: types, clocks, decimal and hexadecimal text, padding, big-endian and little-endian bytes, association
    lists, and the collections \<open>model_defs\<close>, \<open>inv_intros\<close>, \<open>frame_simps\<close>.
  \<^item> \<open>Payment_Ref\<close> (\<open>paymentref\<close>), \<open>Intent\<close> and \<open>Intent_Store\<close> (\<open>intent\<close>): the terms of a payment and the ref that
    commits to them; the state machine; the store with compare-and-swap.
  \<^item> \<open>Ledger\<close> and \<open>Journal\<close> (\<open>ledger\<close>): double-entry holds, posts and voids; the append-only chain of entries, its
    projection to balances and its verification.
  \<^item> \<open>Job_Queue\<close> (\<open>queue\<close>), \<open>Tx_Seq\<close> (\<open>txseq\<close>), \<open>Tx_Fee\<close> (\<open>txfee\<close>), \<open>Tx_Fail\<close> (\<open>txfail\<close>), \<open>Dead_Letters\<close> (\<open>dlq\<close>):
    what a worker is wired to.
  \<^item> \<open>Relayer\<close>, \<open>Relayer_Safety\<close>, \<open>Pool\<close>, \<open>Throttle\<close> (\<open>relayer\<close>): one run of a worker from the lease to the acknowledgement,
    its properties, the goroutines that share a worker, and the throttle before the RPC.
  \<^item> \<open>Finality\<close> (\<open>finality\<close>), \<open>Listener\<close> (\<open>listener\<close>), \<open>Recon\<close> (\<open>recon\<close>): from a sighting to a settled intent, and the
    reconciliation of the final transfers with the intents.
  \<^item> \<open>Http\<close>, \<open>Idempotency\<close> (\<open>idempotency\<close>), \<open>Api\<close> (\<open>api\<close>): what is used of \<open>net/http\<close> and \<open>encoding/json\<close>, the idempotency
    keys, and the three routes.
  \<^item> \<open>Merkle\<close> (\<open>merkle\<close>), \<open>Bulk\<close> (\<open>bulk\<close>), \<open>Csv\<close> and \<open>Intake\<close> (\<open>intake\<close>): the tree of a payout run, the packing, and the
    payout file with what is used of \<open>encoding/csv\<close>.
  \<^item> \<open>Chain\<close>, \<open>Evm_Call\<close>, \<open>Solana_Msg\<close>, \<open>Ton_Msg\<close>, \<open>Ton_Read\<close> (\<open>chain\<close>), \<open>Ton_Address\<close> and \<open>Boc\<close> (\<open>boc\<close>): the registry of
    chain adapters; the calldata, messages and requests; the reader of TON; cells, their hashes and their serialization.
    \<open>Solana_Msg\<close> also models \<open>pay_batch\<close> of the program under \<open>src/contracts/solana/payout-run\<close>.

  \<^bold>\<open>How the code is read.\<close> A Go struct is a record, a string enumeration a datatype with a constructor for every other string, an
  error an alternative of a sum or of an error datatype whose text is another function. A method under one mutex is one step.
  Where several calls of a method meet other actors, the order is explicit: \<open>Recon\<close> takes what others do between its calls as
  an argument, \<open>Idempotency\<close> has a server whose requests interleave, \<open>Ton_Read\<close> a node that may answer differently at every
  call, \<open>Tx_Seq\<close>, \<open>Throttle\<close> and \<open>Pool\<close> sequences of steps of many callers. \<open>uint64\<close> is a 64-bit word, \<open>int64\<close> durations wrap
  where the code multiplies them, floats are rounded to doubles in \<open>Throttle\<close>. Clocks, randomness, senders, watchers, nodes and
  the transport are arguments. SHA-256 is a field of the platform record: nothing is assumed of it but, where stated, that its
  results have 32 bytes; a statement that needs two inputs not to collide has their collision as its alternative.

  \<^bold>\<open>Interfaces.\<close> The contracts the clients rely on are locales, interpreted on the code's memory implementations in the theories
  that model these: \<open>cas_store\<close> (\<open>Intent_Store\<close>), \<open>append_log\<close> (\<open>Journal\<close>), \<open>work_queue\<close> (\<open>Job_Queue\<close>), \<open>sequencer\<close> and
  \<open>exclusive_sequencer\<close> (\<open>Tx_Seq\<close>), \<open>parking\<close> (\<open>Dead_Letters\<close>), \<open>answer_store\<close> (\<open>Idempotency\<close>).

  \<^bold>\<open>What is shown.\<close>

  \<^item> The stores: invariants that every operation keeps, compare-and-swap, exclusion by leases, one answer for one key, numbers
    never used twice; the journal implements an abstract one, and its balances are sums over it.
  \<^item> The worker and the listener: every call of a sender is justified by a claim, a hold or a plan; a job leaves the queue only
    when nothing is left to do or it is parked; an intent is settled only on proof. The pool's shutdown ends after a bounded
    number of steps, and the throttle keeps its two limits.
  \<^item> Reconciliation accounts for every transfer, and leaves a mover behind for every intent that waits for one.
  \<^item> Payout runs: exactly the sound rows of a file are paid, each once; packing loses nothing and fits; what a contract or the
    runtime reads in the bytes is the batch, in order. The readers of these bytes, which are not part of the code, are stated
    as parsers of the published formats.
  \<^item> Errors: overflow, lost races, malformed input and refusals are branches of the definitions, and the facts about them say
    what is left in the stores. Some show where the code does less than its comments say.

  \<^bold>\<open>Termination and bounds.\<close> Loops are structural recursions or have measures: the bytes left of a file, the length of a level,
  the children of a cell. \<open>bytesFor\<close> and \<open>Worker.Run\<close> may not end and are partial functions; it is shown that the first ends
  for every value below 2^56, where its shift does not wrap, and exactly when the second does. The round trip of bags of cells
  is for trees of fewer than 2^48 different cells. \<open>rate_is_kept\<close> holds for up to 2^20 callers, a burst
  of up to 2^20 and rates from 1/1024 to 2^20 a second, which leaves the error of the doubles below one token.

  \<^bold>\<open>Not modelled.\<close> The commands under \<open>cmd\<close> (flags, process start, printing), the functional options and constructors that
  only store their arguments, \<open>clone\<close> methods (values are not shared here), the observer of a worker, log lines of a failed
  \<open>Complete\<close>. What \<open>http.ServeMux\<close> matches and \<open>encoding/json\<close> decodes is an argument. Of the Solana program the other two
  instructions, and the contracts in Solidity, Move and FunC, are in other languages than the service.
\<close>

section \<open>The retry budget against the rescue\<close>

definition total_wait :: "retry_policy \<Rightarrow> duration \<Rightarrow> nat \<Rightarrow> duration" where
  "total_wait p base n = sum_list (map (\<lambda>k. backoff p base (of_nat (Suc k))) [0..<n])"

lemma default_backoff:
  assumes r: "\<And>n. 0 < n \<Longrightarrow> 0 \<le> rnd n \<and> rnd n < n" and m: "unat m \<le> 64"
  shows "min (5 * second * 2 ^ (unat m - 1)) (2 * minute) div 2 \<le> backoff (default_retry_policy rnd) (5 * second) m
    \<and> backoff (default_retry_policy rnd) (5 * second) m \<le> min (5 * second * 2 ^ (unat m - 1)) (2 * minute)"
proof -
  let ?d = "double_until (unat m - 1) (2 * minute) (5 * second)"
  have sm: "second = 1000000000" "minute = 60000000000" by (simp_all add: second_def minute_def)
  have cap: "min ?d (2 * minute) = min (5 * second * 2 ^ (unat m - 1)) (2 * minute) \<and> 0 < ?d"
    by (rule double_until_capped) (simp_all add: sm)
  have "0 < min ?d (2 * minute)" using cap by (simp add: sm)
  from equal_jitter_range [of rnd, OF r this] show ?thesis
    using cap by (simp add: backoff_def Let_def default_retry_policy_def sm min_def split: if_splits)
qed

text \<open>
  C37. The default budget outlasts the default \<open>StuckAfter\<close>. Whatever the random source answers, a job
  whose error does not declare itself hopeless is judged poison at its tenth delivery and not before,
  and the nine waits before it add up to more than \<open>StuckAfter\<close> and to at most 635 seconds: a payment
  stuck in \<open>settling\<close> gets to the rescue before its job is given up.
\<close>

theorem retry_budget_outlasts_stuck:
  assumes "\<forall>n > 0. 0 \<le> rnd n \<and> rnd n < n"
  shows "cf_stuck_after default_relay_config < total_wait (default_retry_policy rnd) (cf_retry_after default_relay_config) 9
    \<and> total_wait (default_retry_policy rnd) (cf_retry_after default_relay_config) 9 \<le> 635 * second
    \<and> (vd_class (judge (default_retry_policy rnd) \<lparr>ft_err = e, ft_attempt = m, ft_base = base\<rparr>) = ClassPoison
         \<longleftrightarrow> is_poison e \<or> 10 \<le> m)"
proof -
  have sm: "second = 1000000000" "minute = 60000000000" by (simp_all add: second_def minute_def)
  let ?b = "\<lambda>m. backoff (default_retry_policy rnd) (5 * second) m"
  have b: "min (5 * second * 2 ^ (unat m - 1)) (2 * minute) div 2 \<le> ?b m
      \<and> ?b m \<le> min (5 * second * 2 ^ (unat m - 1)) (2 * minute)" if "unat m \<le> 64" for m
    using default_backoff [of rnd m] assms that by simp
  note each = b [of 1] b [of 2] b [of 3] b [of 4] b [of 5] b [of 6] b [of 7] b [of 8] b [of 9]
  have "[0..<9] = [0, 1, 2, 3, 4, 5, 6, 7, 8]" by (simp add: upt_rec)
  then have sum: "total_wait (default_retry_policy rnd) (5 * second) 9
      = ?b 1 + ?b 2 + ?b 3 + ?b 4 + ?b 5 + ?b 6 + ?b 7 + ?b 8 + ?b 9"
    by (simp add: total_wait_def)
  have "cf_retry_after default_relay_config = 5 * second" "cf_stuck_after default_relay_config = 300 * second"
    by (simp_all add: default_relay_config_def minute_def)
  moreover have "300 * second < total_wait (default_retry_policy rnd) (5 * second) 9
      \<and> total_wait (default_retry_policy rnd) (5 * second) 9 \<le> 635 * second"
    using each sum unfolding sm by simp
  moreover have "vd_class (judge (default_retry_policy rnd) \<lparr>ft_err = e, ft_attempt = m, ft_base = base\<rparr>) = ClassPoison
      \<longleftrightarrow> is_poison e \<or> 10 \<le> m"
    by (simp add: judge_def default_retry_policy_def Let_def)
  ultimately show ?thesis by simp
qed

theorem retry_budget_outlasts_stuck_witness:
  "cf_stuck_after default_relay_config < total_wait (default_retry_policy (\<lambda>_. 0)) (cf_retry_after default_relay_config) 9"
  using retry_budget_outlasts_stuck [of "\<lambda>_. 0"] by simp

end
